(* ===== verification/Prelude.thy ===== *)
theory Prelude
  imports Main "HOL-Library.Word" "HOL-Library.Monad_Syntax"
begin

text \<open>
  Shared vocabulary of the development: the machine integer types of a 64-bit RISC-V
  target, the collections of rewrite rules the component theories fill, and the generic
  facts about words, ranges, lists and options that they share.

  A Rust function that may panic is a function into \<^typ>\<open>'a option\<close>, with \<^const>\<open>None\<close> for
  the panic (the kernel's panic handler prints and shuts the machine down, so nothing runs
  after it).  A Rust \<open>Result<T, E>\<close> is a value of the sum type \<open>E + T\<close>, with \<^const>\<open>Inl\<close> for
  \<open>Err\<close>.  Mutation is explicit state passing in the option monad.
\<close>

unbundle bit_operations_syntax

type_synonym usize = "64 word"
type_synonym isize = "64 word"
type_synonym u8 = "8 word"

named_theorems kconst \<open>values of the kernel's constants\<close>
named_theorems bits_nat \<open>shifts and masks read as arithmetic on natural numbers\<close>
named_theorems mem_simps \<open>reads after writes in physical memory\<close>
named_theorems inv_defs \<open>unfolding of component invariants\<close>

subsection \<open>Shifts and masks as arithmetic\<close>

lemma unat_drop_bit_usize [bits_nat]: "unat (drop_bit n (x :: usize)) = unat x div 2 ^ n"
  unfolding unat_drop_bit_eq by (simp add: drop_bit_nat_def)

lemma unat_take_bit_usize [bits_nat]: "unat (take_bit n (x :: usize)) = unat x mod 2 ^ n"
  unfolding unsigned_take_bit_eq by (simp add: take_bit_nat_def)

lemma unat_push_bit_usize: "unat (push_bit n (x :: usize)) = (unat x * 2 ^ n) mod 2 ^ 64"
  unfolding unsigned_push_bit_eq by (simp add: push_bit_nat_def take_bit_nat_def)

lemma unat_lt_usize: "unat (x :: usize) < 2 ^ 64"
  using unsigned_less [of x] by simp

lemma unat_push_bit_small [bits_nat]:
  "unat (x :: usize) * 2 ^ n < 2 ^ 64 \<Longrightarrow> unat (push_bit n x) = unat x * 2 ^ n"
  by (simp only: unat_push_bit_usize mod_less)

lemma and_low_mask:
  "(x :: usize) AND 0xfff = take_bit 12 x"
  "(x :: usize) AND 0x1fffff = take_bit 21 x"
  "(x :: usize) AND 0x1ff = take_bit 9 x"
  "(x :: usize) AND 0x3ff = take_bit 10 x"
  "(x :: usize) AND 0xfffffffffff = take_bit 44 x"
  by (simp_all add: take_bit_eq_mask mask_eq_exp_minus_1)

lemma push_drop_bit: "push_bit n (drop_bit n x) = x AND NOT (mask n)" for x :: usize
  by (rule bit_eqI) (auto simp: bit_simps)

lemma and_not_low_mask:
  "(x :: usize) AND - 0x1000 = push_bit 12 (drop_bit 12 x)"
  "(x :: usize) AND - 0x200000 = push_bit 21 (drop_bit 21 x)"
  "(x :: usize) AND 0xffffffc000000000 = push_bit 38 (drop_bit 38 x)"
proof -
  have "(0xffffffc000000000 :: usize) = - 0x4000000000" by simp
  then show "(x :: usize) AND 0xffffffc000000000 = push_bit 38 (drop_bit 38 x)"
    by (simp only: push_drop_bit) (simp add: mask_eq_exp_minus_1)
qed (simp_all only: push_drop_bit, simp_all add: mask_eq_exp_minus_1)

lemma unat_push_drop_bit [bits_nat]:
  "unat (push_bit n (drop_bit n (x :: usize))) = unat x div 2 ^ n * 2 ^ n"
proof -
  have "unat x div 2 ^ n * 2 ^ n < 2 ^ 64"
    using unat_lt_usize [of x] by (rule le_less_trans [OF div_times_less_eq_dividend])
  then show ?thesis by (simp add: bits_nat)
qed

lemma and_flag_eq_0 [simp]: "(x :: usize) AND push_bit n 1 = 0 \<longleftrightarrow> \<not> bit x n"
  by (simp add: push_bit_of_1 and_exp_eq_0_iff_not_bit)

lemma and_not_eq_0:
  assumes "x AND NOT m = (0 :: usize)"
  shows "x AND m = x"
proof -
  have "(x AND m) OR (x AND NOT m) = x" by (simp add: bit.conj_disj_distrib [symmetric])
  with assms show ?thesis by simp
qed

lemma and_or_eq_0: "(x :: usize) AND (a OR b) = 0 \<longleftrightarrow> x AND a = 0 \<and> x AND b = 0"
  by (simp add: bit.conj_disj_distrib or_eq_0_iff)

lemma unat_plus_no_overflow:
  "unat (a :: usize) + unat b < 2 ^ 64 \<Longrightarrow> unat (a + b) = unat a + unat b"
  by (subst unat_add_lem [THEN iffD1]) simp_all

lemma push_drop_bit_le: "push_bit n (drop_bit n (x :: usize)) \<le> x"
  by (simp add: word_le_nat_alt bits_nat div_times_less_eq_dividend)

lemma push_drop_take_bit: "push_bit n (drop_bit n x) + take_bit n x = (x :: usize)"
  by (rule bits_ident)

subsection \<open>The half-open range of a Rust \<open>for\<close> loop\<close>

text \<open>\<open>a..b\<close> over \<open>usize\<close>, as the list of the values the loop variable takes.\<close>

definition range_usize :: "usize \<Rightarrow> usize \<Rightarrow> usize list" where
  "range_usize a b = map of_nat [unat a ..< unat b]"

lemma range_usize_empty [simp]: "b \<le> a \<Longrightarrow> range_usize a b = []"
  by (simp add: range_usize_def word_le_nat_alt)

lemma range_usize_Cons:
  assumes "a < b" shows "range_usize a b = a # range_usize (a + 1) b"
proof -
  have "unat a < unat b" using assms by (simp add: word_less_nat_alt)
  moreover have "unat (a + 1) = Suc (unat a)"
    using calculation unat_lt_usize [of b] by (subst unat_plus_no_overflow) simp_all
  ultimately show ?thesis by (simp add: range_usize_def upt_rec)
qed

lemma set_range_usize [simp]: "x \<in> set (range_usize a b) \<longleftrightarrow> a \<le> x \<and> x < b"
proof
  assume "x \<in> set (range_usize a b)"
  then obtain n where "unat a \<le> n" "n < unat b" and x: "x = of_nat n"
    by (auto simp: range_usize_def)
  moreover from this have "unat x = n"
    using unat_lt_usize [of b] by (simp add: unat_of_nat take_bit_nat_eq_self_iff)
  ultimately show "a \<le> x \<and> x < b" by (simp add: word_le_nat_alt word_less_nat_alt)
next
  assume "a \<le> x \<and> x < b"
  then have "unat x \<in> set [unat a ..< unat b]"
    by (simp add: word_le_nat_alt word_less_nat_alt)
  then show "x \<in> set (range_usize a b)"
    unfolding range_usize_def by (simp add: image_iff) (metis atLeastLessThan_iff of_nat_unat ucast_id)
qed

lemma length_range_usize [simp]: "length (range_usize a b) = unat b - unat a"
  by (simp add: range_usize_def)

end
