(* ===== verification/Rust_Std.thy ===== *)
theory Rust_Std
  imports Prelude "HOL-Library.Multiset"
begin

text \<open>
  The operations of Rust's core and alloc libraries that the kernel calls: checked
  arithmetic, \<open>Vec\<close> (a list, the last element being the top of the stack) and \<open>BTreeMap\<close>
  (an association list in increasing key order).  The map's contract is the locale
  \<open>ordered_map\<close>, interpreted on the list model.
\<close>

subsection \<open>Checked arithmetic on \<open>usize\<close>\<close>

definition checked_add :: "usize \<Rightarrow> usize \<Rightarrow> usize option" where
  "checked_add a b = (if unat a + unat b < 2 ^ 64 then Some (a + b) else None)"

definition checked_sub :: "usize \<Rightarrow> usize \<Rightarrow> usize option" where
  "checked_sub a b = (if b \<le> a then Some (a - b) else None)"

lemma checked_add_Some:
  "checked_add a b = Some c \<longleftrightarrow> unat a + unat b < 2 ^ 64 \<and> c = a + b"
  by (auto simp: checked_add_def)

lemma checked_add_unat: "checked_add a b = Some c \<Longrightarrow> unat c = unat a + unat b"
  by (auto simp: checked_add_Some unat_plus_no_overflow)

subsection \<open>Vec\<close>

definition vec_push :: "'a list \<Rightarrow> 'a \<Rightarrow> 'a list" where
  "vec_push xs x = xs @ [x]"

definition vec_pop :: "'a list \<Rightarrow> ('a \<times> 'a list) option" where
  "vec_pop xs = (if xs = [] then None else Some (last xs, butlast xs))"

text \<open>\<open>swap\<close> and \<open>swap_remove\<close> panic on an index out of range.\<close>

definition vec_swap :: "nat \<Rightarrow> nat \<Rightarrow> 'a list \<Rightarrow> 'a list option" where
  "vec_swap i j xs =
     (if i < length xs \<and> j < length xs then Some (xs[i := xs ! j, j := xs ! i]) else None)"

definition vec_swap_remove :: "nat \<Rightarrow> 'a list \<Rightarrow> ('a \<times> 'a list) option" where
  "vec_swap_remove i xs =
     (if i < length xs then Some (xs ! i, butlast (xs[i := last xs])) else None)"

fun iter_position :: "('a \<Rightarrow> bool) \<Rightarrow> 'a list \<Rightarrow> nat option" where
  "iter_position P [] = None"
| "iter_position P (x # xs) = (if P x then Some 0 else map_option Suc (iter_position P xs))"

lemma mset_vec_push [simp]: "mset (vec_push xs x) = add_mset x (mset xs)"
  by (simp add: vec_push_def)

lemma set_vec_push [simp]: "set (vec_push xs x) = insert x (set xs)"
  by (simp add: vec_push_def)

lemma vec_pop_mset: "vec_pop xs = Some (x, ys) \<Longrightarrow> mset xs = add_mset x (mset ys)"
  by (cases xs rule: rev_cases) (auto simp: vec_pop_def split: if_splits)

lemma vec_pop_None [simp]: "vec_pop xs = None \<longleftrightarrow> xs = []"
  by (simp add: vec_pop_def)

lemma vec_pop_push [simp]: "vec_pop (vec_push xs x) = Some (x, xs)"
  by (simp add: vec_pop_def vec_push_def)

lemma mset_list_update_last:
  "i < length xs \<Longrightarrow> add_mset (xs ! i) (mset (butlast (xs[i := last xs]))) = mset xs"
proof (cases xs rule: rev_cases)
  case (snoc ys y)
  assume "i < length xs"
  with snoc show ?thesis
    by (cases "i < length ys")
      (auto simp: mset_update nth_append list_update_append less_Suc_eq butlast_append)
qed simp

lemma vec_swap_remove_mset:
  "vec_swap_remove i xs = Some (x, ys) \<Longrightarrow> mset xs = add_mset x (mset ys)"
  by (auto simp: vec_swap_remove_def mset_list_update_last split: if_splits)

lemma vec_swap_mset: "vec_swap i j xs = Some ys \<Longrightarrow> mset ys = mset xs"
  by (auto simp: vec_swap_def mset_swap split: if_splits)

lemma vec_swap_nth: "vec_swap i j xs = Some ys \<Longrightarrow> ys ! j = xs ! i"
  by (auto simp: vec_swap_def nth_list_update split: if_splits)

lemma vec_swap_length: "vec_swap i j xs = Some ys \<Longrightarrow> length ys = length xs"
  by (auto simp: vec_swap_def split: if_splits)

lemma iter_position_Some:
  "iter_position P xs = Some i \<Longrightarrow> i < length xs \<and> P (xs ! i) \<and> (\<forall>j < i. \<not> P (xs ! j))"
  by (induction P xs arbitrary: i rule: iter_position.induct)
    (auto split: if_splits simp: less_Suc_eq_0_disj)

lemma iter_position_None: "iter_position P xs = None \<longleftrightarrow> (\<forall>x \<in> set xs. \<not> P x)"
  by (induction P xs rule: iter_position.induct) auto

subsection \<open>Multisets without repetition\<close>

text \<open>An owned value has one owner: no element of a collection of owned values occurs twice.\<close>

definition single_owner :: "'p multiset \<Rightarrow> bool" where
  "single_owner M \<longleftrightarrow> (\<forall>p. count M p \<le> 1)"

lemma single_owner_sub: "single_owner N \<Longrightarrow> M \<subseteq># N \<Longrightarrow> single_owner M"
  unfolding single_owner_def by (meson mset_subset_eq_count order_trans)

lemma single_owner_add:
  "single_owner (add_mset p M) \<longleftrightarrow> p \<notin># M \<and> single_owner M"
  by (auto simp: single_owner_def not_in_iff le_Suc_eq split: if_splits)

lemma single_owner_union:
  assumes "single_owner (M + N)"
  shows "single_owner M" "single_owner N" "set_mset M \<inter> set_mset N = {}"
proof -
  have *: "count M p + count N p \<le> 1" for p using assms by (simp add: single_owner_def)
  show "single_owner M" "single_owner N"
    unfolding single_owner_def using * add_leD1 add_leD2 by blast+
  have "\<not> (p \<in># M \<and> p \<in># N)" for p
    using * [of p] by (auto simp: count_greater_zero_iff [symmetric] simp del: count_greater_zero_iff)
  then show "set_mset M \<inter> set_mset N = {}" by blast
qed

lemma single_owner_distinct: "single_owner (mset xs) \<longleftrightarrow> distinct xs"
  by (induction xs) (auto simp: single_owner_add, simp add: single_owner_def)

subsection \<open>BTreeMap\<close>

text \<open>
  \<open>insert\<close> and \<open>remove\<close> hand back the value they displace: a discarded value is dropped,
  and dropping a page recycles it.
\<close>

fun btm_insert :: "'k::linorder \<Rightarrow> 'v \<Rightarrow> ('k \<times> 'v) list \<Rightarrow> 'v option \<times> ('k \<times> 'v) list" where
  "btm_insert k v [] = (None, [(k, v)])"
| "btm_insert k v ((k', v') # m) =
     (if k < k' then (None, (k, v) # (k', v') # m)
      else if k = k' then (Some v', (k, v) # m)
      else (let (old, m') = btm_insert k v m in (old, (k', v') # m')))"

fun btm_remove :: "'k::linorder \<Rightarrow> ('k \<times> 'v) list \<Rightarrow> 'v option \<times> ('k \<times> 'v) list" where
  "btm_remove k [] = (None, [])"
| "btm_remove k ((k', v') # m) =
     (if k = k' then (Some v', m)
      else (let (old, m') = btm_remove k m in (old, (k', v') # m')))"

text \<open>\<open>split_off\<close> keeps the keys below \<open>k\<close> and returns the others: (kept, returned).\<close>

definition btm_split_off ::
  "'k::linorder \<Rightarrow> ('k \<times> 'v) list \<Rightarrow> ('k \<times> 'v) list \<times> ('k \<times> 'v) list" where
  "btm_split_off k m = (filter (\<lambda>e. fst e < k) m, filter (\<lambda>e. \<not> fst e < k) m)"

definition btm_values :: "('k \<times> 'v) list \<Rightarrow> 'v list" where
  "btm_values m = map snd m"

definition btm_inv :: "('k::linorder \<times> 'v) list \<Rightarrow> bool" where
  "btm_inv m \<longleftrightarrow> sorted_wrt (<) (map fst m)"

definition opt_mset :: "'v option \<Rightarrow> 'v multiset" where
  "opt_mset x = (case x of None \<Rightarrow> {#} | Some v \<Rightarrow> {#v#})"

lemma opt_mset_simps [simp]: "opt_mset None = {#}" "opt_mset (Some v) = {#v#}"
  by (simp_all add: opt_mset_def)

locale ordered_map =
  fixes get :: "'m \<Rightarrow> 'k::linorder \<Rightarrow> 'v option"
    and ins :: "'k \<Rightarrow> 'v \<Rightarrow> 'm \<Rightarrow> 'v option \<times> 'm"
    and rem :: "'k \<Rightarrow> 'm \<Rightarrow> 'v option \<times> 'm"
    and split :: "'k \<Rightarrow> 'm \<Rightarrow> 'm \<times> 'm"
    and vals :: "'m \<Rightarrow> 'v multiset"
    and inv :: "'m \<Rightarrow> bool"
  assumes get_ins: "inv m \<Longrightarrow> get (snd (ins k v m)) = (get m)(k \<mapsto> v)"
    and old_ins: "inv m \<Longrightarrow> fst (ins k v m) = get m k"
    and get_rem: "inv m \<Longrightarrow> get (snd (rem k m)) = (get m)(k := None)"
    and old_rem: "inv m \<Longrightarrow> fst (rem k m) = get m k"
    and get_split_lo: "inv m \<Longrightarrow> get (fst (split k m)) = (get m) |` {..<k}"
    and get_split_hi: "inv m \<Longrightarrow> get (snd (split k m)) = (get m) |` {k..}"
    and inv_ins: "inv m \<Longrightarrow> inv (snd (ins k v m))"
    and inv_rem: "inv m \<Longrightarrow> inv (snd (rem k m))"
    and inv_split: "inv m \<Longrightarrow> inv (fst (split k m)) \<and> inv (snd (split k m))"
    and vals_ins: "inv m \<Longrightarrow>
      vals (snd (ins k v m)) + opt_mset (fst (ins k v m)) = add_mset v (vals m)"
    and vals_rem: "inv m \<Longrightarrow> vals (snd (rem k m)) + opt_mset (fst (rem k m)) = vals m"
    and vals_split: "inv m \<Longrightarrow> vals (fst (split k m)) + vals (snd (split k m)) = vals m"
begin

text \<open>Cutting a middle range out of a map, as two calls to \<open>split_off\<close> do it.\<close>

lemma get_split_twice:
  assumes "inv m" and "k \<le> l"
  shows "get (snd (split l (snd (split k m)))) = (get m) |` {l..}"
proof -
  have "{k..} \<inter> {l..} = {l..}" using assms(2) by auto
  then show ?thesis using assms(1) inv_split [of m k]
    by (simp add: get_split_hi restrict_restrict)
qed

lemma get_split_mid:
  assumes "inv m"
  shows "get (fst (split l (snd (split k m)))) = (get m) |` {k..<l}"
proof -
  have "{k..} \<inter> {..<l} = {k..<l}" by auto
  then show ?thesis using assms inv_split [of m k]
    by (simp add: get_split_hi get_split_lo restrict_restrict)
qed

lemma vals_split_twice:
  assumes "inv m"
  shows "vals (fst (split k m)) + vals (fst (split l (snd (split k m))))
    + vals (snd (split l (snd (split k m)))) = vals m"
  using vals_split [OF assms, of k] vals_split [of "snd (split k m)" l] inv_split [OF assms, of k]
  by (simp add: add.assoc)

lemma ins_rem_vals:
  assumes "inv m" and "get m k = None"
  shows "vals (snd (rem k (snd (ins k v m)))) = vals m"
proof -
  have "vals (snd (rem k (snd (ins k v m)))) + {#v#} = add_mset v (vals m)"
    using assms vals_ins [OF assms(1), of k v] vals_rem [OF inv_ins [OF assms(1)], of k k v]
    by (simp add: old_ins old_rem get_ins inv_ins)
  then show ?thesis by simp
qed

end

subsubsection \<open>The list model meets the contract\<close>

lemma btm_inv_Cons [simp]:
  "btm_inv ((k, v) # m) \<longleftrightarrow> (\<forall>k' \<in> fst ` set m. k < k') \<and> btm_inv m"
  by (auto simp: btm_inv_def)

lemma btm_inv_Nil [simp]: "btm_inv []"
  by (simp add: btm_inv_def)

lemma btm_inv_distinct: "btm_inv m \<Longrightarrow> distinct (map fst m)"
  by (simp add: btm_inv_def strict_sorted_iff)

lemma btm_insert_keys: "fst ` set (snd (btm_insert k v m)) = insert k (fst ` set m)"
  by (induction k v m rule: btm_insert.induct) (simp_all add: case_prod_beta Let_def insert_commute)

lemma btm_remove_keys: "fst ` set (snd (btm_remove k m)) \<subseteq> fst ` set m"
proof (induction k m rule: btm_remove.induct)
  case (2 k k' v' m)
  then show ?case by (simp add: case_prod_beta Let_def) blast
qed simp

lemma btm_insert_inv: "btm_inv m \<Longrightarrow> btm_inv (snd (btm_insert k v m))"
proof (induction k v m rule: btm_insert.induct)
  case (2 k v k' v' m)
  then show ?case
    using btm_insert_keys [of k v m]
    by (auto simp: case_prod_beta Let_def not_less_iff_gr_or_eq intro: less_trans)
qed simp

lemma btm_remove_inv: "btm_inv m \<Longrightarrow> btm_inv (snd (btm_remove k m))"
proof (induction k m rule: btm_remove.induct)
  case (2 k k' v' m)
  then show ?case
    using btm_remove_keys [of k m]
    by (simp add: case_prod_beta Let_def del: set_map) (metis image_eqI subset_iff imageE)
qed simp

lemma map_of_below: "\<forall>k' \<in> fst ` set m. k < (k' :: 'k::linorder) \<Longrightarrow> map_of m k = None"
  by (auto simp: map_of_eq_None_iff)

lemma btm_insert_get:
  "btm_inv m \<Longrightarrow> map_of (snd (btm_insert k v m)) = (map_of m)(k \<mapsto> v)"
  by (induction k v m rule: btm_insert.induct) (auto simp: case_prod_beta Let_def fun_eq_iff)

lemma btm_insert_old: "btm_inv m \<Longrightarrow> fst (btm_insert k v m) = map_of m k"
proof (induction k v m rule: btm_insert.induct)
  case (2 k v k' v' m)
  have "k < k' \<Longrightarrow> map_of m k = None"
    using 2(2) by (intro map_of_below) (auto intro: less_trans)
  with 2 show ?case by (auto simp: case_prod_beta Let_def)
qed simp

lemma btm_remove_get:
  "btm_inv m \<Longrightarrow> map_of (snd (btm_remove k m)) = (map_of m)(k := None)"
proof (induction k m rule: btm_remove.induct)
  case (2 k k' v' m)
  have "map_of m k' = None" using 2(2) by (intro map_of_below) simp
  with 2 show ?case by (auto simp: case_prod_beta Let_def fun_eq_iff)
qed (simp add: fun_eq_iff)

lemma btm_remove_old: "btm_inv m \<Longrightarrow> fst (btm_remove k m) = map_of m k"
  by (induction k m rule: btm_remove.induct) (auto simp: case_prod_beta Let_def)

lemma map_of_filter_key:
  "map_of (filter (\<lambda>e. P (fst e)) m) = (map_of m) |` {k. P k}"
  by (induction m) (auto simp: restrict_map_def fun_eq_iff)

lemma btm_filter_inv: "btm_inv m \<Longrightarrow> btm_inv (filter P m)"
  by (induction m) auto

lemma btm_insert_vals:
  "mset (btm_values (snd (btm_insert k v m))) + opt_mset (fst (btm_insert k v m)) =
     add_mset v (mset (btm_values m))"
  by (induction k v m rule: btm_insert.induct)
    (auto simp: case_prod_beta Let_def btm_values_def)

lemma btm_remove_vals:
  "mset (btm_values (snd (btm_remove k m))) + opt_mset (fst (btm_remove k m)) =
     mset (btm_values m)"
  by (induction k m rule: btm_remove.induct)
    (auto simp: case_prod_beta Let_def btm_values_def)

lemma btm_split_vals:
  "mset (btm_values (fst (btm_split_off k m))) + mset (btm_values (snd (btm_split_off k m))) =
     mset (btm_values m)"
  by (induction m) (auto simp: btm_split_off_def btm_values_def)

interpretation btm: ordered_map map_of btm_insert btm_remove btm_split_off
  "\<lambda>m. mset (btm_values m)" btm_inv
proof unfold_locales
  fix m :: "('k::linorder \<times> 'v) list" and k :: 'k and v :: 'v
  assume inv: "btm_inv m"
  show "map_of (fst (btm_split_off k m)) = (map_of m) |` {..<k}"
    by (simp add: btm_split_off_def map_of_filter_key [where P = "\<lambda>x. x < k"] lessThan_def)
  show "map_of (snd (btm_split_off k m)) = (map_of m) |` {k..}"
    by (simp add: btm_split_off_def not_less map_of_filter_key [where P = "\<lambda>x. k \<le> x"] atLeast_def)
  show "btm_inv (fst (btm_split_off k m)) \<and> btm_inv (snd (btm_split_off k m))"
    using inv by (simp add: btm_split_off_def btm_filter_inv)
qed (rule btm_insert_get btm_insert_old btm_remove_get btm_remove_old btm_insert_inv
    btm_remove_inv btm_insert_vals btm_remove_vals btm_split_vals, assumption?)+

end
