(* ===== verification/MM.thy ===== *)
theory MM
  imports Rust_Std
begin

text \<open>
  The memory vocabulary of \<open>os/src/mm.rs\<close>: the address-space constants, the kernel's linear
  map, the user-range checks, and the page-number newtypes \<open>PPN\<close> and \<open>VPN\<close>.  Physical memory
  is a function from physical byte addresses; a kernel pointer \<open>p\<close> reaches the physical byte
  \<open>p - KERNEL_VA_OFFSET\<close>, which is what the boot page table and the kernel page table map.
\<close>

subsection \<open>Constants\<close>

definition MEM_START_PA :: usize where "MEM_START_PA = 0x80000000"
definition MEM_SIZE_BYTES :: usize where "MEM_SIZE_BYTES = push_bit 20 128"
definition PAGE_SIZE_ORDER :: nat where "PAGE_SIZE_ORDER = 12"
definition PAGE_SIZE_BYTES :: usize where "PAGE_SIZE_BYTES = push_bit PAGE_SIZE_ORDER 1"
definition LARGE_PAGE_SIZE_ORDER :: nat where "LARGE_PAGE_SIZE_ORDER = 21"
definition LARGE_PAGE_SIZE_BYTES :: usize where
  "LARGE_PAGE_SIZE_BYTES = push_bit LARGE_PAGE_SIZE_ORDER 1"
definition KERNEL_VA_OFFSET :: usize where "KERNEL_VA_OFFSET = 0xffffffc000000000"
definition KERNEL_HEAP_SIZE_BYTES :: usize where "KERNEL_HEAP_SIZE_BYTES = push_bit 20 4"
definition USER_SPACE_END :: usize where "USER_SPACE_END = 0x4000000000 - PAGE_SIZE_BYTES"
definition USER_STACK_MAX_SIZE_BYTES :: usize where
  "USER_STACK_MAX_SIZE_BYTES = push_bit 20 8"

text \<open>The (base, size) pairs of the QEMU virt machine's device regions.\<close>

definition QEMU_VIRT_MMIO :: "(usize \<times> usize) list" where
  "QEMU_VIRT_MMIO =
    [(0x00100000, 0x00001000),
     (0x00101000, 0x00001000),
     (0x02000000, 0x00010000),
     (0x0c000000, 0x00600000),
     (0x10000000, 0x00000100),
     (0x10010000, 0x00001000)]"

lemma mm_const_vals [kconst]:
  "MEM_START_PA = 0x80000000" "MEM_SIZE_BYTES = 0x8000000"
  "PAGE_SIZE_ORDER = 12" "PAGE_SIZE_BYTES = 0x1000"
  "LARGE_PAGE_SIZE_ORDER = 21" "LARGE_PAGE_SIZE_BYTES = 0x200000"
  "KERNEL_VA_OFFSET = 0xffffffc000000000" "KERNEL_HEAP_SIZE_BYTES = 0x400000"
  "USER_SPACE_END = 0x3ffffff000" "USER_STACK_MAX_SIZE_BYTES = 0x800000"
  by (simp_all add: MEM_START_PA_def MEM_SIZE_BYTES_def PAGE_SIZE_ORDER_def PAGE_SIZE_BYTES_def
      LARGE_PAGE_SIZE_ORDER_def LARGE_PAGE_SIZE_BYTES_def KERNEL_VA_OFFSET_def
      KERNEL_HEAP_SIZE_BYTES_def USER_SPACE_END_def USER_STACK_MAX_SIZE_BYTES_def)

subsection \<open>Physical memory and the kernel's linear map\<close>

type_synonym phys_mem = "usize \<Rightarrow> u8"

text \<open>The physical byte behind a kernel pointer.\<close>

definition kptr_pa :: "usize \<Rightarrow> usize" where
  "kptr_pa p = p - KERNEL_VA_OFFSET"

definition get_va_from_pa :: "usize \<Rightarrow> usize option" where
  "get_va_from_pa pa = checked_add pa KERNEL_VA_OFFSET"

definition get_pa_from_va :: "usize \<Rightarrow> usize option" where
  "get_pa_from_va va = checked_sub va KERNEL_VA_OFFSET"

definition get_pa_mut_ptr :: "usize \<Rightarrow> usize option" where
  "get_pa_mut_ptr pa = get_va_from_pa pa"

text \<open>Eight-byte little-endian accesses, as \<open>ld\<close> and \<open>sd\<close> make them.\<close>

definition load_u64 :: "phys_mem \<Rightarrow> usize \<Rightarrow> usize" where
  "load_u64 m a =
     ucast (m a) OR push_bit 8 (ucast (m (a + 1))) OR push_bit 16 (ucast (m (a + 2)))
     OR push_bit 24 (ucast (m (a + 3))) OR push_bit 32 (ucast (m (a + 4)))
     OR push_bit 40 (ucast (m (a + 5))) OR push_bit 48 (ucast (m (a + 6)))
     OR push_bit 56 (ucast (m (a + 7)))"

definition store_u64 :: "phys_mem \<Rightarrow> usize \<Rightarrow> usize \<Rightarrow> phys_mem" where
  "store_u64 m a v =
     m(a := ucast v, a + 1 := ucast (drop_bit 8 v), a + 2 := ucast (drop_bit 16 v),
       a + 3 := ucast (drop_bit 24 v), a + 4 := ucast (drop_bit 32 v),
       a + 5 := ucast (drop_bit 40 v), a + 6 := ucast (drop_bit 48 v),
       a + 7 := ucast (drop_bit 56 v))"

text \<open>The symbols the linker script \<open>os/src/linker.ld\<close> defines, all kernel virtual addresses.\<close>

record linker_syms =
  kernel_start :: usize
  text_start :: usize
  text_end :: usize
  boot_pgt :: usize
  kernel_stack_start :: usize
  kernel_stack_end :: usize
  rodata_start :: usize
  rodata_end :: usize
  data_start :: usize
  data_end :: usize
  bss_start :: usize
  bss_end :: usize
  kernel_end :: usize

definition clear_bss :: "linker_syms \<Rightarrow> phys_mem \<Rightarrow> phys_mem" where
  "clear_bss k m = foldl (\<lambda>m a. m(kptr_pa a := 0)) m (range_usize (bss_start k) (bss_end k))"

subsection \<open>User-range checks\<close>

definition check_u_va :: "usize \<Rightarrow> bool" where
  "check_u_va va \<longleftrightarrow> va < USER_SPACE_END"

text \<open>\<open>end - 1\<close> wraps in a release build, which is how the kernel is built.\<close>

definition check_u_va_range :: "usize \<Rightarrow> usize \<Rightarrow> bool" where
  "check_u_va_range start len \<longleftrightarrow>
     check_u_va start \<and>
     (case checked_add start len of None \<Rightarrow> False | Some e \<Rightarrow> check_u_va (e - 1))"

subsection \<open>Page numbers\<close>

datatype PPN = PPN (get_raw: usize)

definition MAX_PA :: usize where "MAX_PA = push_bit 56 1 - 1"

definition is_valid_pa :: "usize \<Rightarrow> bool" where
  "is_valid_pa pa \<longleftrightarrow> pa < MAX_PA"

definition PPN_from_pa :: "usize \<Rightarrow> PPN option" where
  "PPN_from_pa pa = (if is_valid_pa pa then Some (PPN (drop_bit PAGE_SIZE_ORDER pa)) else None)"

definition get_pa :: "PPN \<Rightarrow> usize" where
  "get_pa p = push_bit PAGE_SIZE_ORDER (get_raw p)"

datatype VPN = VPN (vpn_raw: usize)

definition is_valid_va :: "usize \<Rightarrow> bool" where
  "is_valid_va va \<longleftrightarrow>
     (let msk = 0xffffffc000000000 in va AND msk = 0 \<or> va AND msk = msk)"

definition VPN_from_va :: "usize \<Rightarrow> VPN option" where
  "VPN_from_va va = (if is_valid_va va then Some (VPN (drop_bit PAGE_SIZE_ORDER va)) else None)"

definition get_va :: "VPN \<Rightarrow> usize" where
  "get_va v = push_bit PAGE_SIZE_ORDER (vpn_raw v)"

text \<open>The orders Rust derives for the two newtypes.\<close>

instantiation PPN :: linorder
begin

definition less_eq_PPN :: "PPN \<Rightarrow> PPN \<Rightarrow> bool" where
  "less_eq_PPN p q \<longleftrightarrow> get_raw p \<le> get_raw q"

definition less_PPN :: "PPN \<Rightarrow> PPN \<Rightarrow> bool" where
  "less_PPN p q \<longleftrightarrow> get_raw p < get_raw q"

instance
  by standard (auto simp: less_eq_PPN_def less_PPN_def PPN.expand)

end

instantiation VPN :: linorder
begin

definition less_eq_VPN :: "VPN \<Rightarrow> VPN \<Rightarrow> bool" where
  "less_eq_VPN p q \<longleftrightarrow> vpn_raw p \<le> vpn_raw q"

definition less_VPN :: "VPN \<Rightarrow> VPN \<Rightarrow> bool" where
  "less_VPN p q \<longleftrightarrow> vpn_raw p < vpn_raw q"

instance
  by standard (auto simp: less_eq_VPN_def less_VPN_def VPN.expand)

end

lemmas page_order = less_eq_PPN_def less_PPN_def less_eq_VPN_def less_VPN_def

subsection \<open>Laws of memory accesses\<close>

lemma ucast_u8_usize: "(ucast (ucast (x :: usize) :: u8) :: usize) = take_bit 8 x"
  by (rule bit_eqI) (auto simp: bit_simps)

lemma join_byte:
  "push_bit k (take_bit 8 (drop_bit k v)) OR push_bit (k + 8) (drop_bit (k + 8) v) =
     push_bit k (drop_bit k (v :: usize))"
proof (rule bit_eqI)
  fix n
  show "bit (push_bit k (take_bit 8 (drop_bit k v)) OR push_bit (k + 8) (drop_bit (k + 8) v)) n =
    bit (push_bit k (drop_bit k v)) n"
    by (cases "n < k + 8") (auto simp: bit_simps)
qed

lemma load_store_u64_same [mem_simps]: "load_u64 (store_u64 m a v) a = v"
proof -
  have last: "push_bit 56 (take_bit 8 (drop_bit 56 v)) = push_bit 56 (drop_bit 56 v)"
    by (rule bit_eqI) (auto simp: bit_simps)
  have "load_u64 (store_u64 m a v) a =
    take_bit 8 v OR push_bit 8 (take_bit 8 (drop_bit 8 v))
     OR push_bit 16 (take_bit 8 (drop_bit 16 v)) OR push_bit 24 (take_bit 8 (drop_bit 24 v))
     OR push_bit 32 (take_bit 8 (drop_bit 32 v)) OR push_bit 40 (take_bit 8 (drop_bit 40 v))
     OR push_bit 48 (take_bit 8 (drop_bit 48 v)) OR push_bit 56 (take_bit 8 (drop_bit 56 v))"
    by (simp add: load_u64_def store_u64_def ucast_u8_usize)
  also have "\<dots> = v"
    unfolding last or.assoc
    using join_byte [of 0 v] join_byte [of 8 v] join_byte [of 16 v] join_byte [of 24 v]
      join_byte [of 32 v] join_byte [of 40 v] join_byte [of 48 v]
    by simp
  finally show ?thesis .
qed

lemma unat_add_small: "8 dvd unat (a :: usize) \<Longrightarrow> unat k < 8 \<Longrightarrow> unat (a + k) = unat a + unat k"
proof (rule unat_plus_no_overflow)
  assume "8 dvd unat a" "unat k < 8"
  then show "unat a + unat k < 2 ^ 64" using unat_lt_usize [of a] by (auto elim!: dvdE)
qed

lemma aligned8_apart:
  assumes "8 dvd unat (a :: usize)" "8 dvd unat b" "a \<noteq> b" "unat j < 8" "unat k < 8"
  shows "a + j \<noteq> b + k"
proof
  assume "a + j = b + k"
  then have "unat a + unat j = unat b + unat k" using assms by (metis unat_add_small)
  with assms(1,2,4,5) have "unat a = unat b" by presburger
  with assms(3) show False by (metis word_unat_eq_iff)
qed

lemma load_store_u64_other:
  assumes "8 dvd unat (a :: usize)" "8 dvd unat b" "a \<noteq> b"
  shows "load_u64 (store_u64 m a v) b = load_u64 m b"
proof -
  have "store_u64 m a v (b + k) = m (b + k)" if "unat k < 8" for k
    using aligned8_apart [OF assms, of 0 k] aligned8_apart [OF assms, of 1 k]
      aligned8_apart [OF assms, of 2 k] aligned8_apart [OF assms, of 3 k]
      aligned8_apart [OF assms, of 4 k] aligned8_apart [OF assms, of 5 k]
      aligned8_apart [OF assms, of 6 k] aligned8_apart [OF assms, of 7 k] that
    by (simp add: store_u64_def)
  from this [of 0] this [of 1] this [of 2] this [of 3] this [of 4] this [of 5] this [of 6] this [of 7]
  show ?thesis by (simp add: load_u64_def)
qed

subsection \<open>Laws of the linear map and of page numbers\<close>

lemma get_va_from_pa_Some:
  "get_va_from_pa pa = Some va \<longleftrightarrow> unat pa < 2 ^ 38 \<and> va = pa + KERNEL_VA_OFFSET"
  by (auto simp: get_va_from_pa_def checked_add_Some kconst)

lemma linear_map_inverse: "get_va_from_pa pa = Some va \<Longrightarrow> get_pa_from_va va = Some pa"
  by (auto simp: get_va_from_pa_def get_pa_from_va_def checked_add_Some checked_sub_def kconst
      word_le_nat_alt unat_plus_no_overflow)

lemma kptr_pa_ptr [simp]:
  "kptr_pa (pa + KERNEL_VA_OFFSET) = pa" "kptr_pa (pa + KERNEL_VA_OFFSET + k) = pa + k"
  by (simp_all add: kptr_pa_def)

lemma unat_get_pa: "unat (get_raw p) < 2 ^ 52 \<Longrightarrow> unat (get_pa p) = unat (get_raw p) * 2 ^ 12"
  by (simp add: get_pa_def kconst bits_nat)

lemma check_u_va_range_iff:
  "check_u_va_range start len \<longleftrightarrow> unat start < unat USER_SPACE_END \<and>
    (if len = 0 then start \<noteq> 0 else unat start + unat len \<le> unat USER_SPACE_END)"
proof (cases "len = 0")
  case True
  show ?thesis
  proof (cases "start = 0")
    case False
    then have "unat (start - 1) = unat start - 1" by (simp add: unat_minus_one)
    then show ?thesis using True False unat_lt_usize [of start]
      by (auto simp: check_u_va_range_def check_u_va_def checked_add_def kconst word_less_nat_alt)
  qed (use True in \<open>simp add: check_u_va_range_def check_u_va_def checked_add_def kconst\<close>)
next
  case False
  show ?thesis
  proof (cases "unat start + unat len < 2 ^ 64")
    case True
    have "0 < unat len" using False by (simp add: unat_gt_0)
    with True have sum: "unat (start + len) = unat start + unat len" "start + len \<noteq> 0"
      by (auto simp: unat_plus_no_overflow word_unat_eq_iff)
    then have "unat (start + len - 1) = unat start + unat len - 1" by (simp add: unat_minus_one)
    with \<open>0 < unat len\<close> True False show ?thesis
      by (auto simp: check_u_va_range_def check_u_va_def checked_add_def kconst word_less_nat_alt)
  next
    case ovf: False
    with False show ?thesis by (simp add: check_u_va_range_def checked_add_def kconst)
  qed
qed

lemma is_valid_va_iff: "is_valid_va va \<longleftrightarrow> unat va < 2 ^ 38 \<or> 2 ^ 64 - 2 ^ 38 \<le> unat va"
proof -
  define q r where "q = unat va div 2 ^ 38" and "r = unat va mod 2 ^ 38"
  have "unat va = q * 2 ^ 38 + r" "r < 2 ^ 38" by (simp_all add: q_def r_def)
  moreover have "is_valid_va va \<longleftrightarrow> q * 2 ^ 38 = 0 \<or> q * 2 ^ 38 = 2 ^ 64 - 2 ^ 38"
    unfolding is_valid_va_def Let_def and_not_low_mask word_unat_eq_iff unat_push_drop_bit
    by (simp add: q_def)
  ultimately show ?thesis using unat_lt_usize [of va] by auto
qed

lemma VPN_from_va_Some:
  "VPN_from_va va = Some v \<longleftrightarrow> is_valid_va va \<and> v = VPN (drop_bit 12 va)"
  by (auto simp: VPN_from_va_def kconst)

lemma get_va_VPN: "VPN_from_va va = Some v \<Longrightarrow> get_va v = va AND NOT (PAGE_SIZE_BYTES - 1)"
  by (auto simp: VPN_from_va_Some get_va_def kconst and_not_low_mask)


lemma get_pa_PPN: "PPN_from_pa pa = Some p \<Longrightarrow> get_pa p = pa AND NOT (PAGE_SIZE_BYTES - 1)"
  by (auto simp: PPN_from_pa_def get_pa_def kconst and_not_low_mask split: if_splits)

lemma MAX_PA_val [kconst]: "MAX_PA = 0xffffffffffffff" by (simp add: MAX_PA_def)

lemma PPN_from_get_pa: "unat (get_raw p) < 2 ^ 44 \<Longrightarrow> PPN_from_pa (get_pa p) = Some p"
proof -
  assume lt: "unat (get_raw p) < 2 ^ 44"
  then have u: "unat (get_pa p) = unat (get_raw p) * 2 ^ 12" by (simp add: unat_get_pa)
  with lt have v: "is_valid_pa (get_pa p)"
    by (simp add: is_valid_pa_def kconst word_less_nat_alt)
  have "drop_bit 12 (get_pa p) = get_raw p"
    using u by (simp add: word_unat_eq_iff bits_nat)
  with v show ?thesis by (simp add: PPN_from_pa_def kconst)
qed

end
