(* ===== verification/Page_Alloc.thy ===== *)
theory Page_Alloc
  imports MM
begin

text \<open>
  The physical page allocator of \<open>os/src/mm/page_alloc.rs\<close>: a bump pointer over the memory
  above the kernel and a stack of recycled pages.  A \<open>Page\<close> is an owned token: dropping it
  recycles it.  The contract its clients rely on is the locale \<open>page_pool\<close>.
\<close>

subsection \<open>The allocator\<close>

record PageAllocator =
  next_unused_ppn :: PPN
  max_ppn :: PPN
  recycled_ppn :: "PPN list"

record Page =
  page_ppn :: PPN

abbreviation get_ppn :: "Page \<Rightarrow> PPN" where
  "get_ppn \<equiv> page_ppn"

definition PageAllocator_alloc :: "PageAllocator \<Rightarrow> Page option \<times> PageAllocator" where
  "PageAllocator_alloc a =
     (case vec_pop (recycled_ppn a) of
        Some (ppn, rest) \<Rightarrow> (Some \<lparr>page_ppn = ppn\<rparr>, a\<lparr>recycled_ppn := rest\<rparr>)
      | None \<Rightarrow>
          if next_unused_ppn a \<ge> max_ppn a then (None, a)
          else (Some \<lparr>page_ppn = next_unused_ppn a\<rparr>,
                a\<lparr>next_unused_ppn := PPN (get_raw (next_unused_ppn a) + 1)\<rparr>))"

definition PageAllocator_dealloc :: "PageAllocator \<Rightarrow> Page \<Rightarrow> PageAllocator" where
  "PageAllocator_dealloc a page =
     a\<lparr>recycled_ppn := vec_push (recycled_ppn a) (get_ppn page)\<rparr>"

subsection \<open>The global allocator\<close>

text \<open>
  The state the memory components share: physical memory, the global allocator and the
  kernel's \<open>satp\<close> value.
\<close>

record mm_state =
  phys :: phys_mem
  PAGE_ALLOCATOR :: PageAllocator
  KERNEL_SATP :: usize

definition compute_first_unused_ppn :: "linker_syms \<Rightarrow> PPN option" where
  "compute_first_unused_ppn k = do {
     kernel_end_pa \<leftarrow> get_pa_from_va (kernel_end k);
     if kernel_end_pa AND (PAGE_SIZE_BYTES - 1) = 0
     then PPN_from_pa kernel_end_pa
     else PPN_from_pa (kernel_end_pa + PAGE_SIZE_BYTES)
   }"

definition compute_max_ppn :: "PPN option" where
  "compute_max_ppn =
     (if MEM_START_PA AND (PAGE_SIZE_BYTES - 1) \<noteq> 0 then None
      else if MEM_SIZE_BYTES AND (PAGE_SIZE_BYTES - 1) \<noteq> 0 then None
      else PPN_from_pa (MEM_START_PA + MEM_SIZE_BYTES))"

definition init_PAGE_ALLOCATOR :: "linker_syms \<Rightarrow> PageAllocator option" where
  "init_PAGE_ALLOCATOR k = do {
     next_unused_ppn \<leftarrow> compute_first_unused_ppn k;
     max_ppn \<leftarrow> compute_max_ppn;
     Some \<lparr>next_unused_ppn = next_unused_ppn, max_ppn = max_ppn, recycled_ppn = []\<rparr>
   }"

definition alloc_page :: "mm_state \<Rightarrow> Page option \<times> mm_state" where
  "alloc_page s =
     (let (r, a) = PageAllocator_alloc (PAGE_ALLOCATOR s) in (r, s\<lparr>PAGE_ALLOCATOR := a\<rparr>))"

text \<open>The loop of \<open>alloc_zeroed_page\<close>: writes zero to each byte of the page at a pointer.\<close>

definition zero_page :: "usize \<Rightarrow> phys_mem \<Rightarrow> phys_mem" where
  "zero_page ptr m =
     foldl (\<lambda>m i. m(kptr_pa (ptr + i) := 0)) m (range_usize 0 PAGE_SIZE_BYTES)"

definition alloc_zeroed_page :: "mm_state \<Rightarrow> (Page option \<times> mm_state) option" where
  "alloc_zeroed_page s =
     (case alloc_page s of
        (None, s') \<Rightarrow> Some (None, s')
      | (Some result, s') \<Rightarrow> do {
          pa_mut_ptr \<leftarrow> get_pa_mut_ptr (get_pa (get_ppn result));
          Some (Some result, s'\<lparr>phys := zero_page pa_mut_ptr (phys s')\<rparr>)
        })"

definition drop_page :: "Page \<Rightarrow> mm_state \<Rightarrow> mm_state" where
  "drop_page page s =
     s\<lparr>PAGE_ALLOCATOR := PageAllocator_dealloc (PAGE_ALLOCATOR s) page\<rparr>"

definition dealloc_pages :: "Page list \<Rightarrow> mm_state \<Rightarrow> mm_state" where
  "dealloc_pages pages s =
     s\<lparr>PAGE_ALLOCATOR := foldl PageAllocator_dealloc (PAGE_ALLOCATOR s) pages\<rparr>"

text \<open>A \<open>Vec<Page>\<close> is dropped element by element, each through \<open>Page::drop\<close>.\<close>

definition drop_pages :: "Page list \<Rightarrow> mm_state \<Rightarrow> mm_state" where
  "drop_pages pages s = foldl (\<lambda>s page. drop_page page s) s pages"

definition drop_page_opt :: "Page option \<Rightarrow> mm_state \<Rightarrow> mm_state" where
  "drop_page_opt p s = (case p of None \<Rightarrow> s | Some page \<Rightarrow> drop_page page s)"

subsection \<open>Invariant\<close>

definition free_pages :: "PageAllocator \<Rightarrow> PPN set" where
  "free_pages a = set (recycled_ppn a) \<union> {p. next_unused_ppn a \<le> p \<and> p < max_ppn a}"

text \<open>Recycled pages are distinct and were handed out before, so lie below the bump pointer.\<close>

definition alloc_inv :: "PageAllocator \<Rightarrow> bool" where
  "alloc_inv a \<longleftrightarrow> distinct (recycled_ppn a) \<and> (\<forall>p \<in> set (recycled_ppn a). p < next_unused_ppn a)
     \<and> next_unused_ppn a \<le> max_ppn a"

text \<open>Pages a client may hold: below the bump pointer and not recycled.\<close>

definition held_pages :: "PageAllocator \<Rightarrow> PPN set" where
  "held_pages a = {p. p < next_unused_ppn a \<and> p \<notin> set (recycled_ppn a)}"

subsection \<open>The contract of a page pool\<close>

locale page_pool =
  fixes alloc :: "'a \<Rightarrow> 'p option \<times> 'a"
    and dealloc :: "'a \<Rightarrow> 'p \<Rightarrow> 'a"
    and num :: "'p \<Rightarrow> 'q"
    and free :: "'a \<Rightarrow> 'q set"
    and held :: "'a \<Rightarrow> 'q set"
    and inv :: "'a \<Rightarrow> bool"
  assumes alloc_None: "inv a \<Longrightarrow> fst (alloc a) = None \<longleftrightarrow> free a = {}"
    and alloc_None_same: "inv a \<Longrightarrow> alloc a = (None, a') \<Longrightarrow> a' = a"
    and alloc_Some: "inv a \<Longrightarrow> alloc a = (Some p, a') \<Longrightarrow>
      num p \<in> free a \<and> free a' = free a - {num p} \<and> held a' = insert (num p) (held a) \<and> inv a'"
    and dealloc_held: "inv a \<Longrightarrow> num p \<in> held a \<Longrightarrow>
      free (dealloc a p) = insert (num p) (free a) \<and> held (dealloc a p) = held a - {num p}
      \<and> inv (dealloc a p)"
    and free_held: "inv a \<Longrightarrow> free a \<inter> held a = {}"
begin

text \<open>
  Ownership accounting: if the pages some client holds are exactly held pages, then an
  allocation hands out a page the client does not have, and a drop gives it back.
\<close>

lemma alloc_fresh:
  assumes "inv a" "alloc a = (Some p, a')" "H \<subseteq> held a"
  shows "num p \<notin> H" "insert (num p) H \<subseteq> held a'" "insert (num p) H \<union> free a' = H \<union> free a"
  using alloc_Some [OF assms(1,2)] free_held [OF assms(1)] assms(3) by auto

lemma dealloc_conserves:
  assumes "inv a" "num p \<in> H" "H \<subseteq> held a"
  shows "H - {num p} \<subseteq> held (dealloc a p)" "(H - {num p}) \<union> free (dealloc a p) = H \<union> free a"
    "inv (dealloc a p)"
  using dealloc_held [OF assms(1), of p] assms(2,3) by auto

text \<open>Dropping a list of distinct held pages.\<close>

lemma dealloc_list:
  assumes "inv a" "distinct (map num ps)" "num ` set ps \<subseteq> held a"
  shows "inv (foldl dealloc a ps) \<and> free (foldl dealloc a ps) = num ` set ps \<union> free a
    \<and> held (foldl dealloc a ps) = held a - num ` set ps"
  using assms
proof (induction ps arbitrary: a)
  case (Cons p ps)
  from Cons.prems have p: "free (dealloc a p) = insert (num p) (free a)"
    "held (dealloc a p) = held a - {num p}" "inv (dealloc a p)"
    using dealloc_held [of a p] by auto
  have "num ` set ps \<subseteq> held (dealloc a p)" using Cons.prems p(2) by (simp add: subset_Diff_insert)
  from Cons.IH [OF p(3) _ this] Cons.prems p show ?case by auto
qed simp

end

lemma PPN_less_Suc:
  assumes "p < (m :: PPN)"
  shows "q < PPN (get_raw p + 1) \<longleftrightarrow> q = p \<or> q < p" "PPN (get_raw p + 1) \<le> q \<longleftrightarrow> p < q"
proof -
  have "unat (get_raw p) < unat (get_raw m)"
    using assms by (simp add: page_order word_less_nat_alt)
  then have "unat (get_raw p + 1) = Suc (unat (get_raw p))"
    using unat_lt_usize [of "get_raw m"] by (subst unat_plus_no_overflow) simp_all
  then show "q < PPN (get_raw p + 1) \<longleftrightarrow> q = p \<or> q < p" "PPN (get_raw p + 1) \<le> q \<longleftrightarrow> p < q"
    by (auto simp: page_order word_less_nat_alt word_le_nat_alt PPN.expand less_Suc_eq
        word_unat_eq_iff)
qed

lemma PageAllocator_alloc_spec:
  assumes "alloc_inv a" "PageAllocator_alloc a = (Some p, a')"
  shows "get_ppn p \<in> free_pages a \<and> free_pages a' = free_pages a - {get_ppn p}
    \<and> held_pages a' = insert (get_ppn p) (held_pages a) \<and> alloc_inv a'"
proof (cases "recycled_ppn a" rule: rev_cases)
  case Nil
  then have "next_unused_ppn a < max_ppn a" "p = \<lparr>page_ppn = next_unused_ppn a\<rparr>"
    "a' = a\<lparr>next_unused_ppn := PPN (get_raw (next_unused_ppn a) + 1)\<rparr>"
    using assms(2) by (auto simp: PageAllocator_alloc_def vec_pop_def split: if_splits)
  with Nil show ?thesis
    by (auto simp: free_pages_def held_pages_def alloc_inv_def PPN_less_Suc)
next
  case (snoc qs q)
  then show ?thesis using assms
    by (auto simp: PageAllocator_alloc_def vec_pop_def free_pages_def held_pages_def alloc_inv_def)
qed

interpretation pool: page_pool PageAllocator_alloc PageAllocator_dealloc get_ppn
  free_pages held_pages alloc_inv
proof unfold_locales
  fix a :: PageAllocator and p :: Page
  assume inv: "alloc_inv a"
  show "(fst (PageAllocator_alloc a) = None) = (free_pages a = {})"
    by (auto simp: PageAllocator_alloc_def free_pages_def vec_pop_def not_less
        split: option.splits if_splits dest: not_le_imp_less)
  show "free_pages a \<inter> held_pages a = {}"
    by (auto simp: free_pages_def held_pages_def)
  assume "get_ppn p \<in> held_pages a"
  then show "free_pages (PageAllocator_dealloc a p) = insert (get_ppn p) (free_pages a)
      \<and> held_pages (PageAllocator_dealloc a p) = held_pages a - {get_ppn p}
      \<and> alloc_inv (PageAllocator_dealloc a p)"
    using inv by (auto simp: PageAllocator_dealloc_def free_pages_def held_pages_def alloc_inv_def
        vec_push_def)
next
  fix a a' :: PageAllocator
  assume "PageAllocator_alloc a = (None, a')"
  then show "a' = a" by (auto simp: PageAllocator_alloc_def split: option.splits if_splits)
qed (rule PageAllocator_alloc_spec)

subsection \<open>Zeroing\<close>

text \<open>The bytes of a page are those whose page number is the page's.\<close>

lemma drop_bit_get_pa_add:
  assumes "unat (get_raw p) < 2 ^ 52" "unat k < 4096"
  shows "drop_bit 12 (get_pa p + k) = get_raw p" "unat (get_pa p + k) = unat (get_raw p) * 4096 + unat k"
proof -
  have u: "unat (get_pa p + k) = unat (get_raw p) * 4096 + unat k"
    using assms by (subst unat_plus_no_overflow) (simp_all add: unat_get_pa)
  then show "unat (get_pa p + k) = unat (get_raw p) * 4096 + unat k" .
  show "drop_bit 12 (get_pa p + k) = get_raw p"
    using u assms(2) by (simp add: word_unat_eq_iff bits_nat)
qed

lemma in_page_offset:
  assumes "drop_bit 12 a = get_raw p"
  shows "\<exists>k. unat k < 4096 \<and> a = get_pa p + k"
proof (intro exI conjI)
  show "unat (take_bit 12 a) < 4096" by (simp add: bits_nat)
  show "a = get_pa p + take_bit 12 a"
    using push_drop_take_bit [of 12 a] assms by (simp add: get_pa_def kconst)
qed

lemma foldl_zero:
  "foldl (\<lambda>m i. m(f i := 0)) m xs = (\<lambda>a. if a \<in> f ` set xs then (0 :: u8) else m a)"
  by (induction xs arbitrary: m) auto

lemma zero_page_eq:
  assumes "unat (get_raw p) < 2 ^ 52"
  shows "zero_page (get_pa p + KERNEL_VA_OFFSET) m =
    (\<lambda>a. if drop_bit 12 a = get_raw p then 0 else m a)"
proof -
  have "a \<in> (\<lambda>i. get_pa p + i) ` set (range_usize 0 PAGE_SIZE_BYTES)
      \<longleftrightarrow> drop_bit 12 a = get_raw p" for a
  proof
    assume "a \<in> (\<lambda>i. get_pa p + i) ` set (range_usize 0 PAGE_SIZE_BYTES)"
    then show "drop_bit 12 a = get_raw p"
      using drop_bit_get_pa_add [OF assms] by (auto simp: kconst word_less_nat_alt)
  next
    assume "drop_bit 12 a = get_raw p"
    then obtain k where "unat k < 4096" "a = get_pa p + k" by (blast dest: in_page_offset)
    then show "a \<in> (\<lambda>i. get_pa p + i) ` set (range_usize 0 PAGE_SIZE_BYTES)"
      by (auto simp: kconst word_less_nat_alt)
  qed
  then show ?thesis by (simp add: zero_page_def foldl_zero)
qed

subsection \<open>The global operations\<close>

lemma drop_pages_eq_dealloc: "drop_pages pages s = dealloc_pages pages s"
  by (induction pages arbitrary: s) (auto simp: drop_pages_def dealloc_pages_def drop_page_def)

lemma drop_page_simps [simp]:
  "phys (drop_page p s) = phys s" "KERNEL_SATP (drop_page p s) = KERNEL_SATP s"
  by (simp_all add: drop_page_def)

lemma drop_pages_simps [simp]:
  "phys (drop_pages ps s) = phys s" "KERNEL_SATP (drop_pages ps s) = KERNEL_SATP s"
  by (simp_all add: drop_pages_eq_dealloc dealloc_pages_def)

lemma drop_page_opt_simps [simp]:
  "phys (drop_page_opt p s) = phys s" "KERNEL_SATP (drop_page_opt p s) = KERNEL_SATP s"
  by (simp_all add: drop_page_opt_def split: option.splits)

text \<open>
  Physical memory fits below \<open>2^38\<close>, so that every page of the allocator is reachable through
  the linear map.
\<close>

definition mm_inv :: "mm_state \<Rightarrow> bool" where
  "mm_inv s \<longleftrightarrow> alloc_inv (PAGE_ALLOCATOR s) \<and> unat (get_raw (max_ppn (PAGE_ALLOCATOR s))) \<le> 2 ^ 26"

abbreviation mfree :: "mm_state \<Rightarrow> PPN set" where
  "mfree s \<equiv> free_pages (PAGE_ALLOCATOR s)"

abbreviation mheld :: "mm_state \<Rightarrow> PPN set" where
  "mheld s \<equiv> held_pages (PAGE_ALLOCATOR s)"

lemma alloc_page_max: "max_ppn (PAGE_ALLOCATOR (snd (alloc_page s))) = max_ppn (PAGE_ALLOCATOR s)"
  by (simp add: alloc_page_def PageAllocator_alloc_def case_prod_beta split: option.splits prod.splits)

lemma held_ppn_small:
  "mm_inv s \<Longrightarrow> p \<in> held_pages (PAGE_ALLOCATOR s) \<Longrightarrow> unat (get_raw p) < 2 ^ 26"
  by (auto simp: mm_inv_def held_pages_def alloc_inv_def page_order word_less_nat_alt word_le_nat_alt)

lemma free_ppn_small:
  "mm_inv s \<Longrightarrow> p \<in> free_pages (PAGE_ALLOCATOR s) \<Longrightarrow> unat (get_raw p) < 2 ^ 26"
  by (force simp: mm_inv_def free_pages_def alloc_inv_def page_order word_less_nat_alt word_le_nat_alt)

lemma alloc_page_cases:
  assumes "mm_inv s" "alloc_page s = (r, s')"
  shows "phys s' = phys s \<and> KERNEL_SATP s' = KERNEL_SATP s \<and> mm_inv s' \<and>
    (case r of
       None \<Rightarrow> mfree s = {} \<and> s' = s
     | Some p \<Rightarrow> get_ppn p \<in> mfree s \<and> mfree s' = mfree s - {get_ppn p}
                  \<and> mheld s' = insert (get_ppn p) (mheld s))"
proof -
  obtain a where a: "PageAllocator_alloc (PAGE_ALLOCATOR s) = (r, a)"
    and s': "s' = s\<lparr>PAGE_ALLOCATOR := a\<rparr>"
    using assms(2) by (auto simp: alloc_page_def split: prod.splits)
  have inv: "alloc_inv (PAGE_ALLOCATOR s)" using assms(1) by (simp add: mm_inv_def)
  have max: "max_ppn a = max_ppn (PAGE_ALLOCATOR s)"
    using alloc_page_max [of s] by (simp add: assms(2) s')
  show ?thesis
  proof (cases r)
    case None
    then have "a = PAGE_ALLOCATOR s" using pool.alloc_None_same [OF inv] a by simp
    with None assms(1) s' a pool.alloc_None [OF inv] show ?thesis by simp
  next
    case (Some p)
    with pool.alloc_Some [OF inv] a max assms(1) s' show ?thesis by (simp add: mm_inv_def)
  qed
qed

lemma alloc_zeroed_page_cases:
  assumes "mm_inv s"
  obtains (exhausted) "alloc_zeroed_page s = Some (None, s)" "mfree s = {}"
  | (page) p s' where "alloc_zeroed_page s = Some (Some p, s')" "get_ppn p \<in> mfree s"
      "mfree s' = mfree s - {get_ppn p}" "mheld s' = insert (get_ppn p) (mheld s)" "mm_inv s'"
      "KERNEL_SATP s' = KERNEL_SATP s"
      "phys s' = (\<lambda>a. if drop_bit 12 a = get_raw (get_ppn p) then 0 else phys s a)"
proof -
  obtain r t where rt: "alloc_page s = (r, t)" by (cases "alloc_page s") auto
  note spec = alloc_page_cases [OF assms rt]
  show ?thesis
  proof (cases r)
    case None
    with spec rt show ?thesis by (intro exhausted) (auto simp: alloc_zeroed_page_def)
  next
    case (Some p)
    with spec have "get_ppn p \<in> mfree s" by simp
    then have small: "unat (get_raw (get_ppn p)) < 2 ^ 26" using assms by (intro free_ppn_small)
    then have ptr: "get_pa_mut_ptr (get_pa (get_ppn p)) = Some (get_pa (get_ppn p) + KERNEL_VA_OFFSET)"
      by (simp add: get_pa_mut_ptr_def get_va_from_pa_Some unat_get_pa)
    let ?t = "t\<lparr>phys := zero_page (get_pa (get_ppn p) + KERNEL_VA_OFFSET) (phys t)\<rparr>"
    have "alloc_zeroed_page s = Some (Some p, ?t)"
      using Some rt ptr by (simp add: alloc_zeroed_page_def)
    then show ?thesis
      by (rule page) (use Some spec small in \<open>auto simp: zero_page_eq mm_inv_def fun_eq_iff\<close>)
  qed
qed

lemma drop_page_spec:
  assumes "mm_inv s" "get_ppn p \<in> mheld s"
  shows "mm_inv (drop_page p s)" "mfree (drop_page p s) = insert (get_ppn p) (mfree s)"
    "mheld (drop_page p s) = mheld s - {get_ppn p}"
  using assms pool.dealloc_held [of "PAGE_ALLOCATOR s" p]
  by (auto simp: mm_inv_def drop_page_def PageAllocator_dealloc_def)

lemma foldl_dealloc_max: "max_ppn (foldl PageAllocator_dealloc a ps) = max_ppn a"
  by (induction ps arbitrary: a) (simp_all add: PageAllocator_dealloc_def)

lemma drop_pages_spec:
  assumes "mm_inv s" "distinct (map get_ppn ps)" "get_ppn ` set ps \<subseteq> mheld s"
  shows "mm_inv (drop_pages ps s)" "mfree (drop_pages ps s) = get_ppn ` set ps \<union> mfree s"
    "mheld (drop_pages ps s) = mheld s - get_ppn ` set ps"
  using assms pool.dealloc_list [of "PAGE_ALLOCATOR s" ps]
  by (auto simp: mm_inv_def drop_pages_eq_dealloc dealloc_pages_def foldl_dealloc_max)

subsection \<open>Runs of the allocator\<close>

text \<open>
  The pages a run of allocations and drops has handed out and not got back.  A \<open>Page\<close> is an
  owned value, so only a page that is out can be dropped.
\<close>

inductive pool_run :: "PageAllocator \<Rightarrow> PageAllocator \<Rightarrow> PPN list \<Rightarrow> bool" for a0 where
  run_start: "pool_run a0 a0 []"
| run_alloc: "pool_run a0 a H \<Longrightarrow> PageAllocator_alloc a = (Some p, a') \<Longrightarrow> pool_run a0 a' (get_ppn p # H)"
| run_full: "pool_run a0 a H \<Longrightarrow> PageAllocator_alloc a = (None, a') \<Longrightarrow> pool_run a0 a' H"
| run_drop: "pool_run a0 a H \<Longrightarrow> get_ppn p \<in> set H \<Longrightarrow>
    pool_run a0 (PageAllocator_dealloc a p) (remove1 (get_ppn p) H)"

lemma pool_run_inv:
  assumes "pool_run a0 a H" "alloc_inv a0"
  shows "alloc_inv a \<and> distinct H \<and> set H \<subseteq> held_pages a \<and> set H \<union> free_pages a = free_pages a0"
  using assms
proof (induction rule: pool_run.induct)
  case (run_alloc a H p a')
  then have IH: "alloc_inv a" "distinct H" "set H \<subseteq> held_pages a"
    "set H \<union> free_pages a = free_pages a0" by auto
  note f = pool.alloc_fresh [OF IH(1) run_alloc.hyps(2) IH(3)] pool.alloc_Some [OF IH(1) run_alloc.hyps(2)]
  then show ?case using IH by simp
next
  case (run_full a H a')
  then show ?case using pool.alloc_None_same [of a a'] by auto
next
  case (run_drop a H p)
  then have IH: "alloc_inv a" "distinct H" "set H \<subseteq> held_pages a"
    "set H \<union> free_pages a = free_pages a0" by auto
  note d = pool.dealloc_conserves [OF IH(1) run_drop.hyps(2) IH(3)]
  then show ?case using IH by (simp add: set_remove1_eq distinct_remove1)
qed simp

subsection \<open>The initial allocator\<close>

lemma compute_max_ppn_val: "compute_max_ppn = Some (PPN 0x88000)"
  by (simp add: compute_max_ppn_def PPN_from_pa_def is_valid_pa_def kconst drop_bit_eq_div)

lemma compute_first_unused_ppn_spec:
  assumes "get_pa_from_va (kernel_end k) = Some e" "unat e < 2 ^ 40"
  obtains p where "compute_first_unused_ppn k = Some p" "unat e \<le> unat (get_raw p) * 4096"
    "unat (get_raw p) * 4096 < unat e + 4096"
proof (cases "take_bit 12 e = 0")
  case True
  then have m: "unat e mod 4096 = 0" using unat_take_bit_usize [of 12 e] by simp
  have "compute_first_unused_ppn k = Some (PPN (drop_bit 12 e))"
    using assms True by (simp add: compute_first_unused_ppn_def and_low_mask PPN_from_pa_def
        is_valid_pa_def kconst word_less_nat_alt)
  then show ?thesis by (rule that) (use m in \<open>auto simp: bits_nat\<close>)
next
  case False
  have s: "unat (e + 4096) = unat e + 4096" using assms(2) by (subst unat_plus_no_overflow) simp_all
  define q r where "q = unat e div 4096" and "r = unat e mod 4096"
  have "r \<noteq> 0" using False unat_take_bit_usize [of 12 e] by (simp add: word_unat_eq_iff r_def)
  moreover have "unat e = q * 4096 + r" "r < 4096" by (simp_all add: q_def r_def)
  moreover have "unat (drop_bit 12 (e + 4096)) = q + 1" by (simp add: bits_nat s q_def)
  moreover have "compute_first_unused_ppn k = Some (PPN (drop_bit 12 (e + 4096)))"
    using assms False s by (simp add: compute_first_unused_ppn_def and_low_mask PPN_from_pa_def
        is_valid_pa_def kconst word_less_nat_alt)
  ultimately show ?thesis by (intro that [of "PPN (drop_bit 12 (e + 4096))"]) simp_all
qed

end
