(* ===== verification/Riscv.thy ===== *)
theory Riscv
  imports Prelude
begin

text \<open>
  The \<open>riscv\<close> crate: the control and status registers of a supervisor-mode hart, the access
  macros of \<open>riscv/src/macros.rs\<close> and the per-register modules of \<open>riscv/src/regs\<close>.
\<close>

subsection \<open>Registers and access macros\<close>

text \<open>The CSRs the kernel touches, as a function from CSR number to value.\<close>

type_synonym csr_file = "usize \<Rightarrow> usize"

definition csrr :: "usize \<Rightarrow> csr_file \<Rightarrow> usize" where
  "csrr csr_no c = c csr_no"

definition csrw :: "usize \<Rightarrow> usize \<Rightarrow> csr_file \<Rightarrow> csr_file" where
  "csrw csr_no v c = c(csr_no := v)"

definition csrrc :: "usize \<Rightarrow> usize \<Rightarrow> csr_file \<Rightarrow> usize \<times> csr_file" where
  "csrrc csr_no msk c = (c csr_no, c(csr_no := c csr_no AND NOT msk))"

definition csrrs :: "usize \<Rightarrow> usize \<Rightarrow> csr_file \<Rightarrow> usize \<times> csr_file" where
  "csrrs csr_no msk c = (c csr_no, c(csr_no := c csr_no OR msk))"

subsection \<open>satp\<close>

definition SATP_CSR_NO :: usize where "SATP_CSR_NO = 0x180"

datatype satp_mode = Bare | Sv39 | Sv48 | Sv57 | Sv64

fun get_mode_value :: "satp_mode \<Rightarrow> usize" where
  "get_mode_value Bare = 0"
| "get_mode_value Sv39 = 8"
| "get_mode_value Sv48 = 9"
| "get_mode_value Sv57 = 10"
| "get_mode_value Sv64 = 11"

definition satp_compute_value :: "usize \<Rightarrow> satp_mode \<Rightarrow> usize" where
  "satp_compute_value ppn mode =
     (let ppn = ppn AND 0xfffffffffff; mode_value = get_mode_value mode
      in push_bit 60 mode_value OR ppn)"

subsection \<open>scause\<close>

definition SCAUSE_CSR_NO :: usize where "SCAUSE_CSR_NO = 0x142"
definition INTERRUPT_BIT :: usize where "INTERRUPT_BIT = push_bit 63 1"

definition scause_read :: "csr_file \<Rightarrow> usize" where
  "scause_read c = csrr SCAUSE_CSR_NO c"

definition is_interrupt :: "usize \<Rightarrow> bool" where
  "is_interrupt v \<longleftrightarrow> v AND INTERRUPT_BIT \<noteq> 0"

datatype Cause =
    SupervisorSoftwareInterrupt
  | SupervisorTimerInterrupt
  | SupervisorExternalInterrupt
  | CounterOverflowInterrupt
  | InstructionAddressMisaligned
  | InstructionAccessFault
  | IllegalInstruction
  | Breakpoint
  | LoadAddressMisaligned
  | LoadAccessFault
  | StoreOrAmoAddressMisaligned
  | StoreOrAmoAccessFault
  | UserEnvironmentCall
  | SupervisorEnvironmentCall
  | InstructionPageFault
  | LoadPageFault
  | StoreOrAmoPageFault
  | SoftwareCheck
  | HardwareError
  | Unknown

definition match_interrupt_cause :: "usize \<Rightarrow> Cause" where
  "match_interrupt_cause v =
     (let v = v XOR INTERRUPT_BIT in
      if v = 1 then SupervisorSoftwareInterrupt
      else if v = 5 then SupervisorTimerInterrupt
      else if v = 9 then SupervisorExternalInterrupt
      else if v = 13 then CounterOverflowInterrupt
      else Unknown)"

definition match_exception_cause :: "usize \<Rightarrow> Cause" where
  "match_exception_cause v =
     (if v = 0 then InstructionAddressMisaligned
      else if v = 1 then InstructionAccessFault
      else if v = 2 then IllegalInstruction
      else if v = 3 then Breakpoint
      else if v = 4 then LoadAddressMisaligned
      else if v = 5 then LoadAccessFault
      else if v = 6 then StoreOrAmoAddressMisaligned
      else if v = 7 then StoreOrAmoAccessFault
      else if v = 8 then UserEnvironmentCall
      else if v = 9 then SupervisorEnvironmentCall
      else if v = 12 then InstructionPageFault
      else if v = 13 then LoadPageFault
      else if v = 15 then StoreOrAmoPageFault
      else if v = 18 then SoftwareCheck
      else if v = 19 then HardwareError
      else Unknown)"

definition match_cause :: "usize \<Rightarrow> Cause" where
  "match_cause v = (if is_interrupt v then match_interrupt_cause v else match_exception_cause v)"

subsection \<open>sepc, stval, sie\<close>

definition SEPC_CSR_NO :: usize where "SEPC_CSR_NO = 0x141"
definition STVAL_CSR_NO :: usize where "STVAL_CSR_NO = 0x143"
definition SIE_CSR_NO :: usize where "SIE_CSR_NO = 0x104"
definition STIE_BIT :: usize where "STIE_BIT = push_bit 5 1"

definition sepc_read :: "csr_file \<Rightarrow> usize" where
  "sepc_read c = csrr SEPC_CSR_NO c"

definition sepc_write :: "usize \<Rightarrow> csr_file \<Rightarrow> csr_file" where
  "sepc_write v c = csrw SEPC_CSR_NO v c"

definition stval_read :: "csr_file \<Rightarrow> usize" where
  "stval_read c = csrr STVAL_CSR_NO c"

definition sie_set_stie :: "csr_file \<Rightarrow> usize \<times> csr_file" where
  "sie_set_stie c = csrrs SIE_CSR_NO STIE_BIT c"

subsection \<open>sstatus\<close>

definition SSTATUS_CSR_NO :: usize where "SSTATUS_CSR_NO = 0x100"
definition SIE_BIT :: usize where "SIE_BIT = push_bit 1 1"
definition SPP_BIT :: usize where "SPP_BIT = push_bit 8 1"
definition SUM_BIT :: usize where "SUM_BIT = push_bit 18 1"

definition sstatus_read :: "csr_file \<Rightarrow> usize" where
  "sstatus_read c = csrr SSTATUS_CSR_NO c"

definition set_spp_user :: "csr_file \<Rightarrow> usize \<times> csr_file" where
  "set_spp_user c = (let (result, c) = csrrc SSTATUS_CSR_NO SPP_BIT c in (result AND NOT SPP_BIT, c))"

definition set_sie :: "csr_file \<Rightarrow> usize \<times> csr_file" where
  "set_sie c = csrrs SSTATUS_CSR_NO SIE_BIT c"

definition set_sum_permit :: "csr_file \<Rightarrow> usize \<times> csr_file" where
  "set_sum_permit c = csrrs SSTATUS_CSR_NO SUM_BIT c"

definition set_sum_deny :: "csr_file \<Rightarrow> usize \<times> csr_file" where
  "set_sum_deny c = csrrc SSTATUS_CSR_NO SUM_BIT c"

subsection \<open>stvec\<close>

definition STVEC_CSR_NO :: usize where "STVEC_CSR_NO = 0x105"
definition MODE_BITS :: usize where "MODE_BITS = 3"

datatype stvec_mode = Direct | Vectored

definition stvec_install :: "usize \<Rightarrow> stvec_mode \<Rightarrow> csr_file \<Rightarrow> bool \<times> csr_file" where
  "stvec_install base_addr mode c =
     (if base_addr AND MODE_BITS \<noteq> 0 then (False, c)
      else let addr = (case mode of Direct \<Rightarrow> base_addr | Vectored \<Rightarrow> base_addr OR 1)
           in (True, csrw STVEC_CSR_NO addr c))"

end
