(* ===== verification/Sv39.thy ===== *)
theory Sv39
  imports Page_Alloc Riscv
begin

text \<open>
  The Sv39 page tables of \<open>os/src/mm/sv39.rs\<close>: page table entries, the root table with the
  pages it owns, and the operations that map and unmap.  A table is 512 eight-byte entries
  in one physical page; the operations read and write them in physical memory through the
  kernel's linear map.
\<close>

subsection \<open>Page table entries\<close>

datatype PTE = PTE (pte_bits: usize)

definition ALL_FLAGS :: usize where "ALL_FLAGS = 0x3ff"
definition FLAG_V :: usize where "FLAG_V = push_bit 0 1"
definition FLAG_R :: usize where "FLAG_R = push_bit 1 1"
definition FLAG_W :: usize where "FLAG_W = push_bit 2 1"
definition FLAG_X :: usize where "FLAG_X = push_bit 3 1"
definition FLAG_U :: usize where "FLAG_U = push_bit 4 1"

lemma flag_vals [kconst]:
  "ALL_FLAGS = 0x3ff" "FLAG_V = 1" "FLAG_R = 2" "FLAG_W = 4" "FLAG_X = 8" "FLAG_U = 16"
  by (simp_all add: ALL_FLAGS_def FLAG_V_def FLAG_R_def FLAG_W_def FLAG_X_def FLAG_U_def)

datatype PgtError =
    AcquirePageFailed
  | InvalidPteFlags usize
  | DoubleMapping VPN PPN

definition has_unknown_flags_set :: "usize \<Rightarrow> bool" where
  "has_unknown_flags_set pte_flags \<longleftrightarrow> pte_flags AND NOT ALL_FLAGS \<noteq> 0"

definition has_v_flag_clear :: "usize \<Rightarrow> bool" where
  "has_v_flag_clear pte_flags \<longleftrightarrow> pte_flags AND FLAG_V = 0"

definition is_reserved_xwr_encodings :: "usize \<Rightarrow> bool" where
  "is_reserved_xwr_encodings pte_flags \<longleftrightarrow>
     (let xwr = drop_bit 1 (pte_flags AND (FLAG_X OR FLAG_W OR FLAG_R))
      in xwr = 2 \<or> xwr = 6)"

definition is_valid_flags :: "usize \<Rightarrow> bool" where
  "is_valid_flags pte_flags \<longleftrightarrow>
     \<not> (has_unknown_flags_set pte_flags \<or> has_v_flag_clear pte_flags
        \<or> is_reserved_xwr_encodings pte_flags)"

definition PTE_new :: "PPN \<Rightarrow> usize \<Rightarrow> PgtError + PTE" where
  "PTE_new ppn pte_flags =
     (if \<not> is_valid_flags pte_flags then Inl (InvalidPteFlags pte_flags)
      else Inr (PTE (push_bit 10 (get_raw ppn) OR pte_flags)))"

definition PTE_is_valid :: "PTE \<Rightarrow> bool" where
  "PTE_is_valid e \<longleftrightarrow> pte_bits e AND FLAG_V \<noteq> 0"

definition PTE_get_ppn :: "PTE \<Rightarrow> PPN option" where
  "PTE_get_ppn e =
     (let ppn = drop_bit 10 (pte_bits e) AND 0xfffffffffff
      in PPN_from_pa (push_bit PAGE_SIZE_ORDER ppn))"

definition PTE_is_leaf :: "PTE \<Rightarrow> bool" where
  "PTE_is_leaf e \<longleftrightarrow> PTE_is_valid e \<and> pte_bits e AND (FLAG_X OR FLAG_W) \<noteq> 0"

subsection \<open>Tables in memory\<close>

definition PTES_PER_TABLE :: usize where "PTES_PER_TABLE = 512"

definition parse_vpn :: "VPN \<Rightarrow> usize list" where
  "parse_vpn vpn =
     (let va = get_va vpn;
          vpn_0 = drop_bit 12 va AND 0x1ff;
          vpn_1 = drop_bit 21 va AND 0x1ff;
          vpn_2 = drop_bit 30 va AND 0x1ff
      in [vpn_0, vpn_1, vpn_2])"

text \<open>
  \<open>get_ptes_mut\<close> yields the kernel pointer of the table; \<open>table[i]\<close> is then an access to the
  eight bytes at \<open>8 * i\<close> behind it, which panics when the index is not below 512.
\<close>

definition get_ptes_mut :: "PPN \<Rightarrow> usize option" where
  "get_ptes_mut ppn = get_pa_mut_ptr (get_pa ppn)"

definition pte_load :: "usize \<Rightarrow> usize \<Rightarrow> phys_mem \<Rightarrow> PTE option" where
  "pte_load table i m =
     (if i < PTES_PER_TABLE then Some (PTE (load_u64 m (kptr_pa (table + 8 * i)))) else None)"

definition pte_store :: "usize \<Rightarrow> usize \<Rightarrow> PTE \<Rightarrow> phys_mem \<Rightarrow> phys_mem option" where
  "pte_store table i e m =
     (if i < PTES_PER_TABLE then Some (store_u64 m (kptr_pa (table + 8 * i)) (pte_bits e))
      else None)"

subsection \<open>The root table\<close>

record RootPgt =
  root_ppn :: PPN
  root_pages :: "Page list"

definition RootPgt_new :: "mm_state \<Rightarrow> ((PgtError + RootPgt) \<times> mm_state) option" where
  "RootPgt_new s = do {
     (r, s) \<leftarrow> alloc_zeroed_page s;
     case r of
       None \<Rightarrow> Some (Inl AcquirePageFailed, s)
     | Some page \<Rightarrow> Some (Inr \<lparr>root_ppn = get_ppn page, root_pages = [page]\<rparr>, s)
   }"

text \<open>\<open>copy_from_slice\<close> over the 512 entries.\<close>

fun copy_ptes :: "usize \<Rightarrow> usize \<Rightarrow> usize list \<Rightarrow> phys_mem \<Rightarrow> phys_mem option" where
  "copy_ptes src dst [] m = Some m"
| "copy_ptes src dst (i # is) m = do {
     e \<leftarrow> pte_load src i m;
     m \<leftarrow> pte_store dst i e m;
     copy_ptes src dst is m
   }"

definition RootPgt_new_copy :: "usize \<Rightarrow> mm_state \<Rightarrow> ((PgtError + RootPgt) \<times> mm_state) option" where
  "RootPgt_new_copy entries s =
     (case alloc_page s of
        (None, s) \<Rightarrow> Some (Inl AcquirePageFailed, s)
      | (Some page, s) \<Rightarrow> do {
          ptr \<leftarrow> get_pa_mut_ptr (get_pa (get_ppn page));
          m \<leftarrow> copy_ptes entries ptr (range_usize 0 PTES_PER_TABLE) (phys s);
          Some (Inr \<lparr>root_ppn = get_ppn page, root_pages = [page]\<rparr>, s\<lparr>phys := m\<rparr>)
        })"

definition RootPgt_get_satp :: "RootPgt \<Rightarrow> usize" where
  "RootPgt_get_satp t = satp_compute_value (get_raw (root_ppn t)) Sv39"

text \<open>\<open>forget_self\<close> consumes the table without dropping its pages.\<close>

definition RootPgt_forget_self :: "RootPgt \<Rightarrow> nat" where
  "RootPgt_forget_self t = length (root_pages t)"

text \<open>Dropping a root table drops the pages of all its tables.\<close>

definition drop_RootPgt :: "RootPgt \<Rightarrow> mm_state \<Rightarrow> mm_state" where
  "drop_RootPgt t s = drop_pages (root_pages t) s"

subsection \<open>Mapping\<close>

text \<open>
  One step down the tree at index \<open>i\<close> of \<open>table\<close>: create the child table if the entry is not
  valid, refuse if it is a leaf, else go to the child.  It is the body of the loop over the
  levels 2 and 1 in \<open>map_create\<close>, and the same code for level 2 in \<open>map_create_large\<close>.
\<close>

definition descend ::
  "VPN \<Rightarrow> PPN \<Rightarrow> usize \<Rightarrow> usize \<Rightarrow> RootPgt \<Rightarrow> mm_state
    \<Rightarrow> ((PgtError + usize) \<times> RootPgt \<times> mm_state) option" where
  "descend vpn ppn table i t s = do {
     e \<leftarrow> pte_load table i (phys s);
     (r, t, s) \<leftarrow>
       (if \<not> PTE_is_valid e then do {
          (p, s) \<leftarrow> alloc_zeroed_page s;
          case p of
            None \<Rightarrow> Some (Inl AcquirePageFailed, t, s)
          | Some page \<Rightarrow>
              (case PTE_new (get_ppn page) FLAG_V of
                 Inl err \<Rightarrow> Some (Inl err, t, drop_page page s)
               | Inr e \<Rightarrow> do {
                   m \<leftarrow> pte_store table i e (phys s);
                   Some (Inr (), t\<lparr>root_pages := vec_push (root_pages t) page\<rparr>, s\<lparr>phys := m\<rparr>)
                 })
        }
        else Some (Inr (), t, s));
     case r of
       Inl err \<Rightarrow> Some (Inl err, t, s)
     | Inr _ \<Rightarrow> do {
         e \<leftarrow> pte_load table i (phys s);
         if PTE_is_leaf e then Some (Inl (DoubleMapping vpn ppn), t, s)
         else do {
           child \<leftarrow> PTE_get_ppn e;
           table \<leftarrow> get_ptes_mut child;
           Some (Inr table, t, s)
         }
       }
   }"

fun map_walk ::
  "VPN \<Rightarrow> PPN \<Rightarrow> usize list \<Rightarrow> usize \<Rightarrow> RootPgt \<Rightarrow> mm_state
    \<Rightarrow> ((PgtError + usize) \<times> RootPgt \<times> mm_state) option" where
  "map_walk vpn ppn [] table t s = Some (Inr table, t, s)"
| "map_walk vpn ppn (i # is) table t s = do {
     (r, t, s) \<leftarrow> descend vpn ppn table i t s;
     case r of
       Inl err \<Rightarrow> Some (Inl err, t, s)
     | Inr table \<Rightarrow> map_walk vpn ppn is table t s
   }"

definition map_create ::
  "VPN \<Rightarrow> PPN \<Rightarrow> usize \<Rightarrow> RootPgt \<Rightarrow> mm_state
    \<Rightarrow> ((PgtError + unit) \<times> RootPgt \<times> mm_state) option" where
  "map_create vpn ppn pte_flags t s =
     (let parsed_vpn = parse_vpn vpn in
      case PTE_new ppn pte_flags of
        Inl err \<Rightarrow> Some (Inl err, t, s)
      | Inr leaf_pte \<Rightarrow> do {
          table \<leftarrow> get_ptes_mut (root_ppn t);
          (r, t, s) \<leftarrow> map_walk vpn ppn [parsed_vpn ! 2, parsed_vpn ! 1] table t s;
          case r of
            Inl err \<Rightarrow> Some (Inl err, t, s)
          | Inr table \<Rightarrow> do {
              e \<leftarrow> pte_load table (parsed_vpn ! 0) (phys s);
              if PTE_is_valid e then Some (Inl (DoubleMapping vpn ppn), t, s)
              else do {
                m \<leftarrow> pte_store table (parsed_vpn ! 0) leaf_pte (phys s);
                Some (Inr (), t, s\<lparr>phys := m\<rparr>)
              }
            }
        })"

definition map_create_large ::
  "VPN \<Rightarrow> PPN \<Rightarrow> usize \<Rightarrow> RootPgt \<Rightarrow> mm_state
    \<Rightarrow> ((PgtError + unit) \<times> RootPgt \<times> mm_state) option" where
  "map_create_large vpn ppn pte_flags t s = do {
     vpn \<leftarrow> VPN_from_va (get_va vpn AND NOT (LARGE_PAGE_SIZE_BYTES - 1));
     ppn \<leftarrow> PPN_from_pa (get_pa ppn AND NOT (LARGE_PAGE_SIZE_BYTES - 1));
     let parsed_vpn = parse_vpn vpn;
     case PTE_new ppn pte_flags of
       Inl err \<Rightarrow> Some (Inl err, t, s)
     | Inr leaf_pte \<Rightarrow> do {
         level2_table \<leftarrow> get_ptes_mut (root_ppn t);
         (r, t, s) \<leftarrow> descend vpn ppn level2_table (parsed_vpn ! 2) t s;
         case r of
           Inl err \<Rightarrow> Some (Inl err, t, s)
         | Inr level1_table \<Rightarrow> do {
             e \<leftarrow> pte_load level1_table (parsed_vpn ! 1) (phys s);
             if PTE_is_leaf e then Some (Inl (DoubleMapping vpn ppn), t, s)
             else do {
               m \<leftarrow> pte_store level1_table (parsed_vpn ! 1) leaf_pte (phys s);
               Some (Inr (), t, s\<lparr>phys := m\<rparr>)
             }
           }
       }
   }"

subsection \<open>Unmapping\<close>

text \<open>
  The three nested loops of \<open>unmap\<close>, innermost first.  Each returns whether the function
  returned from inside the loop (\<open>True\<close>) or the loop ran to its end, and the memory.
  \<open>parsed_vpn[0]\<close> and \<open>parsed_vpn[1]\<close> are the start indices the loops reset to 0.
\<close>

fun unmap_level0 ::
  "VPN \<Rightarrow> usize \<Rightarrow> usize \<Rightarrow> usize \<Rightarrow> usize list \<Rightarrow> phys_mem \<Rightarrow> (bool \<times> phys_mem) option" where
  "unmap_level0 end_vpn vpn2 vpn1 table0 [] m = Some (False, m)"
| "unmap_level0 end_vpn vpn2 vpn1 table0 (vpn0 # vpns) m =
     (let vpn = VPN (push_bit 18 vpn2 + push_bit 9 vpn1 + vpn0) in
      if end_vpn \<le> vpn then Some (True, m)
      else do {
        m \<leftarrow> pte_store table0 vpn0 (PTE 0) m;
        unmap_level0 end_vpn vpn2 vpn1 table0 vpns m
      })"

fun unmap_level1 ::
  "VPN \<Rightarrow> usize \<Rightarrow> usize \<Rightarrow> usize \<Rightarrow> usize list \<Rightarrow> phys_mem \<Rightarrow> (bool \<times> phys_mem) option" where
  "unmap_level1 end_vpn vpn2 table1 start0 [] m = Some (False, m)"
| "unmap_level1 end_vpn vpn2 table1 start0 (vpn1 # vpns) m = do {
     pte1 \<leftarrow> pte_load table1 vpn1 m;
     if \<not> PTE_is_valid pte1 then unmap_level1 end_vpn vpn2 table1 0 vpns m
     else if PTE_is_leaf pte1 then None
     else do {
       child \<leftarrow> PTE_get_ppn pte1;
       table0 \<leftarrow> get_ptes_mut child;
       (returned, m) \<leftarrow> unmap_level0 end_vpn vpn2 vpn1 table0 (range_usize start0 PTES_PER_TABLE) m;
       if returned then Some (True, m) else unmap_level1 end_vpn vpn2 table1 0 vpns m
     }
   }"

fun unmap_level2 ::
  "VPN \<Rightarrow> usize \<Rightarrow> usize \<Rightarrow> usize \<Rightarrow> usize list \<Rightarrow> phys_mem \<Rightarrow> (bool \<times> phys_mem) option" where
  "unmap_level2 end_vpn table2 start1 start0 [] m = Some (False, m)"
| "unmap_level2 end_vpn table2 start1 start0 (vpn2 # vpns) m = do {
     pte2 \<leftarrow> pte_load table2 vpn2 m;
     if \<not> PTE_is_valid pte2 then unmap_level2 end_vpn table2 0 0 vpns m
     else if PTE_is_leaf pte2 then None
     else do {
       child \<leftarrow> PTE_get_ppn pte2;
       table1 \<leftarrow> get_ptes_mut child;
       (returned, m) \<leftarrow> unmap_level1 end_vpn vpn2 table1 start0 (range_usize start1 PTES_PER_TABLE) m;
       if returned then Some (True, m) else unmap_level2 end_vpn table2 0 0 vpns m
     }
   }"

definition RootPgt_unmap ::
  "VPN \<Rightarrow> VPN \<Rightarrow> RootPgt \<Rightarrow> mm_state \<Rightarrow> ((PgtError + unit) \<times> mm_state) option" where
  "RootPgt_unmap start_vpn end_vpn t s =
     (if end_vpn \<le> start_vpn then Some (Inr (), s)
      else do {
        let parsed_vpn = parse_vpn start_vpn;
        table2 \<leftarrow> get_ptes_mut (root_ppn t);
        (returned, m) \<leftarrow> unmap_level2 end_vpn table2 (parsed_vpn ! 1) (parsed_vpn ! 0)
          (range_usize (parsed_vpn ! 2) PTES_PER_TABLE) (phys s);
        if returned then Some (Inr (), s\<lparr>phys := m\<rparr>) else None
      })"

end
