(* ===== verification/Sv39_Tree.thy ===== *)
theory Sv39_Tree
  imports Sv39
begin

text \<open>
  The three-level tree behind a root table, abstracted from bytes: \<open>tab m\<close> reads a memory as
  table contents (page, index to entry), and the tree, its well-formedness and the mapping it
  represents are defined over such contents.  A write of one entry is an update of the contents,
  so the effect of the page-table code is reasoned about here without addresses.
\<close>

subsection \<open>Entries\<close>

definition pte_ppn :: "PTE \<Rightarrow> PPN" where
  "pte_ppn e = PPN (take_bit 44 (drop_bit 10 (pte_bits e)))"

lemma PTE_get_ppn_eq: "PTE_get_ppn e = Some (pte_ppn e)"
proof -
  have "unat (take_bit 44 (drop_bit 10 (pte_bits e))) < 2 ^ 44"
    by (simp only: unat_take_bit_usize mod_less_divisor zero_less_numeral zero_less_power)
  then have "PPN_from_pa (get_pa (pte_ppn e)) = Some (pte_ppn e)"
    by (intro PPN_from_get_pa) (simp add: pte_ppn_def)
  then show ?thesis
    by (simp add: PTE_get_ppn_def pte_ppn_def and_low_mask get_pa_def)
qed

definition pte_null :: PTE where "pte_null = PTE 0"

lemma pte_null_invalid [simp]: "\<not> PTE_is_valid pte_null" "pte_bits pte_null = 0"
  by (simp_all add: pte_null_def PTE_is_valid_def)

lemma PTE_bits_iff:
  "PTE_is_valid e \<longleftrightarrow> bit (pte_bits e) 0"
  "PTE_is_leaf e \<longleftrightarrow> bit (pte_bits e) 0 \<and> (bit (pte_bits e) 3 \<or> bit (pte_bits e) 2)"
  by (auto simp: PTE_is_valid_def PTE_is_leaf_def and_or_eq_0 FLAG_V_def FLAG_X_def FLAG_W_def
      simp del: push_bit_of_1 push_bit_0_id)

text \<open>
  The hardware takes a valid entry with any of the three permission bits for a leaf.  The
  kernel's \<open>is_leaf\<close> does not look at the R bit, so the entries that link tables have to be
  free of it: the invariants below speak of the hardware's notion, which is the weaker one.
\<close>

definition PTE_hw_leaf :: "PTE \<Rightarrow> bool" where
  "PTE_hw_leaf e \<longleftrightarrow> PTE_is_valid e \<and> pte_bits e AND (FLAG_R OR FLAG_W OR FLAG_X) \<noteq> 0"

lemma PTE_hw_leaf_bits:
  "PTE_hw_leaf e \<longleftrightarrow> bit (pte_bits e) 0 \<and> (bit (pte_bits e) 1 \<or> bit (pte_bits e) 2 \<or> bit (pte_bits e) 3)"
  by (auto simp: PTE_bits_iff PTE_hw_leaf_def and_or_eq_0 FLAG_R_def FLAG_X_def FLAG_W_def
      simp del: push_bit_of_1 push_bit_0_id push_bit_Suc)

lemma PTE_leaf_hw [simp]: "\<not> PTE_hw_leaf e \<Longrightarrow> \<not> PTE_is_leaf e"
  by (auto simp: PTE_hw_leaf_bits PTE_bits_iff)

text \<open>The flags of an entry sit below bit 10 and the page number above.\<close>

lemma unknown_flags_iff: "has_unknown_flags_set f \<longleftrightarrow> \<not> unat f < 1024"
proof -
  have "f AND NOT (mask 10) = 0 \<longleftrightarrow> unat (push_bit 10 (drop_bit 10 f)) = 0"
    by (simp add: push_drop_bit [symmetric] unat_eq_0 del: push_bit_eq_0_iff)
  also have "\<dots> \<longleftrightarrow> unat f < 1024" by (simp only: unat_push_drop_bit) auto
  finally show ?thesis
    by (simp add: has_unknown_flags_set_def ALL_FLAGS_def mask_eq_exp_minus_1)
qed

lemma take_bit_flags: "\<not> has_unknown_flags_set f \<Longrightarrow> take_bit 10 f = f"
  by (simp add: unknown_flags_iff word_unat_eq_iff bits_nat)

lemma PTE_new_fields:
  assumes "PTE_new p f = Inr e" "unat (get_raw p) < 2 ^ 44"
  shows "pte_ppn e = p" "take_bit 10 (pte_bits e) = f" "PTE_is_valid e"
proof -
  have valid: "is_valid_flags f" and e: "e = PTE (push_bit 10 (get_raw p) OR f)"
    using assms(1) by (auto simp: PTE_new_def split: if_splits)
  from valid have f: "take_bit 10 f = f" and v: "f AND FLAG_V \<noteq> 0"
    by (auto simp: is_valid_flags_def take_bit_flags has_v_flag_clear_def)
  have "take_bit 44 (get_raw p) = get_raw p"
    using assms(2) by (simp add: word_unat_eq_iff bits_nat)
  moreover have "drop_bit 10 (push_bit 10 (get_raw p) OR take_bit 10 f) = take_bit 54 (get_raw p)"
    by (rule bit_eqI) (auto simp: bit_simps)
  moreover have "take_bit 44 (take_bit 54 (get_raw p)) = take_bit 44 (get_raw p)" by simp
  ultimately show "pte_ppn e = p"
    using f by (simp add: pte_ppn_def e PPN.expand)
  have "take_bit 10 (push_bit 10 (get_raw p) OR take_bit 10 f) = take_bit 10 f"
    by (rule bit_eqI) (auto simp: bit_simps)
  with f show "take_bit 10 (pte_bits e) = f" by (simp add: e)
  show "PTE_is_valid e" using v by (simp add: PTE_is_valid_def e bit.conj_disj_distrib2 or_eq_0_iff)
qed

lemma PTE_new_leaf:
  assumes "PTE_new p f = Inr e" "unat (get_raw p) < 2 ^ 44"
  shows "PTE_hw_leaf e \<longleftrightarrow> bit f 1 \<or> bit f 2 \<or> bit f 3"
proof -
  have "bit (pte_bits e) n \<longleftrightarrow> bit f n" if "n < 10" for n
    using PTE_new_fields(2) [OF assms] that by (metis bit_take_bit_iff)
  then show ?thesis using PTE_new_fields(3) [OF assms] by (simp add: PTE_bits_iff PTE_hw_leaf_bits)
qed

lemma PTE_new_table:
  assumes "unat (get_raw p) < 2 ^ 44"
  obtains e where "PTE_new p FLAG_V = Inr e" "PTE_is_valid e" "\<not> PTE_hw_leaf e" "pte_ppn e = p"
proof -
  have "is_valid_flags FLAG_V"
    by (simp add: is_valid_flags_def has_unknown_flags_set_def has_v_flag_clear_def
        is_reserved_xwr_encodings_def kconst)
  then obtain e where e: "PTE_new p FLAG_V = Inr e" by (simp add: PTE_new_def)
  show ?thesis
    by (rule that [OF e]) (use PTE_new_fields [OF e assms] PTE_new_leaf [OF e assms] in
        \<open>simp_all add: FLAG_V_def bit_1_iff\<close>)
qed

subsection \<open>Memory as table contents\<close>

type_synonym tables = "PPN \<Rightarrow> usize \<Rightarrow> PTE"

text \<open>Pages the linear map reaches: their physical address is below \<open>2^38\<close>.\<close>

definition reachable_ppn :: "PPN \<Rightarrow> bool" where
  "reachable_ppn p \<longleftrightarrow> unat (get_raw p) < 2 ^ 26"

definition tab :: "phys_mem \<Rightarrow> tables" where
  "tab m p i =
     (if reachable_ppn p \<and> i < 512 then PTE (load_u64 m (get_pa p + 8 * i)) else pte_null)"

definition upd :: "tables \<Rightarrow> PPN \<Rightarrow> usize \<Rightarrow> PTE \<Rightarrow> tables" where
  "upd T p i e = T(p := (T p)(i := e))"

lemma entry_addr:
  assumes "reachable_ppn p" "i < 512"
  shows "unat (get_pa p + 8 * i) = unat (get_raw p) * 4096 + 8 * unat i"
    "8 dvd unat (get_pa p + 8 * i)"
proof -
  have i: "unat (8 * i) = 8 * unat i" "8 * unat i < 4096"
    using assms(2) by (simp_all add: unat_word_ariths word_less_nat_alt)
  have p: "unat (get_raw p) < 2 ^ 52" using assms(1) by (simp add: reachable_ppn_def)
  show "unat (get_pa p + 8 * i) = unat (get_raw p) * 4096 + 8 * unat i"
    using drop_bit_get_pa_add(2) [OF p, of "8 * i"] i by simp
  then have "unat (get_pa p + 8 * i) = 8 * (unat (get_raw p) * 512 + unat i)" by simp
  then show "8 dvd unat (get_pa p + 8 * i)" by (rule dvdI)
qed

lemma entry_addr_inj:
  assumes "reachable_ppn p" "i < 512" "reachable_ppn q" "j < 512"
    "get_pa p + 8 * i = get_pa q + 8 * j"
  shows "p = q \<and> i = j"
proof -
  have eq: "unat (get_raw p) * 4096 + 8 * unat i = unat (get_raw q) * 4096 + 8 * unat j"
    using entry_addr(1) [OF assms(1,2)] entry_addr(1) [OF assms(3,4)] assms(5) by simp
  moreover have "8 * unat i < 4096" "8 * unat j < 4096"
    using assms(2,4) by (simp_all add: word_less_nat_alt)
  moreover have "(a * 4096 + x) div 4096 = a" if "x < 4096" for a x :: nat
    using that by simp
  ultimately have "unat (get_raw p) = unat (get_raw q)" by metis
  with eq have "unat i = unat j" by simp
  with \<open>unat (get_raw p) = unat (get_raw q)\<close> show ?thesis
    by (simp add: word_unat_eq_iff PPN.expand)
qed

lemma tab_store [mem_simps]:
  assumes "reachable_ppn p" "i < 512"
  shows "tab (store_u64 m (get_pa p + 8 * i) v) = upd (tab m) p i (PTE v)"
proof (intro ext)
  fix q j
  show "tab (store_u64 m (get_pa p + 8 * i) v) q j = upd (tab m) p i (PTE v) q j"
  proof (cases "reachable_ppn q \<and> j < 512 \<and> \<not> (q = p \<and> j = i)")
    case True
    then have "get_pa p + 8 * i \<noteq> get_pa q + 8 * j" using entry_addr_inj assms by blast
    then have "load_u64 (store_u64 m (get_pa p + 8 * i) v) (get_pa q + 8 * j) =
        load_u64 m (get_pa q + 8 * j)"
      using True assms by (intro load_store_u64_other entry_addr(2)) simp_all
    with True show ?thesis by (auto simp: tab_def upd_def)
  next
    case False
    show ?thesis
    proof (cases "q = p \<and> j = i")
      case True
      then show ?thesis using assms by (simp add: tab_def upd_def load_store_u64_same)
    next
      case other: False
      with False have "\<not> (reachable_ppn q \<and> j < 512)" by blast
      with other show ?thesis by (auto simp: tab_def upd_def)
    qed
  qed
qed

lemma entry_bytes:
  assumes "reachable_ppn q" "j < 512" "unat k < 8"
  shows "drop_bit 12 (get_pa q + 8 * j + k) = get_raw q"
proof -
  have "unat (8 * j + k) = 8 * unat j + unat k" "8 * unat j + unat k < 4096"
    using assms(2,3) by (simp_all add: unat_word_ariths word_less_nat_alt)
  then show ?thesis using drop_bit_get_pa_add(1) [of q "8 * j + k"] assms(1)
    by (simp add: reachable_ppn_def add.assoc)
qed

lemma load_u64_cong:
  assumes "reachable_ppn q" "j < 512" "\<And>a. drop_bit 12 a = get_raw q \<Longrightarrow> m' a = m a"
  shows "load_u64 m' (get_pa q + 8 * j) = load_u64 m (get_pa q + 8 * j)"
proof -
  have "m' (get_pa q + 8 * j + k) = m (get_pa q + 8 * j + k)" if "unat k < 8" for k
    by (rule assms(3) [OF entry_bytes [OF assms(1,2) that]])
  from this [of 0] this [of 1] this [of 2] this [of 3] this [of 4] this [of 5] this [of 6] this [of 7]
  show ?thesis by (simp add: load_u64_def)
qed

text \<open>A table depends on the bytes of its page only.\<close>

lemma tab_page_cong:
  assumes "\<And>a. PPN (drop_bit 12 a) = q \<Longrightarrow> m' a = m a"
  shows "tab m' q = tab m q"
  using assms by (auto simp: tab_def fun_eq_iff intro!: load_u64_cong)

lemma load_zeroed_page:
  assumes "reachable_ppn p" "reachable_ppn q" "j < 512"
  shows "load_u64 (\<lambda>a. if drop_bit 12 a = get_raw p then 0 else m a) (get_pa q + 8 * j) =
    (if q = p then 0 else load_u64 m (get_pa q + 8 * j))"
  using entry_bytes [OF assms(2,3), of 0] entry_bytes [OF assms(2,3), of 1]
    entry_bytes [OF assms(2,3), of 2] entry_bytes [OF assms(2,3), of 3]
    entry_bytes [OF assms(2,3), of 4] entry_bytes [OF assms(2,3), of 5]
    entry_bytes [OF assms(2,3), of 6] entry_bytes [OF assms(2,3), of 7]
  by (auto simp: load_u64_def PPN.expand)

lemma tab_zeroed [mem_simps]:
  assumes "reachable_ppn p"
  shows "tab (\<lambda>a. if drop_bit 12 a = get_raw p then 0 else m a) = (tab m)(p := \<lambda>_. pte_null)"
  using assms by (auto simp: tab_def fun_eq_iff load_zeroed_page pte_null_def)

subsection \<open>The tree\<close>

definition subtable :: "tables \<Rightarrow> PPN \<Rightarrow> usize \<Rightarrow> PPN option" where
  "subtable T p i =
     (if PTE_is_valid (T p i) \<and> \<not> PTE_is_leaf (T p i) then Some (pte_ppn (T p i)) else None)"

text \<open>The table of level 1 at index \<open>i\<close> of the root, and of level 0 at \<open>i\<close>, \<open>j\<close>.\<close>

definition table1 :: "tables \<Rightarrow> PPN \<Rightarrow> usize \<Rightarrow> PPN option" where
  "table1 T r i = subtable T r i"

definition table0 :: "tables \<Rightarrow> PPN \<Rightarrow> usize \<Rightarrow> usize \<Rightarrow> PPN option" where
  "table0 T r i j = (case table1 T r i of None \<Rightarrow> None | Some p \<Rightarrow> subtable T p j)"

text \<open>The page-level mapping the tree represents: indices of levels 2, 1, 0 to the leaf entry.\<close>

definition walk :: "tables \<Rightarrow> PPN \<Rightarrow> usize \<Rightarrow> usize \<Rightarrow> usize \<Rightarrow> PTE option" where
  "walk T r i j k =
     (case table0 T r i j of
        None \<Rightarrow> None
      | Some p \<Rightarrow> if PTE_is_valid (T p k) then Some (T p k) else None)"

definition table_pages :: "tables \<Rightarrow> PPN \<Rightarrow> PPN set" where
  "table_pages T r =
     {r} \<union> {p. \<exists>i. table1 T r i = Some p} \<union> {p. \<exists>i j. table0 T r i j = Some p}"

lemma table_pages_ran:
  "table_pages T r = {r} \<union> ran (table1 T r) \<union> (\<Union>i. ran (table0 T r i))"
  by (auto simp: table_pages_def ran_def)

text \<open>
  The tree is well-formed when all its tables are in reachable pages and no page holds two of
  them.
\<close>

definition pgt_wf :: "tables \<Rightarrow> PPN \<Rightarrow> bool" where
  "pgt_wf T r \<longleftrightarrow>
     (\<forall>p \<in> table_pages T r. reachable_ppn p) \<and>
     (\<forall>i p. table1 T r i = Some p \<longrightarrow> p \<noteq> r) \<and>
     (\<forall>i i' p. table1 T r i = Some p \<and> table1 T r i' = Some p \<longrightarrow> i = i') \<and>
     (\<forall>i j p. table0 T r i j = Some p \<longrightarrow> p \<noteq> r \<and> (\<forall>k. table1 T r k \<noteq> Some p)) \<and>
     (\<forall>i j i' j' p. table0 T r i j = Some p \<and> table0 T r i' j' = Some p \<longrightarrow> i = i' \<and> j = j')"

lemma table_pages_intros:
  "r \<in> table_pages T r"
  "table1 T r i = Some p \<Longrightarrow> p \<in> table_pages T r"
  "table0 T r i j = Some p \<Longrightarrow> p \<in> table_pages T r"
  by (auto simp: table_pages_def)

lemma pgt_wfD:
  assumes "pgt_wf T r"
  shows "p \<in> table_pages T r \<Longrightarrow> reachable_ppn p"
    "table1 T r i = Some p \<Longrightarrow> p \<noteq> r"
    "table1 T r i = Some p \<Longrightarrow> table1 T r i' = Some p \<Longrightarrow> i = i'"
    "table0 T r i j = Some p \<Longrightarrow> p \<noteq> r"
    "table0 T r i j = Some p \<Longrightarrow> table1 T r k \<noteq> Some p"
    "table0 T r i j = Some p \<Longrightarrow> table0 T r i' j' = Some p \<Longrightarrow> i = i' \<and> j = j'"
  using assms unfolding pgt_wf_def by blast+

text \<open>Contents that agree on the tables of the tree give the same tree.\<close>

lemma tree_cong:
  assumes "\<And>p i. p \<in> table_pages T r \<Longrightarrow> T' p i = T p i"
  shows "table1 T' r = table1 T r" "table0 T' r = table0 T r" "walk T' r = walk T r"
    "table_pages T' r = table_pages T r" "pgt_wf T' r \<longleftrightarrow> pgt_wf T r"
proof -
  show t1: "table1 T' r = table1 T r"
    using assms [OF table_pages_intros(1)] by (simp add: fun_eq_iff table1_def subtable_def)
  show t0: "table0 T' r = table0 T r"
    using assms [OF table_pages_intros(2)]
    by (auto simp: fun_eq_iff table0_def t1 subtable_def split: option.splits)
  show "walk T' r = walk T r"
    using assms [OF table_pages_intros(3)]
    by (auto simp: fun_eq_iff walk_def t0 split: option.splits)
  show tp: "table_pages T' r = table_pages T r" by (simp add: table_pages_def t1 t0)
  show "pgt_wf T' r \<longleftrightarrow> pgt_wf T r" by (simp add: pgt_wf_def t1 t0 tp)
qed

lemma tree_off_page:
  assumes "n \<notin> table_pages T r"
  shows "table1 (T(n := f)) r = table1 T r" "table0 (T(n := f)) r = table0 T r"
    "walk (T(n := f)) r = walk T r" "table_pages (T(n := f)) r = table_pages T r"
    "pgt_wf (T(n := f)) r \<longleftrightarrow> pgt_wf T r"
  by (rule tree_cong; use assms in auto)+

subsection \<open>Changes confined to some entries of the root\<close>

text \<open>The tables reached through the entries \<open>I\<close> of the root, and the root.\<close>

definition under :: "tables \<Rightarrow> PPN \<Rightarrow> usize set \<Rightarrow> PPN set" where
  "under T r I =
     {r} \<union> {p. \<exists>i \<in> I. table1 T r i = Some p} \<union> {p. \<exists>i \<in> I. \<exists>j. table0 T r i j = Some p}"

text \<open>
  The tree keeps its tables and its large pages, gains no large page, and its root changes at
  most at the entries \<open>I\<close>.
\<close>

definition tree_kept :: "usize set \<Rightarrow> tables \<Rightarrow> tables \<Rightarrow> PPN \<Rightarrow> bool" where
  "tree_kept I T T' r \<longleftrightarrow>
     (\<forall>i p. table1 T r i = Some p \<longrightarrow> table1 T' r i = Some p) \<and>
     (\<forall>i j p. table0 T r i j = Some p \<longrightarrow> table0 T' r i j = Some p) \<and>
     (\<forall>i. i \<notin> I \<longrightarrow> T' r i = T r i) \<and>
     (\<forall>i. PTE_hw_leaf (T r i) \<or> PTE_hw_leaf (T' r i) \<longrightarrow> T' r i = T r i) \<and>
     (\<forall>i q j. table1 T r i = Some q \<and> PTE_hw_leaf (T q j) \<longrightarrow> T' q j = T q j) \<and>
     (\<forall>i q j. table1 T' r i = Some q \<and> PTE_hw_leaf (T' q j) \<longrightarrow>
        table1 T r i = Some q \<and> T' q j = T q j)"

lemma tree_keptD:
  assumes "tree_kept I T T' r"
  shows "table1 T r i = Some p \<Longrightarrow> table1 T' r i = Some p"
    "table0 T r i j = Some p \<Longrightarrow> table0 T' r i j = Some p"
    "i \<notin> I \<Longrightarrow> T' r i = T r i" "PTE_hw_leaf (T r i) \<or> PTE_hw_leaf (T' r i) \<Longrightarrow> T' r i = T r i"
    "table1 T r i = Some p \<Longrightarrow> PTE_hw_leaf (T p j) \<Longrightarrow> T' p j = T p j"
    "table1 T' r i = Some p \<Longrightarrow> PTE_hw_leaf (T' p j) \<Longrightarrow> table1 T r i = Some p \<and> T' p j = T p j"
  using assms unfolding tree_kept_def by blast+

lemma tree_kept_refl: "tree_kept I T T r"
  by (simp add: tree_kept_def)

lemma tree_kept_trans: "tree_kept I T T' r \<Longrightarrow> tree_kept I T' T'' r \<Longrightarrow> tree_kept I T T'' r"
  unfolding tree_kept_def by (elim conjE, intro conjI) metis+

lemma tree_kept_mono: "tree_kept I T T' r \<Longrightarrow> I \<subseteq> J \<Longrightarrow> tree_kept J T T' r"
  unfolding tree_kept_def by blast

lemma tree_kept_under: "tree_kept I T T' r \<Longrightarrow> under T r J \<subseteq> under T' r J"
  unfolding tree_kept_def under_def by blast

lemma under_mono: "I \<subseteq> J \<Longrightarrow> under T r I \<subseteq> under T r J"
  unfolding under_def by blast

lemma under_table_pages: "under T r I \<subseteq> table_pages T r"
  unfolding under_def table_pages_def by blast

lemma under_intros:
  "r \<in> under T r I"
  "table1 T r i = Some p \<Longrightarrow> i \<in> I \<Longrightarrow> p \<in> under T r I"
  "table0 T r i j = Some p \<Longrightarrow> i \<in> I \<Longrightarrow> p \<in> under T r I"
  by (auto simp: under_def)

lemma under_back:
  assumes "pgt_wf T' r" "tree_kept I T T' r" "p \<in> under T' r I" "p \<in> table_pages T r"
  shows "p \<in> under T r I"
proof -
  note D = pgt_wfD [OF assms(1)] and K = tree_keptD [OF assms(2)]
  from assms(4) consider "p = r" | i where "table1 T r i = Some p" | i j where "table0 T r i j = Some p"
    by (auto simp: table_pages_def)
  then show ?thesis
  proof cases
    case (2 i)
    have "i \<in> I" using assms(3) D(2,3,5) K(1) [OF 2] unfolding under_def by blast
    with 2 show ?thesis by (rule under_intros)
  next
    case (3 i j)
    have "i \<in> I" using assms(3) D(4,5,6) K(2) [OF 3] unfolding under_def by blast
    with 3 show ?thesis by (rule under_intros)
  qed (simp add: under_intros)
qed

lemma tree_kept_off_page:
  assumes "n \<notin> table_pages T r"
  shows "tree_kept I T (T(n := f)) r"
proof -
  have "n \<noteq> r" "table1 T r i \<noteq> Some n" for i using assms by (auto simp: table_pages_def)
  then show ?thesis by (auto simp: tree_kept_def tree_off_page [OF assms])
qed

subsection \<open>Updates of the tree\<close>

lemma upd_apply: "upd T p k e q j = (if q = p \<and> j = k then e else T q j)"
  by (simp add: upd_def)

lemma subtable_upd:
  "subtable (upd T p k e) q j =
     (if q = p \<and> j = k
      then if PTE_is_valid e \<and> \<not> PTE_is_leaf e then Some (pte_ppn e) else None
      else subtable T q j)"
  by (cases "q = p \<and> j = k") (auto simp: subtable_def upd_apply)

text \<open>Writing an entry of a level-0 table changes the mapping at that entry only.\<close>

lemma upd_level0:
  assumes "pgt_wf T r" "table0 T r a b = Some p"
  shows "table1 (upd T p c e) r = table1 T r" "table0 (upd T p c e) r = table0 T r"
    "walk (upd T p c e) r i j k =
       (if i = a \<and> j = b \<and> k = c then if PTE_is_valid e then Some e else None else walk T r i j k)"
    "pgt_wf (upd T p c e) r" "table_pages (upd T p c e) r = table_pages T r"
    "tree_kept I T (upd T p c e) r"
proof -
  note wf = pgt_wfD [OF assms(1)]
  show t1: "table1 (upd T p c e) r = table1 T r"
    using wf(4) [OF assms(2)] by (auto simp: fun_eq_iff table1_def subtable_upd)
  show t0: "table0 (upd T p c e) r = table0 T r"
    using wf(5) [OF assms(2)]
    by (auto simp: fun_eq_iff table0_def t1 subtable_upd split: option.splits)
  show "walk (upd T p c e) r i j k =
       (if i = a \<and> j = b \<and> k = c then if PTE_is_valid e then Some e else None else walk T r i j k)"
  proof (cases "table0 T r i j")
    case (Some q)
    then have "q = p \<longleftrightarrow> i = a \<and> j = b" using wf(6) [OF assms(2), of i j] assms(2) by auto
    with Some show ?thesis by (simp add: walk_def t0 upd_apply)
  qed (use assms(2) in \<open>auto simp: walk_def t0\<close>)
  show tp: "table_pages (upd T p c e) r = table_pages T r" by (simp add: table_pages_def t1 t0)
  show "pgt_wf (upd T p c e) r" using assms(1) by (simp add: pgt_wf_def t1 t0 tp)
  show "tree_kept I T (upd T p c e) r"
    using wf(4,5) [OF assms(2)] by (auto simp: tree_kept_def t1 t0 upd_apply split: if_splits)
qed

text \<open>Linking a fresh zeroed table into an invalid entry of the root.\<close>

lemma upd_link1:
  assumes "pgt_wf T r" "\<not> PTE_is_valid (T r a)" "n \<notin> table_pages T r" "reachable_ppn n"
    "T n = (\<lambda>_. pte_null)" "PTE_is_valid e" "\<not> PTE_hw_leaf e" "pte_ppn e = n"
  shows "table1 (upd T r a e) r = (table1 T r)(a \<mapsto> n)" "table0 (upd T r a e) r = table0 T r"
    "walk (upd T r a e) r = walk T r" "pgt_wf (upd T r a e) r"
    "table_pages (upd T r a e) r = insert n (table_pages T r)" "tree_kept {a} T (upd T r a e) r"
proof -
  note wf = pgt_wfD [OF assms(1)]
  have n: "n \<noteq> r" "\<And>i. table1 T r i \<noteq> Some n" "\<And>i j. table0 T r i j \<noteq> Some n"
    using assms(3) by (auto simp: table_pages_def)
  have a: "table1 T r a = None" using assms(2) by (simp add: table1_def subtable_def)
  show t1: "table1 (upd T r a e) r = (table1 T r)(a \<mapsto> n)"
    using assms(6-8) by (auto simp: fun_eq_iff table1_def subtable_upd)
  have "subtable T n = Map.empty" by (simp add: fun_eq_iff subtable_def assms(5))
  then show t0: "table0 (upd T r a e) r = table0 T r"
    using n(1) wf(2) a by (auto simp: fun_eq_iff table0_def t1 subtable_upd split: option.splits)
  show "walk (upd T r a e) r = walk T r"
    using wf(4) by (simp add: fun_eq_iff walk_def t0 upd_apply split: option.split)
  show tp: "table_pages (upd T r a e) r = insert n (table_pages T r)"
    using a by (simp add: table_pages_ran t1 t0 ran_map_upd)
  show "pgt_wf (upd T r a e) r"
    using assms(1,4) n a unfolding pgt_wf_def t1 t0 tp by (auto split: if_splits)
  have "PTE_hw_leaf (upd T r a e n j) \<longleftrightarrow> False" for j
    using assms(5) n(1) by (simp add: upd_apply PTE_hw_leaf_def)
  then show "tree_kept {a} T (upd T r a e) r"
    using a assms(2) wf(2) assms(7) unfolding tree_kept_def t1 t0
    by (auto simp: upd_apply PTE_hw_leaf_def split: if_splits)
qed

text \<open>Linking a fresh zeroed table into an invalid entry of a level-1 table.\<close>

lemma upd_link0:
  assumes "pgt_wf T r" "table1 T r a = Some q" "\<not> PTE_is_valid (T q b)" "n \<notin> table_pages T r"
    "reachable_ppn n" "T n = (\<lambda>_. pte_null)" "PTE_is_valid e" "\<not> PTE_hw_leaf e" "pte_ppn e = n"
  shows "table1 (upd T q b e) r = table1 T r"
    "table0 (upd T q b e) r = (table0 T r)(a := (table0 T r a)(b \<mapsto> n))"
    "walk (upd T q b e) r = walk T r" "pgt_wf (upd T q b e) r"
    "table_pages (upd T q b e) r = insert n (table_pages T r)" "tree_kept I T (upd T q b e) r"
proof -
  note wf = pgt_wfD [OF assms(1)]
  have n: "n \<noteq> r" "\<And>i. table1 T r i \<noteq> Some n" "\<And>i j. table0 T r i j \<noteq> Some n"
    using assms(4) by (auto simp: table_pages_def)
  have b: "table0 T r a b = None" using assms(2,3) by (simp add: table0_def subtable_def)
  show t1: "table1 (upd T q b e) r = table1 T r"
    using wf(2) [OF assms(2)] by (auto simp: fun_eq_iff table1_def subtable_upd)
  show t0: "table0 (upd T q b e) r = (table0 T r)(a := (table0 T r a)(b \<mapsto> n))"
  proof (intro ext)
    fix i j
    show "table0 (upd T q b e) r i j = ((table0 T r)(a := (table0 T r a)(b \<mapsto> n))) i j"
    proof (cases "table1 T r i")
      case (Some p)
      then have "p = q \<longleftrightarrow> i = a" using wf(3) [OF assms(2), of i] assms(2) by auto
      with Some assms(2,7-9) show ?thesis by (auto simp: table0_def t1 subtable_upd)
    qed (use assms(2) in \<open>auto simp: table0_def t1\<close>)
  qed
  show "walk (upd T q b e) r = walk T r"
  proof (intro ext)
    fix i j k
    have "upd T q b e n k = pte_null" using assms(2,6) n(2) by (auto simp: upd_apply)
    moreover have "table0 T r i j = Some p \<Longrightarrow> upd T q b e p k = T p k" for p
      using wf(5) assms(2) by (auto simp: upd_apply)
    ultimately show "walk (upd T q b e) r i j k = walk T r i j k"
      using b by (simp add: walk_def t0 split: option.split)
  qed
  show tp: "table_pages (upd T q b e) r = insert n (table_pages T r)"
  proof -
    have "ran (table0 (upd T q b e) r i) =
        (if i = a then insert n (ran (table0 T r a)) else ran (table0 T r i))" for i
      using b by (simp add: t0 ran_map_upd)
    then have "(\<Union>i. ran (table0 (upd T q b e) r i)) = insert n (\<Union>i. ran (table0 T r i))"
      by auto metis
    then show ?thesis by (simp add: table_pages_ran t1)
  qed
  show "pgt_wf (upd T q b e) r"
    using assms(1,5) n b unfolding pgt_wf_def t1 t0 tp by (auto split: if_splits) metis
  show "tree_kept I T (upd T q b e) r"
    using b wf(2) [OF assms(2)] assms(3,8) unfolding tree_kept_def t1 t0
    by (auto simp: upd_apply PTE_hw_leaf_def split: if_splits)
qed

end
