(* ===== verification/Sv39_Map.thy ===== *)
theory Sv39_Map
  imports Sv39_Tree
begin

text \<open>
  What the mapping operations of \<open>RootPgt\<close> do to the tree: \<open>map_create\<close> never panics on a
  well-formed tree, adds exactly the requested mapping when it succeeds, and leaves the mapping
  alone when it fails.
\<close>

subsection \<open>The state of one root table\<close>

abbreviation mtab :: "mm_state \<Rightarrow> tables" where
  "mtab s \<equiv> tab (phys s)"

text \<open>A root table in good standing: its tree is well-formed and no page of it is free.\<close>

definition pgt_ok :: "RootPgt \<Rightarrow> mm_state \<Rightarrow> bool" where
  "pgt_ok t s \<longleftrightarrow>
     mm_inv s \<and> pgt_wf (mtab s) (root_ppn t) \<and> table_pages (mtab s) (root_ppn t) \<subseteq> mheld s"

text \<open>
  Growth of a root table: the pages it acquires come from the allocator, are appended to its
  list and become tables of the tree; memory outside the tables is untouched.
\<close>

definition pgt_grows :: "usize set \<Rightarrow> RootPgt \<Rightarrow> mm_state \<Rightarrow> RootPgt \<Rightarrow> mm_state \<Rightarrow> Page list \<Rightarrow> bool" where
  "pgt_grows I t s t' s' ps \<longleftrightarrow>
     root_ppn t' = root_ppn t \<and> root_pages t' = root_pages t @ ps \<and>
     distinct (map get_ppn ps) \<and> get_ppn ` set ps \<subseteq> mfree s \<and>
     mfree s' = mfree s - get_ppn ` set ps \<and> mheld s' = mheld s \<union> get_ppn ` set ps \<and>
     table_pages (mtab s') (root_ppn t) = table_pages (mtab s) (root_ppn t) \<union> get_ppn ` set ps \<and>
     KERNEL_SATP s' = KERNEL_SATP s \<and>
     tree_kept I (mtab s) (mtab s') (root_ppn t) \<and>
     (\<forall>a. PPN (drop_bit 12 a) \<notin> under (mtab s') (root_ppn t) I \<longrightarrow> phys s' a = phys s a)"

lemma pgt_grows_refl: "pgt_grows I t s t s []"
  by (simp add: pgt_grows_def tree_kept_refl)

lemma pgt_grows_trans:
  assumes "pgt_grows I t s t' s' ps" "pgt_grows I t' s' t'' s'' qs"
  shows "pgt_grows I t s t'' s'' (ps @ qs)"
proof -
  have kept: "tree_kept I (mtab s) (mtab s') (root_ppn t)" "tree_kept I (mtab s') (mtab s'') (root_ppn t)"
    and u: "\<And>a. PPN (drop_bit 12 a) \<notin> under (mtab s') (root_ppn t) I \<Longrightarrow> phys s' a = phys s a"
    "\<And>a. PPN (drop_bit 12 a) \<notin> under (mtab s'') (root_ppn t) I \<Longrightarrow> phys s'' a = phys s' a"
    using assms by (simp_all add: pgt_grows_def)
  have "phys s'' a = phys s a" if "PPN (drop_bit 12 a) \<notin> under (mtab s'') (root_ppn t) I" for a
    using u that tree_kept_under [OF kept(2), of I] by auto
  with tree_kept_trans [OF kept] assms show ?thesis unfolding pgt_grows_def by auto
qed

lemma pgt_grows_mono:
  assumes "pgt_grows I t s t' s' ps" "I \<subseteq> J"
  shows "pgt_grows J t s t' s' ps"
proof -
  have "phys s' a = phys s a" if "PPN (drop_bit 12 a) \<notin> under (mtab s') (root_ppn t) J" for a
    using assms(1) that under_mono [OF assms(2), of "mtab s'" "root_ppn t"]
    by (auto simp: pgt_grows_def)
  then show ?thesis
    using assms(1) tree_kept_mono [OF _ assms(2), of "mtab s" "mtab s'" "root_ppn t"]
    by (simp add: pgt_grows_def)
qed

subsection \<open>Accesses to a table\<close>

definition table_ptr :: "PPN \<Rightarrow> usize" where
  "table_ptr p = get_pa p + KERNEL_VA_OFFSET"

lemma get_ptes_mut_reachable: "reachable_ppn p \<Longrightarrow> get_ptes_mut p = Some (table_ptr p)"
  by (simp add: get_ptes_mut_def get_pa_mut_ptr_def get_va_from_pa_Some table_ptr_def
      reachable_ppn_def unat_get_pa)

lemma pte_load_ptr:
  "reachable_ppn p \<Longrightarrow> i < 512 \<Longrightarrow> pte_load (table_ptr p) i m = Some (tab m p i)"
  by (simp add: pte_load_def table_ptr_def tab_def PTES_PER_TABLE_def)

lemma pte_store_ptr:
  "reachable_ppn p \<Longrightarrow> i < 512 \<Longrightarrow>
     pte_store (table_ptr p) i e m = Some (store_u64 m (get_pa p + 8 * i) (pte_bits e))"
  by (simp add: pte_store_def table_ptr_def PTES_PER_TABLE_def)

text \<open>An entry store touches only the page of its table.\<close>

lemma store_outside:
  assumes "reachable_ppn p" "i < 512" "drop_bit 12 a \<noteq> get_raw p"
  shows "store_u64 m (get_pa p + 8 * i) v a = m a"
proof -
  have "a \<noteq> get_pa p + 8 * i + k" if "unat k < 8" for k
  proof -
    have "unat (8 * i + k) = 8 * unat i + unat k" "8 * unat i + unat k < 4096"
      using assms(2) that by (simp_all add: unat_word_ariths word_less_nat_alt)
    then show ?thesis using drop_bit_get_pa_add(1) [of p "8 * i + k"] assms(1,3)
      by (auto simp: reachable_ppn_def add.assoc)
  qed
  from this [of 0] this [of 1] this [of 2] this [of 3] this [of 4] this [of 5] this [of 6] this [of 7]
  show ?thesis by (simp add: store_u64_def)
qed

lemma parse_vpn_bound: "k < 3 \<Longrightarrow> parse_vpn v ! k < 512"
proof -
  have "take_bit 9 x < (512 :: usize)" for x
    by (simp add: word_less_nat_alt bits_nat)
  moreover assume "k < 3"
  ultimately show ?thesis
    by (auto simp: parse_vpn_def Let_def and_low_mask less_Suc_eq numeral_3_eq_3)
qed

subsection \<open>One step down\<close>

lemma descend_cases:
  assumes "mm_inv s" "reachable_ppn q" "i < 512" "q \<notin> mfree s"
    and rch: "\<And>c. subtable (mtab s) q i = Some c \<Longrightarrow> reachable_ppn c"
  obtains (leaf) "PTE_is_leaf (mtab s q i)"
      "descend vpn ppn (table_ptr q) i t s = Some (Inl (DoubleMapping vpn ppn), t, s)"
  | (full) "\<not> PTE_is_valid (mtab s q i)" "mfree s = {}"
      "descend vpn ppn (table_ptr q) i t s = Some (Inl AcquirePageFailed, t, s)"
  | (child) c where "subtable (mtab s) q i = Some c"
      "descend vpn ppn (table_ptr q) i t s = Some (Inr (table_ptr c), t, s)"
  | (fresh) page e s' where "\<not> PTE_is_valid (mtab s q i)" "get_ppn page \<in> mfree s"
      "PTE_is_valid e" "\<not> PTE_hw_leaf e" "pte_ppn e = get_ppn page"
      "descend vpn ppn (table_ptr q) i t s =
         Some (Inr (table_ptr (get_ppn page)), t\<lparr>root_pages := root_pages t @ [page]\<rparr>, s')"
      "mtab s' = upd ((mtab s)(get_ppn page := \<lambda>_. pte_null)) q i e"
      "mfree s' = mfree s - {get_ppn page}" "mheld s' = insert (get_ppn page) (mheld s)"
      "mm_inv s'" "KERNEL_SATP s' = KERNEL_SATP s"
      "\<And>a. PPN (drop_bit 12 a) \<notin> {q, get_ppn page} \<Longrightarrow> phys s' a = phys s a"
proof (cases "PTE_is_valid (mtab s q i)")
  case True
  note load = pte_load_ptr [OF assms(2,3)]
  show ?thesis
  proof (cases "PTE_is_leaf (mtab s q i)")
    case leaf': True
    with True load show ?thesis by (intro leaf) (simp_all add: descend_def)
  next
    case False
    let ?c = "pte_ppn (mtab s q i)"
    have "subtable (mtab s) q i = Some ?c" using True False by (simp add: subtable_def)
    with True False load rch [of ?c] show ?thesis
      by (intro child [of ?c]) (simp_all add: descend_def PTE_get_ppn_eq get_ptes_mut_reachable)
  qed
next
  case False
  note load = pte_load_ptr [OF assms(2,3)] and store = pte_store_ptr [OF assms(2,3)]
  show ?thesis
  proof (rule alloc_zeroed_page_cases [OF assms(1)])
    assume "alloc_zeroed_page s = Some (None, s)" "mfree s = {}"
    with False load show ?thesis by (intro full) (simp_all add: descend_def)
  next
    fix page s1
    assume a: "alloc_zeroed_page s = Some (Some page, s1)" "get_ppn page \<in> mfree s"
      "mfree s1 = mfree s - {get_ppn page}" "mheld s1 = insert (get_ppn page) (mheld s)"
      "mm_inv s1" "KERNEL_SATP s1 = KERNEL_SATP s"
      "phys s1 = (\<lambda>a. if drop_bit 12 a = get_raw (get_ppn page) then 0 else phys s a)"
    let ?n = "get_ppn page"
    have n: "reachable_ppn ?n" "unat (get_raw ?n) < 2 ^ 44" "?n \<noteq> q"
      using free_ppn_small [OF assms(1) a(2)] assms(4) a(2) by (auto simp: reachable_ppn_def)
    obtain e where e: "PTE_new ?n FLAG_V = Inr e" "PTE_is_valid e" "\<not> PTE_hw_leaf e" "pte_ppn e = ?n"
      by (rule PTE_new_table [OF n(2)])
    let ?m = "store_u64 (phys s1) (get_pa q + 8 * i) (pte_bits e)"
    have tab1: "tab (phys s1) = (mtab s)(?n := \<lambda>_. pte_null)"
      unfolding a(7) by (rule tab_zeroed [OF n(1)])
    have tab2: "tab ?m = upd ((mtab s)(?n := \<lambda>_. pte_null)) q i e"
      using tab_store [OF assms(2,3), of "phys s1" "pte_bits e"] by (simp add: tab1)
    have "descend vpn ppn (table_ptr q) i t s =
        Some (Inr (table_ptr ?n), t\<lparr>root_pages := root_pages t @ [page]\<rparr>, s1\<lparr>phys := ?m\<rparr>)"
      using False load [of "phys s"] load [of ?m] store e a(1) n(1)
      by (simp add: descend_def tab2 upd_apply PTE_get_ppn_eq get_ptes_mut_reachable vec_push_def)
    then show ?thesis
    proof (rule fresh [OF False a(2) e(2-4)])
      show "mtab (s1\<lparr>phys := ?m\<rparr>) = upd ((mtab s)(?n := \<lambda>_. pte_null)) q i e"
        by (simp add: tab2)
      fix a assume "PPN (drop_bit 12 a) \<notin> {q, ?n}"
      then have "drop_bit 12 a \<noteq> get_raw q" "drop_bit 12 a \<noteq> get_raw ?n" by auto
      then show "phys (s1\<lparr>phys := ?m\<rparr>) a = phys s a"
        by (simp add: store_outside [OF assms(2,3)] a(7))
    qed (use a in \<open>simp_all add: mm_inv_def\<close>)
  qed
qed

text \<open>
  The step at the root and the step at a level-1 table.  A page of a table already under a
  leaf is \<open>DoubleMapping\<close>; a missing page of memory is \<open>AcquirePageFailed\<close>; else there is a child
  table afterwards, with the same mapping.
\<close>

lemma pgt_okD:
  assumes "pgt_ok t s"
  shows "mm_inv s" "pgt_wf (mtab s) (root_ppn t)"
    "p \<in> table_pages (mtab s) (root_ppn t) \<Longrightarrow> p \<in> mheld s"
    "p \<in> table_pages (mtab s) (root_ppn t) \<Longrightarrow> p \<notin> mfree s"
    "p \<in> table_pages (mtab s) (root_ppn t) \<Longrightarrow> reachable_ppn p"
  using assms pool.free_held [of "PAGE_ALLOCATOR s"]
  unfolding pgt_ok_def mm_inv_def pgt_wf_def by blast+

text \<open>Linking one fresh page: the tree stays in good standing and grows by that page.\<close>

lemma link_ok:
  assumes ok: "pgt_ok t s"
    and link: "pgt_wf (mtab s') (root_ppn t)"
      "table_pages (mtab s') (root_ppn t) = insert (get_ppn page) (table_pages (mtab s) (root_ppn t))"
    and alloc: "get_ppn page \<in> mfree s" "mfree s' = mfree s - {get_ppn page}"
      "mheld s' = insert (get_ppn page) (mheld s)" "mm_inv s'" "KERNEL_SATP s' = KERNEL_SATP s"
    and kept: "tree_kept I (mtab s) (mtab s') (root_ppn t)"
    and frame: "{q, get_ppn page} \<subseteq> under (mtab s') (root_ppn t) I"
      "\<And>a. PPN (drop_bit 12 a) \<notin> {q, get_ppn page} \<Longrightarrow> phys s' a = phys s a"
  shows "pgt_ok (t\<lparr>root_pages := root_pages t @ [page]\<rparr>) s'"
    "pgt_grows I t s (t\<lparr>root_pages := root_pages t @ [page]\<rparr>) s' [page]"
proof -
  have "phys s' a = phys s a"
    if "PPN (drop_bit 12 a) \<notin> under (mtab s') (root_ppn t) I" for a
    by (rule frame(2)) (use that frame(1) in auto)
  with link(2) alloc kept show "pgt_grows I t s (t\<lparr>root_pages := root_pages t @ [page]\<rparr>) s' [page]"
    unfolding pgt_grows_def by auto
qed (use ok link alloc in \<open>auto simp: pgt_ok_def\<close>)

lemma fresh_page:
  assumes "pgt_ok t s" "p \<in> mfree s"
  shows "p \<notin> table_pages (mtab s) (root_ppn t)" "reachable_ppn p"
  using pgt_okD(4) [OF assms(1)] free_ppn_small [OF pgt_okD(1) [OF assms(1)] assms(2)] assms(2)
  by (auto simp: reachable_ppn_def)

lemma descend_root:
  assumes ok: "pgt_ok t s" and i: "i < 512" and r: "r = root_ppn t"
  obtains (leaf) "PTE_is_leaf (mtab s r i)"
      "descend vpn ppn (table_ptr r) i t s = Some (Inl (DoubleMapping vpn ppn), t, s)"
  | (full) "table1 (mtab s) r i = None" "\<not> PTE_is_leaf (mtab s r i)" "mfree s = {}"
      "descend vpn ppn (table_ptr r) i t s = Some (Inl AcquirePageFailed, t, s)"
  | (old) c where "descend vpn ppn (table_ptr r) i t s = Some (Inr (table_ptr c), t, s)"
      "table1 (mtab s) r i = Some c" "\<not> PTE_is_leaf (mtab s r i)"
  | (new) c t' s' ps where
      "descend vpn ppn (table_ptr r) i t s = Some (Inr (table_ptr c), t', s')"
      "table1 (mtab s) r i = None" "\<not> PTE_is_leaf (mtab s r i)"
      "table1 (mtab s') r i = Some c" "mtab s' c = (\<lambda>_. pte_null)"
      "pgt_ok t' s'" "pgt_grows {i} t s t' s' ps" "walk (mtab s') r = walk (mtab s) r"
proof -
  note D = pgt_okD [OF ok, folded r]
  have R: "reachable_ppn r" "r \<notin> mfree s" using D(4,5) table_pages_intros(1) by auto
  have c: "reachable_ppn c" if "subtable (mtab s) r i = Some c" for c
    using D(5) table_pages_intros(2) that by (simp add: table1_def)
  show ?thesis
  proof (rule descend_cases [OF D(1) R(1) i R(2), of vpn ppn t], goal_cases rch leaf full child fresh)
    case (fresh page e s')
    let ?n = "get_ppn page" and ?T = "(mtab s)(get_ppn page := \<lambda>_. pte_null)"
    note n = fresh_page [OF ok fresh(2), folded r] and T = tree_off_page [OF n(1)]
    from n(1) have nr: "?n \<noteq> r" using table_pages_intros(1) by auto
    have link: "table1 (mtab s') r = (table1 ?T r)(i \<mapsto> ?n)" "walk (mtab s') r = walk ?T r"
      "pgt_wf (mtab s') r" "table_pages (mtab s') r = insert ?n (table_pages ?T r)"
      "tree_kept {i} ?T (mtab s') r"
      unfolding fresh(7) by (rule upd_link1; use fresh n nr D(2) T in auto)+
    have kept: "tree_kept {i} (mtab s) (mtab s') r"
      using tree_kept_trans [OF tree_kept_off_page [OF n(1)] link(5)] .
    have q: "{r, ?n} \<subseteq> under (mtab s') r {i}" by (auto intro: under_intros simp: link(1))
    note L = link_ok [OF ok link(3,4) [unfolded r T(4) [unfolded r]] fresh(2,8-11) kept [unfolded r]
        q [unfolded r] fresh(12) [unfolded r]]
    show ?thesis
      by (rule new [OF fresh(6) _ _ _ _ L])
        (use fresh(1,7) nr link(1,2) T in \<open>auto simp: table1_def subtable_def upd_def PTE_bits_iff\<close>)
  qed (auto intro: c leaf full old simp: table1_def subtable_def PTE_bits_iff split: if_splits)
qed

lemma descend_level1:
  assumes ok: "pgt_ok t s" and i: "i < 512" and r: "r = root_ppn t" and q: "table1 (mtab s) r a = Some q"
  obtains (leaf) "PTE_is_leaf (mtab s q i)"
      "descend vpn ppn (table_ptr q) i t s = Some (Inl (DoubleMapping vpn ppn), t, s)"
  | (full) "table0 (mtab s) r a i = None" "\<not> PTE_is_leaf (mtab s q i)" "mfree s = {}"
      "descend vpn ppn (table_ptr q) i t s = Some (Inl AcquirePageFailed, t, s)"
  | (old) c where "descend vpn ppn (table_ptr q) i t s = Some (Inr (table_ptr c), t, s)"
      "table0 (mtab s) r a i = Some c" "\<not> PTE_is_leaf (mtab s q i)"
  | (new) c t' s' ps where
      "descend vpn ppn (table_ptr q) i t s = Some (Inr (table_ptr c), t', s')"
      "table0 (mtab s) r a i = None" "\<not> PTE_is_leaf (mtab s q i)"
      "table0 (mtab s') r a i = Some c" "mtab s' c = (\<lambda>_. pte_null)"
      "pgt_ok t' s'" "pgt_grows {a} t s t' s' ps" "walk (mtab s') r = walk (mtab s) r"
proof -
  note D = pgt_okD [OF ok, folded r]
  have qt: "q \<in> table_pages (mtab s) r" using q by (rule table_pages_intros)
  then have R: "reachable_ppn q" "q \<notin> mfree s" using D(4,5) by auto
  have t0: "table0 (mtab s) r a i = subtable (mtab s) q i" by (simp add: table0_def q)
  have c: "reachable_ppn c" if "subtable (mtab s) q i = Some c" for c
    using D(5) table_pages_intros(3) that by (simp add: t0 [symmetric])
  show ?thesis
  proof (rule descend_cases [OF D(1) R(1) i R(2), of vpn ppn t], goal_cases rch leaf full child fresh)
    case (fresh page e s')
    let ?n = "get_ppn page" and ?T = "(mtab s)(get_ppn page := \<lambda>_. pte_null)"
    note n = fresh_page [OF ok fresh(2), folded r] and T = tree_off_page [OF n(1)]
    from n(1) qt have nq: "?n \<noteq> q" by auto
    have link: "table0 (mtab s') r = (table0 ?T r)(a := (table0 ?T r a)(i \<mapsto> ?n))"
      "walk (mtab s') r = walk ?T r" "pgt_wf (mtab s') r"
      "table_pages (mtab s') r = insert ?n (table_pages ?T r)" "tree_kept {a} ?T (mtab s') r"
      unfolding fresh(7) by (rule upd_link0; use fresh n nq D(2) T q in auto)+
    have kept: "tree_kept {a} (mtab s) (mtab s') r"
      using tree_kept_trans [OF tree_kept_off_page [OF n(1)] link(5)] .
    from tree_keptD(1) [OF this q] have q': "table1 (mtab s') r a = Some q" .
    have "{q, ?n} \<subseteq> under (mtab s') r {a}"
      using under_intros(2) [OF q'] under_intros(3) [of "mtab s'" r a i ?n] by (auto simp: link(1))
    note L = link_ok [OF ok link(3,4) [unfolded r T(4) [unfolded r]] fresh(2,8-11) kept [unfolded r]
        this [unfolded r] fresh(12)]
    show ?thesis
      by (rule new [OF fresh(6) _ _ _ _ L])
        (use fresh(1,7) nq link(1,2) T in \<open>auto simp: t0 subtable_def upd_def PTE_bits_iff\<close>)
  qed (auto intro: c leaf full old simp: t0 subtable_def PTE_bits_iff split: if_splits)
qed

subsection \<open>Mapping a page\<close>

text \<open>A page is covered when a leaf of any level already maps it.\<close>

definition covered :: "tables \<Rightarrow> PPN \<Rightarrow> usize \<Rightarrow> usize \<Rightarrow> usize \<Rightarrow> bool" where
  "covered T r i j k \<longleftrightarrow>
     PTE_is_leaf (T r i) \<or> (\<exists>q. table1 T r i = Some q \<and> PTE_is_leaf (T q j)) \<or> walk T r i j k \<noteq> None"

text \<open>
  The walk of \<open>map_create\<close> to the level-0 table: refused under a leaf, out of memory, or at the
  table with the mapping unchanged.
\<close>

lemma map_walk_cases:
  assumes ok: "pgt_ok t s" and i: "i < 512" "j < 512" and r: "r = root_ppn t"
  obtains (leaf) "covered (mtab s) r i j k"
      "map_walk vpn ppn [i, j] (table_ptr r) t s = Some (Inl (DoubleMapping vpn ppn), t, s)"
  | (full) t' s' ps where "\<not> covered (mtab s) r i j k" "mfree s' = {}"
      "map_walk vpn ppn [i, j] (table_ptr r) t s = Some (Inl AcquirePageFailed, t', s')"
      "pgt_ok t' s'" "pgt_grows {i} t s t' s' ps" "walk (mtab s') r = walk (mtab s) r"
  | (table) c t' s' ps where
      "map_walk vpn ppn [i, j] (table_ptr r) t s = Some (Inr (table_ptr c), t', s')"
      "table0 (mtab s') r i j = Some c" "pgt_ok t' s'" "pgt_grows {i} t s t' s' ps"
      "walk (mtab s') r = walk (mtab s) r"
      "covered (mtab s) r i j k \<longleftrightarrow> walk (mtab s) r i j k \<noteq> None"
      "walk (mtab s) r i j k \<noteq> None \<Longrightarrow> t' = t \<and> s' = s"
proof -
  have no_table: "walk T r i j k = None" if "table1 T r i = None \<or> table0 T r i j = None" for T
    using that by (auto simp: walk_def table0_def)
  show ?thesis
  proof (rule descend_root [OF ok i(1) r, of vpn ppn], goal_cases lf fl old new)
    case (old c)
    have cov: "covered (mtab s) r i j k \<longleftrightarrow> PTE_is_leaf (mtab s c j) \<or> walk (mtab s) r i j k \<noteq> None"
      using old by (auto simp: covered_def)
    show ?thesis
    proof (rule descend_level1 [OF ok i(2) r old(2), of vpn ppn], goal_cases lf fl old new)
      case lf
      with old cov show ?thesis by (intro leaf) simp_all
    next
      case fl
      with old cov ok no_table [of "mtab s"] show ?thesis
        by (intro full [OF _ _ _ _ pgt_grows_refl]) auto
    next
      case (old c0)
      with \<open>descend vpn ppn (table_ptr r) i t s = _\<close> cov ok show ?thesis
        by (intro table [OF _ _ ok pgt_grows_refl]) auto
    next
      case (new c0 t' s' ps)
      with old cov no_table [of "mtab s"] show ?thesis
        by (intro table [of c0 t' s' ps]) auto
    qed
  next
    case (new c t1 s1 ps)
    have cov: "\<not> covered (mtab s) r i j k" using new no_table by (auto simp: covered_def)
    have r1: "r = root_ppn t1" using new(7) r by (simp add: pgt_grows_def)
    have null: "\<not> PTE_is_leaf (mtab s1 c j)" "table0 (mtab s1) r i j = None"
      using new(4,5) by (simp_all add: PTE_is_leaf_def table0_def subtable_def)
    show ?thesis
    proof (rule descend_level1 [OF new(6) i(2) r1 new(4), of vpn ppn], goal_cases lf fl old' new')
      case fl
      with new cov show ?thesis by (intro full [OF cov _ _ new(6,7)]) auto
    next
      case (new' c0 t' s' ps')
      with new cov no_table [of "mtab s"] show ?thesis
        by (intro table [OF _ _ _ pgt_grows_trans [OF new(7) new'(7)]]) auto
    qed (use null in auto)
  qed (auto intro: leaf full [OF _ _ _ ok pgt_grows_refl] simp: covered_def no_table)
qed

declare map_walk.simps [simp del]

lemma PTE_new_valid: "PTE_new p f = Inr e \<Longrightarrow> PTE_is_valid e"
  by (auto simp: PTE_new_def is_valid_flags_def has_v_flag_clear_def PTE_is_valid_def
      bit.conj_disj_distrib2 or_eq_0_iff split: if_splits)

text \<open>Each level of the walk takes at most one page, so a mapping takes at most two.\<close>

lemma descend_pages: "descend vpn ppn table i t s = Some (r, t', s') \<Longrightarrow> length (root_pages t') \<le> Suc (length (root_pages t))"
  by (auto simp: descend_def vec_push_def split: if_splits Option.bind_splits option.splits sum.splits)

lemma map_walk_pages:
  "map_walk vpn ppn is table t s = Some (r, t', s') \<Longrightarrow> length (root_pages t') \<le> length (root_pages t) + length is"
proof (induction "is" arbitrary: table t s)
  case (Cons i "is")
  then obtain r1 t1 s1 where d: "descend vpn ppn table i t s = Some (r1, t1, s1)"
    by (auto simp: map_walk.simps split: Option.bind_splits)
  from descend_pages [OF d] show ?case using Cons d by (cases r1) (fastforce simp: map_walk.simps)+
qed (simp add: map_walk.simps)

lemma map_create_pages:
  "map_create vpn ppn f t s = Some (r, t', s') \<Longrightarrow> length (root_pages t') \<le> length (root_pages t) + 2"
  by (auto simp: map_create_def Let_def split: if_splits Option.bind_splits sum.splits dest!: map_walk_pages)

lemma map_create_grows:
  assumes "map_create vpn ppn f t s = Some (r, t', s')" "pgt_grows I t s t' s' ps"
  shows "length ps \<le> 2"
  using map_create_pages [OF assms(1)] assms(2) by (simp add: pgt_grows_def)

text \<open>Storing an entry of a level-0 table, seen from the root.\<close>

lemma store_level0:
  assumes ok: "pgt_ok t s" and r: "r = root_ppn t" and c: "table0 (mtab s) r i j = Some c" and k: "k < 512"
    and s'_def: "s' = s\<lparr>phys := store_u64 (phys s) (get_pa c + 8 * k) (pte_bits e)\<rparr>"
  shows "pgt_ok t s'" "pgt_grows {i} t s t s' []" "mtab s' = upd (mtab s) c k e"
    "walk (mtab s') r x y z = (if x = i \<and> y = j \<and> z = k then if PTE_is_valid e then Some e else None
       else walk (mtab s) r x y z)"
proof -
  note D = pgt_okD [OF ok, folded r]
  have cp: "c \<in> table_pages (mtab s) r" "reachable_ppn c"
    using c D(5) by (auto intro: table_pages_intros)
  show tab': "mtab s' = upd (mtab s) c k e"
    using tab_store [OF cp(2) k, of "phys s" "pte_bits e"] by (simp add: s'_def)
  note u = upd_level0 [OF D(2) c, where c = k and e = e, folded tab']
  show "pgt_ok t s'" using ok u(4,5) by (simp add: pgt_ok_def s'_def mm_inv_def r)
  have "phys s' a = phys s a" if "PPN (drop_bit 12 a) \<notin> under (mtab s') r {i}" for a
  proof -
    have "c \<in> under (mtab s') r {i}" by (rule under_intros(3) [of _ _ i j]) (simp_all add: u(2) c)
    with that have "drop_bit 12 a \<noteq> get_raw c" by auto
    then show ?thesis by (simp add: s'_def store_outside [OF cp(2) k])
  qed
  then show "pgt_grows {i} t s t s' []"
    using u(5) u(6) [of "{i}"] by (simp add: pgt_grows_def r) (simp add: s'_def)
  show "walk (mtab s') r x y z = (if x = i \<and> y = j \<and> z = k then if PTE_is_valid e then Some e else None
       else walk (mtab s) r x y z)" by (rule u(3))
qed

text \<open>
  \<open>map_create\<close> on a root table in good standing.  With invalid flags or on a covered page it
  changes nothing and reports it; otherwise it either runs out of pages, with the mapping
  unchanged, or adds exactly the requested leaf.
\<close>

lemma map_create_cases:
  assumes ok: "pgt_ok t s" and r: "r = root_ppn t"
    and ijk: "i = parse_vpn vpn ! 2" "j = parse_vpn vpn ! 1" "k = parse_vpn vpn ! 0"
  obtains (flags) "\<not> is_valid_flags f"
      "map_create vpn ppn f t s = Some (Inl (InvalidPteFlags f), t, s)"
  | (covered) "is_valid_flags f" "covered (mtab s) r i j k"
      "map_create vpn ppn f t s = Some (Inl (DoubleMapping vpn ppn), t, s)"
  | (full) t' s' ps where "is_valid_flags f" "\<not> covered (mtab s) r i j k" "mfree s' = {}"
      "map_create vpn ppn f t s = Some (Inl AcquirePageFailed, t', s')"
      "pgt_ok t' s'" "pgt_grows {i} t s t' s' ps" "walk (mtab s') r = walk (mtab s) r"
  | (mapped) e t' s' ps where "PTE_new ppn f = Inr e" "PTE_is_valid e" "\<not> covered (mtab s) r i j k"
      "map_create vpn ppn f t s = Some (Inr (), t', s')"
      "pgt_ok t' s'" "pgt_grows {i} t s t' s' ps"
      "\<And>a b c. walk (mtab s') r a b c =
         (if a = i \<and> b = j \<and> c = k then Some e else walk (mtab s) r a b c)"
proof (cases "PTE_new ppn f")
  case (Inl err)
  then show ?thesis by (intro flags) (auto simp: PTE_new_def map_create_def split: if_splits)
next
  case (Inr e)
  then have fl: "is_valid_flags f" by (auto simp: PTE_new_def split: if_splits)
  have b: "i < 512" "j < 512" "k < 512" using parse_vpn_bound by (simp_all add: ijk)
  have ptr: "get_ptes_mut (root_ppn t) = Some (table_ptr r)"
    using pgt_okD(5) [OF ok] table_pages_intros(1) by (simp add: r get_ptes_mut_reachable)
  show ?thesis
  proof (rule map_walk_cases [OF ok b(1,2) r, of k vpn ppn], goal_cases lf fl tb)
    case lf
    with Inr fl ptr show ?thesis by (intro covered) (simp_all add: map_create_def ijk Let_def)
  next
    case (fl t' s' ps)
    with Inr \<open>is_valid_flags f\<close> ptr show ?thesis
      by (intro full [OF _ fl(1,2) _ fl(4-6)]) (simp_all add: map_create_def ijk Let_def)
  next
    case (tb c t' s' ps)
    have r': "r = root_ppn t'" using tb(4) r by (simp add: pgt_grows_def)
    have c: "reachable_ppn c"
      using pgt_okD(5) [OF tb(3)] table_pages_intros(3) tb(2) by (simp add: r')
    have w: "walk (mtab s') r i j k = (if PTE_is_valid (mtab s' c k) then Some (mtab s' c k) else None)"
      by (simp add: walk_def tb(2))
    show ?thesis
    proof (cases "PTE_is_valid (mtab s' c k)")
      case True
      with w tb(5-7) have "covered (mtab s) r i j k" "t' = t" "s' = s" by auto
      with True Inr fl ptr tb(1) pte_load_ptr [OF c b(3)] show ?thesis
        by (intro covered) (simp_all add: map_create_def ijk Let_def)
    next
      case False
      note st = store_level0 [OF tb(3) r' tb(2) b(3) refl, of e]
      let ?s = "s'\<lparr>phys := store_u64 (phys s') (get_pa c + 8 * k) (pte_bits e)\<rparr>"
      have "walk (mtab ?s) r x y z =
          (if x = i \<and> y = j \<and> z = k then Some e else walk (mtab s) r x y z)" for x y z
        by (subst st(4)) (simp add: tb(5) PTE_new_valid [OF Inr])
      moreover have "map_create vpn ppn f t s = Some (Inr (), t', ?s)"
        using False Inr ptr tb(1) c b
        by (simp add: map_create_def ijk Let_def pte_load_ptr pte_store_ptr)
      moreover have "\<not> covered (mtab s) r i j k" using False w tb(5,6) by simp
      ultimately show ?thesis
        by (intro mapped [OF Inr PTE_new_valid [OF Inr] _ _ st(1) pgt_grows_trans [OF tb(4) st(2)]])
    qed
  qed
qed

end
