(* ===== verification/Sv39_Unmap.thy ===== *)
theory Sv39_Unmap
  imports Sv39_Map
begin

text \<open>
  What \<open>RootPgt::unmap\<close> does to the tree: it clears exactly the level-0 entries of the range,
  and returns when it meets a level-0 entry at or beyond the end of the range.  Page numbers
  are compared through \<open>pos\<close>, the position of a triple of table indices.
\<close>

subsection \<open>Page numbers as positions\<close>

definition pos :: "usize \<Rightarrow> usize \<Rightarrow> usize \<Rightarrow> nat" where
  "pos i j k = unat i * 2 ^ 18 + unat j * 2 ^ 9 + unat k"

lemma parse_vpn_nth:
  "parse_vpn v ! 0 = take_bit 9 (vpn_raw v)"
  "parse_vpn v ! 1 = take_bit 9 (drop_bit 9 (vpn_raw v))"
  "parse_vpn v ! 2 = take_bit 9 (drop_bit 18 (vpn_raw v))"
proof -
  have "take_bit 9 (drop_bit (12 + n) (push_bit 12 x)) = take_bit 9 (drop_bit n x)"
    if "n \<le> 18" for n and x :: usize
    using that by (intro bit_eqI) (auto simp: bit_simps add.commute)
  from this [of 0 "vpn_raw v"] this [of 9 "vpn_raw v"] this [of 18 "vpn_raw v"]
  show "parse_vpn v ! 0 = take_bit 9 (vpn_raw v)"
    "parse_vpn v ! 1 = take_bit 9 (drop_bit 9 (vpn_raw v))"
    "parse_vpn v ! 2 = take_bit 9 (drop_bit 18 (vpn_raw v))"
    by (simp_all add: parse_vpn_def Let_def and_low_mask get_va_def kconst)
qed

lemma split_27: "(n :: nat) = n div 262144 * 262144 + n div 512 mod 512 * 512 + n mod 512"
proof -
  define q where "q = n div 512"
  have "n = q * 512 + n mod 512" "q = q div 512 * 512 + q mod 512" by (simp_all add: q_def)
  moreover have "q div 512 = n div 262144" by (simp add: q_def div_mult2_eq [symmetric])
  ultimately show ?thesis unfolding q_def [symmetric] by linarith
qed

lemma pos_parse_vpn:
  assumes "unat (vpn_raw v) < 2 ^ 27"
  shows "pos (parse_vpn v ! 2) (parse_vpn v ! 1) (parse_vpn v ! 0) = unat (vpn_raw v)"
proof -
  have "unat (vpn_raw v) div 2 ^ 18 < 512" using assms by simp
  then show ?thesis
    unfolding pos_def parse_vpn_nth bits_nat using split_27 [of "unat (vpn_raw v)"] by simp
qed

lemma unat_vpn_of:
  assumes "i < 512" "j < 512" "k < 512"
  shows "unat (push_bit 18 i + push_bit 9 j + (k :: usize)) = pos i j k"
proof -
  have b: "unat i < 512" "unat j < 512" "unat k < 512"
    using assms by (simp_all add: word_less_nat_alt)
  have "unat (push_bit 18 i) = unat i * 2 ^ 18" "unat (push_bit 9 j) = unat j * 2 ^ 9"
    using b by (simp_all add: bits_nat)
  moreover from this b have "unat (push_bit 18 i + push_bit 9 j) = unat i * 2 ^ 18 + unat j * 2 ^ 9"
    by (subst unat_plus_no_overflow) simp_all
  ultimately show ?thesis using b by (subst unat_plus_no_overflow) (simp_all add: pos_def)
qed

lemma pos_inj:
  assumes "pos i j k = pos i' j' k'" "j < 512" "k < 512" "j' < 512" "k' < 512"
  shows "i = i' \<and> j = j' \<and> k = k'"
proof -
  have b: "unat j < 512" "unat k < 512" "unat j' < 512" "unat k' < 512"
    using assms by (simp_all add: word_less_nat_alt)
  have "(a * 2 ^ 18 + c * 2 ^ 9 + d) div 2 ^ 9 = a * 2 ^ 9 + c" if "d < 512" for a c d :: nat
    using that by simp
  from this [OF b(2)] this [OF b(4)] have *: "unat i * 2 ^ 9 + unat j = unat i' * 2 ^ 9 + unat j'"
    using assms(1) unfolding pos_def by metis
  moreover have "(a * 2 ^ 9 + c) div 2 ^ 9 = a" if "c < 512" for a c :: nat
    using that by simp
  ultimately have "unat i = unat i'" using b by metis
  with * assms(1) show ?thesis by (simp add: pos_def word_unat_eq_iff)
qed

subsection \<open>Clearing entries\<close>

definition clear :: "tables \<Rightarrow> (PPN \<Rightarrow> usize \<Rightarrow> bool) \<Rightarrow> tables" where
  "clear T P p k = (if P p k then pte_null else T p k)"

lemma clear_none [simp]: "clear T (\<lambda>_ _. False) = T"
  by (simp add: clear_def fun_eq_iff)

lemma clear_clear: "clear (clear T P) Q = clear T (\<lambda>p k. P p k \<or> Q p k)"
  by (simp add: clear_def fun_eq_iff)

lemma clear_level0:
  assumes "pgt_wf T r" and P: "\<forall>p k. P p k \<longrightarrow> (\<exists>i j. table0 T r i j = Some p)"
  shows "table1 (clear T P) r = table1 T r" "table0 (clear T P) r = table0 T r"
    "pgt_wf (clear T P) r" "table_pages (clear T P) r = table_pages T r"
    "walk (clear T P) r i j k = (if \<exists>p. table0 T r i j = Some p \<and> P p k then None else walk T r i j k)"
proof -
  note wf = pgt_wfD [OF assms(1)]
  have nr: "\<not> P r k" for k using P wf(4) by blast
  then show t1: "table1 (clear T P) r = table1 T r"
    by (simp add: fun_eq_iff table1_def subtable_def clear_def)
  have "\<not> P q k" if "table1 T r a = Some q" for a q k using P wf(5) that by blast
  then show t0: "table0 (clear T P) r = table0 T r"
    by (simp add: fun_eq_iff table0_def t1 subtable_def clear_def split: option.split)
  show tp: "table_pages (clear T P) r = table_pages T r" by (simp add: table_pages_def t1 t0)
  show "pgt_wf (clear T P) r" using assms(1) by (simp add: pgt_wf_def t1 t0 tp)
  show "walk (clear T P) r i j k = (if \<exists>p. table0 T r i j = Some p \<and> P p k then None else walk T r i j k)"
    by (simp add: walk_def t0 clear_def split: option.split)
qed

text \<open>A run that cleared the entries \<open>P\<close>, and wrote to the pages of such entries only.\<close>

definition cleared :: "phys_mem \<Rightarrow> phys_mem \<Rightarrow> (PPN \<Rightarrow> usize \<Rightarrow> bool) \<Rightarrow> bool" where
  "cleared m m' P \<longleftrightarrow> tab m' = clear (tab m) P
     \<and> (\<forall>x. (\<forall>k. \<not> P (PPN (drop_bit 12 x)) k) \<longrightarrow> m' x = m x)"

lemma cleared_tab: "cleared m m' P \<Longrightarrow> tab m' = clear (tab m) P"
  by (simp add: cleared_def)

lemma cleared_none: "(\<And>p k. \<not> P p k) \<Longrightarrow> cleared m m P"
  by (simp add: cleared_def clear_def fun_eq_iff)

lemma cleared_trans:
  assumes "cleared m m1 P" "cleared m1 m' Q" "\<And>p k. R p k \<longleftrightarrow> P p k \<or> Q p k"
  shows "cleared m m' R"
proof -
  have "R = (\<lambda>p k. P p k \<or> Q p k)" using assms(3) by (simp add: fun_eq_iff)
  then show ?thesis using assms(1,2) by (simp add: cleared_def clear_clear)
qed

subsection \<open>The innermost loop\<close>

lemma upd_null: "upd T p a pte_null = clear T (\<lambda>q k. q = p \<and> k = a)"
  by (simp add: fun_eq_iff upd_apply clear_def)

lemma succ_le_iff:
  assumes "a < (512 :: usize)"
  shows "a + 1 \<le> k \<longleftrightarrow> a < k" "unat (a + 1) = Suc (unat a)"
proof -
  show u: "unat (a + 1) = Suc (unat a)"
    using assms by (subst unat_plus_no_overflow) (simp_all add: word_less_nat_alt)
  show "a + 1 \<le> k \<longleftrightarrow> a < k" by (simp add: word_le_nat_alt word_less_nat_alt u Suc_le_eq)
qed

lemma pos_mono: "k \<le> k' \<Longrightarrow> pos i j k \<le> pos i j k'"
  by (simp add: pos_def word_le_nat_alt)

lemma cleared_store:
  assumes "reachable_ppn p" "a < 512"
  shows "cleared m (store_u64 m (get_pa p + 8 * a) 0) (\<lambda>q k. q = p \<and> k = a)"
proof -
  have "tab (store_u64 m (get_pa p + 8 * a) 0) = clear (tab m) (\<lambda>q k. q = p \<and> k = a)"
    using tab_store [OF assms, of m 0] by (simp add: upd_null [symmetric] pte_null_def)
  moreover have "store_u64 m (get_pa p + 8 * a) 0 x = m x" if "PPN (drop_bit 12 x) \<noteq> p" for x
    by (rule store_outside [OF assms]) (use that in \<open>auto simp: PPN.expand\<close>)
  ultimately show ?thesis by (simp add: cleared_def)
qed

lemma unmap_level0_spec:
  fixes a :: usize
  assumes p: "reachable_ppn p" and ij: "i < 512" "j < 512"
  shows "\<exists>m'. unmap_level0 end_vpn i j (table_ptr p) (range_usize a 512) m =
      Some (a < 512 \<and> unat (vpn_raw end_vpn) \<le> pos i j 511, m')
    \<and> cleared m m' (\<lambda>q k. q = p \<and> a \<le> k \<and> k < 512 \<and> pos i j k < unat (vpn_raw end_vpn))"
proof (induction "512 - unat a" arbitrary: a m)
  case 0
  then have "512 \<le> a" by (simp add: word_le_nat_alt)
  then show ?case by (auto intro!: cleared_none)
next
  case (Suc n)
  then have a: "a < 512" by (simp add: word_less_nat_alt)
  let ?E = "unat (vpn_raw end_vpn)"
  have stop: "end_vpn \<le> VPN (push_bit 18 i + push_bit 9 j + a) \<longleftrightarrow> ?E \<le> pos i j a"
    using unat_vpn_of [OF ij a] by (simp add: less_eq_VPN_def word_le_nat_alt)
  have "a \<le> 511" using a by (simp add: word_le_nat_alt word_less_nat_alt)
  then have top: "pos i j a \<le> pos i j 511" by (rule pos_mono)
  show ?case
  proof (cases "?E \<le> pos i j a")
    case True
    then have "cleared m m (\<lambda>q k. q = p \<and> a \<le> k \<and> k < 512 \<and> pos i j k < ?E)"
      using pos_mono [of a _ i j] by (intro cleared_none) force
    with True a stop top show ?thesis by (simp add: range_usize_Cons)
  next
    case False
    let ?m = "store_u64 m (get_pa p + 8 * a) 0"
    have "n = 512 - unat (a + 1)" using Suc(2) succ_le_iff(2) [OF a] by simp
    from Suc(1) [OF this, of ?m] obtain m' where
      m': "unmap_level0 end_vpn i j (table_ptr p) (range_usize (a + 1) 512) ?m =
          Some (a + 1 < 512 \<and> ?E \<le> pos i j 511, m')"
      "cleared ?m m' (\<lambda>q k. q = p \<and> a + 1 \<le> k \<and> k < 512 \<and> pos i j k < ?E)"
      by auto
    have c: "cleared m m' (\<lambda>q k. q = p \<and> a \<le> k \<and> k < 512 \<and> pos i j k < ?E)"
      by (rule cleared_trans [OF cleared_store [OF p a] m'(2)])
        (use False a order.order_iff_strict [of a] in \<open>auto simp: succ_le_iff(1) [OF a]\<close>)
    have ret: "a + 1 < 512 \<and> ?E \<le> pos i j 511 \<longleftrightarrow> a < 512 \<and> ?E \<le> pos i j 511"
    proof (cases "a = 511")
      case True
      with False show ?thesis by simp
    next
      case ne: False
      then have "unat a \<noteq> 511" by (auto simp: word_unat_eq_iff)
      then have "a + 1 < 512" using a by (simp add: word_less_nat_alt succ_le_iff)
      with a show ?thesis by simp
    qed
    from m'(1) ret False stop a have "unmap_level0 end_vpn i j (table_ptr p) (range_usize a 512) m =
        Some (a < 512 \<and> ?E \<le> pos i j 511, m')"
      by (simp add: range_usize_Cons pte_store_ptr [OF p a])
    with c show ?thesis by blast
  qed
qed

subsection \<open>The middle loop\<close>

lemma tab_index: "PTE_is_valid (tab m p i) \<Longrightarrow> i < 512"
  by (auto simp: tab_def split: if_splits)

lemma table_index:
  "table1 (tab m) r i = Some p \<Longrightarrow> i < 512" "table0 (tab m) r i j = Some p \<Longrightarrow> i < 512 \<and> j < 512"
  by (auto simp: table1_def table0_def subtable_def split: if_splits option.splits dest: tab_index)

lemma pos_less_next1: "j < j' \<Longrightarrow> k < 512 \<Longrightarrow> pos i j k < pos i j' k'"
  by (simp add: pos_def word_less_nat_alt)

lemma pos_less_next2: "i < i' \<Longrightarrow> j < 512 \<Longrightarrow> k < 512 \<Longrightarrow> pos i j k < pos i' j' k'"
  by (simp add: pos_def word_less_nat_alt)

text \<open>A level-0 table whose last entry is at or beyond the end stops the loops.\<close>

definition stops :: "tables \<Rightarrow> PPN \<Rightarrow> VPN \<Rightarrow> usize \<Rightarrow> usize \<Rightarrow> bool" where
  "stops T r end_vpn i j \<longleftrightarrow> table0 T r i j \<noteq> None \<and> unat (vpn_raw end_vpn) \<le> pos i j 511"

text \<open>The entries of the tables below index \<open>i\<close> from \<open>(a1, a0)\<close> on that lie before the end.\<close>

definition sweep1 :: "tables \<Rightarrow> PPN \<Rightarrow> VPN \<Rightarrow> usize \<Rightarrow> usize \<Rightarrow> usize \<Rightarrow> PPN \<Rightarrow> usize \<Rightarrow> bool" where
  "sweep1 T r end_vpn i a1 a0 p k \<longleftrightarrow>
     (\<exists>j. table0 T r i j = Some p \<and> (a1 < j \<or> a1 = j \<and> a0 \<le> k)
        \<and> k < 512 \<and> pos i j k < unat (vpn_raw end_vpn))"

lemma sweep1_succ:
  assumes "a1 < 512"
  shows "sweep1 T r e i (a1 + 1) 0 p k \<longleftrightarrow>
    (\<exists>j. table0 T r i j = Some p \<and> a1 < j \<and> k < 512 \<and> pos i j k < unat (vpn_raw e))"
proof -
  have "(a1 + 1 < j \<or> a1 + 1 = j \<and> 0 \<le> k) \<longleftrightarrow> a1 < j" for j
    using succ_le_iff(1) [OF assms, of j] word_zero_le [of k] le_less [of "a1 + 1" j] by metis
  then show ?thesis unfolding sweep1_def by simp
qed

lemma sweep1_skip:
  assumes "a1 < 512" "table0 T r i a1 = None"
  shows "sweep1 T r e i (a1 + 1) 0 = sweep1 T r e i a1 a0"
  unfolding fun_eq_iff sweep1_succ [OF assms(1)] using assms(2) by (auto simp: sweep1_def)

lemma sweep1_step:
  assumes "a1 < 512" "table0 T r i a1 = Some c"
  shows "sweep1 T r e i a1 a0 p k \<longleftrightarrow>
    p = c \<and> a0 \<le> k \<and> k < 512 \<and> pos i a1 k < unat (vpn_raw e) \<or> sweep1 T r e i (a1 + 1) 0 p k"
  unfolding sweep1_succ [OF assms(1)] using assms(2) by (auto simp: sweep1_def)

lemma sweep1_stop:
  assumes "a1 < 512" "unat (vpn_raw e) \<le> pos i a1 511"
  shows "\<not> sweep1 T r e i (a1 + 1) 0 p k"
proof
  assume "sweep1 T r e i (a1 + 1) 0 p k"
  then obtain j where "a1 < j" "pos i j k < unat (vpn_raw e)"
    by (auto simp: sweep1_succ [OF assms(1)])
  moreover from this(1) have "pos i a1 511 < pos i j k" by (intro pos_less_next1) simp_all
  ultimately show False using assms(2) by simp
qed

lemma unmap_level1_spec:
  fixes a1 :: usize
  assumes "pgt_wf (tab m) r" "table1 (tab m) r i = Some q" "a0 < 512"
    "\<And>j. a1 \<le> j \<Longrightarrow> PTE_is_leaf (tab m q j) \<Longrightarrow> \<exists>j'. a1 \<le> j' \<and> j' < j \<and> stops (tab m) r end_vpn i j'"
  shows "\<exists>m'. unmap_level1 end_vpn i (table_ptr q) a0 (range_usize a1 512) m =
      Some (\<exists>j. a1 \<le> j \<and> stops (tab m) r end_vpn i j, m')
    \<and> cleared m m' (sweep1 (tab m) r end_vpn i a1 a0)"
  using assms
proof (induction "512 - unat a1" arbitrary: a1 a0 m)
  case 0
  then have big: "512 \<le> a1" by (simp add: word_le_nat_alt)
  have "\<not> stops (tab m) r end_vpn i j" if "a1 \<le> j" for j
    using table_index(2) [of m r i j] big that by (auto simp: stops_def)
  moreover have "cleared m m (sweep1 (tab m) r end_vpn i a1 a0)"
    using big by (intro cleared_none) (auto simp: sweep1_def dest!: table_index(2))
  ultimately show ?case using big by auto
next
  case (Suc n)
  then have a: "a1 < 512" by (simp add: word_less_nat_alt)
  have n: "n = 512 - unat (a1 + 1)" using Suc(2) succ_le_iff(2) [OF a] by simp
  have i: "i < 512" using table_index(1) Suc(4) by blast
  have q: "reachable_ppn q" using pgt_wfD(1) [OF Suc(3)] Suc(4) table_pages_intros(2) by blast
  let ?T = "tab m"
  have t0: "table0 ?T r i a1 = subtable ?T q a1" by (simp add: table0_def Suc(4))
  have nl: "\<not> PTE_is_leaf (?T q a1)" using Suc(6) [of a1] by auto
  show ?case
  proof (cases "PTE_is_valid (?T q a1)")
    case False
    then have none: "table0 ?T r i a1 = None" by (simp add: t0 subtable_def)
    then have ns: "\<not> stops ?T r end_vpn i a1" by (simp add: stops_def)
    have "\<exists>j'. a1 + 1 \<le> j' \<and> j' < j \<and> stops ?T r end_vpn i j'"
      if "a1 + 1 \<le> j" "PTE_is_leaf (?T q j)" for j
      using Suc(6) [of j] that ns succ_le_iff(1) [OF a] by (metis less_le order.strict_implies_order)
    from Suc(1) [OF n Suc(3,4) _ this, of 0] obtain m' where
      "unmap_level1 end_vpn i (table_ptr q) 0 (range_usize (a1 + 1) 512) m =
        Some (\<exists>j. a1 + 1 \<le> j \<and> stops ?T r end_vpn i j, m')"
      "cleared m m' (sweep1 ?T r end_vpn i (a1 + 1) 0)" by auto
    moreover have "(\<exists>j. a1 + 1 \<le> j \<and> stops ?T r end_vpn i j) \<longleftrightarrow> (\<exists>j. a1 \<le> j \<and> stops ?T r end_vpn i j)"
      using ns succ_le_iff(1) [OF a] by (metis le_less)
    ultimately show ?thesis
      using False sweep1_skip [OF a none] by (simp add: range_usize_Cons [OF a] pte_load_ptr [OF q a])
  next
    case True
    with nl obtain c where c: "table0 ?T r i a1 = Some c" and sub: "pte_ppn (?T q a1) = c"
      by (simp add: t0 subtable_def)
    have cp: "c \<in> table_pages ?T r" "reachable_ppn c" "q \<noteq> c"
      using c Suc(4) table_pages_intros(3) [OF c] pgt_wfD(1,5) [OF Suc(3)] by auto
    let ?P = "\<lambda>p k. p = c \<and> a0 \<le> k \<and> k < 512 \<and> pos i a1 k < unat (vpn_raw end_vpn)"
    obtain m1 where m1: "unmap_level0 end_vpn i a1 (table_ptr c) (range_usize a0 512) m =
        Some (stops ?T r end_vpn i a1, m1)" "cleared m m1 ?P"
      using unmap_level0_spec [OF cp(2) i a, of end_vpn a0 m] Suc(5) c by (auto simp: stops_def)
    note tab1 = cleared_tab [OF m1(2)]
    have code: "unmap_level1 end_vpn i (table_ptr q) a0 (range_usize a1 512) m =
        (if stops ?T r end_vpn i a1 then Some (True, m1)
         else unmap_level1 end_vpn i (table_ptr q) 0 (range_usize (a1 + 1) 512) m1)"
      using True nl sub m1(1) cp(2)
      by (simp add: range_usize_Cons [OF a] pte_load_ptr [OF q a] PTE_get_ppn_eq
          get_ptes_mut_reachable PTES_PER_TABLE_def)
    show ?thesis
    proof (cases "stops ?T r end_vpn i a1")
      case stop: True
      then have "sweep1 ?T r end_vpn i a1 a0 = ?P"
        using sweep1_stop [OF a] by (auto simp: fun_eq_iff sweep1_step [OF a c] stops_def)
      with stop code m1(2) show ?thesis by auto
    next
      case ns: False
      have T1: "table1 (tab m1) r = table1 ?T r" "table0 (tab m1) r = table0 ?T r"
        "pgt_wf (tab m1) r" "table_pages (tab m1) r = table_pages ?T r"
        unfolding tab1 by (rule clear_level0 [OF Suc(3)]; use c in blast)+
      have same: "stops (tab m1) r end_vpn i = stops ?T r end_vpn i" "tab m1 q = ?T q"
        "sweep1 (tab m1) r end_vpn i (a1 + 1) 0 = sweep1 ?T r end_vpn i (a1 + 1) 0"
        using cp(3) by (auto simp: stops_def sweep1_def fun_eq_iff T1(2)) (auto simp: tab1 clear_def)
      have lf: "\<exists>j'. a1 + 1 \<le> j' \<and> j' < j \<and> stops (tab m1) r end_vpn i j'"
        if "a1 + 1 \<le> j" "PTE_is_leaf (tab m1 q j)" for j
        using Suc(6) [of j] that ns succ_le_iff(1) [OF a] unfolding same
        by (metis less_le order.strict_implies_order)
      obtain m' where
        "unmap_level1 end_vpn i (table_ptr q) 0 (range_usize (a1 + 1) 512) m1 =
          Some (\<exists>j. a1 + 1 \<le> j \<and> stops ?T r end_vpn i j, m')"
        "cleared m1 m' (sweep1 ?T r end_vpn i (a1 + 1) 0)"
        using Suc(1) [OF n T1(3) _ _ lf, of 0] Suc(4) unfolding T1 same by auto
      moreover have "(\<exists>j. a1 + 1 \<le> j \<and> stops ?T r end_vpn i j) \<longleftrightarrow> (\<exists>j. a1 \<le> j \<and> stops ?T r end_vpn i j)"
        using ns succ_le_iff(1) [OF a] by (metis le_less)
      moreover from m1(2) calculation(2) have "cleared m m' (sweep1 ?T r end_vpn i a1 a0)"
        by (rule cleared_trans) (simp add: sweep1_step [OF a c])
      ultimately show ?thesis using code ns by simp
    qed
  qed
qed

subsection \<open>The outer loop\<close>

text \<open>
  The loops have no other exit than an entry at or beyond the end, so a level-0 table has to
  exist there.  For a user range it is the first table of the kernel half (index 256), which
  every user table inherits: it maps the first MMIO device, at the bottom of physical memory.
\<close>

definition sentinel :: "tables \<Rightarrow> PPN \<Rightarrow> bool" where
  "sentinel T r \<longleftrightarrow> table0 T r 256 0 \<noteq> None"

text \<open>No large page is mapped in the user half.\<close>

definition no_user_large :: "tables \<Rightarrow> PPN \<Rightarrow> bool" where
  "no_user_large T r \<longleftrightarrow> (\<forall>i < 256. \<not> PTE_hw_leaf (T r i)
     \<and> (\<forall>q j. table1 T r i = Some q \<longrightarrow> \<not> PTE_hw_leaf (T q j)))"

definition sweep2 ::
  "tables \<Rightarrow> PPN \<Rightarrow> VPN \<Rightarrow> usize \<Rightarrow> usize \<Rightarrow> usize \<Rightarrow> PPN \<Rightarrow> usize \<Rightarrow> bool" where
  "sweep2 T r end_vpn a2 a1 a0 p k \<longleftrightarrow>
     sweep1 T r end_vpn a2 a1 a0 p k \<or> (\<exists>i > a2. sweep1 T r end_vpn i 0 0 p k)"

lemma sweep2_succ:
  assumes "a2 < 512"
  shows "sweep2 T r e (a2 + 1) 0 0 p k \<longleftrightarrow> (\<exists>i > a2. sweep1 T r e i 0 0 p k)"
proof -
  have "a2 < i \<longleftrightarrow> a2 + 1 = i \<or> a2 + 1 < i" for i
    using succ_le_iff(1) [OF assms, of i] le_less [of "a2 + 1" i] by blast
  then show ?thesis unfolding sweep2_def by auto
qed

lemma sweep1_index: "sweep1 (tab m) r e i a1 a0 p k \<Longrightarrow> table1 (tab m) r i \<noteq> None"
  by (auto simp: sweep1_def table0_def split: option.splits)

lemma sweep1_beyond:
  assumes "stops (tab m) r e a2 j" "a2 < i"
  shows "\<not> sweep1 (tab m) r e i a1 a0 p k"
proof
  assume "sweep1 (tab m) r e i a1 a0 p k"
  then obtain j' where "pos i j' k < unat (vpn_raw e)" by (auto simp: sweep1_def)
  moreover have "j < 512" using assms(1) table_index(2) by (auto simp: stops_def)
  then have "pos a2 j 511 < pos i j' k" using assms(2) by (intro pos_less_next2) simp_all
  ultimately show False using assms(1) by (simp add: stops_def)
qed

lemma clear_sweep_tree:
  assumes "pgt_wf T r" and P: "\<forall>p k. P p k \<longrightarrow> (\<exists>i j. table0 T r i j = Some p)"
  shows "sweep1 (clear T P) r = sweep1 T r" "sentinel (clear T P) r = sentinel T r"
    "tree_kept I T (clear T P) r" "no_user_large (clear T P) r = no_user_large T r"
proof -
  note t = clear_level0 [OF assms]
  show "sweep1 (clear T P) r = sweep1 T r" "sentinel (clear T P) r = sentinel T r"
    using P by (simp_all add: fun_eq_iff sweep1_def sentinel_def t)
  have "clear T P r = T r" using P pgt_wfD(4) [OF assms(1)] by (force simp: fun_eq_iff clear_def)
  moreover have "clear T P q = T q" if "table1 T r i = Some q" for i q
    using P pgt_wfD(5) [OF assms(1)] that by (force simp: fun_eq_iff clear_def)
  ultimately show "no_user_large (clear T P) r = no_user_large T r" "tree_kept I T (clear T P) r"
    using P by (auto simp: no_user_large_def tree_kept_def t)
qed

lemma unmap_level1_user:
  fixes a1 :: usize
  assumes wf: "pgt_wf (tab m) r" and q: "table1 (tab m) r i = Some q" and a0: "a0 < 512"
    and nl: "no_user_large (tab m) r" and st: "sentinel (tab m) r"
    and i: "i < 256 \<or> i = 256 \<and> a1 = 0" and e: "unat (vpn_raw e) \<le> 2 ^ 26"
  shows "\<exists>m'. unmap_level1 e i (table_ptr q) a0 (range_usize a1 512) m =
      Some (\<exists>j. a1 \<le> j \<and> stops (tab m) r e i j, m')
    \<and> cleared m m' (sweep1 (tab m) r e i a1 a0)"
proof (rule unmap_level1_spec [OF wf q a0])
  fix j
  assume j: "a1 \<le> j" "PTE_is_leaf (tab m q j)"
  show "\<exists>j'. a1 \<le> j' \<and> j' < j \<and> stops (tab m) r e i j'"
  proof (cases "i < 256")
    case True
    with nl q j show ?thesis by (auto simp: no_user_large_def)
  next
    case False
    with i have [simp]: "i = 256" "a1 = 0" by auto
    have "j \<noteq> 0" using j(2) st q by (auto simp: sentinel_def table0_def subtable_def)
    moreover have "stops (tab m) r e 256 0" using st e by (simp add: stops_def sentinel_def pos_def)
    moreover have "0 < j" using \<open>j \<noteq> 0\<close> by (simp add: word_gt_0)
    ultimately show ?thesis by auto
  qed
qed

lemma unmap_level2_spec:
  fixes a2 :: usize
  assumes "pgt_wf (tab m) r" "a0 < 512" "no_user_large (tab m) r" "sentinel (tab m) r"
    "a2 < 256 \<or> a2 = 256 \<and> a1 = 0" "unat (vpn_raw e) \<le> 2 ^ 26"
  shows "\<exists>m'. unmap_level2 e (table_ptr r) a1 a0 (range_usize a2 512) m = Some (True, m')
    \<and> cleared m m' (sweep2 (tab m) r e a2 a1 a0)"
  using assms
proof (induction "256 - unat a2" arbitrary: a2 a1 a0 m rule: less_induct)
  case less
  let ?T = "tab m"
  have a: "a2 < 512" using less(6) by (auto simp: word_less_nat_alt)
  have r: "reachable_ppn r" using pgt_wfD(1) [OF less(2) table_pages_intros(1)] .
  have nl: "\<not> PTE_is_leaf (?T r a2)" "a2 = 256 \<Longrightarrow> PTE_is_valid (?T r a2)"
    using less(4,5,6) by (auto simp: no_user_large_def sentinel_def table0_def table1_def
        subtable_def split: if_splits option.splits)
  have nxt: "256 - unat (a2 + 1) < 256 - unat a2" "a2 + 1 < 256 \<or> a2 + 1 = 256" if "a2 \<noteq> 256"
  proof -
    have u: "unat (a2 + 1) = Suc (unat a2)" by (rule succ_le_iff(2) [OF a])
    have l: "unat a2 < 256" using that less(6) by (simp add: word_less_nat_alt)
    then show "256 - unat (a2 + 1) < 256 - unat a2" unfolding u by simp
    have "unat (a2 + 1) < 256 \<or> unat (a2 + 1) = 256" unfolding u using l by linarith
    then show "a2 + 1 < 256 \<or> a2 + 1 = 256"
      unfolding word_less_nat_alt word_unat_eq_iff by simp
  qed
  show ?case
  proof (cases "PTE_is_valid (?T r a2)")
    case False
    then have ne: "a2 \<noteq> 256" and none: "table1 ?T r a2 = None"
      using nl by (auto simp: table1_def subtable_def)
    obtain m' where "unmap_level2 e (table_ptr r) 0 0 (range_usize (a2 + 1) 512) m = Some (True, m')"
      "cleared m m' (sweep2 ?T r e (a2 + 1) 0 0)"
      using less(1) [OF nxt(1) [OF ne] less(2) _ less(4,5) _ less(7), of 0 0] nxt(2) [OF ne] by auto
    moreover have "sweep2 ?T r e (a2 + 1) 0 0 = sweep2 ?T r e a2 a1 a0"
      unfolding fun_eq_iff sweep2_succ [OF a] using none by (auto simp: sweep2_def dest: sweep1_index)
    ultimately show ?thesis
      using False by (simp add: range_usize_Cons [OF a] pte_load_ptr [OF r a])
  next
    case True
    with nl obtain c where c: "table1 ?T r a2 = Some c" and sub: "pte_ppn (?T r a2) = c"
      by (simp add: table1_def subtable_def)
    have rc: "reachable_ppn c" using pgt_wfD(1) [OF less(2)] table_pages_intros(2) [OF c] .
    let ?stop = "\<exists>j. a1 \<le> j \<and> stops ?T r e a2 j"
    obtain m1 where m1: "unmap_level1 e a2 (table_ptr c) a0 (range_usize a1 512) m = Some (?stop, m1)"
      "cleared m m1 (sweep1 ?T r e a2 a1 a0)"
      using unmap_level1_user [OF less(2) c less(3,4,5,6,7)] by blast
    have code: "unmap_level2 e (table_ptr r) a1 a0 (range_usize a2 512) m =
        (if ?stop then Some (True, m1)
         else unmap_level2 e (table_ptr r) 0 0 (range_usize (a2 + 1) 512) m1)"
      using True nl(1) sub m1(1) rc
      by (simp add: range_usize_Cons [OF a] pte_load_ptr [OF r a] PTE_get_ppn_eq
          get_ptes_mut_reachable PTES_PER_TABLE_def)
    show ?thesis
    proof (cases ?stop)
      case stop: True
      then have "sweep2 ?T r e a2 a1 a0 = sweep1 ?T r e a2 a1 a0"
        using sweep1_beyond by (auto simp: fun_eq_iff sweep2_def)
      with stop code m1 show ?thesis by auto
    next
      case ns: False
      then have ne: "a2 \<noteq> 256"
        using less(5,6,7) by (auto simp: sentinel_def stops_def pos_def)
      have P: "\<forall>p k. sweep1 ?T r e a2 a1 a0 p k \<longrightarrow> (\<exists>i j. table0 ?T r i j = Some p)"
        by (auto simp: sweep1_def)
      note tab1 = cleared_tab [OF m1(2)]
      note t = clear_level0 [OF less(2) P, folded tab1] clear_sweep_tree [OF less(2) P, folded tab1]
      have same: "sweep2 (tab m1) r e (a2 + 1) 0 0 = sweep2 ?T r e (a2 + 1) 0 0"
        by (simp add: fun_eq_iff sweep2_def t)
      have wf1: "pgt_wf (tab m1) r" "no_user_large (tab m1) r" "sentinel (tab m1) r"
        using less(4,5) by (simp_all add: t)
      obtain m' where
        "unmap_level2 e (table_ptr r) 0 0 (range_usize (a2 + 1) 512) m1 = Some (True, m')"
        "cleared m1 m' (sweep2 ?T r e (a2 + 1) 0 0)"
        using less(1) [OF nxt(1) [OF ne] wf1(1) _ wf1(2,3) _ less(7), of 0 0] nxt(2) [OF ne]
        unfolding same by (auto simp: t)
      moreover from m1(2) calculation(2) have "cleared m m' (sweep2 ?T r e a2 a1 a0)"
        by (rule cleared_trans) (subst sweep2_succ [OF a], simp add: sweep2_def)
      ultimately show ?thesis using code ns by simp
    qed
  qed
qed

subsection \<open>The whole operation\<close>

text \<open>The swept entries are those of the positions in the range.\<close>

lemma sweep2_range:
  assumes wf: "pgt_wf (tab m) r" and p: "table0 (tab m) r i j = Some p" and k: "k < 512"
    and a: "a1 < 512" "a0 < 512"
  shows "sweep2 (tab m) r e a2 a1 a0 p k \<longleftrightarrow> pos a2 a1 a0 \<le> pos i j k \<and> pos i j k < unat (vpn_raw e)"
proof -
  have j: "j < 512" using p table_index(2) by blast
  have "sweep2 (tab m) r e a2 a1 a0 p k \<longleftrightarrow>
      (a2 < i \<or> a2 = i \<and> (a1 < j \<or> a1 = j \<and> a0 \<le> k)) \<and> pos i j k < unat (vpn_raw e)"
  proof -
    have key: "table0 (tab m) r i' j' = Some p \<longleftrightarrow> i' = i \<and> j' = j" for i' j'
      using pgt_wfD(6) [OF wf p] p by blast
    have "0 < j \<or> 0 = j \<and> 0 \<le> k" by (simp add: word_gt_0)
    then show ?thesis unfolding sweep2_def sweep1_def key using k by blast
  qed
  moreover have "a2 < i \<or> a2 = i \<and> (a1 < j \<or> a1 = j \<and> a0 \<le> k) \<longleftrightarrow> pos a2 a1 a0 \<le> pos i j k"
  proof -
    have "a2 < i \<Longrightarrow> pos a2 a1 a0 < pos i j k" "i < a2 \<Longrightarrow> pos i j k < pos a2 a1 a0"
      using j k a by (simp_all add: pos_less_next2)
    moreover have "a1 < j \<Longrightarrow> pos i a1 a0 < pos i j k" "j < a1 \<Longrightarrow> pos i j k < pos i a1 a0"
      using j k a by (simp_all add: pos_less_next1)
    moreover have "pos i j a0 \<le> pos i j k \<longleftrightarrow> a0 \<le> k" by (simp add: pos_def word_le_nat_alt)
    ultimately show ?thesis by (metis leD less_imp_le linorder_less_linear)
  qed
  ultimately show ?thesis by blast
qed

text \<open>
  Unmapping a range of user pages returns, empties exactly the positions of the range, and
  keeps the tables: no table page is added or released.
\<close>

lemma RootPgt_unmap_spec:
  assumes ok: "pgt_ok t s" and u: "no_user_large (mtab s) (root_ppn t)" "sentinel (mtab s) (root_ppn t)"
    and v: "start_vpn < end_vpn" "unat (vpn_raw end_vpn) \<le> 2 ^ 26"
  obtains s' where "RootPgt_unmap start_vpn end_vpn t s = Some (Inr (), s')" "pgt_ok t s'"
    "pgt_grows {..<256} t s t s' []" "no_user_large (mtab s') (root_ppn t)" "sentinel (mtab s') (root_ppn t)"
    "\<And>i j k. walk (mtab s') (root_ppn t) i j k =
      (if unat (vpn_raw start_vpn) \<le> pos i j k \<and> pos i j k < unat (vpn_raw end_vpn) then None
       else walk (mtab s) (root_ppn t) i j k)"
proof -
  let ?r = "root_ppn t" and ?p = "parse_vpn start_vpn"
  let ?P = "sweep2 (mtab s) ?r end_vpn (?p ! 2) (?p ! 1) (?p ! 0)"
  note wf = pgt_okD [OF ok]
  have sv: "unat (vpn_raw start_vpn) < 2 ^ 26"
    using v by (simp add: less_VPN_def word_less_nat_alt)
  have b: "?p ! 0 < 512" "?p ! 1 < 512" using parse_vpn_bound by simp_all
  have "unat (?p ! 2) < 256" using sv unfolding parse_vpn_nth bits_nat by simp
  then have b2: "?p ! 2 < 256" by (simp add: word_less_nat_alt)
  have start: "pos (?p ! 2) (?p ! 1) (?p ! 0) = unat (vpn_raw start_vpn)"
    by (rule pos_parse_vpn) (use sv in simp)
  have pw: "pgt_wf (mtab s) ?r" using ok by (simp add: pgt_ok_def)
  obtain m' where m': "unmap_level2 end_vpn (table_ptr ?r) (?p ! 1) (?p ! 0)
      (range_usize (?p ! 2) 512) (phys s) = Some (True, m')" "cleared (phys s) m' ?P"
    using unmap_level2_spec [OF pw b(1) u _ v(2)] b2 by blast
  have P: "\<forall>p k. ?P p k \<longrightarrow> (\<exists>i j. table0 (mtab s) ?r i j = Some p)"
    by (auto simp: sweep2_def sweep1_def)
  note tab' = cleared_tab [OF m'(2)]
  note t = clear_level0 [OF pw P, folded tab'] clear_sweep_tree [OF pw P, folded tab']
  have frame: "m' x = phys s x" if "PPN (drop_bit 12 x) \<notin> under (tab m') ?r {..<256}" for x
  proof -
    have "\<not> ?P (PPN (drop_bit 12 x)) k" for k
    proof
      assume k: "?P (PPN (drop_bit 12 x)) k"
      then obtain i j where ij: "table0 (mtab s) ?r i j = Some (PPN (drop_bit 12 x))"
        "pos i j k < unat (vpn_raw end_vpn)" by (auto simp: sweep2_def sweep1_def)
      then have "pos i j k < 2 ^ 26" using v(2) by simp
      then have "i < 256" by (simp add: pos_def word_less_nat_alt)
      then show False using that under_intros(3) [of "tab m'" ?r i j] ij(1) by (simp add: t)
    qed
    then show ?thesis using m'(2) by (simp add: cleared_def)
  qed
  have rr: "reachable_ppn ?r" using pgt_wfD(1) [OF pw table_pages_intros(1)] .
  show thesis
  proof (rule that [of "s\<lparr>phys := m'\<rparr>"])
    show "RootPgt_unmap start_vpn end_vpn t s = Some (Inr (), s\<lparr>phys := m'\<rparr>)"
      using v(1) m'(1) by (simp add: RootPgt_unmap_def get_ptes_mut_reachable [OF rr]
          PTES_PER_TABLE_def not_le [symmetric])
    show "pgt_ok t (s\<lparr>phys := m'\<rparr>)" using ok by (simp add: pgt_ok_def mm_inv_def t)
    show "pgt_grows {..<256} t s t (s\<lparr>phys := m'\<rparr>) []" using frame by (simp add: pgt_grows_def t)
    show "no_user_large (mtab (s\<lparr>phys := m'\<rparr>)) ?r" "sentinel (mtab (s\<lparr>phys := m'\<rparr>)) ?r"
      using u by (simp_all add: t)
    fix i j k
    show "walk (mtab (s\<lparr>phys := m'\<rparr>)) ?r i j k =
      (if unat (vpn_raw start_vpn) \<le> pos i j k \<and> pos i j k < unat (vpn_raw end_vpn) then None
       else walk (mtab s) ?r i j k)"
    proof (cases "table0 (mtab s) ?r i j \<noteq> None \<and> k < 512")
      case True
      then obtain p where "table0 (mtab s) ?r i j = Some p" "k < 512" by auto
      moreover from sweep2_range [OF pw this b(2,1), of end_vpn "?p ! 2"]
      have "?P p k \<longleftrightarrow> unat (vpn_raw start_vpn) \<le> pos i j k \<and> pos i j k < unat (vpn_raw end_vpn)"
        unfolding start .
      ultimately show ?thesis by (simp add: t)
    next
      case False
      then have "walk (mtab s) ?r i j k = None"
        using tab_index by (auto simp: walk_def split: option.split)
      then show ?thesis by (simp add: t)
    qed
  qed
qed

end
