(* ===== verification/User_Pgt.thy ===== *)
theory User_Pgt
  imports Sv39_Unmap
begin

text \<open>
  The page table of a user space as the virtual memory manager sees it: a partial map from
  user page numbers to leaf entries.  The table's own pages are its root and the tables below
  the first half of the root; the tables of the kernel half are shared with the kernel.
\<close>

definition user_vpn :: "VPN \<Rightarrow> bool" where
  "user_vpn vpn \<longleftrightarrow> unat (vpn_raw vpn) < 2 ^ 26"

definition lookup :: "RootPgt \<Rightarrow> mm_state \<Rightarrow> VPN \<Rightarrow> PTE option" where
  "lookup t s vpn =
     (let p = parse_vpn vpn in walk (mtab s) (root_ppn t) (p ! 2) (p ! 1) (p ! 0))"

abbreviation user_half :: "usize set" where
  "user_half \<equiv> {..<256}"

definition pgt_user :: "RootPgt \<Rightarrow> mm_state \<Rightarrow> bool" where
  "pgt_user t s \<longleftrightarrow> pgt_ok t s \<and> no_user_large (mtab s) (root_ppn t) \<and> sentinel (mtab s) (root_ppn t)
     \<and> distinct (map get_ppn (root_pages t))
     \<and> get_ppn ` set (root_pages t) = under (mtab s) (root_ppn t) user_half"

lemma user_vpn_index:
  assumes "user_vpn vpn"
  shows "parse_vpn vpn ! 2 \<in> user_half"
proof -
  have "unat (parse_vpn vpn ! 2) < 256"
    using assms unfolding user_vpn_def parse_vpn_nth bits_nat by simp
  then show ?thesis by (simp add: word_less_nat_alt)
qed

lemma user_vpn_pos:
  "user_vpn vpn \<Longrightarrow> pos (parse_vpn vpn ! 2) (parse_vpn vpn ! 1) (parse_vpn vpn ! 0) = unat (vpn_raw vpn)"
  by (rule pos_parse_vpn) (simp add: user_vpn_def)

lemma parse_vpn_inj:
  assumes "user_vpn v" "user_vpn w"
  shows "parse_vpn v ! 2 = parse_vpn w ! 2 \<and> parse_vpn v ! 1 = parse_vpn w ! 1
    \<and> parse_vpn v ! 0 = parse_vpn w ! 0 \<longleftrightarrow> v = w"
  using user_vpn_pos [OF assms(1)] user_vpn_pos [OF assms(2)]
  by (metis VPN.expand word_unat_eq_iff)

text \<open>A table that grows below some root entries gets its new pages there.\<close>

lemma pgt_grows_under:
  assumes ok: "pgt_ok t s" "pgt_ok t' s'" and g: "pgt_grows I t s t' s' ps"
  shows "under (mtab s') (root_ppn t) I = under (mtab s) (root_ppn t) I \<union> get_ppn ` set ps"
proof -
  let ?T = "mtab s" and ?T' = "mtab s'" and ?r = "root_ppn t"
  have r': "root_ppn t' = ?r" and kept: "tree_kept I ?T ?T' ?r"
    and pages: "table_pages ?T' ?r = table_pages ?T ?r \<union> get_ppn ` set ps"
    and fr: "\<And>a. PPN (drop_bit 12 a) \<notin> under ?T' ?r I \<Longrightarrow> phys s' a = phys s a"
    and free: "get_ppn ` set ps \<subseteq> mfree s"
    using g by (simp_all add: pgt_grows_def)
  have wf': "pgt_wf ?T' ?r" using ok(2) by (simp add: pgt_ok_def r')
  note D = pgt_wfD [OF wf']
  have new: "p \<notin> table_pages ?T ?r" if "p \<in> get_ppn ` set ps" for p
    using that free pgt_okD(4) [OF ok(1)] by auto
  have t1: "table1 ?T' ?r i = table1 ?T ?r i" if "i \<notin> I" for i
    using tree_keptD(3) [OF kept that] by (simp add: table1_def subtable_def)
  have t0: "table0 ?T' ?r i j = table0 ?T ?r i j" if i: "i \<notin> I" for i j
  proof (cases "table1 ?T' ?r i")
    case (Some q)
    have "q \<notin> under ?T' ?r I" using D(2,3,5) Some i unfolding under_def by blast
    then have "?T' q = ?T q" using fr by (intro tab_page_cong) auto
    then show ?thesis using Some t1 [OF i] by (simp add: table0_def subtable_def)
  qed (simp add: table0_def t1 [OF i])
  have "p \<in> under ?T' ?r I" if "p \<in> get_ppn ` set ps" for p
  proof -
    have "p \<in> table_pages ?T' ?r" using that pages by simp
    then consider "p = ?r" | i where "table1 ?T' ?r i = Some p" | i j where "table0 ?T' ?r i j = Some p"
      by (auto simp: table_pages_def)
    then show ?thesis
    proof cases
      case 1
      then show ?thesis by (simp add: under_intros)
    next
      case (2 i)
      then have "i \<in> I" using new [OF that] t1 table_pages_intros(2) by metis
      with 2 show ?thesis by (rule under_intros)
    next
      case (3 i j)
      then have "i \<in> I" using new [OF that] t0 table_pages_intros(3) by metis
      with 3 show ?thesis by (rule under_intros)
    qed
  qed
  moreover have "p \<in> under ?T ?r I" if p: "p \<in> under ?T' ?r I" "p \<notin> get_ppn ` set ps" for p
    using p pages under_table_pages [of ?T' ?r I] under_back [OF wf' kept] by auto
  ultimately show ?thesis using tree_kept_under [OF kept, of I] by blast
qed

subsection \<open>Mapping and unmapping user pages\<close>

lemma pgt_userD:
  assumes "pgt_user t s"
  shows "pgt_ok t s" "no_user_large (mtab s) (root_ppn t)" "sentinel (mtab s) (root_ppn t)"
  using assms by (simp_all add: pgt_user_def)

lemma pgt_user_grows:
  assumes u: "pgt_user t s" and ok: "pgt_ok t' s'" and g: "pgt_grows user_half t s t' s' ps"
  shows "pgt_user t' s'"
proof -
  let ?T = "mtab s" and ?T' = "mtab s'" and ?r = "root_ppn t"
  have r': "root_ppn t' = ?r" "root_pages t' = root_pages t @ ps" "distinct (map get_ppn ps)"
    "get_ppn ` set ps \<subseteq> mfree s" "tree_kept user_half ?T ?T' ?r" using g by (simp_all add: pgt_grows_def)
  note K = tree_keptD [OF r'(5)]
  have u': "no_user_large ?T ?r" "sentinel ?T ?r" "distinct (map get_ppn (root_pages t))"
    "get_ppn ` set (root_pages t) = under ?T ?r user_half" using u by (simp_all add: pgt_user_def)
  have "no_user_large ?T' ?r" using u'(1) K(4,6) unfolding no_user_large_def by metis
  moreover have "sentinel ?T' ?r" using u'(2) K(2) by (auto simp: sentinel_def)
  moreover have "get_ppn ` set (root_pages t') = under ?T' ?r user_half"
    using pgt_grows_under [OF pgt_userD(1) [OF u] ok g] u'(4) by (simp add: r' image_Un)
  moreover have "get_ppn ` set (root_pages t) \<inter> get_ppn ` set ps = {}"
    using u'(4) r'(4) pgt_okD(4) [OF pgt_userD(1) [OF u]] under_table_pages [of ?T ?r user_half] by blast
  then have "distinct (map get_ppn (root_pages t'))" using u'(3) r'(3) by (simp add: r'(2))
  ultimately show ?thesis using ok by (simp add: pgt_user_def r')
qed

lemma covered_user:
  assumes "pgt_user t s" "user_vpn vpn"
  shows "covered (mtab s) (root_ppn t) (parse_vpn vpn ! 2) (parse_vpn vpn ! 1) (parse_vpn vpn ! 0)
    \<longleftrightarrow> lookup t s vpn \<noteq> None"
  using user_vpn_index [OF assms(2)] pgt_userD(2) [OF assms(1)]
  by (auto simp: covered_def lookup_def Let_def no_user_large_def)

lemma map_create_user:
  assumes u: "pgt_user t s" and vpn: "user_vpn vpn"
  obtains (flags) "\<not> is_valid_flags f"
      "map_create vpn ppn f t s = Some (Inl (InvalidPteFlags f), t, s)"
  | (double) "is_valid_flags f" "lookup t s vpn \<noteq> None"
      "map_create vpn ppn f t s = Some (Inl (DoubleMapping vpn ppn), t, s)"
  | (full) t' s' ps where "is_valid_flags f" "lookup t s vpn = None" "mfree s' = {}"
      "map_create vpn ppn f t s = Some (Inl AcquirePageFailed, t', s')"
      "pgt_user t' s'" "pgt_grows user_half t s t' s' ps" "lookup t' s' = lookup t s"
  | (mapped) e t' s' ps where "PTE_new ppn f = Inr e" "lookup t s vpn = None"
      "map_create vpn ppn f t s = Some (Inr (), t', s')"
      "pgt_user t' s'" "pgt_grows user_half t s t' s' ps"
      "\<And>w. user_vpn w \<Longrightarrow> lookup t' s' w = ((lookup t s)(vpn \<mapsto> e)) w"
proof -
  note ok = pgt_userD(1) [OF u] and cov = covered_user [OF u vpn]
  have sub: "{parse_vpn vpn ! 2} \<subseteq> user_half" using user_vpn_index [OF vpn] by simp
  show ?thesis
  proof (rule map_create_cases [OF ok refl refl refl refl, of f vpn ppn], goal_cases fl cv fu mp)
    case fl
    then show ?thesis by (intro flags)
  next
    case cv
    then show ?thesis using cov by (intro double) simp_all
  next
    case (fu t' s' ps)
    note g = pgt_grows_mono [OF fu(6) sub]
    have "root_ppn t' = root_ppn t" using g by (simp add: pgt_grows_def)
    then have "lookup t' s' = lookup t s" by (simp add: lookup_def fun_eq_iff fu(7))
    with fu cov g show ?thesis by (intro full [OF _ _ _ _ pgt_user_grows [OF u fu(5) g] g]) simp_all
  next
    case (mp e t' s' ps)
    note g = pgt_grows_mono [OF mp(6) sub]
    have "root_ppn t' = root_ppn t" using g by (simp add: pgt_grows_def)
    then have "lookup t' s' w = ((lookup t s)(vpn \<mapsto> e)) w" if "user_vpn w" for w
      using parse_vpn_inj [OF that vpn] by (simp add: lookup_def Let_def mp(7))
    with mp cov show ?thesis
      by (intro mapped [OF mp(1) _ mp(4) pgt_user_grows [OF u mp(5) g] g]) simp_all
  qed
qed

text \<open>An empty range leaves the table alone.\<close>

lemma RootPgt_unmap_user:
  assumes u: "pgt_user t s" and hi: "unat (vpn_raw hi) \<le> 2 ^ 26"
  obtains s' where "RootPgt_unmap lo hi t s = Some (Inr (), s')" "pgt_user t s'"
    "pgt_grows user_half t s t s' []"
    "\<And>w. user_vpn w \<Longrightarrow> lookup t s' w = (if lo \<le> w \<and> w < hi then None else lookup t s w)"
proof (cases "lo < hi")
  case True
  show ?thesis
  proof (rule RootPgt_unmap_spec [OF pgt_userD [OF u] True hi], goal_cases run)
    case (run s')
    have "lookup t s' w = (if lo \<le> w \<and> w < hi then None else lookup t s w)" if "user_vpn w" for w
      using user_vpn_pos [OF that]
      by (simp add: lookup_def Let_def run(6) page_order word_le_nat_alt word_less_nat_alt)
    with run show ?thesis by (intro that [OF run(1) pgt_user_grows [OF u run(2,3)] run(3)]) simp_all
  qed
next
  case False
  then show ?thesis
    by (intro that [OF _ u pgt_grows_refl]) (auto simp: RootPgt_unmap_def)
qed

end
