(* ===== verification/VM.thy ===== *)
theory VM
  imports Sv39
begin

text \<open>
  The virtual memory manager \<open>os/src/mm/vm.rs\<close>: the kernel's own mapping, and the user
  address spaces \<open>VMSpace\<close> made of areas.  The ELF parser is the external crate \<open>xmas_elf\<close>; its
  result, the headers of a file, is the record \<open>elf_file\<close>, and \<open>ElfFile::new\<close> is a parameter.
  A value that goes out of scope is dropped where the code drops it, since dropping a page
  gives it back to the allocator.
\<close>

subsection \<open>Permissions and errors\<close>

datatype MapType = Anonymous | KernelVaOffset

datatype VMError =
    CreateRootPgtFailed PgtError
  | VM_PgtError VPN PgtError
  | NoAreaContainVpn VPN
  | InvalidPermissions usize
  | PermissionDenied VPN usize
  | ElfError string
  | AlignDataFailed usize
  | VM_AcquirePageFailed
  | AreaOverlapping VPN VPN
  | EmptyArea VPN VPN

definition PERMISSION_R :: usize where "PERMISSION_R = FLAG_R"
definition PERMISSION_W :: usize where "PERMISSION_W = FLAG_W"
definition PERMISSION_X :: usize where "PERMISSION_X = FLAG_X"
definition PERMISSION_U :: usize where "PERMISSION_U = FLAG_U"
definition ALL_PERMISSION_FLAGS :: usize where
  "ALL_PERMISSION_FLAGS = PERMISSION_R OR PERMISSION_W OR PERMISSION_X OR PERMISSION_U"

definition to_pte_flags :: "usize \<Rightarrow> VMError + usize" where
  "to_pte_flags permissions =
     (if permissions AND NOT ALL_PERMISSION_FLAGS \<noteq> 0 then Inl (InvalidPermissions permissions)
      else Inr ((permissions AND ALL_PERMISSION_FLAGS) OR FLAG_V))"

subsection \<open>The kernel's mapping\<close>

definition get_kernel_satp_ppn :: "mm_state \<Rightarrow> PPN option" where
  "get_kernel_satp_ppn s = PPN_from_pa (push_bit PAGE_SIZE_ORDER (KERNEL_SATP s AND 0xfffffffffff))"

text \<open>\<open>(start..end).step_by(n)\<close> on \<open>usize\<close>.\<close>

definition step_range :: "usize \<Rightarrow> usize \<Rightarrow> usize \<Rightarrow> usize list" where
  "step_range a b n =
     (if a < b
      then map (\<lambda>k. a + of_nat k * n) [0..<(unat b - unat a + unat n - 1) div unat n]
      else [])"

text \<open>
  The \<open>try_for_each\<close> over the pages of a range, with the map operation it calls
  (\<open>map_create\<close> or \<open>map_create_large\<close>).
\<close>

fun map_pages ::
  "(VPN \<Rightarrow> PPN \<Rightarrow> usize \<Rightarrow> RootPgt \<Rightarrow> mm_state \<Rightarrow> ((PgtError + unit) \<times> RootPgt \<times> mm_state) option)
    \<Rightarrow> usize \<Rightarrow> usize list \<Rightarrow> RootPgt \<Rightarrow> mm_state
    \<Rightarrow> ((VMError + unit) \<times> RootPgt \<times> mm_state) option" where
  "map_pages mk pte_flags [] t s = Some (Inr (), t, s)"
| "map_pages mk pte_flags (va # vas) t s = do {
     vpn \<leftarrow> VPN_from_va va;
     pa \<leftarrow> get_pa_from_va va;
     ppn \<leftarrow> PPN_from_pa pa;
     (r, t, s) \<leftarrow> mk vpn ppn pte_flags t s;
     case r of
       Inl err \<Rightarrow> Some (Inl (VM_PgtError vpn err), t, s)
     | Inr _ \<Rightarrow> map_pages mk pte_flags vas t s
   }"

definition map_kernel_range ::
  "RootPgt \<Rightarrow> usize \<Rightarrow> usize \<Rightarrow> usize \<Rightarrow> mm_state
    \<Rightarrow> ((VMError + unit) \<times> RootPgt \<times> mm_state) option" where
  "map_kernel_range t start_va end_va permissions s =
     (case to_pte_flags permissions of
        Inl err \<Rightarrow> Some (Inl err, t, s)
      | Inr pte_flags \<Rightarrow>
          map_pages map_create pte_flags (step_range start_va end_va PAGE_SIZE_BYTES) t s)"

definition map_kernel_range_large ::
  "RootPgt \<Rightarrow> usize \<Rightarrow> usize \<Rightarrow> usize \<Rightarrow> mm_state
    \<Rightarrow> ((VMError + unit) \<times> RootPgt \<times> mm_state) option" where
  "map_kernel_range_large t start_va end_va permissions s =
     (if start_va AND (LARGE_PAGE_SIZE_BYTES - 1) \<noteq> 0 \<or> end_va AND (LARGE_PAGE_SIZE_BYTES - 1) \<noteq> 0
      then None
      else case to_pte_flags permissions of
        Inl err \<Rightarrow> Some (Inl err, t, s)
      | Inr pte_flags \<Rightarrow>
          map_pages map_create_large pte_flags
            (step_range start_va end_va LARGE_PAGE_SIZE_BYTES) t s)"

text \<open>The sequencing of \<open>?\<close> over operations on the root table.\<close>

definition then_map ::
  "((VMError + unit) \<times> RootPgt \<times> mm_state) option
    \<Rightarrow> (RootPgt \<Rightarrow> mm_state \<Rightarrow> ((VMError + unit) \<times> RootPgt \<times> mm_state) option)
    \<Rightarrow> ((VMError + unit) \<times> RootPgt \<times> mm_state) option" where
  "then_map x f = do {
     (r, t, s) \<leftarrow> x;
     case r of Inl err \<Rightarrow> Some (Inl err, t, s) | Inr _ \<Rightarrow> f t s
   }"

fun map_virt_mmio_regions ::
  "(usize \<times> usize) list \<Rightarrow> RootPgt \<Rightarrow> mm_state
    \<Rightarrow> ((VMError + unit) \<times> RootPgt \<times> mm_state) option" where
  "map_virt_mmio_regions [] t s = Some (Inr (), t, s)"
| "map_virt_mmio_regions ((start_pa, sz) # rs) t s = do {
     start_va \<leftarrow> get_va_from_pa start_pa;
     end_va \<leftarrow> get_va_from_pa (start_pa + sz);
     then_map (map_kernel_range t start_va end_va (PERMISSION_R OR PERMISSION_W) s)
       (map_virt_mmio_regions rs)
   }"

definition map_virt_mmio ::
  "RootPgt \<Rightarrow> mm_state \<Rightarrow> ((VMError + unit) \<times> RootPgt \<times> mm_state) option" where
  "map_virt_mmio = map_virt_mmio_regions QEMU_VIRT_MMIO"

definition map_kernel_text ::
  "linker_syms \<Rightarrow> RootPgt \<Rightarrow> mm_state \<Rightarrow> ((VMError + unit) \<times> RootPgt \<times> mm_state) option" where
  "map_kernel_text k t s =
     map_kernel_range t (text_start k) (text_end k) (PERMISSION_R OR PERMISSION_X) s"

definition map_kernel_stack ::
  "linker_syms \<Rightarrow> RootPgt \<Rightarrow> mm_state \<Rightarrow> ((VMError + unit) \<times> RootPgt \<times> mm_state) option" where
  "map_kernel_stack k t s =
     map_kernel_range t (kernel_stack_start k) (kernel_stack_end k) (PERMISSION_R OR PERMISSION_W) s"

definition map_kernel_rodata ::
  "linker_syms \<Rightarrow> RootPgt \<Rightarrow> mm_state \<Rightarrow> ((VMError + unit) \<times> RootPgt \<times> mm_state) option" where
  "map_kernel_rodata k t s =
     map_kernel_range t (rodata_start k) (rodata_end k) PERMISSION_R s"

definition map_kernel_data ::
  "linker_syms \<Rightarrow> RootPgt \<Rightarrow> mm_state \<Rightarrow> ((VMError + unit) \<times> RootPgt \<times> mm_state) option" where
  "map_kernel_data k t s =
     map_kernel_range t (data_start k) (data_end k) (PERMISSION_R OR PERMISSION_W) s"

definition map_kernel_bss ::
  "linker_syms \<Rightarrow> RootPgt \<Rightarrow> mm_state \<Rightarrow> ((VMError + unit) \<times> RootPgt \<times> mm_state) option" where
  "map_kernel_bss k t s =
     map_kernel_range t (bss_start k) (bss_end k) (PERMISSION_R OR PERMISSION_W) s"

definition compute_phy_mem_page_start :: "usize \<Rightarrow> usize" where
  "compute_phy_mem_page_start kend =
     (if kend AND (PAGE_SIZE_BYTES - 1) = 0 then kend
      else kend - (kend AND (PAGE_SIZE_BYTES - 1)) + PAGE_SIZE_BYTES)"

definition compute_phy_mem_large_page_start :: "usize \<Rightarrow> usize" where
  "compute_phy_mem_large_page_start kend =
     (if kend AND (LARGE_PAGE_SIZE_BYTES - 1) = 0 then kend
      else kend - (kend AND (LARGE_PAGE_SIZE_BYTES - 1)) + LARGE_PAGE_SIZE_BYTES)"

definition compute_phy_mem_large_page_end :: "usize \<Rightarrow> usize" where
  "compute_phy_mem_large_page_end phy_mem_end =
     (if phy_mem_end AND (LARGE_PAGE_SIZE_BYTES - 1) = 0 then phy_mem_end
      else phy_mem_end - (phy_mem_end AND (LARGE_PAGE_SIZE_BYTES - 1)))"

definition map_phys_mem ::
  "linker_syms \<Rightarrow> RootPgt \<Rightarrow> mm_state \<Rightarrow> ((VMError + unit) \<times> RootPgt \<times> mm_state) option" where
  "map_phys_mem k t s = do {
     let permissions = PERMISSION_R OR PERMISSION_W;
     let start_va = compute_phy_mem_page_start (kernel_end k);
     end_va \<leftarrow> get_va_from_pa (MEM_START_PA + MEM_SIZE_BYTES);
     let large_start_va = compute_phy_mem_large_page_start start_va;
     let large_end_va = compute_phy_mem_large_page_end end_va;
     if large_end_va \<le> large_start_va
     then map_kernel_range t start_va end_va permissions s
     else then_map (map_kernel_range t start_va large_start_va permissions s) (\<lambda>t s.
          then_map (map_kernel_range_large t large_start_va large_end_va permissions s) (\<lambda>t s.
          map_kernel_range t large_end_va end_va permissions s))
   }"

definition init_kernel_satp :: "linker_syms \<Rightarrow> mm_state \<Rightarrow> ((VMError + unit) \<times> mm_state) option" where
  "init_kernel_satp k s = do {
     (r, s) \<leftarrow> RootPgt_new s;
     case r of
       Inl err \<Rightarrow> Some (Inl (CreateRootPgtFailed err), s)
     | Inr root_pgt \<Rightarrow> do {
         (r, root_pgt, s) \<leftarrow>
           then_map (map_virt_mmio root_pgt s) (\<lambda>t s.
           then_map (map_kernel_text k t s) (\<lambda>t s.
           then_map (map_kernel_stack k t s) (\<lambda>t s.
           then_map (map_kernel_rodata k t s) (\<lambda>t s.
           then_map (map_kernel_data k t s) (\<lambda>t s.
           then_map (map_kernel_bss k t s) (\<lambda>t s.
           map_phys_mem k t s))))));
         case r of
           Inl err \<Rightarrow> Some (Inl err, drop_RootPgt root_pgt s)
         | Inr _ \<Rightarrow> Some (Inr (), s\<lparr>KERNEL_SATP := RootPgt_get_satp root_pgt\<rparr>)
       }
   }"

subsection \<open>Areas and spaces\<close>

record VMArea =
  start_vpn :: VPN
  end_vpn :: VPN
  map_type :: MapType
  permissions :: usize
  pages :: "(VPN \<times> Page) list"

definition VMArea_new :: "VPN \<Rightarrow> VPN \<Rightarrow> MapType \<Rightarrow> usize \<Rightarrow> VMArea" where
  "VMArea_new start end mt perms =
     \<lparr>start_vpn = start, end_vpn = end, map_type = mt, permissions = perms, pages = []\<rparr>"

definition contain_vpn :: "VMArea \<Rightarrow> VPN \<Rightarrow> bool" where
  "contain_vpn area vpn \<longleftrightarrow> start_vpn area \<le> vpn \<and> vpn < end_vpn area"

record VMSpace =
  root_pgt :: RootPgt
  areas :: "VMArea list"
  entry_addr :: usize
  u_stack_end :: usize
  k_stack_end :: usize

text \<open>The drop glue: the pages of an area, and the fields of a space in their order.\<close>

definition drop_VMArea :: "VMArea \<Rightarrow> mm_state \<Rightarrow> mm_state" where
  "drop_VMArea area s = drop_pages (btm_values (pages area)) s"

definition drop_VMSpace :: "VMSpace \<Rightarrow> mm_state \<Rightarrow> mm_state" where
  "drop_VMSpace v s = foldl (\<lambda>s area. drop_VMArea area s) (drop_RootPgt (root_pgt v) s) (areas v)"

definition VMSpace_get_satp :: "VMSpace \<Rightarrow> usize" where
  "VMSpace_get_satp v = RootPgt_get_satp (root_pgt v)"

definition VMSpace_map_create ::
  "VPN \<Rightarrow> PPN \<Rightarrow> usize \<Rightarrow> VMSpace \<Rightarrow> mm_state \<Rightarrow> ((VMError + unit) \<times> VMSpace \<times> mm_state) option" where
  "VMSpace_map_create vpn ppn pte_flags v s = do {
     (r, t, s) \<leftarrow> map_create vpn ppn pte_flags (root_pgt v) s;
     Some (map_sum (VM_PgtError vpn) id r, v\<lparr>root_pgt := t\<rparr>, s)
   }"

subsection \<open>Adding, faulting in and removing pages\<close>

text \<open>\<open>find_area_mut\<close>: the index of the first area that contains the page.\<close>

definition find_area_mut :: "VMSpace \<Rightarrow> VPN \<Rightarrow> VMError + nat" where
  "find_area_mut v vpn =
     (case iter_position (\<lambda>area. contain_vpn area vpn) (areas v) of
        None \<Rightarrow> Inl (NoAreaContainVpn vpn)
      | Some i \<Rightarrow> Inr i)"

definition VMSpace_map ::
  "VMSpace \<Rightarrow> VPN \<Rightarrow> usize \<Rightarrow> mm_state \<Rightarrow> ((VMError + unit) \<times> VMSpace \<times> mm_state) option" where
  "VMSpace_map v vpn min_permissions s =
     (case find_area_mut v vpn of
        Inl err \<Rightarrow> Some (Inl err, v, s)
      | Inr i \<Rightarrow>
          (let area = areas v ! i in
           if min_permissions AND permissions area \<noteq> min_permissions
           then Some (Inl (PermissionDenied vpn min_permissions), v, s)
           else if map_type area \<noteq> Anonymous then None
           else do {
             (p, s) \<leftarrow> alloc_zeroed_page s;
             case p of
               None \<Rightarrow> Some (Inl VM_AcquirePageFailed, v, s)
             | Some page \<Rightarrow> do {
                 let ppn = get_ppn page;
                 let (old, pgs) = btm_insert vpn page (pages area);
                 let s = drop_page_opt old s;
                 let v = v\<lparr>areas := (areas v)[i := area\<lparr>pages := pgs\<rparr>]\<rparr>;
                 case to_pte_flags (permissions area) of
                   Inl err \<Rightarrow> Some (Inl err, v, s)
                 | Inr pte_flags \<Rightarrow> do {
                     (r, v, s) \<leftarrow> VMSpace_map_create vpn ppn pte_flags v s;
                     case r of
                       Inr _ \<Rightarrow> Some (Inr (), v, s)
                     | Inl err \<Rightarrow>
                         (case find_area_mut v vpn of
                            Inl _ \<Rightarrow> None
                          | Inr j \<Rightarrow>
                              (let area = areas v ! j; (old, pgs) = btm_remove vpn (pages area) in
                               Some (Inl err, v\<lparr>areas := (areas v)[j := area\<lparr>pages := pgs\<rparr>]\<rparr>,
                                 drop_page_opt old s)))
                   }
               }
           }))"

definition map_fault_page ::
  "VMSpace \<Rightarrow> usize \<Rightarrow> usize \<Rightarrow> mm_state \<Rightarrow> ((VMError + unit) \<times> VMSpace \<times> mm_state) option" where
  "map_fault_page v va min_permissions s = do {
     vpn \<leftarrow> VPN_from_va va;
     VMSpace_map v vpn min_permissions s
   }"

definition add_new_area ::
  "VMSpace \<Rightarrow> VPN \<Rightarrow> VPN \<Rightarrow> MapType \<Rightarrow> usize \<Rightarrow> (VMError + unit) \<times> VMSpace" where
  "add_new_area v start end mt perms =
     (if end \<le> start then (Inl (EmptyArea start end), v)
      else if perms AND NOT ALL_PERMISSION_FLAGS \<noteq> 0 then (Inl (InvalidPermissions perms), v)
      else if list_all (\<lambda>area. end_vpn area \<le> start \<or> end \<le> start_vpn area) (areas v)
      then (Inr (), v\<lparr>areas := vec_push (areas v) (VMArea_new start end mt perms)\<rparr>)
      else (Inl (AreaOverlapping start end), v))"

text \<open>
  The body of the loop of \<open>unmap\<close> at index \<open>i\<close>, with the four overlap cases of the code; the
  pages that leave an area are dropped after the entries of the page table are cleared.
\<close>

definition unmap_area ::
  "VPN \<Rightarrow> VPN \<Rightarrow> nat \<Rightarrow> VMSpace \<Rightarrow> mm_state \<Rightarrow> ((VMError + unit) \<times> VMSpace \<times> mm_state) option" where
  "unmap_area start end i v s =
     (if i \<ge> length (areas v) then None
      else
        let area = areas v ! i in
        if end_vpn area \<le> start \<or> end \<le> start_vpn area then Some (Inr (), v, s)
        else if start \<le> start_vpn area \<and> end_vpn area \<le> end then do {
          (r, s) \<leftarrow> RootPgt_unmap (start_vpn area) (end_vpn area) (root_pgt v) s;
          case r of
            Inl err \<Rightarrow> Some (Inl (VM_PgtError (start_vpn area) err), v, s)
          | Inr _ \<Rightarrow> do {
              (removed, as) \<leftarrow> vec_swap_remove i (areas v);
              Some (Inr (), v\<lparr>areas := as\<rparr>, drop_VMArea removed s)
            }
        }
        else if start \<le> start_vpn area then do {
          (r, s) \<leftarrow> RootPgt_unmap (start_vpn area) end (root_pgt v) s;
          case r of
            Inl err \<Rightarrow> Some (Inl (VM_PgtError (start_vpn area) err), v, s)
          | Inr _ \<Rightarrow>
              (let (dropped, kept) = btm_split_off end (pages area) in
               Some (Inr (),
                 v\<lparr>areas := (areas v)[i := area\<lparr>start_vpn := end, pages := kept\<rparr>]\<rparr>,
                 drop_pages (btm_values dropped) s))
        }
        else if end_vpn area \<le> end then do {
          (r, s) \<leftarrow> RootPgt_unmap start (end_vpn area) (root_pgt v) s;
          case r of
            Inl err \<Rightarrow> Some (Inl (VM_PgtError (start_vpn area) err), v, s)
          | Inr _ \<Rightarrow>
              (let (kept, dropped) = btm_split_off start (pages area) in
               Some (Inr (),
                 v\<lparr>areas := (areas v)[i := area\<lparr>end_vpn := start, pages := kept\<rparr>]\<rparr>,
                 drop_pages (btm_values dropped) s))
        }
        else do {
          (r, s) \<leftarrow> RootPgt_unmap start end (root_pgt v) s;
          case r of
            Inl err \<Rightarrow> Some (Inl (VM_PgtError (start_vpn area) err), v, s)
          | Inr _ \<Rightarrow>
              (let (low, rest) = btm_split_off start (pages area);
                   (dropped, high) = btm_split_off end rest;
                   new_area = \<lparr>start_vpn = end, end_vpn = end_vpn area, map_type = map_type area,
                     permissions = permissions area, pages = high\<rparr>
               in Some (Inr (),
                 v\<lparr>areas := vec_push ((areas v)[i := area\<lparr>end_vpn := start, pages := low\<rparr>]) new_area\<rparr>,
                 drop_pages (btm_values dropped) s))
        })"

fun unmap_areas ::
  "VPN \<Rightarrow> VPN \<Rightarrow> nat list \<Rightarrow> VMSpace \<Rightarrow> mm_state \<Rightarrow> ((VMError + unit) \<times> VMSpace \<times> mm_state) option" where
  "unmap_areas start end [] v s = Some (Inr (), v, s)"
| "unmap_areas start end (i # is) v s = do {
     (r, v, s) \<leftarrow> unmap_area start end i v s;
     case r of
       Inl err \<Rightarrow> Some (Inl err, v, s)
     | Inr _ \<Rightarrow> unmap_areas start end is v s
   }"

definition VMSpace_unmap ::
  "VMSpace \<Rightarrow> VPN \<Rightarrow> VPN \<Rightarrow> mm_state \<Rightarrow> ((VMError + unit) \<times> VMSpace \<times> mm_state) option" where
  "VMSpace_unmap v start end s = unmap_areas start end (rev [0..<length (areas v)]) v s"

subsection \<open>Building a user space from an ELF file\<close>

text \<open>
  What the code reads of a program header and of a file, as \<open>xmas_elf\<close> reports it.  The type
  of a header is \<open>Inl msg\<close> when the crate rejects it, else whether it is a \<open>Load\<close> segment.
\<close>

record ProgramHeader =
  ph_is_load :: "string + bool"
  ph_offset :: usize
  ph_virtual_addr :: usize
  ph_file_size :: usize
  ph_mem_size :: usize
  ph_align :: usize
  ph_is_read :: bool
  ph_is_write :: bool
  ph_is_execute :: bool

record ElfFile =
  program_iter :: "ProgramHeader list"
  entry_point :: usize

definition get_permissions_from_ph_flags :: "ProgramHeader \<Rightarrow> usize" where
  "get_permissions_from_ph_flags ph =
     (let r = PERMISSION_U;
          r = (if ph_is_read ph then r OR PERMISSION_R else r);
          r = (if ph_is_write ph then r OR PERMISSION_W else r)
      in if ph_is_execute ph then r OR PERMISSION_X else r)"

definition create_area_from_ph :: "ProgramHeader \<Rightarrow> VMArea option" where
  "create_area_from_ph ph = do {
     start \<leftarrow> VPN_from_va (ph_virtual_addr ph);
     end \<leftarrow> VPN_from_va (ph_virtual_addr ph + ph_mem_size ph + PAGE_SIZE_BYTES - 1);
     Some (VMArea_new start end Anonymous (get_permissions_from_ph_flags ph))
   }"

text \<open>\<open>copy_data\<close> writes at most one page; \<open>slice\<close> is \<open>bytes[a..b]\<close> with its bounds checks.\<close>

definition copy_data :: "usize \<Rightarrow> u8 list \<Rightarrow> phys_mem \<Rightarrow> phys_mem option" where
  "copy_data pa data m = do {
     start \<leftarrow> get_pa_mut_ptr pa;
     Some (foldl (\<lambda>m i. m(kptr_pa (start + of_nat i) := data ! i)) m
       [0..<min (length data) (unat PAGE_SIZE_BYTES)])
   }"

definition slice :: "u8 list \<Rightarrow> usize \<Rightarrow> usize \<Rightarrow> u8 list option" where
  "slice bytes a b =
     (if a \<le> b \<and> unat b \<le> length bytes then Some (take (unat b - unat a) (drop (unat a) bytes))
      else None)"

text \<open>
  The loop over the pages of a segment.  On an error the local \<open>page\<close> and the local \<open>area\<close>,
  with the pages it has collected, are dropped.
\<close>

fun map_segment_pages ::
  "u8 list \<Rightarrow> usize \<Rightarrow> usize \<Rightarrow> usize list \<Rightarrow> usize \<Rightarrow> VMArea \<Rightarrow> VMSpace \<Rightarrow> mm_state
    \<Rightarrow> ((VMError + unit) \<times> VMSpace \<times> mm_state) option" where
  "map_segment_pages elf_bytes pte_flags end_data [] pos_data area v s =
     Some (Inr (), v\<lparr>areas := vec_push (areas v) area\<rparr>, s)"
| "map_segment_pages elf_bytes pte_flags end_data (n # ns) pos_data area v s = do {
     let vpn = VPN n;
     (p, s) \<leftarrow> alloc_zeroed_page s;
     case p of
       None \<Rightarrow> Some (Inl VM_AcquirePageFailed, v, drop_VMArea area s)
     | Some page \<Rightarrow> do {
         let ppn = get_ppn page;
         (pos_data, s) \<leftarrow>
           (if pos_data < end_data then do {
              data \<leftarrow> slice elf_bytes pos_data (min (pos_data + PAGE_SIZE_BYTES) end_data);
              m \<leftarrow> copy_data (get_pa ppn) data (phys s);
              Some (pos_data + PAGE_SIZE_BYTES, s\<lparr>phys := m\<rparr>)
            }
            else Some (pos_data, s));
         (r, v, s) \<leftarrow> VMSpace_map_create vpn ppn pte_flags v s;
         case r of
           Inl err \<Rightarrow> Some (Inl err, v, drop_VMArea area (drop_page page s))
         | Inr _ \<Rightarrow>
             (let (old, pgs) = btm_insert vpn page (pages area) in
              map_segment_pages elf_bytes pte_flags end_data ns pos_data
                (area\<lparr>pages := pgs\<rparr>) v (drop_page_opt old s))
       }
   }"

definition map_user_elf_segment ::
  "u8 list \<Rightarrow> ProgramHeader \<Rightarrow> VMSpace \<Rightarrow> mm_state
    \<Rightarrow> ((VMError + unit) \<times> VMSpace \<times> mm_state) option" where
  "map_user_elf_segment elf_bytes ph v s =
     (if ph_align ph = 0 then None
      else if PAGE_SIZE_BYTES mod ph_align ph \<noteq> 0
      then Some (Inl (AlignDataFailed (ph_align ph)), v, s)
      else do {
        area \<leftarrow> create_area_from_ph ph;
        case to_pte_flags (permissions area) of
          Inl err \<Rightarrow> Some (Inl err, v, s)
        | Inr pte_flags \<Rightarrow>
            map_segment_pages elf_bytes pte_flags (ph_offset ph + ph_file_size ph)
              (range_usize (vpn_raw (start_vpn area)) (vpn_raw (end_vpn area)))
              (ph_offset ph) area v s
      })"

fun map_user_elf_headers ::
  "u8 list \<Rightarrow> ProgramHeader list \<Rightarrow> VMSpace \<Rightarrow> mm_state
    \<Rightarrow> ((VMError + unit) \<times> VMSpace \<times> mm_state) option" where
  "map_user_elf_headers elf_bytes [] v s = Some (Inr (), v, s)"
| "map_user_elf_headers elf_bytes (ph # phs) v s =
     (case ph_is_load ph of
        Inl msg \<Rightarrow> Some (Inl (ElfError msg), v, s)
      | Inr is_load \<Rightarrow>
          if \<not> is_load then map_user_elf_headers elf_bytes phs v s
          else do {
            (r, v, s) \<leftarrow> map_user_elf_segment elf_bytes ph v s;
            case r of
              Inl err \<Rightarrow> Some (Inl err, v, s)
            | Inr _ \<Rightarrow> map_user_elf_headers elf_bytes phs v s
          })"

text \<open>The argument \<open>ElfFile_new\<close> is the crate's parser.\<close>

definition map_user_elf ::
  "(u8 list \<Rightarrow> string + ElfFile) \<Rightarrow> u8 list \<Rightarrow> VMSpace \<Rightarrow> mm_state
    \<Rightarrow> ((VMError + unit) \<times> VMSpace \<times> mm_state) option" where
  "map_user_elf ElfFile_new elf_bytes v s =
     (case ElfFile_new elf_bytes of
        Inl msg \<Rightarrow> Some (Inl (ElfError msg), v, s)
      | Inr elf \<Rightarrow> do {
          (r, v, s) \<leftarrow> map_user_elf_headers elf_bytes (program_iter elf) v s;
          case r of
            Inl err \<Rightarrow> Some (Inl err, v, s)
          | Inr _ \<Rightarrow> Some (Inr (), v\<lparr>entry_addr := entry_point elf\<rparr>, s)
        })"

definition add_user_stack_area ::
  "VMSpace \<Rightarrow> mm_state \<Rightarrow> ((VMError + unit) \<times> VMSpace \<times> mm_state) option" where
  "add_user_stack_area v s =
     (let perms = PERMISSION_R OR PERMISSION_W OR PERMISSION_U in
      case to_pte_flags perms of
        Inl err \<Rightarrow> Some (Inl err, v, s)
      | Inr pte_flags \<Rightarrow> do {
          (p, s) \<leftarrow> alloc_zeroed_page s;
          case p of
            None \<Rightarrow> Some (Inl VM_AcquirePageFailed, v, s)
          | Some page \<Rightarrow> do {
              vpn \<leftarrow> VPN_from_va (USER_SPACE_END - PAGE_SIZE_BYTES);
              (r, v, s) \<leftarrow> VMSpace_map_create vpn (get_ppn page) pte_flags v s;
              case r of
                Inl err \<Rightarrow> Some (Inl err, v, drop_page page s)
              | Inr _ \<Rightarrow> do {
                  end \<leftarrow> VPN_from_va USER_SPACE_END;
                  start \<leftarrow> VPN_from_va (USER_SPACE_END - USER_STACK_MAX_SIZE_BYTES);
                  let area = VMArea_new start end Anonymous perms;
                  let area = area\<lparr>pages := snd (btm_insert vpn page (pages area))\<rparr>;
                  Some (Inr (), v\<lparr>areas := vec_push (areas v) area, u_stack_end := USER_SPACE_END\<rparr>, s)
                }
            }
        })"

definition add_kernel_stack_area ::
  "VMSpace \<Rightarrow> mm_state \<Rightarrow> ((VMError + unit) \<times> VMSpace \<times> mm_state) option" where
  "add_kernel_stack_area v s =
     (case alloc_page s of
        (None, s) \<Rightarrow> Some (Inl VM_AcquirePageFailed, v, s)
      | (Some page, s) \<Rightarrow> do {
          let pa = get_pa (get_ppn page);
          start \<leftarrow> VPN_from_va (pa + KERNEL_VA_OFFSET);
          end \<leftarrow> VPN_from_va (pa + KERNEL_VA_OFFSET + PAGE_SIZE_BYTES);
          let area = VMArea_new start end KernelVaOffset (PERMISSION_R OR PERMISSION_W);
          let area = area\<lparr>pages := snd (btm_insert start page (pages area))\<rparr>;
          Some (Inr (), v\<lparr>areas := vec_push (areas v) area, k_stack_end := get_va end\<rparr>, s)
        })"

text \<open>A failed construction drops the unfinished space.\<close>

definition new_user ::
  "(u8 list \<Rightarrow> string + ElfFile) \<Rightarrow> u8 list \<Rightarrow> mm_state \<Rightarrow> ((VMError + VMSpace) \<times> mm_state) option" where
  "new_user ElfFile_new elf_bytes s = do {
     kernel_root \<leftarrow> get_kernel_satp_ppn s;
     entries \<leftarrow> get_ptes_mut kernel_root;
     (r, s) \<leftarrow> RootPgt_new_copy entries s;
     case r of
       Inl err \<Rightarrow> Some (Inl (CreateRootPgtFailed err), s)
     | Inr t \<Rightarrow> do {
         let v = \<lparr>root_pgt = t, areas = [], entry_addr = 0, u_stack_end = 0, k_stack_end = 0\<rparr>;
         (r, v, s) \<leftarrow> map_user_elf ElfFile_new elf_bytes v s;
         case r of
           Inl err \<Rightarrow> Some (Inl err, drop_VMSpace v s)
         | Inr _ \<Rightarrow> do {
             (r, v, s) \<leftarrow> add_user_stack_area v s;
             case r of
               Inl err \<Rightarrow> Some (Inl err, drop_VMSpace v s)
             | Inr _ \<Rightarrow> do {
                 (r, v, s) \<leftarrow> add_kernel_stack_area v s;
                 case r of
                   Inl err \<Rightarrow> Some (Inl err, drop_VMSpace v s)
                 | Inr _ \<Rightarrow> Some (Inr v, s)
               }
           }
       }
   }"

end
