(* ===== verification/VM_Space.thy ===== *)
theory VM_Space
  imports VM User_Pgt
begin

text \<open>
  The invariant of a user space and that adding an area, faulting a page in and unmapping a
  range keep it.  The invariant ties the areas to the page table: in the user half exactly the
  pages the areas own are mapped, each with the permissions of its area, and every page has a
  single owner.
\<close>

subsection \<open>Areas\<close>

definition area_ok :: "VMArea \<Rightarrow> bool" where
  "area_ok a \<longleftrightarrow> btm_inv (pages a)
     \<and> (\<forall>vpn \<in> dom (map_of (pages a)). contain_vpn a vpn)
     \<and> permissions a AND NOT ALL_PERMISSION_FLAGS = 0
     \<and> (case map_type a of
          Anonymous \<Rightarrow> unat (vpn_raw (end_vpn a)) \<le> 2 ^ 26
        | KernelVaOffset \<Rightarrow> 2 ^ 26 \<le> unat (vpn_raw (start_vpn a)))"

text \<open>The page numbers an area owns, with multiplicity, and the leaf entry of one of its pages.\<close>

definition area_bag :: "VMArea \<Rightarrow> PPN multiset" where
  "area_bag a = image_mset get_ppn (mset (btm_values (pages a)))"

definition leaf_of :: "VMArea \<Rightarrow> Page \<Rightarrow> PTE" where
  "leaf_of a p = PTE (push_bit 10 (get_raw (get_ppn p)) OR (permissions a OR FLAG_V))"

definition data_bag :: "VMArea multiset \<Rightarrow> PPN multiset" where
  "data_bag A = \<Sum>\<^sub># (image_mset area_bag A)"

text \<open>At most one area contains a page number.\<close>

definition holders :: "VMArea multiset \<Rightarrow> VPN \<Rightarrow> nat" where
  "holders A vpn = size {#a \<in># A. contain_vpn a vpn#}"

definition areas_apart :: "VMArea multiset \<Rightarrow> bool" where
  "areas_apart A \<longleftrightarrow> (\<forall>vpn. holders A vpn \<le> 1)"

definition maps_to :: "VMArea multiset \<Rightarrow> VPN \<Rightarrow> PTE \<Rightarrow> bool" where
  "maps_to A vpn e \<longleftrightarrow> (\<exists>a p. a \<in># A \<and> map_of (pages a) vpn = Some p \<and> e = leaf_of a p)"

abbreviation marea :: "VMSpace \<Rightarrow> VMArea multiset" where
  "marea v \<equiv> mset (areas v)"

abbreviation data_pages :: "VMSpace \<Rightarrow> PPN set" where
  "data_pages v \<equiv> set_mset (data_bag (marea v))"

text \<open>The hardware reserves a leaf that is writable and not readable; no such leaf is ever made.\<close>

definition sound_leaf :: "PTE \<Rightarrow> bool" where
  "sound_leaf e \<longleftrightarrow> (pte_bits e AND FLAG_W \<noteq> 0 \<longrightarrow> pte_bits e AND FLAG_R \<noteq> 0)"

definition space_ok :: "VMSpace \<Rightarrow> mm_state \<Rightarrow> bool" where
  "space_ok v s \<longleftrightarrow>
     pgt_user (root_pgt v) s \<and>
     (\<forall>a \<in># marea v. area_ok a) \<and> areas_apart (marea v) \<and>
     single_owner (data_bag (marea v)) \<and> data_pages v \<subseteq> mheld s \<and>
     data_pages v \<inter> table_pages (mtab s) (root_ppn (root_pgt v)) = {} \<and>
     (\<forall>vpn e. user_vpn vpn \<longrightarrow> (lookup (root_pgt v) s vpn = Some e \<longleftrightarrow> maps_to (marea v) vpn e)) \<and>
     (\<forall>vpn e. user_vpn vpn \<longrightarrow> lookup (root_pgt v) s vpn = Some e \<longrightarrow> sound_leaf e)"

text \<open>All the pages of a space: the tables it owns and the pages of its areas.\<close>

definition own :: "VMSpace \<Rightarrow> PPN set" where
  "own v = get_ppn ` set (root_pages (root_pgt v)) \<union> data_pages v"

text \<open>
  What an operation on one space may do to the rest of the machine: it exchanges pages with
  the allocator only, and writes only to its own pages and to free ones.
\<close>

definition vm_frame :: "VMSpace \<Rightarrow> mm_state \<Rightarrow> VMSpace \<Rightarrow> mm_state \<Rightarrow> bool" where
  "vm_frame v s v' s' \<longleftrightarrow>
     own v' \<union> mfree s' = own v \<union> mfree s \<and> mheld s' - own v' = mheld s - own v \<and>
     KERNEL_SATP s' = KERNEL_SATP s \<and>
     (\<forall>a. PPN (drop_bit 12 a) \<notin> own v \<union> mfree s \<longrightarrow> phys s' a = phys s a)"

lemma vm_frame_refl: "vm_frame v s v s"
  by (simp add: vm_frame_def)

lemma vm_frame_trans: "vm_frame v s v' s' \<Longrightarrow> vm_frame v' s' v'' s'' \<Longrightarrow> vm_frame v s v'' s''"
  by (simp add: vm_frame_def)

text \<open>
  What an operation keeps of the space itself: its root table, its kernel stack, its entry
  points, and the bytes of every page that belongs to an area before and after.
\<close>

abbreviation kstacks :: "VMSpace \<Rightarrow> VMArea multiset" where
  "kstacks v \<equiv> {#a \<in># marea v. map_type a = KernelVaOffset#}"

definition body_kept :: "VMSpace \<Rightarrow> mm_state \<Rightarrow> VMSpace \<Rightarrow> mm_state \<Rightarrow> bool" where
  "body_kept v s v' s' \<longleftrightarrow>
     root_ppn (root_pgt v') = root_ppn (root_pgt v) \<and> kstacks v' = kstacks v \<and>
     set (root_pages (root_pgt v)) \<subseteq> set (root_pages (root_pgt v')) \<and>
     table_pages (mtab s') (root_ppn (root_pgt v)) \<subseteq>
       table_pages (mtab s) (root_ppn (root_pgt v)) \<union> get_ppn ` set (root_pages (root_pgt v')) \<and>
     entry_addr v' = entry_addr v \<and> u_stack_end v' = u_stack_end v \<and> k_stack_end v' = k_stack_end v \<and>
     (\<forall>a. PPN (drop_bit 12 a) \<in> data_pages v \<inter> data_pages v' \<longrightarrow> phys s' a = phys s a) \<and>
     (\<forall>i. i \<notin> user_half \<longrightarrow> mtab s' (root_ppn (root_pgt v)) i = mtab s (root_ppn (root_pgt v)) i)"

lemma body_kept_refl: "body_kept v s v s"
  by (simp add: body_kept_def)

lemma body_keptD:
  assumes "body_kept v s v' s'"
  shows "root_ppn (root_pgt v') = root_ppn (root_pgt v)" "kstacks v' = kstacks v"
    "set (root_pages (root_pgt v)) \<subseteq> set (root_pages (root_pgt v'))"
    "table_pages (mtab s') (root_ppn (root_pgt v)) \<subseteq>
       table_pages (mtab s) (root_ppn (root_pgt v)) \<union> get_ppn ` set (root_pages (root_pgt v'))"
    "entry_addr v' = entry_addr v" "u_stack_end v' = u_stack_end v" "k_stack_end v' = k_stack_end v"
    "PPN (drop_bit 12 a) \<in> data_pages v \<Longrightarrow> PPN (drop_bit 12 a) \<in> data_pages v' \<Longrightarrow> phys s' a = phys s a"
    "i \<notin> user_half \<Longrightarrow> mtab s' (root_ppn (root_pgt v)) i = mtab s (root_ppn (root_pgt v)) i"
  using assms unfolding body_kept_def by blast+

lemma body_kept_trans:
  assumes "body_kept v s v' s'" "body_kept v' s' v'' s''" "data_pages v'' \<subseteq> data_pages v'"
  shows "body_kept v s v'' s''"
proof -
  note K = body_keptD [OF assms(1)] and L = body_keptD [OF assms(2), unfolded body_keptD(1) [OF assms(1)]]
  show ?thesis
    unfolding body_kept_def
  proof (intro conjI allI impI)
    show "table_pages (mtab s'') (root_ppn (root_pgt v)) \<subseteq>
        table_pages (mtab s) (root_ppn (root_pgt v)) \<union> get_ppn ` set (root_pages (root_pgt v''))"
      using K(4) L(4) image_mono [OF L(3), of get_ppn] by blast
    show "set (root_pages (root_pgt v)) \<subseteq> set (root_pages (root_pgt v''))" using K(3) L(3) by blast
    fix a assume "PPN (drop_bit 12 a) \<in> data_pages v \<inter> data_pages v''"
    then show "phys s'' a = phys s a" using K(8) L(8) assms(3) by (metis IntD1 IntD2 subsetD)
  next
    fix i :: usize assume "i \<notin> user_half"
    from L(9) [OF this] K(9) [OF this]
    show "mtab s'' (root_ppn (root_pgt v)) i = mtab s (root_ppn (root_pgt v)) i" by (rule trans)
  qed (use K(1,2,5-7) L(1,2,5-7) in \<open>simp_all only:\<close>)
qed

subsection \<open>Laws of the area collections\<close>

lemma data_bag_simps [simp]:
  "data_bag {#} = {#}" "data_bag (add_mset a A) = area_bag a + data_bag A"
  "data_bag (A + B) = data_bag A + data_bag B"
  by (simp_all add: data_bag_def)

lemma data_bag_mono: "a \<in># A \<Longrightarrow> area_bag a \<subseteq># data_bag A"
  by (metis data_bag_simps(2) insert_DiffM mset_subset_eq_add_left)

lemma holders_simps [simp]:
  "holders {#} vpn = 0" "holders (A + B) vpn = holders A vpn + holders B vpn"
  "holders (add_mset a A) vpn = (if contain_vpn a vpn then 1 else 0) + holders A vpn"
  by (simp_all add: holders_def)

lemma holders_pos: "a \<in># A \<Longrightarrow> contain_vpn a vpn \<Longrightarrow> 0 < holders A vpn"
  by (auto dest!: multi_member_split)

lemma areas_apart_unique:
  assumes "areas_apart (add_mset a A)" "contain_vpn a vpn" "b \<in># A"
  shows "\<not> contain_vpn b vpn"
proof
  assume "contain_vpn b vpn"
  then have "0 < holders A vpn" using assms(3) by (rule holders_pos [rotated])
  moreover have "holders (add_mset a A) vpn \<le> 1" using assms(1) unfolding areas_apart_def by blast
  ultimately show False using assms(2) by simp
qed

lemma areas_apart_replace:
  assumes "areas_apart (add_mset a A)"
    and "\<And>vpn. holders N vpn \<le> (if contain_vpn a vpn then 1 else 0)"
  shows "areas_apart (N + A)"
  unfolding areas_apart_def
proof
  fix vpn
  have "holders (add_mset a A) vpn \<le> 1" using assms(1) unfolding areas_apart_def by blast
  with assms(2) [of vpn] show "holders (N + A) vpn \<le> 1" by simp
qed

lemma maps_to_union: "maps_to (A + B) vpn e \<longleftrightarrow> maps_to A vpn e \<or> maps_to B vpn e"
  by (auto simp: maps_to_def)

lemma maps_to_add:
  "maps_to (add_mset a A) vpn e \<longleftrightarrow>
     (\<exists>p. map_of (pages a) vpn = Some p \<and> e = leaf_of a p) \<or> maps_to A vpn e"
  by (auto simp: maps_to_def)

lemma area_ok_contain: "area_ok a \<Longrightarrow> map_of (pages a) vpn = Some p \<Longrightarrow> contain_vpn a vpn"
  by (auto simp: area_ok_def)

lemma maps_to_apart:
  assumes "areas_apart (add_mset a A)" "\<forall>b \<in># A. area_ok b" "contain_vpn a vpn"
  shows "\<not> maps_to A vpn e"
  using assms(2) areas_apart_unique [OF assms(1,3)] area_ok_contain unfolding maps_to_def by blast

lemma mset_replace_nth:
  assumes "i < length xs"
  shows "mset xs = add_mset (xs ! i) (mset xs - {#xs ! i#})"
    "mset (xs[i := x]) = add_mset x (mset xs - {#xs ! i#})"
  using assms by (simp_all add: mset_update)

subsection \<open>The page table under a change of other memory\<close>

lemma pgt_user_cong:
  assumes u: "pgt_user t s" and inv: "mm_inv s'"
    and held: "table_pages (mtab s) (root_ppn t) \<subseteq> mheld s'"
    and mem: "\<And>a. PPN (drop_bit 12 a) \<in> table_pages (mtab s) (root_ppn t) \<Longrightarrow> phys s' a = phys s a"
  shows "pgt_user t s'" "lookup t s' = lookup t s"
    "table_pages (mtab s') (root_ppn t) = table_pages (mtab s) (root_ppn t)"
    "under (mtab s') (root_ppn t) I = under (mtab s) (root_ppn t) I"
proof -
  let ?r = "root_ppn t"
  have same: "mtab s' p = mtab s p" if "p \<in> table_pages (mtab s) ?r" for p
    by (rule tab_page_cong) (use mem that in simp)
  note t = tree_cong [of "mtab s" ?r "mtab s'", OF fun_cong [OF same]]
  note t1 = table_pages_intros
  show "lookup t s' = lookup t s" by (simp add: lookup_def fun_eq_iff t(3))
  show "table_pages (mtab s') ?r = table_pages (mtab s) ?r" by (rule t(4))
  show un: "under (mtab s') ?r I = under (mtab s) ?r I" for I by (simp add: under_def t(1,2))
  have "no_user_large (mtab s') ?r = no_user_large (mtab s) ?r"
    using same [OF t1(1)] same [OF t1(2)] by (auto simp: no_user_large_def t(1))
  moreover have "sentinel (mtab s') ?r = sentinel (mtab s) ?r" by (simp add: sentinel_def t(2))
  moreover have "pgt_ok t s'" using u inv held by (simp add: pgt_user_def pgt_ok_def t)
  ultimately show "pgt_user t s'" using u by (simp add: pgt_user_def un)
qed

lemma lookup_drop [simp]:
  "lookup t (drop_page p s) = lookup t s" "lookup t (drop_pages ps s) = lookup t s"
  by (simp_all add: lookup_def fun_eq_iff)

lemma space_okD:
  assumes "space_ok v s"
  shows "pgt_user (root_pgt v) s" "\<forall>a \<in># marea v. area_ok a" "areas_apart (marea v)"
    "single_owner (data_bag (marea v))" "data_pages v \<subseteq> mheld s"
    "data_pages v \<inter> table_pages (mtab s) (root_ppn (root_pgt v)) = {}"
    "user_vpn vpn \<Longrightarrow> lookup (root_pgt v) s vpn = Some e \<longleftrightarrow> maps_to (marea v) vpn e"
    "mm_inv s" "table_pages (mtab s) (root_ppn (root_pgt v)) \<subseteq> mheld s"
    "mfree s \<inter> mheld s = {}" "own v \<subseteq> mheld s"
    "user_vpn vpn \<Longrightarrow> lookup (root_pgt v) s vpn = Some e \<Longrightarrow> sound_leaf e"
proof -
  show "user_vpn vpn \<Longrightarrow> lookup (root_pgt v) s vpn = Some e \<Longrightarrow> sound_leaf e"
    using assms by (simp add: space_ok_def)
  show a: "pgt_user (root_pgt v) s" "\<forall>a \<in># marea v. area_ok a" "areas_apart (marea v)"
    "single_owner (data_bag (marea v))" "data_pages v \<subseteq> mheld s"
    "data_pages v \<inter> table_pages (mtab s) (root_ppn (root_pgt v)) = {}"
    "user_vpn vpn \<Longrightarrow> lookup (root_pgt v) s vpn = Some e \<longleftrightarrow> maps_to (marea v) vpn e"
    using assms by (simp_all add: space_ok_def)
  show inv: "mm_inv s" and tp: "table_pages (mtab s) (root_ppn (root_pgt v)) \<subseteq> mheld s"
    using a(1) by (simp_all add: pgt_user_def pgt_ok_def)
  show "mfree s \<inter> mheld s = {}" using inv pool.free_held by (simp add: mm_inv_def)
  show "own v \<subseteq> mheld s"
    using a(1,5) tp under_table_pages by (fastforce simp: own_def pgt_user_def)
qed

subsection \<open>Adding an area\<close>

lemma contain_vpn_simps [simp]:
  "contain_vpn (VMArea_new x y mt pm) w \<longleftrightarrow> x \<le> w \<and> w < y"
  "contain_vpn (a\<lparr>pages := m\<rparr>) w \<longleftrightarrow> contain_vpn a w"
  by (simp_all add: contain_vpn_def VMArea_new_def)

lemma add_new_area_ok:
  assumes ok: "space_ok v s" and r: "add_new_area v lo hi mt pm = (Inr (), v')"
    and side: "case mt of Anonymous \<Rightarrow> unat (vpn_raw hi) \<le> 2 ^ 26
      | KernelVaOffset \<Rightarrow> 2 ^ 26 \<le> unat (vpn_raw lo)"
  shows "space_ok v' s" "root_pgt v' = root_pgt v" "own v' = own v"
    "marea v' = add_mset (VMArea_new lo hi mt pm) (marea v)"
proof -
  let ?a = "VMArea_new lo hi mt pm"
  from r have g: "lo < hi" "pm AND NOT ALL_PERMISSION_FLAGS = 0"
    "\<forall>a \<in> set (areas v). end_vpn a \<le> lo \<or> hi \<le> start_vpn a"
    and v': "v' = v\<lparr>areas := vec_push (areas v) ?a\<rparr>"
    by (auto simp: add_new_area_def list_all_iff split: if_splits)
  have m: "marea v' = add_mset ?a (marea v)" by (simp add: v')
  then show "marea v' = add_mset ?a (marea v)" .
  have bag: "area_bag ?a = {#}" "\<not> maps_to {#?a#} w e" for w e
    by (simp_all add: area_bag_def VMArea_new_def btm_values_def maps_to_def)
  have "area_ok ?a" using g(1,2) side by (cases mt) (simp_all add: area_ok_def VMArea_new_def)
  moreover have "areas_apart (add_mset ?a (marea v))"
    unfolding areas_apart_def
  proof
    fix w
    have "holders (marea v) w = 0" if "contain_vpn ?a w"
    proof -
      have "\<not> contain_vpn a w" if "a \<in># marea v" for a
        using g(3) that \<open>contain_vpn ?a w\<close> by (fastforce simp: contain_vpn_def VMArea_new_def)
      then show ?thesis by (simp add: holders_def filter_mset_False)
    qed
    then show "holders (add_mset ?a (marea v)) w \<le> 1"
      using space_okD(3) [OF ok] by (simp add: areas_apart_def)
  qed
  ultimately show "space_ok v' s"
    using ok maps_to_union [of "{#?a#}" "marea v"] by (simp add: space_ok_def m bag v')
  show "root_pgt v' = root_pgt v" "own v' = own v" by (simp_all add: v' own_def bag)
qed

subsection \<open>Faulting a page in\<close>

lemma iter_position_update:
  "i < length xs \<Longrightarrow> P x = P (xs ! i) \<Longrightarrow> iter_position P (xs[i := x]) = iter_position P xs"
proof (induction P xs arbitrary: i rule: iter_position.induct)
  case (2 P y ys)
  then show ?case by (cases i) auto
qed simp

lemma btm_remove_insert:
  "btm_inv m \<Longrightarrow> map_of m k = None \<Longrightarrow> snd (btm_remove k (snd (btm_insert k x m))) = m
    \<and> fst (btm_remove k (snd (btm_insert k x m))) = Some x"
  by (induction k x m rule: btm_insert.induct) (auto simp: case_prod_beta Let_def split: if_splits)

lemma insert_page:
  fixes p :: Page
  assumes ok: "area_ok a" and vpn: "contain_vpn a vpn" "map_of (pages a) vpn = None"
  defines "a' \<equiv> a\<lparr>pages := snd (btm_insert vpn p (pages a))\<rparr>"
  shows "area_ok a'" "area_bag a' = add_mset (get_ppn p) (area_bag a)"
    "maps_to (add_mset a' A) w e \<longleftrightarrow> w = vpn \<and> e = leaf_of a p \<or> maps_to (add_mset a A) w e"
    "fst (btm_insert vpn p (pages a)) = None"
proof -
  have inv: "btm_inv (pages a)" using ok by (simp add: area_ok_def)
  note g = btm.get_ins [OF inv, of vpn p] and old = btm.old_ins [OF inv, of vpn p]
  show "fst (btm_insert vpn p (pages a)) = None" using old vpn(2) by simp
  with btm.vals_ins [OF inv, of vpn p] show "area_bag a' = add_mset (get_ppn p) (area_bag a)"
    by (simp add: area_bag_def a'_def)
  show "area_ok a'"
    using ok vpn(1) btm.inv_ins [OF inv] by (simp add: area_ok_def a'_def g split: MapType.splits)
  show "maps_to (add_mset a' A) w e \<longleftrightarrow> w = vpn \<and> e = leaf_of a p \<or> maps_to (add_mset a A) w e"
    using vpn(2) by (auto simp: maps_to_add a'_def g leaf_of_def)
qed

lemma PTE_new_leaf_of:
  assumes "area_ok a" "to_pte_flags (permissions a) = Inr f" "PTE_new (get_ppn p) f = Inr e"
  shows "e = leaf_of a p"
proof -
  have "permissions a AND ALL_PERMISSION_FLAGS = permissions a"
    using assms(1) by (intro and_not_eq_0) (simp add: area_ok_def)
  then show ?thesis
    using assms(2,3) by (auto simp: to_pte_flags_def PTE_new_def leaf_of_def split: if_splits)
qed

lemma xwr_bit:
  "bit (drop_bit 1 (f AND (FLAG_X OR FLAG_W OR FLAG_R))) n \<longleftrightarrow> n < 3 \<and> bit f (Suc n)"
proof -
  have flags: "FLAG_X OR FLAG_W OR FLAG_R = push_bit 1 (mask 3)" by (simp add: kconst mask_eq_exp_minus_1)
  have "bit (f AND push_bit 1 (mask 3)) (1 + n) \<longleftrightarrow> n < 3 \<and> bit f (1 + n)"
    unfolding bit_and_iff bit_push_bit_iff bit_mask_iff by (auto dest: bit_imp_le_length)
  then show ?thesis unfolding flags bit_drop_bit_eq by simp
qed

text \<open>The reserved encodings are those of a page that may be written but not read.\<close>

lemma reserved_iff: "is_reserved_xwr_encodings f \<longleftrightarrow> bit f 2 \<and> \<not> bit f 1"
proof -
  let ?x = "drop_bit 1 (f AND (FLAG_X OR FLAG_W OR FLAG_R))"
  have two: "bit (2 :: usize) n \<longleftrightarrow> n = 1" for n by (auto simp: bit_simps)
  have six: "bit (6 :: usize) n \<longleftrightarrow> n = 1 \<or> n = 2" for n
  proof -
    have six: "(6 :: usize) = push_bit 1 (mask 2)" by (simp add: mask_eq_exp_minus_1)
    show ?thesis unfolding six bit_push_bit_iff bit_mask_iff by auto
  qed
  have x: "bit ?x 0 \<longleftrightarrow> bit f 1" "bit ?x 1 \<longleftrightarrow> bit f 2" "bit ?x 2 \<longleftrightarrow> bit f 3"
    unfolding xwr_bit by (simp_all add: numeral_2_eq_2 numeral_3_eq_3)
  have "?x = (if bit f 3 then 6 else 2)" if "bit f 2" "\<not> bit f 1"
  proof (rule bit_eqI)
    fix n :: nat
    consider "n = 0" | "n = 1" | "n = 2" | "3 \<le> n" by linarith
    then show "bit ?x n \<longleftrightarrow> bit (if bit f 3 then 6 else 2 :: usize) n"
      unfolding if_distrib [of "\<lambda>y. bit y n"] six two
      by cases (use that x xwr_bit [of f n] in simp_all)
  qed
  moreover have "bit f 2 \<and> \<not> bit f 1" if "?x = 2 \<or> ?x = 6"
    using that
  proof
    assume "?x = 2"
    then show ?thesis unfolding x(1,2) [symmetric] by (simp only: two) simp
  next
    assume "?x = 6"
    then show ?thesis unfolding x(1,2) [symmetric] by (simp only: six) simp
  qed
  ultimately have "?x = 2 \<or> ?x = 6 \<longleftrightarrow> bit f 2 \<and> \<not> bit f 1" 
    by (metis (full_types, opaque_lifting))
  then show ?thesis unfolding is_reserved_xwr_encodings_def Let_def .
qed

text \<open>Which flags an entry may have, in terms of their bits.\<close>

lemma is_valid_flags_bits: "is_valid_flags f \<longleftrightarrow> unat f < 1024 \<and> bit f 0 \<and> (bit f 2 \<longrightarrow> bit f 1)"
proof -
  have "has_v_flag_clear f \<longleftrightarrow> \<not> bit f 0" by (simp add: has_v_flag_clear_def flag_vals and_one_eq bit_0 even_iff_mod_2_eq_zero)
  then show ?thesis by (auto simp: is_valid_flags_def unknown_flags_iff reserved_iff)
qed

lemma valid_flags_readable: "is_valid_flags f \<Longrightarrow> bit f 2 \<Longrightarrow> bit f 1"
  by (simp add: is_valid_flags_bits)

lemma PTE_new_sound:
  assumes "PTE_new p f = Inr e"
  shows "sound_leaf e"
proof -
  have v: "is_valid_flags f" and e: "pte_bits e = push_bit 10 (get_raw p) OR f"
    using assms by (auto simp: PTE_new_def split: if_splits)
  have "bit (pte_bits e) n \<longleftrightarrow> bit f n" if "n < 10" for n using that by (simp add: e bit_simps)
  then show ?thesis using valid_flags_readable [OF v]
    by (simp add: sound_leaf_def FLAG_W_def FLAG_R_def del: push_bit_of_1 push_bit_Suc)
qed

lemma area_unique:
  assumes "areas_apart (mset ars)" "i < length ars" "contain_vpn (ars ! i) w" "a \<in> set ars" "contain_vpn a w"
  shows "a = ars ! i"
proof (rule ccontr)
  assume ne: "a \<noteq> ars ! i"
  obtain A where A: "mset ars = add_mset (ars ! i) A" using mset_replace_nth(1) [OF assms(2)] by blast
  have "a \<in># mset ars" using assms(4) by simp
  then have "a \<in># A" using ne unfolding A by simp
  then show False using areas_apart_unique [of "ars ! i" A w a] assms(1,3,5) unfolding A by blast
qed

lemma find_area_cases:
  assumes "\<forall>a \<in># marea v. area_ok a" "user_vpn vpn"
  obtains (none) "find_area_mut v vpn = Inl (NoAreaContainVpn vpn)"
      "\<And>a. a \<in># marea v \<Longrightarrow> \<not> contain_vpn a vpn"
  | (found) i where "find_area_mut v vpn = Inr i" "i < length (areas v)"
      "contain_vpn (areas v ! i) vpn" "area_ok (areas v ! i)" "map_type (areas v ! i) = Anonymous"
proof (cases "iter_position (\<lambda>a. contain_vpn a vpn) (areas v)")
  case None
  then have "\<forall>a \<in> set (areas v). \<not> contain_vpn a vpn" by (simp add: iter_position_None)
  moreover have "find_area_mut v vpn = Inl (NoAreaContainVpn vpn)" using None by (simp add: find_area_mut_def)
  ultimately show ?thesis by (intro none) simp_all
next
  case (Some i)
  note p = iter_position_Some [OF Some]
  then have ok: "area_ok (areas v ! i)" using assms(1) by simp
  moreover have "map_type (areas v ! i) = Anonymous"
    using ok p assms(2) by (cases "map_type (areas v ! i)")
      (auto simp: area_ok_def contain_vpn_def user_vpn_def page_order word_le_nat_alt)
  ultimately show ?thesis using Some p by (intro found) (auto simp: find_area_mut_def)
qed

text \<open>
  A page taken from the allocator: it was free, is now held, and only its own bytes may have
  been written.
\<close>

definition took_page :: "Page \<Rightarrow> mm_state \<Rightarrow> mm_state \<Rightarrow> bool" where
  "took_page p s s1 \<longleftrightarrow> get_ppn p \<in> mfree s \<and> mfree s1 = mfree s - {get_ppn p}
     \<and> mheld s1 = insert (get_ppn p) (mheld s) \<and> mm_inv s1 \<and> KERNEL_SATP s1 = KERNEL_SATP s
     \<and> (\<forall>a. PPN (drop_bit 12 a) \<noteq> get_ppn p \<longrightarrow> phys s1 a = phys s a)"

lemma took_page_space:
  assumes ok: "space_ok v s" and tk: "took_page p s s1"
  shows "pgt_user (root_pgt v) s1" "lookup (root_pgt v) s1 = lookup (root_pgt v) s"
    "table_pages (mtab s1) (root_ppn (root_pgt v)) = table_pages (mtab s) (root_ppn (root_pgt v))"
    "get_ppn p \<notin> table_pages (mtab s) (root_ppn (root_pgt v))" "get_ppn p \<notin> own v"
    "get_ppn p \<notin> data_pages v"
proof -
  let ?r = "root_ppn (root_pgt v)"
  note D = space_okD [OF ok]
  show n: "get_ppn p \<notin> table_pages (mtab s) ?r" "get_ppn p \<notin> own v"
    using D(9,10,11) tk by (auto simp: took_page_def)
  from n(2) show "get_ppn p \<notin> data_pages v" by (simp add: own_def)
  have *: "mm_inv s1" "table_pages (mtab s) ?r \<subseteq> mheld s1" using tk D(9) by (auto simp: took_page_def)
  have mem: "phys s1 a = phys s a" if "PPN (drop_bit 12 a) \<in> table_pages (mtab s) ?r" for a
  proof -
    have "PPN (drop_bit 12 a) \<noteq> get_ppn p" using n(1) that by auto
    then show ?thesis using tk by (simp add: took_page_def)
  qed
  show "pgt_user (root_pgt v) s1" "lookup (root_pgt v) s1 = lookup (root_pgt v) s"
    "table_pages (mtab s1) ?r = table_pages (mtab s) ?r"
    by (rule pgt_user_cong [OF D(1) *]; rule mem; assumption)+
qed

text \<open>Growing the tables leaves the kernel half of the root and the pages of the areas alone.\<close>

lemma upper_root_kept:
  assumes ok: "space_ok v s" and tk: "took_page p s s1"
    and g: "pgt_grows user_half (root_pgt v) s1 t' s2 ps" and i: "i \<notin> user_half"
  shows "mtab s2 (root_ppn (root_pgt v)) i = mtab s (root_ppn (root_pgt v)) i"
proof -
  let ?r = "root_ppn (root_pgt v)"
  have "?r \<noteq> get_ppn p" using took_page_space(4) [OF ok tk] table_pages_intros(1) by metis
  then have "mtab s1 ?r = mtab s ?r" by (intro tab_page_cong) (use tk in \<open>auto simp: took_page_def\<close>)
  moreover have "tree_kept user_half (mtab s1) (mtab s2) ?r" using g by (simp add: pgt_grows_def)
  ultimately show ?thesis using tree_keptD(3) i by metis
qed

lemma data_bytes_kept:
  assumes ok: "space_ok v s" and tk: "took_page p s s1"
    and g: "pgt_grows user_half (root_pgt v) s1 t' s2 ps" and a: "PPN (drop_bit 12 a) \<in> data_pages v"
  shows "phys s2 a = phys s a"
proof -
  let ?r = "root_ppn (root_pgt v)"
  note D = space_okD [OF ok] and T = took_page_space [OF ok tk]
  from g have G: "get_ppn ` set ps \<subseteq> mfree s1"
    "table_pages (mtab s2) ?r = table_pages (mtab s1) ?r \<union> get_ppn ` set ps"
    "\<And>a. PPN (drop_bit 12 a) \<notin> under (mtab s2) ?r user_half \<Longrightarrow> phys s2 a = phys s1 a"
    by (simp_all add: pgt_grows_def)
  have "get_ppn ` set ps \<inter> data_pages v = {}" proof -
    have "get_ppn ` set ps \<subseteq> mfree s" using G(1) tk unfolding took_page_def by blast
    then show ?thesis using D(5,10) by blast
  qed
  then have "PPN (drop_bit 12 a) \<notin> table_pages (mtab s2) ?r"
    unfolding G(2) T(3) using a D(6) by blast
  then have "phys s2 a = phys s1 a" using under_table_pages [of "mtab s2" ?r user_half] G(3) by blast
  moreover have "PPN (drop_bit 12 a) \<noteq> get_ppn p" using a T(6) by metis
  then have "phys s1 a = phys s a" using tk by (simp add: took_page_def)
  ultimately show ?thesis by simp
qed

text \<open>Putting the page back: the space has at most new tables.\<close>

lemma put_back_page:
  assumes ok: "space_ok v s" and tk: "took_page p s s1"
    and u: "pgt_user t' s2" and g: "pgt_grows user_half (root_pgt v) s1 t' s2 ps"
    and l: "\<And>w. user_vpn w \<Longrightarrow> lookup t' s2 w = lookup (root_pgt v) s w"
  defines "v' \<equiv> v\<lparr>root_pgt := t'\<rparr>" and "s' \<equiv> drop_page p s2"
  shows "space_ok v' s'" "vm_frame v s v' s'"
proof -
  let ?r = "root_ppn (root_pgt v)"
  note D = space_okD [OF ok] and T = took_page_space [OF ok tk]
  define Q where "Q = get_ppn ` set ps"
  from g have G: "root_ppn t' = ?r" "root_pages t' = root_pages (root_pgt v) @ ps"
    "Q \<subseteq> mfree s1" "mfree s2 = mfree s1 - Q"
    "mheld s2 = mheld s1 \<union> Q" "KERNEL_SATP s2 = KERNEL_SATP s1"
    "table_pages (mtab s2) ?r = table_pages (mtab s1) ?r \<union> Q"
    "\<And>a. PPN (drop_bit 12 a) \<notin> under (mtab s2) ?r user_half \<Longrightarrow> phys s2 a = phys s1 a"
    by (simp_all add: pgt_grows_def Q_def)
  from tk have K: "get_ppn p \<in> mfree s" "mfree s1 = mfree s - {get_ppn p}"
    "mheld s1 = insert (get_ppn p) (mheld s)" "KERNEL_SATP s1 = KERNEL_SATP s"
    "\<And>a. PPN (drop_bit 12 a) \<noteq> get_ppn p \<Longrightarrow> phys s1 a = phys s a"
    by (auto simp: took_page_def)
  have inv2: "mm_inv s2" using u by (simp add: pgt_user_def pgt_ok_def)
  note dr = drop_page_spec [OF inv2, of p]
  have held: "get_ppn p \<in> mheld s2" using G(5) K(3) by simp
  have ps: "Q \<subseteq> mfree s" "get_ppn p \<notin> Q" using G(3) K(2) by auto
  have fh: "mfree s \<inter> mheld s = {}" by (rule D(10))
  have tab2: "table_pages (mtab s2) (root_ppn t') \<subseteq> mheld s'"
    using G(1,5,7) K(3) T(3,4) D(9) dr(3) [OF held] ps by (auto simp: s'_def)
  note c = pgt_user_cong [OF u dr(1) [OF held] tab2 [unfolded s'_def], folded s'_def]
  have same: "phys s' = phys s2" by (simp add: s'_def)
  have un: "get_ppn ` set (root_pages t') = under (mtab s2) ?r user_half"
    using u by (simp add: pgt_user_def G(1))
  show "space_ok v' s'"
  proof -
    have "data_pages v \<subseteq> mheld s'"
      using D(5) T(6) G(5) K(3) dr(3) [OF held] by (auto simp: s'_def)
    moreover have "data_pages v \<inter> table_pages (mtab s') ?r = {}"
      using D(5,6) T(3) G(7) ps fh same by auto
    ultimately show ?thesis
      using ok c(1) l by (simp add: space_ok_def v'_def same G(1)) (simp add: lookup_def same)
  qed
  have own': "own v' = own v \<union> Q" by (auto simp: own_def v'_def G(2) Q_def)
  show "vm_frame v s v' s'"
    unfolding vm_frame_def
  proof (intro conjI allI impI)
    show "own v' \<union> mfree s' = own v \<union> mfree s"
      using own' dr(2) [OF held] G(4) K(1,2) ps by (auto simp: s'_def)
    show "mheld s' - own v' = mheld s - own v"
      using own' dr(3) [OF held] G(5) K(1,3) ps fh by (auto simp: s'_def)
    show "KERNEL_SATP s' = KERNEL_SATP s" using G(6) K(4) by (simp add: s'_def)
    fix a assume a: "PPN (drop_bit 12 a) \<notin> own v \<union> mfree s"
    then have "PPN (drop_bit 12 a) \<notin> under (mtab s2) ?r user_half"
      using un ps(1) by (auto simp: own_def G(2) Q_def)
    then show "phys s' a = phys s a" using G(8) K(5) a K(1) by (metis UnI2 same)
  qed
qed

text \<open>Keeping the page in an area.\<close>

lemma keep_page:
  assumes ok: "space_ok v s" and tk: "took_page p s s1"
    and u: "pgt_user t' s2" and g: "pgt_grows user_half (root_pgt v) s1 t' s2 ps"
    and l: "\<And>w. user_vpn w \<Longrightarrow> lookup t' s2 w = ((lookup (root_pgt v) s)(vpn \<mapsto> leaf_of a p)) w"
    and a: "marea v = add_mset a A" "contain_vpn a vpn" "map_of (pages a) vpn = None"
      "sound_leaf (leaf_of a p)"
    and v': "root_pgt v' = t'" "marea v' = add_mset (a\<lparr>pages := snd (btm_insert vpn p (pages a))\<rparr>) A"
  shows "space_ok v' s2" "vm_frame v s v' s2"
    "PPN (drop_bit 12 x) = get_ppn p \<Longrightarrow> phys s2 x = phys s1 x"
proof -
  let ?r = "root_ppn (root_pgt v)" and ?a' = "a\<lparr>pages := snd (btm_insert vpn p (pages a))\<rparr>"
  note D = space_okD [OF ok] and T = took_page_space [OF ok tk]
  define Q where "Q = get_ppn ` set ps"
  from g have G: "root_ppn t' = ?r" "root_pages t' = root_pages (root_pgt v) @ ps"
    "Q \<subseteq> mfree s1" "mfree s2 = mfree s1 - Q" "mheld s2 = mheld s1 \<union> Q"
    "KERNEL_SATP s2 = KERNEL_SATP s1"
    "table_pages (mtab s2) ?r = table_pages (mtab s1) ?r \<union> Q"
    "\<And>a. PPN (drop_bit 12 a) \<notin> under (mtab s2) ?r user_half \<Longrightarrow> phys s2 a = phys s1 a"
    by (simp_all add: pgt_grows_def Q_def)
  from tk have K: "get_ppn p \<in> mfree s" "mfree s1 = mfree s - {get_ppn p}"
    "mheld s1 = insert (get_ppn p) (mheld s)" "KERNEL_SATP s1 = KERNEL_SATP s"
    "\<And>a. PPN (drop_bit 12 a) \<noteq> get_ppn p \<Longrightarrow> phys s1 a = phys s a"
    by (auto simp: took_page_def)
  have ok_a: "area_ok a" "\<forall>b \<in># A. area_ok b" using D(2) a(1) by auto
  note I = insert_page [OF ok_a(1) a(2,3), of p]
  have bag: "data_bag (marea v') = add_mset (get_ppn p) (data_bag (marea v))" by (simp add: v' a(1) I)
  have own': "own v' = insert (get_ppn p) (own v) \<union> Q"
    unfolding own_def bag v'(1) by (auto simp: G(2) Q_def)
  have fh: "mfree s \<inter> mheld s = {}" by (rule D(10))
  have "areas_apart ({#?a'#} + A)"
    by (rule areas_apart_replace) (use D(3) a(1) in auto)
  then have ap: "areas_apart (marea v')" by (simp add: v'(2))
  have mt: "maps_to (marea v') w e \<longleftrightarrow> w = vpn \<and> e = leaf_of a p \<or> maps_to (marea v) w e" for w e
    by (simp add: v'(2) I(3) a(1))
  have nm: "\<not> maps_to (marea v) vpn e" for e
    using a(3) maps_to_apart [of a A vpn] D(3) ok_a(2) a(1,2) by (simp add: maps_to_add)
  have lk: "lookup t' s2 w = Some e \<longleftrightarrow> maps_to (marea v') w e" if "user_vpn w" for w e
    using l [OF that] D(7) [OF that] mt nm by auto
  show "space_ok v' s2"
    unfolding space_ok_def v'(1) G(1)
  proof (intro conjI)
    show "\<forall>a \<in># marea v'. area_ok a" using I(1) ok_a(2) by (simp add: v'(2))
    show "single_owner (data_bag (marea v'))" using D(4) T(6) by (simp add: bag single_owner_add)
    show "data_pages v' \<subseteq> mheld s2" using D(5) K(3) G(5) by (auto simp: bag)
    show "data_pages v' \<inter> table_pages (mtab s2) ?r = {}"
      using D(5,6) T(3,4) G(3,7) K(2) fh by (auto simp: bag)
    show "\<forall>w e. user_vpn w \<longrightarrow> lookup t' s2 w = Some e \<longrightarrow> sound_leaf e"
      using l D(12) a(4) by (auto split: if_splits)
  qed (use u ap lk in auto)
  have "get_ppn p \<notin> table_pages (mtab s2) ?r" using G(3,7) K(2) T(3,4) by auto
  then show "PPN (drop_bit 12 x) = get_ppn p \<Longrightarrow> phys s2 x = phys s1 x"
    using under_table_pages [of "mtab s2" ?r user_half] by (intro G(8)) auto
  have un: "get_ppn ` set (root_pages t') = under (mtab s2) ?r user_half"
    using u by (simp add: pgt_user_def G(1))
  show "vm_frame v s v' s2"
    unfolding vm_frame_def
  proof (intro conjI allI impI)
    show "own v' \<union> mfree s2 = own v \<union> mfree s" using own' G(3,4) K(1,2) by auto
    show "mheld s2 - own v' = mheld s - own v" using own' G(3,5) K(1,2,3) fh by auto
    show "KERNEL_SATP s2 = KERNEL_SATP s" using G(6) K(4) by simp
    fix x assume x: "PPN (drop_bit 12 x) \<notin> own v \<union> mfree s"
    then have "PPN (drop_bit 12 x) \<notin> under (mtab s2) ?r user_half"
      unfolding un [symmetric] G(2) set_append image_Un using G(3) K(2) by (auto simp: own_def Q_def)
    then show "phys s2 x = phys s x" using G(8) K(5) x K(1) by (metis UnI2)
  qed
qed

lemma alloc_zeroed_took:
  assumes "mm_inv s"
  obtains (exhausted) "alloc_zeroed_page s = Some (None, s)" "mfree s = {}"
  | (page) p s1 where "alloc_zeroed_page s = Some (Some p, s1)" "took_page p s s1"
      "\<And>a. PPN (drop_bit 12 a) = get_ppn p \<Longrightarrow> phys s1 a = 0"
proof (rule alloc_zeroed_page_cases [OF assms], goal_cases ex pg)
  case (pg p s1)
  have "took_page p s s1" unfolding took_page_def using pg by (auto simp: PPN.expand)
  moreover have "phys s1 a = 0" if "PPN (drop_bit 12 a) = get_ppn p" for a
    unfolding pg(9) using arg_cong [OF that, of get_raw] by simp
  ultimately show ?thesis using pg(3) page by blast
qed (rule exhausted)

lemma map_fresh_page:
  assumes ok: "space_ok v s" and tk: "took_page p s s1" and vpn: "user_vpn vpn"
  obtains (failed) err t' s2 ps where "map_create vpn (get_ppn p) f (root_pgt v) s1 = Some (Inl err, t', s2)"
      "pgt_user t' s2" "pgt_grows user_half (root_pgt v) s1 t' s2 ps" "lookup t' s2 = lookup (root_pgt v) s"
      "is_valid_flags f \<Longrightarrow> lookup (root_pgt v) s vpn = None \<Longrightarrow> mfree s2 = {}"
  | (mapped) e t' s2 ps where "map_create vpn (get_ppn p) f (root_pgt v) s1 = Some (Inr (), t', s2)"
      "PTE_new (get_ppn p) f = Inr e" "lookup (root_pgt v) s vpn = None"
      "pgt_user t' s2" "pgt_grows user_half (root_pgt v) s1 t' s2 ps"
      "\<And>w. user_vpn w \<Longrightarrow> lookup t' s2 w = ((lookup (root_pgt v) s)(vpn \<mapsto> e)) w"
proof -
  note T = took_page_space [OF ok tk]
  show ?thesis
  proof (rule map_create_user [OF T(1) vpn, of f "get_ppn p"], goal_cases fl db fu mp)
    case fl
    then show ?thesis by (intro failed [OF fl(2) T(1) pgt_grows_refl T(2)]) simp
  next
    case db
    then show ?thesis by (intro failed [OF db(3) T(1) pgt_grows_refl T(2)]) (simp add: T(2))
  next
    case (fu t' s2 ps)
    then show ?thesis by (intro failed [OF fu(4-6)]) (simp_all add: T(2))
  next
    case (mp e t' s2 ps)
    then show ?thesis by (intro mapped [OF mp(3,1) _ mp(4,5)]) (simp_all add: T(2))
  qed
qed

text \<open>
  A mapping needs at most three pages, one for the data and two for tables.  One that fails for
  want of pages leaves at most the data page in the allocator.
\<close>

lemma finite_ppns: "finite (S :: PPN set)"
  by (rule finite_subset [of _ "PPN ` UNIV"]) (auto intro: PPN.exhaust)

lemma failed_for_pages:
  assumes tk: "took_page p s s1" and g: "pgt_grows I t s1 t' s2 ps"
    and c: "map_create vpn (get_ppn p) f t s1 = Some (r, t', s2)" and full: "mfree s2 = {}" and ok: "mm_inv s2"
  shows "card (mfree s) \<le> 3 \<and> card (mfree (drop_page p s2)) \<le> 1"
proof -
  have "mfree s1 = mfree s - {get_ppn p}" "mfree s2 = mfree s1 - get_ppn ` set ps"
    using tk g by (simp_all add: took_page_def pgt_grows_def)
  then have "mfree s \<subseteq> insert (get_ppn p) (get_ppn ` set ps)" using full by blast
  then have "card (mfree s) \<le> card (insert (get_ppn p) (get_ppn ` set ps))" by (rule card_mono [OF finite_ppns])
  also have "\<dots> \<le> Suc (card (get_ppn ` set ps))" by (simp add: card_insert_if)
  also have "\<dots> \<le> Suc (length ps)" using card_image_le [of "set ps" get_ppn] card_length [of ps] by (simp add: le_trans)
  also have "\<dots> \<le> 3" using map_create_grows [OF c g] by simp
  finally have "card (mfree s) \<le> 3" .
  moreover have "get_ppn p \<in> mheld s2" using tk g by (auto simp: took_page_def pgt_grows_def)
  then have "mfree (drop_page p s2) = {get_ppn p}" using drop_page_spec(2) [OF ok] full by simp
  ultimately show ?thesis by simp
qed

text \<open>
  \<open>VMSpace::map\<close> on a user page that is not mapped yet.  It returns, keeps the space in good
  standing and within its frame; on success the page is mapped with the area's permissions to
  a fresh page full of zeros, on an error the mapping is the one before.
\<close>

lemma VMSpace_map_cases:
  assumes ok: "space_ok v s" and vpn: "user_vpn vpn" and un: "lookup (root_pgt v) s vpn = None"
  obtains (error) err v' s' where "VMSpace_map v vpn pm s = Some (Inl err, v', s')"
      "areas v' = areas v" "space_ok v' s'" "vm_frame v s v' s'"
      "lookup (root_pgt v') s' = lookup (root_pgt v) s" "body_kept v s v' s'"
      "\<And>a. a \<in> set (areas v) \<Longrightarrow> contain_vpn a vpn \<Longrightarrow> pm AND permissions a = pm \<Longrightarrow>
        is_valid_flags (permissions a OR FLAG_V) \<Longrightarrow> card (mfree s) \<le> 3 \<and> card (mfree s') \<le> 1"
  | (mapped) v' s' i p where "VMSpace_map v vpn pm s = Some (Inr (), v', s')"
      "space_ok v' s'" "vm_frame v s v' s'" "i < length (areas v)" "contain_vpn (areas v ! i) vpn"
      "pm AND permissions (areas v ! i) = pm" "get_ppn p \<in> mfree s"
      "areas v' = (areas v)[i := (areas v ! i)\<lparr>pages := snd (btm_insert vpn p (pages (areas v ! i)))\<rparr>]"
      "\<And>w. user_vpn w \<Longrightarrow>
        lookup (root_pgt v') s' w = ((lookup (root_pgt v) s)(vpn \<mapsto> leaf_of (areas v ! i) p)) w"
      "\<And>a. PPN (drop_bit 12 a) = get_ppn p \<Longrightarrow> phys s' a = 0" "body_kept v s v' s'"
proof -
  note D = space_okD [OF ok]
  show ?thesis
  proof (rule find_area_cases [OF D(2) vpn])
    assume "find_area_mut v vpn = Inl (NoAreaContainVpn vpn)" "\<And>a. a \<in># marea v \<Longrightarrow> \<not> contain_vpn a vpn"
    then show ?thesis by (intro error [OF _ refl ok vm_frame_refl refl body_kept_refl]) (simp_all add: VMSpace_map_def)
  next
    fix i
    let ?a = "areas v ! i" and ?A = "marea v - {#areas v ! i#}"
    assume f: "find_area_mut v vpn = Inr i" "i < length (areas v)" "contain_vpn ?a vpn" "area_ok ?a"
      "map_type ?a = Anonymous"
    have m: "marea v = add_mset ?a ?A" using mset_replace_nth(1) [OF f(2)] .
    have np: "map_of (pages ?a) vpn = None"
    proof (rule ccontr)
      assume "map_of (pages ?a) vpn \<noteq> None"
      then obtain p where "map_of (pages ?a) vpn = Some p" by blast
      then have "maps_to (marea v) vpn (leaf_of ?a p)" using f(2) unfolding maps_to_def by (metis nth_mem_mset)
      with D(7) [OF vpn] un show False by simp
    qed
    have inv: "btm_inv (pages ?a)" using f(4) by (simp add: area_ok_def)
    have one: "a = ?a" if "a \<in> set (areas v)" "contain_vpn a vpn" for a
      by (rule area_unique [OF D(3) f(2,3) that])
    obtain fl where fl: "to_pte_flags (permissions ?a) = Inr fl"
      using f(4) by (simp add: to_pte_flags_def area_ok_def)
    show ?thesis
    proof (cases "pm AND permissions ?a = pm")
      case False
      then show ?thesis using f one
        by (intro error [OF _ refl ok vm_frame_refl refl body_kept_refl]) (auto simp: VMSpace_map_def)
    next
      case perm: True
      show ?thesis
      proof (rule alloc_zeroed_took [OF D(8)])
        assume "alloc_zeroed_page s = Some (None, s)" "mfree s = {}"
        then show ?thesis using f perm
          by (intro error [OF _ refl ok vm_frame_refl refl body_kept_refl]) (simp_all add: VMSpace_map_def)
      next
        fix p s1
        assume al: "alloc_zeroed_page s = Some (Some p, s1)" "took_page p s s1"
          and z: "\<And>a. PPN (drop_bit 12 a) = get_ppn p \<Longrightarrow> phys s1 a = 0"
        let ?a' = "?a\<lparr>pages := snd (btm_insert vpn p (pages ?a))\<rparr>"
        let ?v1 = "v\<lparr>areas := (areas v)[i := ?a']\<rparr>"
        have old: "fst (btm_insert vpn p (pages ?a)) = None" by (rule insert_page(4) [OF f(4,3) np])
        have code: "VMSpace_map v vpn pm s = do {
            (r, v, s) \<leftarrow> VMSpace_map_create vpn (get_ppn p) fl ?v1 s1;
            case r of Inr _ \<Rightarrow> Some (Inr (), v, s)
            | Inl err \<Rightarrow> (case find_area_mut v vpn of Inl _ \<Rightarrow> None
              | Inr j \<Rightarrow> (let area = areas v ! j; (old, pgs) = btm_remove vpn (pages area) in
                  Some (Inl err, v\<lparr>areas := (areas v)[j := area\<lparr>pages := pgs\<rparr>]\<rparr>, drop_page_opt old s)))}"
          using f perm al(1) old fl by (simp add: VMSpace_map_def case_prod_beta Let_def drop_page_opt_def)
        have again: "find_area_mut (?v1\<lparr>root_pgt := t'\<rparr>) vpn = Inr i" for t'
          using f(1,2) by (simp add: find_area_mut_def iter_position_update)
        show ?thesis
        proof (rule map_fresh_page [OF ok al(2) vpn, of fl], goal_cases bad good)
          case (bad err t' s2 ps)
          note put = put_back_page [OF ok al(2) bad(2,3) fun_cong [OF bad(4)]]
          have "VMSpace_map v vpn pm s =
              Some (Inl (VM_PgtError vpn err), v\<lparr>root_pgt := t'\<rparr>, drop_page p s2)"
            using code bad(1) again f(2) btm_remove_insert [OF inv np, of p]
            by (simp add: VMSpace_map_create_def case_prod_beta Let_def drop_page_opt_def)
          moreover have "body_kept v s (v\<lparr>root_pgt := t'\<rparr>) (drop_page p s2)"
            using data_bytes_kept [OF ok al(2) bad(3)] bad(3) took_page_space(3) [OF ok al(2)]
              upper_root_kept [OF ok al(2) bad(3)]
            by (auto simp: body_kept_def pgt_grows_def)
          moreover have "card (mfree s) \<le> 3 \<and> card (mfree (drop_page p s2)) \<le> 1"
            if "a \<in> set (areas v)" "contain_vpn a vpn" "is_valid_flags (permissions a OR FLAG_V)" for a
          proof (rule failed_for_pages [OF al(2) bad(3,1)])
            have "fl = permissions ?a OR FLAG_V" 
              using fl and_not_eq_0 [of "permissions ?a" ALL_PERMISSION_FLAGS] by (auto simp: to_pte_flags_def split: if_splits)
            then show "mfree s2 = {}" using bad(5) un one [OF that(1,2)] that(3) by simp
            show "mm_inv s2" using bad(2) by (simp add: pgt_user_def pgt_ok_def)
          qed
          ultimately show ?thesis by (intro error) (use put bad(4) in auto)
        next
          case (good e t' s2 ps)
          have e: "e = leaf_of ?a p" by (rule PTE_new_leaf_of [OF f(4) fl good(2)])
          have sound: "sound_leaf e" by (rule PTE_new_sound [OF good(2)])
          let ?v' = "?v1\<lparr>root_pgt := t'\<rparr>"
          have mv: "marea ?v' = add_mset ?a' ?A" using mset_replace_nth(2) [OF f(2)] by simp
          note keep = keep_page [OF ok al(2) good(4,5) good(6) [unfolded e] m f(3) np sound [unfolded e] _ mv]
          have "VMSpace_map v vpn pm s = Some (Inr (), ?v', s2)"
            using code good(1) by (simp add: VMSpace_map_create_def)
          moreover have "body_kept v s ?v' s2"
          proof -
            have "kstacks ?v' = {#a \<in># ?A. map_type a = KernelVaOffset#}" unfolding mv using f(5) by simp
            also have "\<dots> = {#a \<in># add_mset ?a ?A. map_type a = KernelVaOffset#}" using f(5) by simp
            finally have "kstacks ?v' = kstacks v" unfolding m [symmetric] .
            then show ?thesis
              using data_bytes_kept [OF ok al(2) good(5)] good(5) took_page_space(3) [OF ok al(2)]
                upper_root_kept [OF ok al(2) good(5)]
              by (auto simp: body_kept_def pgt_grows_def)
          qed
          ultimately show ?thesis
            by (intro mapped [of _ _ i p])
              (use keep f perm al(2) good(6) e z in \<open>simp_all add: took_page_def\<close>)
        qed
      qed
    qed
  qed
qed

end
