(* ===== verification/VM_Unmap.thy ===== *)
theory VM_Unmap
  imports VM_Space
begin

text \<open>
  Unmapping a range of a user space: every overlap case of \<open>VMSpace::unmap\<close> keeps the
  invariant, and the whole operation removes exactly the range.
\<close>

subsection \<open>Cutting a range out of one area\<close>

text \<open>
  The page table is cleared on \<open>[lo, hi)\<close>, the area \<open>a\<close> is replaced by the pieces \<open>N\<close>, and the
  pages \<open>ds\<close> that belong to no piece are dropped.
\<close>

lemma cut_area:
  assumes ok: "space_ok v s" and m: "marea v = add_mset a A"
    and hi: "unat (vpn_raw hi) \<le> 2 ^ 26" and range: "\<And>w. lo \<le> w \<Longrightarrow> w < hi \<Longrightarrow> contain_vpn a w"
    and N: "\<forall>b \<in># N. area_ok b" "\<And>w. holders N w \<le> (if contain_vpn a w then 1 else 0)"
    and bag: "data_bag N + image_mset get_ppn (mset ds) = area_bag a"
    and maps: "\<And>w e. maps_to N w e \<longleftrightarrow> maps_to {#a#} w e \<and> \<not> (lo \<le> w \<and> w < hi)"
    and v': "root_pgt v' = root_pgt v" "marea v' = N + A"
  obtains s1 where "RootPgt_unmap lo hi (root_pgt v) s = Some (Inr (), s1)"
    "space_ok v' (drop_pages ds s1)" "vm_frame v s v' (drop_pages ds s1)"
    "\<And>w. user_vpn w \<Longrightarrow> lookup (root_pgt v') (drop_pages ds s1) w =
      (if lo \<le> w \<and> w < hi then None else lookup (root_pgt v) s w)"
    "data_pages v' \<subseteq> data_pages v"
    "\<And>x. PPN (drop_bit 12 x) \<in> data_pages v \<Longrightarrow> phys (drop_pages ds s1) x = phys s x"
    "table_pages (mtab (drop_pages ds s1)) (root_ppn (root_pgt v)) = table_pages (mtab s) (root_ppn (root_pgt v))"
    "\<And>j. j \<notin> user_half \<Longrightarrow> mtab (drop_pages ds s1) (root_ppn (root_pgt v)) j = mtab s (root_ppn (root_pgt v)) j"
proof -
  let ?t = "root_pgt v"
  let ?r = "root_ppn ?t"
  note D = space_okD [OF ok]
  obtain s1 where s1: "RootPgt_unmap lo hi ?t s = Some (Inr (), s1)" "pgt_user ?t s1"
    "pgt_grows user_half ?t s ?t s1 []"
    "\<And>w. user_vpn w \<Longrightarrow> lookup ?t s1 w = (if lo \<le> w \<and> w < hi then None else lookup ?t s w)"
    using RootPgt_unmap_user [OF D(1) hi] by blast
  from s1(3) have G: "mfree s1 = mfree s" "mheld s1 = mheld s" "KERNEL_SATP s1 = KERNEL_SATP s"
    "table_pages (mtab s1) ?r = table_pages (mtab s) ?r"
    "\<And>x. PPN (drop_bit 12 x) \<notin> under (mtab s1) ?r user_half \<Longrightarrow> phys s1 x = phys s x"
    by (simp_all add: pgt_grows_def)
  have up: "mtab s1 ?r j = mtab s ?r j" if "j \<notin> user_half" for j
    by (rule tree_keptD(3) [OF _ that]) (use s1(3) in \<open>simp add: pgt_grows_def\<close>)
  have inv1: "mm_inv s1" using s1(2) by (simp add: pgt_user_def pgt_ok_def)
  define P where "P = get_ppn ` set ds"
  have split: "data_bag (marea v) = image_mset get_ppn (mset ds) + data_bag (marea v')"
    using bag [symmetric] by (simp add: m v'(2))
  then have sets: "data_pages v = P \<union> data_pages v'" by (simp add: P_def)
  note so = single_owner_union [OF D(4) [unfolded split]]
  have ds: "distinct (map get_ppn ds)" "P \<inter> data_pages v' = {}"
    using so by (simp_all add: single_owner_distinct [symmetric] P_def)
  have Ph: "P \<subseteq> mheld s1" using D(5) sets G(2) by blast
  note dr = drop_pages_spec [OF inv1 ds(1), folded P_def, OF Ph]
  let ?s' = "drop_pages ds s1"
  have un: "get_ppn ` set (root_pages ?t) = under (mtab s1) ?r user_half"
    using s1(2) by (simp add: pgt_user_def)
  have Pt: "P \<inter> table_pages (mtab s) ?r = {}" using D(6) sets by blast
  have "table_pages (mtab s1) ?r \<subseteq> mheld ?s'" using dr(3) G(2,4) D(9) Pt by auto
  note c = pgt_user_cong [OF s1(2) dr(1) this]
  have Pu: "P \<inter> get_ppn ` set (root_pages ?t) = {}"
    using Pt un G(4) under_table_pages [of "mtab s1" ?r user_half] by blast
  have mv: "maps_to (marea v') w e \<longleftrightarrow> maps_to (marea v) w e \<and> \<not> (lo \<le> w \<and> w < hi)" for w e
  proof -
    have "\<not> maps_to A w e" if "lo \<le> w" "w < hi"
      using maps_to_apart [of a A w e] D(2,3) m range [OF that] by auto
    then show ?thesis
      using maps [of w e] maps_to_union [of "{#a#}" A w e] by (auto simp: v'(2) m maps_to_union)
  qed
  have ok': "space_ok v' ?s'"
    unfolding space_ok_def v'(1)
  proof (intro conjI allI impI)
    show "\<forall>a \<in># marea v'. area_ok a" using N(1) D(2) m by (auto simp: v'(2))
    show "areas_apart (marea v')"
      unfolding v'(2) using areas_apart_replace [of a A N] D(3) m N(2) by simp
    show "single_owner (data_bag (marea v'))" by (rule so(2))
    show "data_pages v' \<subseteq> mheld ?s'" using D(5) sets dr(3) G(2) ds(2) by auto
    show "data_pages v' \<inter> table_pages (mtab ?s') ?r = {}" using D(6) sets c(3) G(4) by auto
    show "pgt_user ?t ?s'" by (rule c(1)) simp
    fix w e assume w: "user_vpn w"
    show "sound_leaf e" if "lookup ?t ?s' w = Some e"
      using that s1(4) [OF w] D(12) [OF w, of e] by (simp split: if_splits)
    show "lookup ?t ?s' w = Some e \<longleftrightarrow> maps_to (marea v') w e"
      using w s1(4) D(7) [of w e] mv [of w e] by (auto split: if_splits)
  qed
  have fr: "vm_frame v s v' ?s'"
    unfolding vm_frame_def
  proof (intro conjI allI impI)
    show "own v' \<union> mfree ?s' = own v \<union> mfree s" using sets dr(2) G(1) by (auto simp: own_def v'(1))
    show "mheld ?s' - own v' = mheld s - own v"
      using sets dr(3) G(2) Ph ds(2) Pu by (auto simp: own_def v'(1))
    show "KERNEL_SATP ?s' = KERNEL_SATP s" using G(3) by simp
    fix x assume "PPN (drop_bit 12 x) \<notin> own v \<union> mfree s"
    then show "phys ?s' x = phys s x" using G(5) un by (simp add: own_def)
  qed
  show ?thesis
  proof (rule that [OF s1(1) ok' fr])
    fix w assume "user_vpn w"
    from s1(4) [OF this] show "lookup (root_pgt v') ?s' w =
      (if lo \<le> w \<and> w < hi then None else lookup ?t s w)" unfolding v'(1) lookup_drop .
  next
    show "data_pages v' \<subseteq> data_pages v" using sets by blast
    show "table_pages (mtab ?s') ?r = table_pages (mtab s) ?r" using c(3) G(4) by simp
    show "mtab ?s' ?r j = mtab s ?r j" if "j \<notin> user_half" for j using up [OF that] by simp
    fix x assume "PPN (drop_bit 12 x) \<in> data_pages v"
    then have "PPN (drop_bit 12 x) \<notin> under (mtab s1) ?r user_half"
      using D(6) G(4) under_table_pages [of "mtab s1" ?r user_half] by blast
    then show "phys ?s' x = phys s x" using G(5) by simp
  qed
qed

subsection \<open>The pieces of an area\<close>

text \<open>What is left of an area on \<open>[lo, hi)\<close>, with the pages \<open>m\<close> there.\<close>

definition piece :: "VMArea \<Rightarrow> VPN \<Rightarrow> VPN \<Rightarrow> (VPN \<times> Page) list \<Rightarrow> VMArea" where
  "piece a lo hi m = a\<lparr>start_vpn := lo, end_vpn := hi, pages := m\<rparr>"

lemma piece_simps [simp]:
  "contain_vpn (piece a lo hi m) w \<longleftrightarrow> lo \<le> w \<and> w < hi"
  "area_bag (piece a lo hi m) = image_mset get_ppn (mset (btm_values m))"
  "leaf_of (piece a lo hi m) = leaf_of a" "pages (piece a lo hi m) = m"
  "start_vpn (piece a lo hi m) = lo" "end_vpn (piece a lo hi m) = hi"
  "map_type (piece a lo hi m) = map_type a" "permissions (piece a lo hi m) = permissions a"
  by (simp_all add: piece_def contain_vpn_def area_bag_def leaf_of_def fun_eq_iff)

lemma area_pages_inside:
  assumes "area_ok a" "map_of (pages a) w = Some p"
  shows "start_vpn a \<le> w" "w < end_vpn a"
  using area_ok_contain [OF assms] by (simp_all add: contain_vpn_def)

lemma piece_ok:
  assumes "area_ok a" "btm_inv m" "start_vpn a \<le> lo" "hi \<le> end_vpn a"
    "\<And>w p. map_of m w = Some p \<Longrightarrow> lo \<le> w \<and> w < hi"
  shows "area_ok (piece a lo hi m)"
  using assms by (cases "map_type a")
    (auto simp: area_ok_def page_order word_le_nat_alt)

lemma restrict_eq_Some: "(m |` S) w = Some p \<longleftrightarrow> w \<in> S \<and> m w = Some p"
  by (auto simp: restrict_map_def)

subsection \<open>One step of the loop\<close>

text \<open>The area properties of a page number: what kind of area contains it, with what permissions.\<close>

definition region :: "VMArea multiset \<Rightarrow> VPN \<Rightarrow> MapType \<times> usize \<Rightarrow> bool" where
  "region A w x \<longleftrightarrow> (\<exists>a \<in># A. contain_vpn a w \<and> x = (map_type a, permissions a))"

lemma region_simps [simp]:
  "\<not> region {#} w x" "region (A + B) w x \<longleftrightarrow> region A w x \<or> region B w x"
  "region (add_mset a A) w x \<longleftrightarrow> contain_vpn a w \<and> x = (map_type a, permissions a) \<or> region A w x"
  by (auto simp: region_def)

definition outside :: "VPN \<Rightarrow> VPN \<Rightarrow> VMArea \<Rightarrow> bool" where
  "outside lo hi a \<longleftrightarrow> end_vpn a \<le> lo \<or> hi \<le> start_vpn a"

text \<open>The result of handling the area at index \<open>i\<close>.\<close>

definition step_done :: "VPN \<Rightarrow> VPN \<Rightarrow> nat \<Rightarrow> VMSpace \<Rightarrow> mm_state \<Rightarrow> VMSpace \<Rightarrow> mm_state \<Rightarrow> bool" where
  "step_done lo hi i v s v' s' \<longleftrightarrow> space_ok v' s' \<and> vm_frame v s v' s' \<and>
     body_kept v s v' s' \<and> data_pages v' \<subseteq> data_pages v \<and>
     (\<forall>w. user_vpn w \<and> \<not> (lo \<le> w \<and> w < hi) \<longrightarrow> lookup (root_pgt v') s' w = lookup (root_pgt v) s w) \<and>
     (\<forall>w x. \<not> (lo \<le> w \<and> w < hi) \<longrightarrow> region (marea v') w x = region (marea v) w x) \<and>
     i \<le> length (areas v') \<and> (\<forall>j. i \<le> j \<and> j < length (areas v') \<longrightarrow> outside lo hi (areas v' ! j))"

lemma swap_remove_tail:
  assumes "i < length xs" "vec_swap_remove i xs = Some (x, ys)" "\<And>j. i < j \<Longrightarrow> j < length xs \<Longrightarrow> P (xs ! j)"
  shows "i \<le> length ys" "\<And>j. i \<le> j \<Longrightarrow> j < length ys \<Longrightarrow> P (ys ! j)"
proof -
  have ys: "ys = butlast (xs[i := last xs])" using assms(1,2) by (simp add: vec_swap_remove_def)
  then have len: "length ys = length xs - 1" by simp
  then show "i \<le> length ys" using assms(1) by simp
  fix j assume j: "i \<le> j" "j < length ys"
  moreover have "last xs = xs ! (length xs - 1)" using assms(1) by (intro last_conv_nth) auto
  ultimately have "ys ! j = (if j = i then xs ! (length xs - 1) else xs ! j)"
    using assms(1) by (auto simp: ys nth_butlast nth_list_update)
  then show "P (ys ! j)" using j len assms(3) by auto
qed

lemma overlap_anonymous:
  assumes "area_ok a" "\<not> outside lo hi a" "unat (vpn_raw hi) \<le> 2 ^ 26"
  shows "unat (vpn_raw (end_vpn a)) \<le> 2 ^ 26" "map_type a = Anonymous"
proof -
  have "unat (vpn_raw (end_vpn a)) \<le> 2 ^ 26 \<and> map_type a = Anonymous"
    using assms by (cases "map_type a") (auto simp: area_ok_def outside_def page_order word_le_nat_alt)
  then show "unat (vpn_raw (end_vpn a)) \<le> 2 ^ 26" "map_type a = Anonymous" by simp_all
qed

lemma cut_step:
  assumes ok: "space_ok v s" and m: "marea v = add_mset a A"
    and hi': "unat (vpn_raw hi') \<le> 2 ^ 26"
    and range: "\<And>w. lo' \<le> w \<Longrightarrow> w < hi' \<Longrightarrow> contain_vpn a w \<and> lo \<le> w \<and> w < hi"
    and N: "\<forall>b \<in># N. area_ok b" "\<And>w. holders N w \<le> (if contain_vpn a w then 1 else 0)"
    and bag: "data_bag N + image_mset get_ppn (mset ds) = area_bag a"
    and maps: "\<And>w e. maps_to N w e \<longleftrightarrow> maps_to {#a#} w e \<and> \<not> (lo' \<le> w \<and> w < hi')"
    and reg: "\<And>w x. \<not> (lo \<le> w \<and> w < hi) \<Longrightarrow> region N w x = region {#a#} w x"
    and v': "root_pgt v' = root_pgt v" "marea v' = N + A"
    and tail: "i \<le> length (areas v')"
      "\<And>j. i \<le> j \<Longrightarrow> j < length (areas v') \<Longrightarrow> outside lo hi (areas v' ! j)"
    and ty: "map_type a = Anonymous" "\<forall>b \<in># N. map_type b = Anonymous"
    and fld: "entry_addr v' = entry_addr v" "u_stack_end v' = u_stack_end v" "k_stack_end v' = k_stack_end v"
  obtains s1 where "RootPgt_unmap lo' hi' (root_pgt v) s = Some (Inr (), s1)"
    "step_done lo hi i v s v' (drop_pages ds s1)"
proof -
  obtain s1 where s1: "RootPgt_unmap lo' hi' (root_pgt v) s = Some (Inr (), s1)"
    "space_ok v' (drop_pages ds s1)" "vm_frame v s v' (drop_pages ds s1)"
    and l: "\<And>w. user_vpn w \<Longrightarrow> lookup (root_pgt v') (drop_pages ds s1) w =
      (if lo' \<le> w \<and> w < hi' then None else lookup (root_pgt v) s w)"
    and d: "data_pages v' \<subseteq> data_pages v"
    "\<And>x. PPN (drop_bit 12 x) \<in> data_pages v \<Longrightarrow> phys (drop_pages ds s1) x = phys s x"
    "table_pages (mtab (drop_pages ds s1)) (root_ppn (root_pgt v)) = table_pages (mtab s) (root_ppn (root_pgt v))"
    "\<And>j. j \<notin> user_half \<Longrightarrow> mtab (drop_pages ds s1) (root_ppn (root_pgt v)) j = mtab s (root_ppn (root_pgt v)) j"
    by (rule cut_area [OF ok m hi' _ N bag maps v']) (use range in auto)
  have "lookup (root_pgt v') (drop_pages ds s1) w = lookup (root_pgt v) s w"
    if "user_vpn w" "\<not> (lo \<le> w \<and> w < hi)" for w
    using l [OF that(1)] range [of w] that(2) by auto
  moreover have "region (marea v') w x = region (marea v) w x" if "\<not> (lo \<le> w \<and> w < hi)" for w x
    using reg [OF that] unfolding v'(2) m by simp
  moreover have "body_kept v s v' (drop_pages ds s1)"
  proof -
    have "{#b \<in># N. map_type b = KernelVaOffset#} = {#}" using ty(2) by (induction N) auto
    then have "kstacks v' = kstacks v" unfolding v'(2) m using ty(1) by simp
    then show ?thesis using v'(1) fld d(2,3,4) by (simp add: body_kept_def)
  qed
  ultimately have "step_done lo hi i v s v' (drop_pages ds s1)"
    using s1(2,3) tail d(1) unfolding step_done_def by blast
  with s1(1) show ?thesis by (rule that)
qed

text \<open>The area lies inside the range: it is removed.\<close>

lemma unmap_area_case1:
  assumes ok: "space_ok v s" and i: "i < length (areas v)" and hi: "unat (vpn_raw hi) \<le> 2 ^ 26"
    and tail: "\<And>j. i < j \<Longrightarrow> j < length (areas v) \<Longrightarrow> outside lo hi (areas v ! j)"
    and c: "\<not> outside lo hi (areas v ! i)" "lo \<le> start_vpn (areas v ! i)" "end_vpn (areas v ! i) \<le> hi"
  obtains v' s' where "unmap_area lo hi i v s = Some (Inr (), v', s')" "step_done lo hi i v s v' s'"
proof -
  let ?a = "areas v ! i"
  obtain A where m: "marea v = add_mset ?a A" using mset_replace_nth(1) [OF i] by blast
  have oka: "area_ok ?a" using space_okD(2) [OF ok] i by simp
  obtain as where as: "vec_swap_remove i (areas v) = Some (?a, as)" using i by (simp add: vec_swap_remove_def)
  let ?v' = "v\<lparr>areas := as\<rparr>"
  have mv: "marea ?v' = {#} + A" using vec_swap_remove_mset [OF as] m by simp
  have in_range: "contain_vpn ?a w \<Longrightarrow> lo \<le> w \<and> w < hi" for w using c(2,3) by (auto simp: contain_vpn_def)
  obtain s1 where s1: "RootPgt_unmap (start_vpn ?a) (end_vpn ?a) (root_pgt v) s = Some (Inr (), s1)"
    "step_done lo hi i v s ?v' (drop_pages (btm_values (pages ?a)) s1)"
  proof (rule cut_step [OF ok m overlap_anonymous(1) [OF oka c(1) hi], where N = "{#}" and v' = ?v' and i = i
        and lo' = "start_vpn ?a" and lo = lo and hi = hi and ds = "btm_values (pages ?a)"], goal_cases)
    case (5 w e)
    then show ?case using area_pages_inside [OF oka] by (auto simp: maps_to_def)
  qed (use mv overlap_anonymous(2) [OF oka c(1) hi] in_range swap_remove_tail [OF i as, of "outside lo hi", OF tail]
        in \<open>auto simp: contain_vpn_def area_bag_def\<close>)
  moreover from this(1) have "unmap_area lo hi i v s = Some (Inr (), ?v', drop_pages (btm_values (pages ?a)) s1)"
    using i c as by (simp add: unmap_area_def outside_def Let_def drop_VMArea_def)
  ultimately show ?thesis using that by blast
qed

lemma update_tail:
  assumes "i < length xs" "\<And>j. i < j \<Longrightarrow> j < length xs \<Longrightarrow> P (xs ! j)" "P x" "\<forall>y \<in> set zs. P y"
    "i \<le> j" "j < length (xs[i := x] @ zs)"
  shows "P ((xs[i := x] @ zs) ! j)"
proof (cases "j < length xs")
  case True
  then show ?thesis using assms by (cases "j = i") (auto simp: nth_append)
next
  case False
  then show ?thesis using assms(4,6) by (simp add: nth_append)
qed

lemma maps_to_single: "maps_to {#a#} w e \<longleftrightarrow> (\<exists>p. map_of (pages a) w = Some p \<and> e = leaf_of a p)"
  by (simp add: maps_to_def)

text \<open>The range covers the front of the area: the rest stays.\<close>

lemma unmap_area_case2:
  assumes ok: "space_ok v s" and i: "i < length (areas v)" and hi: "unat (vpn_raw hi) \<le> 2 ^ 26"
    and tail: "\<And>j. i < j \<Longrightarrow> j < length (areas v) \<Longrightarrow> outside lo hi (areas v ! j)"
    and c: "\<not> outside lo hi (areas v ! i)" "lo \<le> start_vpn (areas v ! i)" "hi < end_vpn (areas v ! i)"
  obtains v' s' where "unmap_area lo hi i v s = Some (Inr (), v', s')" "step_done lo hi i v s v' s'"
proof -
  let ?a = "areas v ! i"
  obtain A where m: "marea v = add_mset ?a A" and mu: "\<And>x. mset ((areas v)[i := x]) = add_mset x A"
    using mset_replace_nth [OF i] by blast
  have oka: "area_ok ?a" using space_okD(2) [OF ok] i by simp
  then have inv: "btm_inv (pages ?a)" by (simp add: area_ok_def)
  obtain dropped kept where sp: "btm_split_off hi (pages ?a) = (dropped, kept)" by fastforce
  note S = btm.get_split_hi [OF inv, of hi] btm.inv_split [OF inv, of hi] btm.vals_split [OF inv, of hi]
  let ?b = "piece ?a hi (end_vpn ?a) kept"
  let ?v' = "v\<lparr>areas := (areas v)[i := ?b]\<rparr>"
  have s: "start_vpn ?a < hi" using c(1) by (simp add: outside_def not_le)
  have get: "map_of kept w = Some p \<longleftrightarrow> hi \<le> w \<and> map_of (pages ?a) w = Some p" for w p
    using S(1) sp by (simp add: restrict_eq_Some)
  note inside = area_pages_inside [OF oka]
  obtain s1 where s1: "RootPgt_unmap (start_vpn ?a) hi (root_pgt v) s = Some (Inr (), s1)"
    "step_done lo hi i v s ?v' (drop_pages (btm_values dropped) s1)"
  proof (rule cut_step [OF ok m hi, where N = "{#?b#}" and v' = ?v' and i = i and lo' = "start_vpn ?a"
        and lo = lo and hi = hi and ds = "btm_values dropped"], goal_cases)
    case 2
    then show ?case using piece_ok [OF oka, of kept hi "end_vpn ?a"] S(2) sp s get inside by auto
  next
    case 4
    then show ?case using arg_cong [OF S(3), of "image_mset get_ppn"] sp
      by (simp add: area_bag_def add.commute)
  next
    case (10 j)
    then show ?case using update_tail [of i "areas v" "outside lo hi" ?b "[]" j, OF i tail] by (simp add: outside_def)
  next
    case (5 w e)
    then show ?case using inside by (auto simp: maps_to_single get not_less)
  qed (use mu c s i overlap_anonymous(2) [OF oka c(1) hi] in \<open>auto simp: contain_vpn_def\<close>)
  moreover from this(1) have "unmap_area lo hi i v s = Some (Inr (), ?v', drop_pages (btm_values dropped) s1)"
    using i c sp by (auto simp: unmap_area_def outside_def Let_def piece_def)
  ultimately show ?thesis using that by blast
qed

text \<open>The range covers the back of the area: the front stays.\<close>

lemma unmap_area_case3:
  assumes ok: "space_ok v s" and i: "i < length (areas v)" and hi: "unat (vpn_raw hi) \<le> 2 ^ 26"
    and tail: "\<And>j. i < j \<Longrightarrow> j < length (areas v) \<Longrightarrow> outside lo hi (areas v ! j)"
    and c: "\<not> outside lo hi (areas v ! i)" "start_vpn (areas v ! i) < lo" "end_vpn (areas v ! i) \<le> hi"
  obtains v' s' where "unmap_area lo hi i v s = Some (Inr (), v', s')" "step_done lo hi i v s v' s'"
proof -
  let ?a = "areas v ! i"
  obtain A where m: "marea v = add_mset ?a A" and mu: "\<And>x. mset ((areas v)[i := x]) = add_mset x A"
    using mset_replace_nth [OF i] by blast
  have oka: "area_ok ?a" using space_okD(2) [OF ok] i by simp
  then have inv: "btm_inv (pages ?a)" by (simp add: area_ok_def)
  obtain kept dropped where sp: "btm_split_off lo (pages ?a) = (kept, dropped)" by fastforce
  note S = btm.get_split_lo [OF inv, of lo] btm.inv_split [OF inv, of lo] btm.vals_split [OF inv, of lo]
  let ?b = "piece ?a (start_vpn ?a) lo kept"
  let ?v' = "v\<lparr>areas := (areas v)[i := ?b]\<rparr>"
  have e: "lo < end_vpn ?a" using c(1) by (simp add: outside_def not_le)
  have get: "map_of kept w = Some p \<longleftrightarrow> w < lo \<and> map_of (pages ?a) w = Some p" for w p
    using S(1) sp by (simp add: restrict_eq_Some)
  note inside = area_pages_inside [OF oka]
  obtain s1 where s1: "RootPgt_unmap lo (end_vpn ?a) (root_pgt v) s = Some (Inr (), s1)"
    "step_done lo hi i v s ?v' (drop_pages (btm_values dropped) s1)"
  proof (rule cut_step [OF ok m overlap_anonymous(1) [OF oka c(1) hi], where N = "{#?b#}" and v' = ?v'
        and i = i and lo' = lo and lo = lo and hi = hi and ds = "btm_values dropped"], goal_cases)
    case 2
    then show ?case using piece_ok [OF oka, of kept "start_vpn ?a" lo] S(2) sp e get inside by auto
  next
    case 4
    then show ?case using arg_cong [OF S(3), of "image_mset get_ppn"] sp
      by (simp add: area_bag_def add.commute)
  next
    case (10 j)
    then show ?case using update_tail [of i "areas v" "outside lo hi" ?b "[]" j, OF i tail] by (simp add: outside_def)
  next
    case (5 w e)
    show ?case using inside(2) by (auto simp: maps_to_single get not_less dest: leD)
  qed (use mu c e i overlap_anonymous(2) [OF oka c(1) hi] in \<open>auto simp: contain_vpn_def\<close>)
  moreover from this(1) have "unmap_area lo hi i v s = Some (Inr (), ?v', drop_pages (btm_values dropped) s1)"
    using i c sp by (auto simp: unmap_area_def outside_def Let_def piece_def)
  ultimately show ?thesis using that by blast
qed

text \<open>The range lies strictly inside the area: both ends stay, the back one as a new area.\<close>

lemma unmap_area_case4:
  assumes ok: "space_ok v s" and i: "i < length (areas v)" and hi: "unat (vpn_raw hi) \<le> 2 ^ 26" "lo < hi"
    and tail: "\<And>j. i < j \<Longrightarrow> j < length (areas v) \<Longrightarrow> outside lo hi (areas v ! j)"
    and c: "start_vpn (areas v ! i) < lo" "hi < end_vpn (areas v ! i)"
  obtains v' s' where "unmap_area lo hi i v s = Some (Inr (), v', s')" "step_done lo hi i v s v' s'"
proof -
  let ?a = "areas v ! i"
  obtain A where m: "marea v = add_mset ?a A" and mu: "\<And>x. mset ((areas v)[i := x]) = add_mset x A"
    using mset_replace_nth [OF i] by blast
  have oka: "area_ok ?a" using space_okD(2) [OF ok] i by simp
  then have inv: "btm_inv (pages ?a)" by (simp add: area_ok_def)
  have "\<not> outside lo hi ?a" using c hi(2) by (auto simp: outside_def)
  note anon = overlap_anonymous(2) [OF oka this hi(1)]
  obtain low rest where sp: "btm_split_off lo (pages ?a) = (low, rest)" by fastforce
  obtain dropped high where sp2: "btm_split_off hi rest = (dropped, high)" by fastforce
  note S = btm.get_split_lo [OF inv, of lo] btm.get_split_twice [OF inv, of lo hi]
    btm.inv_split [OF inv, of lo] btm.vals_split_twice [OF inv, of lo hi]
  have inv2: "btm_inv low" "btm_inv high" using S(3) btm.inv_split [of rest hi] sp sp2 by simp_all
  let ?b = "piece ?a (start_vpn ?a) lo low" and ?c = "piece ?a hi (end_vpn ?a) high"
  let ?v' = "v\<lparr>areas := (areas v)[i := ?b] @ [?c]\<rparr>"
  have get: "map_of low w = Some p \<longleftrightarrow> w < lo \<and> map_of (pages ?a) w = Some p"
    "map_of high w = Some p \<longleftrightarrow> hi \<le> w \<and> map_of (pages ?a) w = Some p" for w p
    using S(1,2) sp sp2 hi(2) by (simp_all add: restrict_eq_Some)
  note inside = area_pages_inside [OF oka]
  obtain s1 where s1: "RootPgt_unmap lo hi (root_pgt v) s = Some (Inr (), s1)"
    "step_done lo hi i v s ?v' (drop_pages (btm_values dropped) s1)"
  proof (rule cut_step [OF ok m hi(1), where N = "{#?b, ?c#}" and v' = ?v' and i = i and lo' = lo
        and lo = lo and hi = hi and ds = "btm_values dropped"], goal_cases)
    case 2
    then show ?case
      using piece_ok [OF oka inv2(1), of "start_vpn ?a" lo] piece_ok [OF oka inv2(2), of hi "end_vpn ?a"]
        c hi(2) get inside by auto
  next
    case 4
    then show ?case using arg_cong [OF S(4), of "image_mset get_ppn"] sp sp2
      by (simp add: area_bag_def ac_simps)
  next
    case (5 w e)
    then show ?case by (auto simp: maps_to_add maps_to_single get) (auto simp: maps_to_def)
  next
    case (10 j)
    then show ?case using update_tail [of i "areas v" "outside lo hi" ?b "[?c]" j, OF i tail] by (simp add: outside_def)
  qed (use mu c i hi(2) anon in \<open>auto simp: contain_vpn_def\<close>)
  moreover have "unmap_area lo hi i v s = Some (Inr (), ?v', drop_pages (btm_values dropped) s1)"
  proof -
    have "\<lparr>start_vpn = hi, end_vpn = end_vpn ?a, map_type = map_type ?a, permissions = permissions ?a,
        pages = high\<rparr> = ?c" by (cases ?a) (simp add: piece_def)
    then show ?thesis using i c hi(2) sp sp2 s1(1)
      by (auto simp: unmap_area_def Let_def vec_push_def) (simp add: piece_def)
  qed
  ultimately show ?thesis using that by blast
qed

lemma unmap_area_spec:
  assumes ok: "space_ok v s" and i: "i < length (areas v)" and hi: "unat (vpn_raw hi) \<le> 2 ^ 26" "lo < hi"
    and tail: "\<And>j. i < j \<Longrightarrow> j < length (areas v) \<Longrightarrow> outside lo hi (areas v ! j)"
  obtains v' s' where "unmap_area lo hi i v s = Some (Inr (), v', s')" "step_done lo hi i v s v' s'"
proof (cases "outside lo hi (areas v ! i)")
  case True
  moreover have "outside lo hi (areas v ! j)" if "i \<le> j" "j < length (areas v)" for j
    using tail [of j] True that by (cases "j = i") auto
  ultimately show ?thesis using i ok
    by (intro that [of v s]) (auto simp: unmap_area_def outside_def step_done_def vm_frame_refl body_kept_refl Let_def)
next
  case False
  note c = unmap_area_case1 [OF ok i hi(1) tail False] unmap_area_case2 [OF ok i hi(1) tail False]
    unmap_area_case3 [OF ok i hi(1) tail False] unmap_area_case4 [OF ok i hi tail]
  show ?thesis
    by (metis (no_types) c that not_le)
qed

subsection \<open>The whole operation\<close>

text \<open>The loop below index \<open>n\<close>, when the areas from \<open>n\<close> on are already outside the range.\<close>

lemma unmap_areas_spec:
  assumes "space_ok v s" "n \<le> length (areas v)" "unat (vpn_raw hi) \<le> 2 ^ 26" "lo < hi"
    "\<And>j. n \<le> j \<Longrightarrow> j < length (areas v) \<Longrightarrow> outside lo hi (areas v ! j)"
  shows "\<exists>v' s'. unmap_areas lo hi (rev [0..<n]) v s = Some (Inr (), v', s') \<and> step_done lo hi 0 v s v' s'"
  using assms
proof (induction n arbitrary: v s)
  case 0
  then show ?case by (auto simp: step_done_def vm_frame_refl body_kept_refl)
next
  case (Suc n)
  have tail: "outside lo hi (areas v ! j)" if "n < j" "j < length (areas v)" for j
    using Suc.prems(5) [of j] that by simp
  obtain v1 s1 where v1: "unmap_area lo hi n v s = Some (Inr (), v1, s1)" "step_done lo hi n v s v1 s1"
    by (rule unmap_area_spec [OF Suc.prems(1) _ Suc.prems(3,4) tail]) (use Suc.prems(2) in auto)
  then have "space_ok v1 s1" "n \<le> length (areas v1)"
    "\<And>j. n \<le> j \<Longrightarrow> j < length (areas v1) \<Longrightarrow> outside lo hi (areas v1 ! j)"
    by (simp_all add: step_done_def)
  from Suc.IH [OF this(1,2) Suc.prems(3,4) this(3)] obtain v' s' where
    v': "unmap_areas lo hi (rev [0..<n]) v1 s1 = Some (Inr (), v', s')" "step_done lo hi 0 v1 s1 v' s'"
    by blast
  have "step_done lo hi 0 v s v' s'"
    using v1(2) v'(2) vm_frame_trans [of v s v1 s1 v' s'] body_kept_trans [of v s v1 s1 v' s']
    by (simp add: step_done_def subset_iff)
  with v1(1) v'(1) show ?case by simp
qed

text \<open>
  \<open>VMSpace::unmap\<close> returns, removes the range from the areas and from the page table, and
  leaves every page number outside the range as it was.
\<close>

lemma VMSpace_unmap_spec:
  assumes ok: "space_ok v s" and hi: "unat (vpn_raw hi) \<le> 2 ^ 26" "lo < hi"
  obtains v' s' where "VMSpace_unmap v lo hi s = Some (Inr (), v', s')"
    "space_ok v' s'" "vm_frame v s v' s'"
    "\<And>w. user_vpn w \<Longrightarrow>
      lookup (root_pgt v') s' w = (if lo \<le> w \<and> w < hi then None else lookup (root_pgt v) s w)"
    "\<And>w x. region (marea v') w x \<longleftrightarrow> region (marea v) w x \<and> \<not> (lo \<le> w \<and> w < hi)"
    "body_kept v s v' s'"
proof -
  obtain v' s' where r: "VMSpace_unmap v lo hi s = Some (Inr (), v', s')" "step_done lo hi 0 v s v' s'"
    using unmap_areas_spec [OF ok _ hi, of "length (areas v)"] by (auto simp: VMSpace_unmap_def)
  have ok': "space_ok v' s'" and out: "\<And>a. a \<in># marea v' \<Longrightarrow> outside lo hi a"
    using r(2) by (auto simp: step_done_def in_set_conv_nth)
  have nc: "\<not> contain_vpn a w" if "a \<in># marea v'" "lo \<le> w" "w < hi" for a w
    using out [OF that(1)] that(2,3) by (auto simp: outside_def contain_vpn_def)
  then have nm: "\<not> maps_to (marea v') w e" if "lo \<le> w" "w < hi" for w e
    using that space_okD(2) [OF ok'] area_ok_contain unfolding maps_to_def by blast
  show ?thesis
  proof (rule that [OF r(1) ok'])
    show "vm_frame v s v' s'" "body_kept v s v' s'" using r(2) by (simp_all add: step_done_def)
    fix w assume w: "user_vpn w"
    show "lookup (root_pgt v') s' w = (if lo \<le> w \<and> w < hi then None else lookup (root_pgt v) s w)"
    proof (cases "lo \<le> w \<and> w < hi")
      case True
      then have "lookup (root_pgt v') s' w \<noteq> Some e" for e using nm space_okD(7) [OF ok' w] by simp
      then have "lookup (root_pgt v') s' w = None" by (metis not_None_eq)
      with True show ?thesis by simp
    next
      case False
      then show ?thesis using r(2) w by (auto simp: step_done_def)
    qed
  next
    fix w x
    have "\<not> region (marea v') w x" if "lo \<le> w \<and> w < hi"
      using nc [of _ w] that by (auto simp: region_def)
    moreover have "region (marea v') w x = region (marea v) w x" if "\<not> (lo \<le> w \<and> w < hi)"
      using r(2) that unfolding step_done_def by blast
    ultimately show "region (marea v') w x \<longleftrightarrow> region (marea v) w x \<and> \<not> (lo \<le> w \<and> w < hi)" by blast
  qed
qed

subsection \<open>Isolation of spaces\<close>

text \<open>
  Two spaces share the tables of the kernel half and nothing else.  An operation on one that
  respects its frame leaves the other in good standing, with the same mapping, the same memory
  and still apart.
\<close>

definition spaces_apart :: "VMSpace \<Rightarrow> VMSpace \<Rightarrow> mm_state \<Rightarrow> bool" where
  "spaces_apart v w s \<longleftrightarrow>
     own v \<inter> (own w \<union> table_pages (mtab s) (root_ppn (root_pgt w))) = {}"

lemma frame_isolates:
  assumes v: "space_ok v' s'" "vm_frame v s v' s'" and w: "space_ok w s" "spaces_apart v w s"
  shows "space_ok w s'" "spaces_apart v' w s'" "lookup (root_pgt w) s' = lookup (root_pgt w) s"
    "PPN (drop_bit 12 a) \<in> own w \<Longrightarrow> phys s' a = phys s a"
    "table_pages (mtab s') (root_ppn (root_pgt w)) = table_pages (mtab s) (root_ppn (root_pgt w))"
    "PPN (drop_bit 12 a) \<in> table_pages (mtab s) (root_ppn (root_pgt w)) \<Longrightarrow> phys s' a = phys s a"
proof -
  let ?t = "root_pgt w" and ?tp = "table_pages (mtab s) (root_ppn (root_pgt w))"
  note D = space_okD [OF w(1)]
  from v(2) have F: "own v' \<union> mfree s' = own v \<union> mfree s" "mheld s' - own v' = mheld s - own v"
    "\<And>a. PPN (drop_bit 12 a) \<notin> own v \<union> mfree s \<Longrightarrow> phys s' a = phys s a"
    by (simp_all add: vm_frame_def)
  have w': "own w \<union> ?tp \<subseteq> mheld s" "own v \<inter> (own w \<union> ?tp) = {}" "mfree s \<inter> (own w \<union> ?tp) = {}"
    using D(9,10,11) w(2) by (auto simp: spaces_apart_def)
  then have held: "own w \<union> ?tp \<subseteq> mheld s'" "own v' \<inter> (own w \<union> ?tp) = {}" using F(1,2) by auto
  have mem: "phys s' a = phys s a" if "PPN (drop_bit 12 a) \<in> own w \<union> ?tp" for a
    by (rule F(3)) (use w'(2,3) that in blast)
  then show "PPN (drop_bit 12 a) \<in> own w \<Longrightarrow> phys s' a = phys s a"
    "PPN (drop_bit 12 a) \<in> ?tp \<Longrightarrow> phys s' a = phys s a" by blast+
  have "?tp \<subseteq> mheld s'" using held(1) by blast
  note c = pgt_user_cong [OF D(1) space_okD(8) [OF v(1)] this mem]
  show lk: "lookup ?t s' = lookup ?t s" by (rule c(2)) blast
  show tp: "table_pages (mtab s') (root_ppn ?t) = ?tp" by (rule c(3)) blast
  have "pgt_user ?t s'" by (rule c(1)) blast
  moreover have "data_pages w \<subseteq> mheld s'" using held(1) by (auto simp: own_def)
  ultimately show "space_ok w s'" using w(1) by (simp add: space_ok_def lk tp)
  show "spaces_apart v' w s'" using held(2) by (simp add: spaces_apart_def tp)
qed

subsection \<open>Dropping a space\<close>

definition space_pages :: "VMSpace \<Rightarrow> Page list" where
  "space_pages v = root_pages (root_pgt v) @ concat (map (\<lambda>a. btm_values (pages a)) (areas v))"

lemma drop_VMSpace_pages: "drop_VMSpace v s = drop_pages (space_pages v) s"
proof -
  have "foldl (\<lambda>s area. drop_VMArea area s) t as =
      drop_pages (concat (map (\<lambda>a. btm_values (pages a)) as)) t" for t as
    by (induction as arbitrary: t) (simp_all add: drop_VMArea_def drop_pages_def)
  then show ?thesis
    by (simp add: drop_VMSpace_def space_pages_def drop_RootPgt_def) (simp add: drop_pages_def)
qed

lemma space_pages_bag:
  "image_mset get_ppn (mset (space_pages v)) =
     image_mset get_ppn (mset (root_pages (root_pgt v))) + data_bag (marea v)"
proof -
  have "image_mset get_ppn (mset (concat (map (\<lambda>a. btm_values (pages a)) as))) = data_bag (mset as)" for as
    by (induction as) (simp_all add: area_bag_def)
  then show ?thesis by (simp add: space_pages_def)
qed

lemma space_pages_distinct:
  assumes ok: "space_ok v s"
  shows "distinct (map get_ppn (space_pages v))" "get_ppn ` set (space_pages v) = own v"
proof -
  note D = space_okD [OF ok]
  let ?D = "concat (map (\<lambda>a. btm_values (pages a)) (areas v))"
  have bag: "mset (map get_ppn ?D) = data_bag (marea v)"
    using space_pages_bag [of v] by (simp add: space_pages_def)
  have "distinct (map get_ppn ?D)" using D(4) by (simp only: single_owner_distinct [symmetric] bag)
  moreover have "distinct (map get_ppn (root_pages (root_pgt v)))" using D(1) by (simp add: pgt_user_def)
  moreover have "get_ppn ` set (root_pages (root_pgt v)) \<inter> data_pages v = {}"
    using D(1,6) under_table_pages by (fastforce simp: pgt_user_def)
  moreover have sets: "get_ppn ` set ?D = data_pages v" using arg_cong [OF bag, of set_mset] by simp
  ultimately show "distinct (map get_ppn (space_pages v))" by (simp add: space_pages_def)
  show "get_ppn ` set (space_pages v) = own v"
    using sets by (simp add: space_pages_def own_def image_Un)
qed

lemma drop_space:
  assumes "space_ok v s"
  shows "mm_inv (drop_VMSpace v s)" "mfree (drop_VMSpace v s) = mfree s \<union> own v"
    "mheld (drop_VMSpace v s) = mheld s - own v" "phys (drop_VMSpace v s) = phys s"
proof -
  note d = space_pages_distinct [OF assms]
  have "get_ppn ` set (space_pages v) \<subseteq> mheld s" using space_okD(11) [OF assms] d(2) by simp
  from drop_pages_spec [OF space_okD(8) [OF assms] d(1) this]
  show "mm_inv (drop_VMSpace v s)" "mfree (drop_VMSpace v s) = mfree s \<union> own v"
    "mheld (drop_VMSpace v s) = mheld s - own v" "phys (drop_VMSpace v s) = phys s"
    by (auto simp: drop_VMSpace_pages d(2))
qed

end
