(* ===== verification/Samples.thy ===== *)
theory Samples
  imports VM_Unmap
begin

text \<open>
  A concrete machine state that meets the invariants: 128 pages of memory at \<open>0x80000000\<close> in
  use, two root tables that share one chain of tables in their kernel half (as every user table
  shares the MMIO mapping), and a user space on each with one area and no page mapped yet.
\<close>

definition sample_root :: PPN where "sample_root = PPN 0x80000"
definition sample_root2 :: PPN where "sample_root2 = PPN 0x80003"
definition sample_mid :: PPN where "sample_mid = PPN 0x80001"
definition sample_low :: PPN where "sample_low = PPN 0x80002"

definition sample_link :: "PPN \<Rightarrow> PTE" where
  "sample_link p = PTE (push_bit 10 (get_raw p) OR FLAG_V)"

definition sample_mem :: phys_mem where
  "sample_mem =
     store_u64 (store_u64 (store_u64 (\<lambda>_. 0)
         (get_pa sample_root + 8 * 256) (pte_bits (sample_link sample_mid)))
         (get_pa sample_root2 + 8 * 256) (pte_bits (sample_link sample_mid)))
       (get_pa sample_mid + 8 * 0) (pte_bits (sample_link sample_low))"

definition sample_state :: mm_state where
  "sample_state =
     \<lparr>phys = sample_mem,
      PAGE_ALLOCATOR = \<lparr>next_unused_ppn = PPN 0x80080, max_ppn = PPN 0x88000, recycled_ppn = []\<rparr>,
      KERNEL_SATP = 0\<rparr>"

definition sample_pgt :: "PPN \<Rightarrow> RootPgt" where
  "sample_pgt r = \<lparr>root_ppn = r, root_pages = [\<lparr>page_ppn = r\<rparr>]\<rparr>"

definition sample_area :: VMArea where
  "sample_area = VMArea_new (VPN 0x10) (VPN 0x20) Anonymous
     (PERMISSION_R OR PERMISSION_W OR PERMISSION_U)"

definition sample_space :: "PPN \<Rightarrow> VMSpace" where
  "sample_space r =
     \<lparr>root_pgt = sample_pgt r, areas = [sample_area], entry_addr = 0, u_stack_end = 0, k_stack_end = 0\<rparr>"

definition sample_roots :: "PPN set" where "sample_roots = {sample_root, sample_root2}"

lemmas sample_defs = sample_root_def sample_root2_def sample_mid_def sample_low_def

lemma sample_roots_in [simp]: "sample_root \<in> sample_roots" "sample_root2 \<in> sample_roots"
  by (simp_all add: sample_roots_def)

lemma sample_distinct [simp]:
  "r \<in> sample_roots \<Longrightarrow> r \<noteq> sample_mid" "r \<in> sample_roots \<Longrightarrow> r \<noteq> sample_low"
  "r \<in> sample_roots \<Longrightarrow> sample_mid \<noteq> r" "r \<in> sample_roots \<Longrightarrow> sample_low \<noteq> r"
  "sample_mid \<noteq> sample_low" "sample_low \<noteq> sample_mid"
  "sample_mid \<notin> sample_roots" "sample_low \<notin> sample_roots"
  by (auto simp: sample_defs sample_roots_def)

lemma sample_reachable:
  "r \<in> sample_roots \<Longrightarrow> reachable_ppn r" "reachable_ppn sample_mid" "reachable_ppn sample_low"
  by (auto simp: reachable_ppn_def sample_defs sample_roots_def)

lemma sample_link_fields:
  assumes "reachable_ppn p"
  shows "PTE_is_valid (sample_link p)" "\<not> PTE_hw_leaf (sample_link p)" "pte_ppn (sample_link p) = p"
proof -
  have "unat (get_raw p) < 2 ^ 44" using assms by (simp add: reachable_ppn_def)
  from PTE_new_table [OF this] obtain e where e: "PTE_new p FLAG_V = Inr e" "PTE_is_valid e"
    "\<not> PTE_hw_leaf e" "pte_ppn e = p" by blast
  then have "e = sample_link p" by (auto simp: PTE_new_def sample_link_def split: if_splits)
  with e show "PTE_is_valid (sample_link p)" "\<not> PTE_hw_leaf (sample_link p)" "pte_ppn (sample_link p) = p"
    by simp_all
qed

lemma sample_tab:
  "mtab sample_state p i =
     (if p = sample_mid \<and> i = 0 then sample_link sample_low
      else if p \<in> sample_roots \<and> i = 256 then sample_link sample_mid else pte_null)"
proof -
  have zero: "tab (\<lambda>_. 0) = (\<lambda>_ _. pte_null)"
    by (simp add: fun_eq_iff tab_def load_u64_def pte_null_def)
  have "mtab sample_state = upd (upd (upd (\<lambda>_ _. pte_null) sample_root 256 (sample_link sample_mid))
      sample_root2 256 (sample_link sample_mid)) sample_mid 0 (sample_link sample_low)"
    unfolding sample_state_def sample_mem_def mm_state.simps
    using tab_store [OF sample_reachable(2), of 0] tab_store [OF sample_reachable(1), of sample_root 256]
      tab_store [OF sample_reachable(1), of sample_root2 256]
    by (simp add: zero)
  then show ?thesis by (auto simp: upd_apply sample_roots_def)
qed

lemma sample_tree:
  assumes r: "r \<in> sample_roots"
  shows "table1 (mtab sample_state) r i = (if i = 256 then Some sample_mid else None)"
    "table0 (mtab sample_state) r i j = (if i = 256 \<and> j = 0 then Some sample_low else None)"
proof -
  show t1: "table1 (mtab sample_state) r i = (if i = 256 then Some sample_mid else None)" for i
    using sample_link_fields [OF sample_reachable(2)] r
    by (auto simp: table1_def subtable_def sample_tab)
  show "table0 (mtab sample_state) r i j = (if i = 256 \<and> j = 0 then Some sample_low else None)"
    unfolding table0_def t1 using sample_link_fields [OF sample_reachable(3)]
    by (auto simp: subtable_def sample_tab)
qed

lemma sample_pages:
  assumes "r \<in> sample_roots"
  shows "table_pages (mtab sample_state) r = {r, sample_mid, sample_low}"
  by (auto simp: table_pages_def sample_tree [OF assms])

lemma sample_pgt_ok:
  assumes r: "r \<in> sample_roots"
  shows "pgt_ok (sample_pgt r) sample_state"
proof -
  have "pgt_wf (mtab sample_state) r"
    using sample_reachable r
    by (auto simp: pgt_wf_def sample_pages [OF r] sample_tree [OF r] split: if_splits)
  moreover have "mm_inv sample_state"
    by (simp add: mm_inv_def sample_state_def alloc_inv_def page_order)
  moreover have "{r, sample_mid, sample_low} \<subseteq> mheld sample_state"
    using r by (auto simp: held_pages_def sample_state_def sample_defs sample_roots_def page_order)
  ultimately show ?thesis by (simp add: pgt_ok_def sample_pgt_def sample_pages [OF r])
qed

lemma sample_pgt_user:
  assumes r: "r \<in> sample_roots"
  shows "pgt_user (sample_pgt r) sample_state"
proof -
  have "\<not> PTE_hw_leaf (mtab sample_state p i)" for p i
    using sample_link_fields(2) sample_reachable by (auto simp: sample_tab PTE_hw_leaf_def)
  then have "no_user_large (mtab sample_state) r" by (simp add: no_user_large_def)
  moreover have "under (mtab sample_state) r user_half = {r}"
    by (auto simp: under_def sample_tree [OF r])
  ultimately show ?thesis using sample_pgt_ok [OF r]
    by (simp add: pgt_user_def sentinel_def sample_pgt_def) (simp add: sample_tree [OF r])
qed

lemma sample_lookup: "r \<in> sample_roots \<Longrightarrow> user_vpn vpn \<Longrightarrow> lookup (sample_pgt r) sample_state vpn = None"
  using user_vpn_index [of vpn] by (auto simp: lookup_def Let_def walk_def sample_pgt_def sample_tree)

lemma sample_bag: "data_bag {#sample_area#} = {#}"
  by (simp add: area_bag_def sample_area_def VMArea_new_def btm_values_def)

lemma sample_space_ok:
  assumes r: "r \<in> sample_roots"
  shows "space_ok (sample_space r) sample_state"
proof -
  have "area_ok sample_area"
    by (simp add: area_ok_def sample_area_def VMArea_new_def ALL_PERMISSION_FLAGS_def
        PERMISSION_R_def PERMISSION_W_def PERMISSION_X_def PERMISSION_U_def flag_vals)
  moreover have "areas_apart {#sample_area#}" by (simp add: areas_apart_def)
  moreover have "\<not> maps_to {#sample_area#} vpn e" for vpn e
    by (simp add: maps_to_def sample_area_def VMArea_new_def)
  ultimately show ?thesis using sample_pgt_user [OF r] sample_lookup [OF r] sample_bag
    by (simp add: space_ok_def sample_space_def single_owner_def)
qed

lemma sample_apart: "spaces_apart (sample_space sample_root) (sample_space sample_root2) sample_state"
  using sample_bag
  by (auto simp: spaces_apart_def own_def sample_space_def sample_pgt_def sample_pages)
    (auto simp: sample_defs)

end
