(* ===== verification/Memory_Props.thy ===== *)
theory Memory_Props
  imports Samples
begin

text \<open>
  The properties of the memory components: user address spaces, page tables, the page
  allocator and the address arithmetic.  Each is followed, where it has hypotheses, by its
  application to the sample state or to concrete values.
\<close>

subsection \<open>User address spaces\<close>

text \<open>
  C19. \<open>VMSpace::unmap\<close> on a non-empty user range returns \<open>Ok\<close> without a panic, whatever the
  areas it overlaps: it keeps the space's invariant, removes exactly the range from the page
  table and from the areas, leaves every other page mapped as before, and every page it stops
  using goes back to the allocator.
\<close>

theorem VMSpace_unmap_correct:
  assumes "space_ok v s" "lo < hi" "unat (vpn_raw hi) \<le> 2 ^ 26"
  shows "\<exists>v' s'. VMSpace_unmap v lo hi s = Some (Inr (), v', s') \<and> space_ok v' s' \<and>
    (\<forall>w. user_vpn w \<longrightarrow>
       lookup (root_pgt v') s' w = (if lo \<le> w \<and> w < hi then None else lookup (root_pgt v) s w)) \<and>
    (\<forall>w x. region (mset (areas v')) w x \<longleftrightarrow> region (mset (areas v)) w x \<and> \<not> (lo \<le> w \<and> w < hi)) \<and>
    own v' \<union> mfree s' = own v \<union> mfree s"
proof (rule VMSpace_unmap_spec [OF assms(1,3,2)], goal_cases)
  case (1 v' s')
  then show ?case by (intro exI [of _ v'] exI [of _ s']) (simp add: vm_frame_def)
qed

theorem VMSpace_unmap_correct_witness:
  "space_ok (sample_space sample_root) sample_state \<and> VPN 0x12 < VPN 0x14 \<and>
   (\<exists>v' s'. VMSpace_unmap (sample_space sample_root) (VPN 0x12) (VPN 0x14) sample_state = Some (Inr (), v', s'))"
  using VMSpace_unmap_correct [OF sample_space_ok [OF sample_roots_in(1)], of "VPN 0x12" "VPN 0x14"] sample_space_ok [OF sample_roots_in(1)]
  by (auto simp: page_order)

text \<open>
  C20. \<open>VMSpace::map\<close>, the work of a page fault, on a user page that is not mapped returns and
  keeps the space's invariant.  When it succeeds an area contains the page and grants the
  requested permissions, the page is now mapped with the area's permissions to a page that was
  free and is all zeros, and nothing else is mapped differently; when it fails the mapping is
  the one before.
\<close>

theorem VMSpace_map_correct:
  assumes "space_ok v s" "user_vpn vpn" "lookup (root_pgt v) s vpn = None"
  shows "\<exists>r v' s'. VMSpace_map v vpn pm s = Some (r, v', s') \<and> space_ok v' s' \<and>
    (case r of
       Inl _ \<Rightarrow> lookup (root_pgt v') s' = lookup (root_pgt v) s
     | Inr _ \<Rightarrow> (\<exists>a p. a \<in> set (areas v) \<and> contain_vpn a vpn \<and> pm AND permissions a = pm \<and>
         get_ppn p \<in> mfree s \<and> (\<forall>x. PPN (drop_bit 12 x) = get_ppn p \<longrightarrow> phys s' x = 0) \<and>
         (\<forall>w. user_vpn w \<longrightarrow>
            lookup (root_pgt v') s' w = ((lookup (root_pgt v) s)(vpn \<mapsto> leaf_of a p)) w)))"
proof (rule VMSpace_map_cases [OF assms, of pm], goal_cases error mapped)
  case (error err v' s')
  then show ?case by (intro exI [of _ "Inl err"] exI [of _ v'] exI [of _ s']) simp
next
  case (mapped v' s' i p)
  have "areas v ! i \<in> set (areas v)" using mapped(4) by simp
  with mapped show ?case
    by (intro exI [of _ "Inr ()"] exI [of _ v'] exI [of _ s'])
      (simp, intro exI [of _ "areas v ! i"] conjI exI [of _ p], simp_all)
qed

theorem VMSpace_map_correct_witness:
  "space_ok (sample_space sample_root) sample_state \<and> user_vpn (VPN 0x11) \<and>
   (\<exists>r v' s'. VMSpace_map (sample_space sample_root) (VPN 0x11) PERMISSION_W sample_state = Some (r, v', s') \<and>
      space_ok v' s')"
proof -
  have u: "user_vpn (VPN 0x11)" by (simp add: user_vpn_def)
  moreover have "lookup (root_pgt (sample_space sample_root)) sample_state (VPN 0x11) = None"
    using sample_lookup [OF sample_roots_in(1) u] by (simp add: sample_space_def)
  ultimately show ?thesis
    using VMSpace_map_correct [OF sample_space_ok [OF sample_roots_in(1)] u, of PERMISSION_W] sample_space_ok [OF sample_roots_in(1)] by blast
qed

text \<open>
  C27. \<open>VMSpace::add_new_area\<close> accepts a range exactly when it is not empty, asks for known
  permissions only and overlaps no area; it then adds precisely that area, with no page
  mapped, and the space stays in good standing.  A refused request changes nothing.
\<close>

theorem add_new_area_correct:
  assumes "space_ok v s" "unat (vpn_raw hi) \<le> 2 ^ 26" "add_new_area v lo hi Anonymous pm = (r, v')"
  shows "(r = Inr () \<longleftrightarrow> lo < hi \<and> pm AND NOT ALL_PERMISSION_FLAGS = 0 \<and>
      (\<forall>a \<in> set (areas v). end_vpn a \<le> lo \<or> hi \<le> start_vpn a)) \<and>
    (if r = Inr () then areas v' = areas v @ [VMArea_new lo hi Anonymous pm] \<and> space_ok v' s
     else v' = v)"
proof (cases "r = Inr ()")
  case True
  with assms(3) have "space_ok v' s" by (intro add_new_area_ok(1) [OF assms(1)]) (use assms(2) in auto)
  with True assms(3) show ?thesis
    by (auto simp: add_new_area_def list_all_iff vec_push_def split: if_splits)
next
  case False
  with assms(3) show ?thesis by (auto simp: add_new_area_def list_all_iff split: if_splits)
qed

theorem add_new_area_correct_witness:
  "space_ok (sample_space sample_root) sample_state \<and>
   fst (add_new_area (sample_space sample_root) (VPN 0x30) (VPN 0x40) Anonymous PERMISSION_R) = Inr ()"
  using add_new_area_correct [OF sample_space_ok [OF sample_roots_in(1)], of "VPN 0x40" "VPN 0x30" PERMISSION_R] sample_space_ok [OF sample_roots_in(1)]
  by (cases "add_new_area (sample_space sample_root) (VPN 0x30) (VPN 0x40) Anonymous PERMISSION_R")
    (simp add: sample_space_def sample_area_def VMArea_new_def page_order ALL_PERMISSION_FLAGS_def
      PERMISSION_R_def PERMISSION_W_def PERMISSION_X_def PERMISSION_U_def flag_vals)

text \<open>
  C21. Address spaces are isolated: a page fault or an unmap in one space leaves every other
  space that shares only the kernel tables with it in good standing, with the same mapping and
  the same bytes in all its pages, and the two spaces still share no page.
\<close>

theorem spaces_isolated:
  assumes "space_ok v s" "space_ok u s" "spaces_apart v u s"
    and "user_vpn vpn \<and> lookup (root_pgt v) s vpn = None \<and> VMSpace_map v vpn pm s = Some (r, v', s')
      \<or> lo < hi \<and> unat (vpn_raw hi) \<le> 2 ^ 26 \<and> VMSpace_unmap v lo hi s = Some (r, v', s')"
  shows "space_ok u s' \<and> spaces_apart v' u s' \<and> lookup (root_pgt u) s' = lookup (root_pgt u) s \<and>
    (\<forall>x. PPN (drop_bit 12 x) \<in> own u \<longrightarrow> phys s' x = phys s x)"
proof -
  have "space_ok v' s' \<and> vm_frame v s v' s'"
    using assms(4)
  proof
    assume a: "user_vpn vpn \<and> lookup (root_pgt v) s vpn = None \<and> VMSpace_map v vpn pm s = Some (r, v', s')"
    show ?thesis by (rule VMSpace_map_cases [OF assms(1), of vpn pm]) (use a in auto)
  next
    assume a: "lo < hi \<and> unat (vpn_raw hi) \<le> 2 ^ 26 \<and> VMSpace_unmap v lo hi s = Some (r, v', s')"
    show ?thesis by (rule VMSpace_unmap_spec [OF assms(1), of hi lo]) (use a in auto)
  qed
  then show ?thesis using frame_isolates [OF _ _ assms(2,3)] by blast
qed

theorem spaces_isolated_witness:
  "\<exists>r v' s'. VMSpace_unmap (sample_space sample_root) (VPN 0x12) (VPN 0x14) sample_state = Some (r, v', s')
     \<and> space_ok (sample_space sample_root2) s'"
proof -
  have b: "VPN 0x12 < VPN 0x14" "unat (vpn_raw (VPN 0x14)) \<le> 2 ^ 26" by (simp_all add: page_order)
  obtain v' s' where r: "VMSpace_unmap (sample_space sample_root) (VPN 0x12) (VPN 0x14) sample_state
      = Some (Inr (), v', s')"
    by (rule VMSpace_unmap_spec [OF sample_space_ok [OF sample_roots_in(1)] b(2,1)])
  with b have "space_ok (sample_space sample_root2) s'"
    using spaces_isolated [OF sample_space_ok [OF sample_roots_in(1)] sample_space_ok [OF sample_roots_in(2)]
        sample_apart, of undefined undefined "Inr ()" v' s' "VPN 0x12" "VPN 0x14"] by blast
  with r show ?thesis by blast
qed

text \<open>
  C26. Dropping a user space (a task that exited or was killed) gives back every page it owns,
  its tables and the pages of its areas, each once, and nothing else: no page leaks and the
  kernel tables it shares stay in use.
\<close>

theorem drop_VMSpace_returns_all:
  assumes "space_ok v s"
  shows "mm_inv (drop_VMSpace v s) \<and> mfree (drop_VMSpace v s) = mfree s \<union> own v \<and>
    mheld (drop_VMSpace v s) = mheld s - own v \<and> phys (drop_VMSpace v s) = phys s"
  using drop_space [OF assms] by simp

theorem drop_VMSpace_returns_all_witness:
  "sample_root \<in> mfree (drop_VMSpace (sample_space sample_root) sample_state)"
proof -
  have "sample_root \<in> own (sample_space sample_root)"
    by (simp add: own_def sample_space_def sample_pgt_def)
  then show ?thesis using drop_VMSpace_returns_all [OF sample_space_ok [OF sample_roots_in(1)]] by blast
qed

subsection \<open>Page tables\<close>

text \<open>
  C24. \<open>RootPgt::map_create\<close> on a well-formed table returns without a panic and keeps the table
  well-formed.  It reports invalid flags, an already covered page or a lack of memory, and then
  leaves the mapping as it was; otherwise it adds exactly the requested leaf entry.
\<close>

theorem map_create_correct:
  assumes "pgt_ok t s"
  shows "\<exists>r t' s'. map_create vpn ppn f t s = Some (r, t', s') \<and> pgt_ok t' s' \<and>
    (let w = walk (mtab s) (root_ppn t); w' = walk (mtab s') (root_ppn t');
         i = parse_vpn vpn ! 2; j = parse_vpn vpn ! 1; k = parse_vpn vpn ! 0;
         cov = covered (mtab s) (root_ppn t) i j k
     in case r of
          Inl (InvalidPteFlags g) \<Rightarrow> g = f \<and> \<not> is_valid_flags f \<and> w' = w
        | Inl (DoubleMapping a b) \<Rightarrow> a = vpn \<and> b = ppn \<and> cov \<and> w' = w
        | Inl AcquirePageFailed \<Rightarrow> mfree s' = {} \<and> \<not> cov \<and> w' = w
        | Inr _ \<Rightarrow> \<not> cov \<and> (\<exists>e. PTE_new ppn f = Inr e \<and> w i j k = None \<and>
            w' = (\<lambda>a b c. if a = i \<and> b = j \<and> c = k then Some e else w a b c)))"
proof (rule map_create_cases [OF assms refl refl refl refl, of f vpn ppn], goal_cases fl cv fu mp)
  case fl
  with assms show ?case by simp
next
  case cv
  with assms show ?case by (simp add: Let_def)
next
  case (fu t' s' ps)
  then have "root_ppn t' = root_ppn t" by (simp add: pgt_grows_def)
  with fu show ?case by (simp add: Let_def)
next
  case (mp e t' s' ps)
  then have "root_ppn t' = root_ppn t" by (simp add: pgt_grows_def)
  with mp show ?case by (auto simp: Let_def covered_def fun_eq_iff)
qed

theorem map_create_correct_witness:
  "pgt_ok (sample_pgt sample_root) sample_state \<and>
   (\<exists>r t' s'. map_create (VPN 0x11) (PPN 0x80010) (FLAG_V OR FLAG_R) (sample_pgt sample_root) sample_state
      = Some (r, t', s') \<and> pgt_ok t' s')"
  using map_create_correct [OF sample_pgt_ok [OF sample_roots_in(1)], of "VPN 0x11" "PPN 0x80010" "FLAG_V OR FLAG_R"]
    sample_pgt_ok [OF sample_roots_in(1)] by blast

text \<open>
  C23. \<open>RootPgt::unmap\<close> of a user range does not run into its final \<open>panic!\<close>: on a table that
  has no large page in the user half and inherits the kernel's first MMIO table, it returns
  \<open>Ok\<close>, clears exactly the entries of the range, and neither adds nor releases a table.
\<close>

theorem RootPgt_unmap_correct:
  assumes "pgt_ok t s" "no_user_large (mtab s) (root_ppn t)" "sentinel (mtab s) (root_ppn t)"
    "unat (vpn_raw end) \<le> 2 ^ 26"
  shows "\<exists>s'. RootPgt_unmap start end t s = Some (Inr (), s') \<and> pgt_ok t s' \<and>
    table_pages (mtab s') (root_ppn t) = table_pages (mtab s) (root_ppn t) \<and>
    (\<forall>i j k. walk (mtab s') (root_ppn t) i j k =
       (if unat (vpn_raw start) \<le> pos i j k \<and> pos i j k < unat (vpn_raw end) then None
        else walk (mtab s) (root_ppn t) i j k))"
proof (cases "start < end")
  case True
  show ?thesis
  proof (rule RootPgt_unmap_spec [OF assms(1-3) True assms(4)], goal_cases)
    case (1 s')
    then show ?case by (intro exI [of _ s']) (simp add: pgt_grows_def)
  qed
next
  case False
  then have "RootPgt_unmap start end t s = Some (Inr (), s)" by (simp add: RootPgt_unmap_def not_less)
  then show ?thesis using assms(1) False by (auto simp: page_order word_less_nat_alt)
qed

theorem RootPgt_unmap_correct_witness:
  "sentinel (mtab sample_state) sample_root \<and>
   (\<exists>s'. RootPgt_unmap (VPN 0x12) (VPN 0x4000) (sample_pgt sample_root) sample_state = Some (Inr (), s'))"
proof -
  note u = sample_pgt_user [OF sample_roots_in(1)]
  have "sentinel (mtab sample_state) sample_root" using pgt_userD(3) [OF u] by (simp add: sample_pgt_def)
  then show ?thesis using RootPgt_unmap_correct [OF pgt_userD [OF u], of "VPN 0x4000" "VPN 0x12"] by auto
qed

text \<open>
  C30. \<open>PTE::new\<close> accepts exactly the flags below bit 10 that have V (bit 0) set and do not combine
  W (bit 2) with a clear R (bit 1), the two encodings the architecture reserves, and refuses all
  others by naming them; the entry it makes reads back, through \<open>get_ppn\<close> and the flag bits, the
  page number and the flags it was given, and \<open>get_ppn\<close> never panics.
\<close>

theorem PTE_new_roundtrip:
  assumes "unat (get_raw p) < 2 ^ 44"
  shows "if unat f < 1024 \<and> bit f 0 \<and> (bit f 2 \<longrightarrow> bit f 1)
    then \<exists>e. PTE_new p f = Inr e \<and> PTE_get_ppn e = Some p \<and> take_bit 10 (pte_bits e) = f \<and> PTE_is_valid e
    else PTE_new p f = Inl (InvalidPteFlags f)"
proof (cases "is_valid_flags f")
  case True
  then obtain e where e: "PTE_new p f = Inr e" by (simp add: PTE_new_def)
  from PTE_new_fields [OF this assms] e True show ?thesis
    unfolding is_valid_flags_bits [symmetric] by (simp add: PTE_get_ppn_eq)
next
  case False
  then show ?thesis unfolding is_valid_flags_bits [symmetric] by (simp add: PTE_new_def)
qed

theorem PTE_new_roundtrip_witness:
  "(\<exists>e. PTE_new (PPN 0x80010) 3 = Inr e \<and> PTE_get_ppn e = Some (PPN 0x80010)) \<and>
   PTE_new (PPN 0x80010) 5 = Inl (InvalidPteFlags 5) \<and> PTE_new (PPN 0x80010) 13 = Inl (InvalidPteFlags 13)"
  using PTE_new_roundtrip [of "PPN 0x80010" 3] PTE_new_roundtrip [of "PPN 0x80010" 5] PTE_new_roundtrip [of "PPN 0x80010" 13]
  by (auto simp: bit_numeral_word_iff)

subsection \<open>The page allocator\<close>

text \<open>
  C28. Over any run of allocations and drops that starts from a well-formed allocator, the pages
  handed out are all different, none of them is free at the same time, and together with the
  free pages they are exactly the pages the run started with: no page is given twice, none is
  lost.
\<close>

theorem allocator_single_owner:
  assumes "alloc_inv a0" "pool_run a0 a H"
  shows "alloc_inv a \<and> distinct H \<and> set H \<inter> free_pages a = {} \<and> set H \<union> free_pages a = free_pages a0"
  using pool_run_inv [OF assms(2,1)] pool.free_held [of a] by blast

theorem allocator_single_owner_witness:
  "let a0 = \<lparr>next_unused_ppn = PPN 5, max_ppn = PPN 9, recycled_ppn = []\<rparr>;
       p = \<lparr>page_ppn = PPN 5\<rparr>
   in pool_run a0 (PageAllocator_dealloc (a0\<lparr>next_unused_ppn := PPN 6\<rparr>) p) [] \<and>
      free_pages (PageAllocator_dealloc (a0\<lparr>next_unused_ppn := PPN 6\<rparr>) p) = free_pages a0"
proof -
  let ?a0 = "\<lparr>next_unused_ppn = PPN 5, max_ppn = PPN 9, recycled_ppn = []\<rparr>" and ?p = "\<lparr>page_ppn = PPN 5\<rparr>"
  have "PageAllocator_alloc ?a0 = (Some ?p, ?a0\<lparr>next_unused_ppn := PPN 6\<rparr>)"
    by (simp add: PageAllocator_alloc_def vec_pop_def page_order)
  from run_drop [OF run_alloc [OF run_start this], of ?p]
  have run: "pool_run ?a0 (PageAllocator_dealloc (?a0\<lparr>next_unused_ppn := PPN 6\<rparr>) ?p) []" by simp
  have "alloc_inv ?a0" by (simp add: alloc_inv_def page_order)
  from allocator_single_owner [OF this run] run show ?thesis by (simp add: Let_def)
qed

text \<open>
  C29. The allocator set up at boot is well-formed and can only hand out pages of RAM that lie
  wholly behind the kernel image and inside the memory the machine has.
\<close>

theorem init_PAGE_ALLOCATOR_safe:
  assumes "get_pa_from_va (kernel_end k) = Some e" "unat e \<le> 0x87fff000"
  shows "\<exists>a. init_PAGE_ALLOCATOR k = Some a \<and> alloc_inv a \<and>
    (\<forall>p \<in> free_pages a. unat e \<le> unat (get_raw p) * 4096 \<and>
      (unat (get_raw p) + 1) * 4096 \<le> unat (MEM_START_PA + MEM_SIZE_BYTES))"
proof -
  have "unat e < 2 ^ 40" using assms(2) by simp
  then obtain q where q: "compute_first_unused_ppn k = Some q" "unat e \<le> unat (get_raw q) * 4096"
    "unat (get_raw q) * 4096 < unat e + 4096"
    using compute_first_unused_ppn_spec [OF assms(1)] by blast
  then have "unat (get_raw q) \<le> 0x88000" using assms(2) by simp
  then have qm: "q \<le> PPN 0x88000" by (simp add: page_order word_le_nat_alt)
  let ?a = "\<lparr>next_unused_ppn = q, max_ppn = PPN 0x88000, recycled_ppn = []\<rparr>"
  have "init_PAGE_ALLOCATOR k = Some ?a" using q(1) by (simp add: init_PAGE_ALLOCATOR_def compute_max_ppn_val)
  moreover have "alloc_inv ?a" using qm by (simp add: alloc_inv_def)
  moreover have "unat e \<le> unat (get_raw p) * 4096 \<and>
      (unat (get_raw p) + 1) * 4096 \<le> unat (MEM_START_PA + MEM_SIZE_BYTES)" if "p \<in> free_pages ?a" for p
  proof -
    have "unat (get_raw q) \<le> unat (get_raw p)" "unat (get_raw p) < 0x88000"
      using that by (simp_all add: free_pages_def page_order word_le_nat_alt word_less_nat_alt)
    then show ?thesis using q(2) by (simp add: kconst)
  qed
  ultimately show ?thesis by blast
qed

theorem init_PAGE_ALLOCATOR_safe_witness:
  "\<exists>k a. kernel_end k = 0xffffffc080412345 \<and> init_PAGE_ALLOCATOR k = Some a \<and> alloc_inv a"
proof -
  let ?k = "\<lparr>kernel_start = 0, text_start = 0, text_end = 0, boot_pgt = 0, kernel_stack_start = 0,
    kernel_stack_end = 0, rodata_start = 0, rodata_end = 0, data_start = 0, data_end = 0, bss_start = 0,
    bss_end = 0, kernel_end = 0xffffffc080412345\<rparr>"
  have "get_pa_from_va (kernel_end ?k) = Some 0x80412345"
    by (simp add: get_pa_from_va_def checked_sub_def kconst)
  from init_PAGE_ALLOCATOR_safe [OF this] obtain a where
    "init_PAGE_ALLOCATOR ?k = Some a" "alloc_inv a" by auto
  then show ?thesis by (intro exI [of _ ?k] exI [of _ a]) simp
qed

text \<open>
  \<open>alloc_zeroed_page\<close> fails exactly when no page is free, and then changes nothing; when it
  succeeds it hands out a page that was free and is now held, every byte of which is zero, and
  it writes no other byte of memory.
\<close>

lemma alloc_zeroed_page_correct:
  assumes "mm_inv s"
  shows "\<exists>r s'. alloc_zeroed_page s = Some (r, s') \<and> mm_inv s' \<and>
    (case r of
       None \<Rightarrow> mfree s = {} \<and> s' = s
     | Some p \<Rightarrow> get_ppn p \<in> mfree s \<and> mfree s' = mfree s - {get_ppn p} \<and>
         mheld s' = insert (get_ppn p) (mheld s) \<and>
         (\<forall>x. phys s' x = (if drop_bit 12 x = get_raw (get_ppn p) then 0 else phys s x)))"
  by (rule alloc_zeroed_page_cases [OF assms]) (use assms in auto)

lemma alloc_zeroed_page_correct_example:
  "mm_inv sample_state \<and> (\<exists>r s'. alloc_zeroed_page sample_state = Some (r, s') \<and> mm_inv s')"
  using alloc_zeroed_page_correct [of sample_state] pgt_okD(1) [OF sample_pgt_ok [OF sample_roots_in(1)]]
  by blast

subsection \<open>Addresses\<close>

text \<open>
  C32. \<open>check_u_va_range\<close>, with the wrap-around of its \<open>end - 1\<close>, accepts a non-empty range
  exactly when it lies wholly below \<open>USER_SPACE_END\<close> without overflowing; an empty range is
  accepted when its start is a user address other than 0.
\<close>

theorem check_u_va_range_exact:
  "check_u_va_range start len \<longleftrightarrow> unat start < unat USER_SPACE_END \<and>
    (if len = 0 then start \<noteq> 0 else unat start + unat len \<le> unat USER_SPACE_END)"
  by (rule check_u_va_range_iff)

text \<open>
  The kernel's linear map: a physical address has a kernel virtual address exactly when it
  lies below \<open>2^38\<close>, that address maps back to it, and it is a valid Sv39 address.
\<close>

lemma linear_map_correct:
  "(\<exists>va. get_va_from_pa pa = Some va) = (unat pa < 2 ^ 38) \<and>
   (\<forall>va. get_va_from_pa pa = Some va \<longrightarrow> get_pa_from_va va = Some pa \<and> is_valid_va va)"
proof -
  have "is_valid_va va" if "get_va_from_pa pa = Some va" for va
  proof -
    have "unat pa < 2 ^ 38" "va = pa + KERNEL_VA_OFFSET" using that by (simp_all add: get_va_from_pa_Some)
    then have "unat va = unat pa + (2 ^ 64 - 2 ^ 38)"
      by (simp add: kconst unat_plus_no_overflow)
    then show ?thesis by (simp add: is_valid_va_iff)
  qed
  then show ?thesis using linear_map_inverse by (auto simp: get_va_from_pa_Some)
qed

lemma linear_map_correct_example:
  "get_va_from_pa 0x80000000 = Some 0xffffffc080000000 \<and> get_pa_from_va 0xffffffc080000000 = Some 0x80000000"
proof -
  have "get_va_from_pa 0x80000000 = Some 0xffffffc080000000"
    by (simp add: get_va_from_pa_def checked_add_def kconst)
  then show ?thesis using linear_map_correct [of "0x80000000"] by blast
qed

text \<open>
  Splitting a user page number into its three table indices loses nothing: the indices are
  below 512, the top one lies in the user half, and they reassemble to the page number.
\<close>

lemma parse_vpn_roundtrip:
  assumes "user_vpn vpn"
  shows "parse_vpn vpn ! 0 < 512 \<and> parse_vpn vpn ! 1 < 512 \<and> parse_vpn vpn ! 2 < 256 \<and>
    push_bit 18 (parse_vpn vpn ! 2) + push_bit 9 (parse_vpn vpn ! 1) + parse_vpn vpn ! 0 = vpn_raw vpn"
proof -
  have b: "parse_vpn vpn ! 0 < 512" "parse_vpn vpn ! 1 < 512" "parse_vpn vpn ! 2 < 512"
    by (rule parse_vpn_bound; simp)+
  have "unat (push_bit 18 (parse_vpn vpn ! 2) + push_bit 9 (parse_vpn vpn ! 1) + parse_vpn vpn ! 0) =
      unat (vpn_raw vpn)"
    using unat_vpn_of [OF b(3,2,1)] user_vpn_pos [OF assms] by simp
  then show ?thesis using b user_vpn_index [OF assms] by (simp add: word_unat_eq_iff)
qed

end
