(* ===== verification/Task_State.thy ===== *)
theory Task_State
  imports VM
begin

text \<open>
  The control block of a task, \<open>os/src/task/state.rs\<close>.  The functions that read the clock take
  the value \<open>read_time\<close> returned as an argument; differences and sums of times wrap, as they do
  in the release build.
\<close>

definition MAX_SYSCALLS_TRACKED :: nat where "MAX_SYSCALLS_TRACKED = 6"

datatype TaskState = Ready | Running | Killed | Exited

record TaskContext =
  ctx_s :: "usize list"
  ctx_ra :: usize
  ctx_sp :: usize
  ctx_tp :: usize
  ctx_satp :: usize

definition TaskContext_new_initial :: "usize \<Rightarrow> usize \<Rightarrow> usize \<Rightarrow> usize \<Rightarrow> TaskContext" where
  "TaskContext_new_initial ra sp tp satp =
     \<lparr>ctx_s = replicate 12 0, ctx_ra = ra, ctx_sp = sp, ctx_tp = tp, ctx_satp = satp\<rparr>"

record TaskStatistics =
  mtime_first_run_start :: usize
  mtime_last_run_start :: usize
  mtime_last_run_end :: usize
  mtime_total_executed :: usize
  mtime_total_waiting :: usize
  switch_count :: usize
  syscall_counts :: "(usize \<times> usize) list"

definition TaskStatistics_new_zeros :: TaskStatistics where
  "TaskStatistics_new_zeros =
     \<lparr>mtime_first_run_start = 0, mtime_last_run_start = 0, mtime_last_run_end = 0,
      mtime_total_executed = 0, mtime_total_waiting = 0, switch_count = 0,
      syscall_counts = replicate MAX_SYSCALLS_TRACKED (0, 0)\<rparr>"

definition increase_total_executed_mtime :: "usize \<Rightarrow> TaskStatistics \<Rightarrow> TaskStatistics" where
  "increase_total_executed_mtime v st = st\<lparr>mtime_total_executed := mtime_total_executed st + v\<rparr>"

definition increase_total_waiting_mtime :: "usize \<Rightarrow> TaskStatistics \<Rightarrow> TaskStatistics" where
  "increase_total_waiting_mtime v st = st\<lparr>mtime_total_waiting := mtime_total_waiting st + v\<rparr>"

definition increase_switch_count :: "TaskStatistics \<Rightarrow> TaskStatistics" where
  "increase_switch_count st = st\<lparr>switch_count := switch_count st + 1\<rparr>"

text \<open>The first slot that has the id or is free takes the call; id 0 marks a free slot.\<close>

definition increase_syscall_count :: "usize \<Rightarrow> TaskStatistics \<Rightarrow> bool \<times> TaskStatistics" where
  "increase_syscall_count syscall_id st =
     (case iter_position (\<lambda>(id, n). id = syscall_id \<or> id = 0)
        (take MAX_SYSCALLS_TRACKED (syscall_counts st)) of
        Some i \<Rightarrow>
          (True, st\<lparr>syscall_counts :=
             (syscall_counts st)[i := (syscall_id, snd (syscall_counts st ! i) + 1)]\<rparr>)
      | None \<Rightarrow> (False, st))"

record TaskControlBlock =
  task_id :: usize
  vm_space :: VMSpace
  tstate :: TaskState
  tcontext :: TaskContext
  statistics :: TaskStatistics

text \<open>\<open>new_ready\<close> takes its id from the counter, which wraps.\<close>

definition new_ready ::
  "VMSpace \<Rightarrow> usize \<Rightarrow> usize \<Rightarrow> usize \<Rightarrow> usize \<Rightarrow> usize \<Rightarrow> TaskControlBlock \<times> usize" where
  "new_ready v ra kernel_sp tp satp next_id =
     (\<lparr>task_id = next_id, vm_space = v, tstate = Ready,
       tcontext = TaskContext_new_initial ra kernel_sp tp satp,
       statistics = TaskStatistics_new_zeros\<rparr>, next_id + 1)"

definition set_state :: "TaskState \<Rightarrow> TaskControlBlock \<Rightarrow> TaskControlBlock" where
  "set_state st tcb = tcb\<lparr>tstate := st\<rparr>"

definition record_run_start :: "usize \<Rightarrow> TaskControlBlock \<Rightarrow> TaskControlBlock" where
  "record_run_start time tcb =
     (let st = statistics tcb;
          st = (if mtime_first_run_start st = 0 then st\<lparr>mtime_first_run_start := time\<rparr>
                else increase_total_waiting_mtime (time - mtime_last_run_end st) st)
      in tcb\<lparr>statistics := st\<lparr>mtime_last_run_start := time\<rparr>\<rparr>)"

definition record_run_end :: "usize \<Rightarrow> TaskControlBlock \<Rightarrow> TaskControlBlock" where
  "record_run_end time tcb =
     (let st = (statistics tcb)\<lparr>mtime_last_run_end := time\<rparr>;
          st = increase_total_executed_mtime (time - mtime_last_run_start st) st
      in tcb\<lparr>statistics := increase_switch_count st\<rparr>)"

definition record_syscall :: "usize \<Rightarrow> TaskControlBlock \<Rightarrow> bool \<times> TaskControlBlock" where
  "record_syscall syscall_id tcb =
     (let (r, st) = increase_syscall_count syscall_id (statistics tcb) in (r, tcb\<lparr>statistics := st\<rparr>))"

lemma tcb_frame [simp]:
  "task_id (set_state x t) = task_id t" "vm_space (set_state x t) = vm_space t"
  "tcontext (set_state x t) = tcontext t" "tstate (set_state x t) = x"
  "task_id (record_run_start n t) = task_id t" "vm_space (record_run_start n t) = vm_space t"
  "tcontext (record_run_start n t) = tcontext t" "tstate (record_run_start n t) = tstate t"
  "task_id (record_run_end n t) = task_id t" "vm_space (record_run_end n t) = vm_space t"
  "tcontext (record_run_end n t) = tcontext t" "tstate (record_run_end n t) = tstate t"
  by (simp_all add: set_state_def record_run_start_def record_run_end_def Let_def)

subsection \<open>Counting system calls\<close>

text \<open>The ids of a sequence of calls in the order of their first occurrence.\<close>

definition firsts :: "usize list \<Rightarrow> usize list" where
  "firsts ids = foldl (\<lambda>acc x. if x \<in> set acc then acc else acc @ [x]) [] ids"

definition count_calls :: "usize list \<Rightarrow> TaskStatistics \<Rightarrow> TaskStatistics" where
  "count_calls ids st = foldl (\<lambda>st id. snd (increase_syscall_count id st)) st ids"

lemma firsts_snoc: "firsts (ids @ [x]) = (if x \<in> set (firsts ids) then firsts ids else firsts ids @ [x])"
  by (simp add: firsts_def)

lemma set_firsts [simp]: "set (firsts ids) = set ids"
  by (induction ids rule: rev_induct) (auto simp: firsts_snoc, simp add: firsts_def)

lemma distinct_firsts [simp]: "distinct (firsts ids)"
  by (induction ids rule: rev_induct) (auto simp: firsts_snoc, simp add: firsts_def)

text \<open>The table after counting: one slot per tracked id, the rest free.\<close>

definition count_table :: "usize list \<Rightarrow> (usize \<times> usize) list" where
  "count_table ids =
     (let F = take 6 (firsts ids)
      in map (\<lambda>y. (y, of_nat (count_list ids y))) F @ replicate (6 - length F) (0, 0))"

lemma length_count_table: "length (count_table ids) = 6"
  by (simp add: count_table_def Let_def)

lemma iter_position_append:
  "iter_position P (xs @ ys) =
     (case iter_position P xs of Some i \<Rightarrow> Some i | None \<Rightarrow> map_option (\<lambda>k. length xs + k) (iter_position P ys))"
proof (induction xs)
  case Nil
  show ?case by (cases "iter_position P ys") simp_all
next
  case (Cons x xs)
  then show ?case by (cases "iter_position P ys"; cases "iter_position P xs") simp_all
qed

lemma iter_position_unique:
  assumes "distinct xs" "i < length xs"
  shows "iter_position (\<lambda>y. y = xs ! i) xs = Some i"
proof (cases "iter_position (\<lambda>y. y = xs ! i) xs")
  case None
  then have "xs ! i \<notin> set xs" by (auto simp: iter_position_None)
  with assms(2) show ?thesis by simp
next
  case (Some j)
  from iter_position_Some [OF this] assms show ?thesis by (auto simp: Some nth_eq_iff_index_eq)
qed

lemma iter_position_cong:
  "(\<And>x. x \<in> set xs \<Longrightarrow> P x = Q x) \<Longrightarrow> iter_position P xs = iter_position Q xs"
  by (induction xs) auto

lemma iter_position_map: "iter_position P (map f xs) = iter_position (\<lambda>x. P (f x)) xs"
  by (induction xs) auto

lemma count_table_snoc:
  assumes ids: "0 \<notin> set ids" and x: "x \<noteq> 0"
  shows "increase_syscall_count x (st\<lparr>syscall_counts := count_table ids\<rparr>) =
    (x \<in> set (take 6 (firsts (ids @ [x]))), st\<lparr>syscall_counts := count_table (ids @ [x])\<rparr>)"
proof -
  let ?F = "take 6 (firsts ids)" and ?P = "\<lambda>(id, n :: usize). id = x \<or> id = (0 :: usize)"
  let ?L = "map (\<lambda>y. (y, of_nat (count_list ids y) :: usize)) ?F"
  have dF: "distinct ?F" "set ?F \<subseteq> set ids" by (auto dest: in_set_takeD)
  have inL: "iter_position ?P ?L = iter_position (\<lambda>y. y = x) ?F"
  proof -
    have "iter_position ?P ?L = iter_position (\<lambda>y. y = x \<or> y = 0) ?F" by (simp add: iter_position_map)
    also have "\<dots> = iter_position (\<lambda>y. y = x) ?F"
      using dF(2) ids by (intro iter_position_cong) auto
    finally show ?thesis .
  qed
  have tk: "take MAX_SYSCALLS_TRACKED (count_table ids) = count_table ids"
    by (simp add: MAX_SYSCALLS_TRACKED_def length_count_table)
  show ?thesis
  proof (cases "x \<in> set ?F")
    case True
    then obtain i where i: "i < length ?F" "?F ! i = x" by (metis in_set_conv_nth)
    have "x \<in> set ids" using True dF(2) by blast
    then have fs: "firsts (ids @ [x]) = firsts ids" by (simp add: firsts_snoc)
    have "iter_position ?P (count_table ids) = Some i"
      using iter_position_unique [OF dF(1) i(1)] i(2)
      by (simp add: count_table_def Let_def iter_position_append inL)
    moreover have "(count_table ids)[i := (x, snd (count_table ids ! i) + 1)] = count_table (ids @ [x])"
    proof (rule nth_equalityI)
      fix j assume "j < length ((count_table ids)[i := (x, snd (count_table ids ! i) + 1)])"
      moreover have "?F ! j = x \<longleftrightarrow> j = i" if "j < length ?F"
        using nth_eq_iff_index_eq [OF dF(1) that i(1)] i(2) by simp
      ultimately show "(count_table ids)[i := (x, snd (count_table ids ! i) + 1)] ! j =
          count_table (ids @ [x]) ! j"
        using i by (cases "j < length ?F")
          (auto simp: count_table_def Let_def fs nth_append nth_list_update)
    qed (simp add: length_count_table)
    ultimately show ?thesis using True by (simp add: increase_syscall_count_def tk fs)
  next
    case False
    then have none: "iter_position ?P ?L = None" by (auto simp: inL iter_position_None)
    show ?thesis
    proof (cases "length ?F < 6")
      case True
      then have F: "?F = firsts ids" by simp
      with False have x': "x \<notin> set ids" by simp
      then have fs: "firsts (ids @ [x]) = firsts ids @ [x]" by (simp add: firsts_snoc)
      have F': "take 6 (firsts (ids @ [x])) = firsts ids @ [x]" using True by (simp add: fs)
      have "iter_position ?P (replicate (6 - length ?F) (0, 0)) = Some 0"
        using True by (cases "6 - length ?F") auto
      then have "iter_position ?P (count_table ids) = Some (length (firsts ids))"
        using none F by (simp add: count_table_def Let_def iter_position_append)
      moreover have "(count_table ids)[length (firsts ids) := (x, snd (count_table ids ! length (firsts ids)) + 1)]
          = count_table (ids @ [x])"
      proof -
        let ?M = "map (\<lambda>y. (y, of_nat (count_list ids y) :: usize)) (firsts ids)"
        let ?R = "replicate (6 - length (firsts (ids @ [x]))) (0, 0 :: usize)"
        have "6 - length (firsts ids) = Suc (6 - length (firsts (ids @ [x])))" using True F by (simp add: fs)
        then have "count_table ids = ?M @ (0, 0) # ?R"
          unfolding count_table_def Let_def F by simp
        moreover have "map (\<lambda>y. (y, of_nat (count_list (ids @ [x]) y) :: usize)) (firsts ids @ [x]) = ?M @ [(x, 1)]"
          using x' by (auto simp: count_list_0_iff)
        then have "count_table (ids @ [x]) = ?M @ (x, 1) # ?R"
          by (simp only: count_table_def Let_def F') (simp add: fs)
        ultimately show ?thesis by (simp add: nth_append list_update_append)
      qed
      ultimately show ?thesis by (simp add: increase_syscall_count_def tk F')
    next
      case full: False
      then have len: "length ?F = 6" by simp
      then have F': "take 6 (firsts (ids @ [x])) = ?F" by (auto simp: firsts_snoc)
      have "iter_position ?P (count_table ids) = None"
        using none len by (simp add: count_table_def Let_def iter_position_append)
      moreover have "count_table (ids @ [x]) = count_table ids"
        using False by (auto simp: count_table_def Let_def F')
      ultimately show ?thesis using False by (simp add: increase_syscall_count_def tk F')
    qed
  qed
qed

end
