(* ===== verification/Task.thy ===== *)
theory Task
  imports Task_State
begin

text \<open>
  The scheduler \<open>os/src/task.rs\<close>, with the clock of \<open>os/src/timer.rs\<close> and the context switch of
  \<open>os/src/task/switch.S\<close>.  The kernel state is a record: the memory state, the task list behind
  the \<open>ALL_TASKS\<close> lock, the id counter, the \<open>tp\<close> register and the CSRs of the hart, the
  hart's clock, the \<open>n\<close>-th reading of which is \<open>clock n\<close>, and the characters written to the console
  on behalf of tasks.  The kernel runs on one hart with interrupts off, so each function that
  takes the lock runs to its release.
\<close>

record kernel =
  mm :: mm_state
  ALL_TASKS :: "TaskControlBlock list"
  NEXT_TASK_ID :: usize
  tp :: usize
  csrs :: csr_file
  clock :: "nat \<Rightarrow> usize"
  ticks :: nat
  mtimecmp :: usize
  console :: "usize list"

subsection \<open>The timer\<close>

definition TIMEBASE_FREQUENCY :: usize where "TIMEBASE_FREQUENCY = 10000000"

definition read_time :: "kernel \<Rightarrow> usize \<times> kernel" where
  "read_time k = (clock k (ticks k), k\<lparr>ticks := Suc (ticks k)\<rparr>)"

definition read_time_ms :: "kernel \<Rightarrow> usize \<times> kernel" where
  "read_time_ms k = (let (t, k) = read_time k in (t div (TIMEBASE_FREQUENCY div 1000), k))"

definition set_next_timer_interrupt :: "kernel \<Rightarrow> kernel" where
  "set_next_timer_interrupt k =
     (let (t, k) = read_time k in k\<lparr>mtimecmp := TIMEBASE_FREQUENCY div 100 + t\<rparr>)"

subsection \<open>Trap contexts in memory\<close>

record TrapContext =
  xs :: "usize list"
  sstatus :: usize
  sepc :: usize
  ctx_task_id :: usize

definition TRAP_CONTEXT_SIZE :: usize where "TRAP_CONTEXT_SIZE = 280"

text \<open>\<open>TrapContext\<close> is \<open>repr(C)\<close>: 32 registers, \<open>sstatus\<close>, \<open>sepc\<close> and the task id, 8 bytes each.\<close>

definition write_trap_context :: "usize \<Rightarrow> TrapContext \<Rightarrow> phys_mem \<Rightarrow> phys_mem" where
  "write_trap_context ptr c m =
     foldl (\<lambda>m (i, w). store_u64 m (kptr_pa (ptr + 8 * of_nat i)) w) m
       (enumerate 0 (xs c @ [sstatus c, sepc c, ctx_task_id c]))"

definition get_task_id_from_ptr :: "usize \<Rightarrow> phys_mem \<Rightarrow> usize" where
  "get_task_id_from_ptr ptr m = load_u64 m (kptr_pa (ptr + 8 * 34))"

definition TrapContext_new_initial :: "usize \<Rightarrow> usize \<Rightarrow> usize \<Rightarrow> csr_file \<Rightarrow> TrapContext \<times> csr_file" where
  "TrapContext_new_initial entry user_sp tid c =
     (let (st, c) = set_spp_user c
      in (\<lparr>xs = (replicate 32 0)[2 := user_sp], sstatus = st, sepc = entry, ctx_task_id = tid\<rparr>, c))"

subsection \<open>The current task\<close>

definition try_get_current_task_id :: "kernel \<Rightarrow> usize option" where
  "try_get_current_task_id k =
     (if tp k = 0 then None else Some (get_task_id_from_ptr (tp k) (phys (mm k))))"

text \<open>\<open>get_current_task_id\<close> panics where this is \<open>None\<close>.\<close>

definition get_current_task_id :: "kernel \<Rightarrow> usize option" where
  "get_current_task_id k = try_get_current_task_id k"

subsection \<open>The task list\<close>

definition position_of :: "usize \<Rightarrow> TaskControlBlock list \<Rightarrow> nat option" where
  "position_of tid ts = iter_position (\<lambda>tcb. task_id tcb = tid) ts"

text \<open>
  \<open>take_task_tcb\<close> swaps the block to an index taken from the clock and removes it there.  The
  outer option is the panic of an index out of range.
\<close>

definition take_task_tcb :: "usize \<Rightarrow> kernel \<Rightarrow> (TaskControlBlock option \<times> kernel) option" where
  "take_task_tcb tid k =
     (case position_of tid (ALL_TASKS k) of
        None \<Rightarrow> Some (None, k)
      | Some index \<Rightarrow> do {
          let (t, k) = read_time k;
          let rand_index = unat t mod length (ALL_TASKS k);
          tasks \<leftarrow> vec_swap index rand_index (ALL_TASKS k);
          (tcb, tasks) \<leftarrow> vec_swap_remove rand_index tasks;
          Some (Some tcb, k\<lparr>ALL_TASKS := tasks\<rparr>)
        })"

definition get_next_task_id :: "TaskControlBlock list \<Rightarrow> usize option" where
  "get_next_task_id tasks =
     map_option (\<lambda>i. task_id (tasks ! i)) (iter_position (\<lambda>tcb. tstate tcb = Ready) tasks)"

text \<open>\<open>update_tcb\<close>: the function may use and change the rest of the kernel state.\<close>

definition update_tcb ::
  "usize \<Rightarrow> (TaskControlBlock \<Rightarrow> kernel \<Rightarrow> ('a \<times> TaskControlBlock \<times> kernel) option) \<Rightarrow> kernel
    \<Rightarrow> ('a \<times> kernel) option" where
  "update_tcb tid f k = do {
     i \<leftarrow> position_of tid (ALL_TASKS k);
     (r, tcb, k) \<leftarrow> f (ALL_TASKS k ! i) k;
     Some (r, k\<lparr>ALL_TASKS := (ALL_TASKS k)[i := tcb]\<rparr>)
   }"

definition exchange_current_task_state ::
  "TaskState \<Rightarrow> TaskState \<Rightarrow> kernel \<Rightarrow> ((TaskState + TaskState) \<times> kernel) option" where
  "exchange_current_task_state expected new k = do {
     tid \<leftarrow> get_current_task_id k;
     i \<leftarrow> position_of tid (ALL_TASKS k);
     let tcb = ALL_TASKS k ! i;
     if tstate tcb = expected
     then Some (Inr expected, k\<lparr>ALL_TASKS := (ALL_TASKS k)[i := set_state new tcb]\<rparr>)
     else Some (Inl (tstate tcb), k)
   }"

definition record_current_run_end :: "kernel \<Rightarrow> kernel option" where
  "record_current_run_end k = do {
     tid \<leftarrow> get_current_task_id k;
     i \<leftarrow> position_of tid (ALL_TASKS k);
     let (t, k) = read_time k;
     Some (k\<lparr>ALL_TASKS := (ALL_TASKS k)[i := record_run_end t (ALL_TASKS k ! i)]\<rparr>)
   }"

definition record_current_syscall :: "usize \<Rightarrow> kernel \<Rightarrow> (bool \<times> kernel) option" where
  "record_current_syscall syscall_id k = do {
     tid \<leftarrow> get_current_task_id k;
     i \<leftarrow> position_of tid (ALL_TASKS k);
     let (r, tcb) = record_syscall syscall_id (ALL_TASKS k ! i);
     Some (r, k\<lparr>ALL_TASKS := (ALL_TASKS k)[i := tcb]\<rparr>)
   }"

record TaskInfo =
  info_task_id :: usize
  info_state :: TaskState
  info_statistics :: TaskStatistics

definition get_task_info :: "usize \<Rightarrow> kernel \<Rightarrow> TaskInfo option" where
  "get_task_info tid k =
     map_option (\<lambda>i. let tcb = ALL_TASKS k ! i
        in \<lparr>info_task_id = tid, info_state = tstate tcb, info_statistics = statistics tcb\<rparr>)
       (position_of tid (ALL_TASKS k))"

subsection \<open>Switching\<close>

text \<open>
  What a call to \<open>run_next_task\<close> ends in: control continues in a task's context, or the machine
  is shut down.  The registers \<open>__switch\<close> saves go to the block the caller has already moved
  out of or dropped, so no context in the task list changes and the call does not come back.
\<close>

datatype outcome = Switched TaskContext | Shutdown

definition switch_to :: "TaskContext \<Rightarrow> kernel \<Rightarrow> kernel" where
  "switch_to c k = k\<lparr>csrs := csrw SATP_CSR_NO (ctx_satp c) (csrs k), tp := ctx_tp c\<rparr>"

text \<open>A block that goes out of scope drops its address space.\<close>

definition drop_tcb :: "TaskControlBlock \<Rightarrow> kernel \<Rightarrow> kernel" where
  "drop_tcb tcb k = k\<lparr>mm := drop_VMSpace (vm_space tcb) (mm k)\<rparr>"

text \<open>The first half of \<open>run_next_task\<close>: the current task goes back to the list or is dropped.\<close>

definition retire_current :: "kernel \<Rightarrow> kernel option" where
  "retire_current k =
     (case try_get_current_task_id k of
        None \<Rightarrow> Some k
      | Some tid \<Rightarrow> do {
          (r, k) \<leftarrow> take_task_tcb tid k;
          case r of
            None \<Rightarrow> Some k
          | Some tcb \<Rightarrow>
              if tstate tcb = Ready then Some (k\<lparr>ALL_TASKS := vec_push (ALL_TASKS k) tcb\<rparr>)
              else if tstate tcb = Running then None
              else Some (drop_tcb tcb k)
        })"

definition run_next_task :: "kernel \<Rightarrow> (outcome \<times> kernel) option" where
  "run_next_task k = do {
     k \<leftarrow> retire_current k;
     case get_next_task_id (ALL_TASKS k) of
       None \<Rightarrow> Some (Shutdown, k)
     | Some tid \<Rightarrow> do {
         (r, k) \<leftarrow> take_task_tcb tid k;
         tcb \<leftarrow> r;
         let next_context = tcontext tcb;
         let (ms, k) = read_time_ms k;
         let tcb = set_state Running tcb;
         let (t, k) = read_time k;
         let tcb = record_run_start t tcb;
         let k = set_next_timer_interrupt (k\<lparr>ALL_TASKS := vec_push (ALL_TASKS k) tcb\<rparr>);
         Some (Switched next_context, switch_to next_context k)
       }
   }"

subsection \<open>Adding tasks\<close>

text \<open>\<open>restore_u_ctx\<close> is the address of \<open>__restore_u_ctx\<close>; a space that cannot be built panics.\<close>

definition add_task ::
  "(u8 list \<Rightarrow> string + ElfFile) \<Rightarrow> usize \<Rightarrow> u8 list \<Rightarrow> kernel \<Rightarrow> kernel option" where
  "add_task ElfFile_new restore_u_ctx elf_bytes k = do {
     (r, s) \<leftarrow> new_user ElfFile_new elf_bytes (mm k);
     case r of
       Inl err \<Rightarrow> None
     | Inr v \<Rightarrow> do {
         let kernel_sp = k_stack_end v - TRAP_CONTEXT_SIZE;
         let (tcb, next_id) = new_ready v restore_u_ctx kernel_sp kernel_sp (VMSpace_get_satp v) (NEXT_TASK_ID k);
         let (tc, c) = TrapContext_new_initial (entry_addr v) (u_stack_end v) (task_id tcb) (csrs k);
         let s = s\<lparr>phys := write_trap_context kernel_sp tc (phys s)\<rparr>;
         Some (k\<lparr>mm := s, NEXT_TASK_ID := next_id, csrs := c, ALL_TASKS := vec_push (ALL_TASKS k) tcb\<rparr>)
       }
   }"

fun add_tasks ::
  "(u8 list \<Rightarrow> string + ElfFile) \<Rightarrow> usize \<Rightarrow> u8 list list \<Rightarrow> kernel \<Rightarrow> kernel option" where
  "add_tasks ElfFile_new restore_u_ctx [] k = Some k"
| "add_tasks ElfFile_new restore_u_ctx (e # es) k = do {
     k \<leftarrow> add_task ElfFile_new restore_u_ctx e k;
     add_tasks ElfFile_new restore_u_ctx es k
   }"

end
