(* ===== verification/Task_Sched.thy ===== *)
theory Task_Sched
  imports Task
begin

text \<open>
  What the scheduler does to the task list, whatever the clock says: it is a permutation of the
  list up to the blocks it retires and the one it starts.
\<close>

subsection \<open>Taking a block out of the list\<close>

lemma position_of_Some:
  "position_of tid ts = Some i \<Longrightarrow> i < length ts \<and> task_id (ts ! i) = tid"
  by (auto simp: position_of_def dest: iter_position_Some)

lemma position_of_None: "position_of tid ts = None \<longleftrightarrow> tid \<notin> task_id ` set ts"
  by (auto simp: position_of_def iter_position_None)

text \<open>Everything of the kernel but the list and the clock's position stays the same.\<close>

definition same_but_tasks :: "kernel \<Rightarrow> kernel \<Rightarrow> bool" where
  "same_but_tasks k k' \<longleftrightarrow> mm k' = mm k \<and> NEXT_TASK_ID k' = NEXT_TASK_ID k \<and> tp k' = tp k
     \<and> csrs k' = csrs k \<and> clock k' = clock k"

lemma take_task_tcb_None:
  "tid \<notin> task_id ` set (ALL_TASKS k) \<Longrightarrow> take_task_tcb tid k = Some (None, k)"
  by (simp add: take_task_tcb_def position_of_None [symmetric])

lemma take_task_tcb_Some:
  assumes "tid \<in> task_id ` set (ALL_TASKS k)"
  obtains tcb k' where "take_task_tcb tid k = Some (Some tcb, k')" "task_id tcb = tid"
    "mset (ALL_TASKS k) = add_mset tcb (mset (ALL_TASKS k'))" "same_but_tasks k k'"
proof -
  let ?ts = "ALL_TASKS k"
  obtain i where i: "position_of tid ?ts = Some i" using assms position_of_None by fastforce
  note p = position_of_Some [OF i]
  let ?r = "unat (clock k (ticks k)) mod length ?ts"
  have "length ?ts > 0" using p by auto
  then have r: "?r < length ?ts" by simp
  obtain ts where ts: "vec_swap i ?r ?ts = Some ts" using p r by (simp add: vec_swap_def)
  then have len: "length ts = length ?ts" by (rule vec_swap_length)
  obtain us where us: "vec_swap_remove ?r ts = Some (ts ! ?r, us)" using r len by (simp add: vec_swap_remove_def)
  show ?thesis
  proof (rule that)
    show "take_task_tcb tid k = Some (Some (ts ! ?r), k\<lparr>ticks := Suc (ticks k), ALL_TASKS := us\<rparr>)"
      using i ts us by (simp add: take_task_tcb_def read_time_def Let_def)
    show "task_id (ts ! ?r) = tid" using vec_swap_nth [OF ts] p by simp
    show "mset ?ts = add_mset (ts ! ?r) (mset (ALL_TASKS (k\<lparr>ticks := Suc (ticks k), ALL_TASKS := us\<rparr>)))"
      using vec_swap_remove_mset [OF us] vec_swap_mset [OF ts] by simp
  qed (simp add: same_but_tasks_def)
qed

text \<open>Task ids are distinct in a list: as a multiset fact, which survives permutations.\<close>

definition ids_distinct :: "TaskControlBlock multiset \<Rightarrow> bool" where
  "ids_distinct A \<longleftrightarrow> single_owner (image_mset task_id A)"

lemma ids_distinct_list: "ids_distinct (mset ts) \<longleftrightarrow> distinct (map task_id ts)"
  unfolding ids_distinct_def by (simp add: single_owner_distinct [symmetric])

lemma ids_distinct_add:
  "ids_distinct (add_mset t A) \<longleftrightarrow> task_id t \<notin> task_id ` set_mset A \<and> ids_distinct A"
  by (simp add: ids_distinct_def single_owner_add)

lemma position_of_unique:
  assumes "ids_distinct (mset ts)" "t \<in> set ts"
  obtains i where "position_of (task_id t) ts = Some i" "i < length ts" "ts ! i = t"
proof -
  obtain i where i: "position_of (task_id t) ts = Some i"
    using assms(2) position_of_None [of "task_id t" ts] by fastforce
  note p = position_of_Some [OF i]
  obtain j where j: "j < length ts" "ts ! j = t" using assms(2) by (auto simp: in_set_conv_nth)
  have "i = j"
    using assms(1) p j nth_eq_iff_index_eq [of "map task_id ts" i j] by (simp add: ids_distinct_list)
  with i p j show ?thesis by (intro that) auto
qed

subsection \<open>Retiring the current task\<close>

definition none_running :: "TaskControlBlock multiset \<Rightarrow> bool" where
  "none_running A \<longleftrightarrow> (\<forall>t \<in># A. tstate t \<noteq> Running)"

text \<open>
  The current task, if it is in the list, goes back to it when it is ready, and is dropped with
  its address space when it has exited or was killed.
\<close>

lemma retire_current_spec:
  assumes "none_running (mset (ALL_TASKS k))"
  obtains k' gone where "retire_current k = Some k'"
    "mset (ALL_TASKS k) = mset (ALL_TASKS k') + opt_mset gone"
    "gone = None \<longrightarrow> mm k' = mm k"
    "\<And>t. gone = Some t \<Longrightarrow> mm k' = drop_VMSpace (vm_space t) (mm k) \<and>
      try_get_current_task_id k = Some (task_id t) \<and> tstate t \<in> {Killed, Exited}"
    "tp k' = tp k" "csrs k' = csrs k" "clock k' = clock k"
proof (cases "try_get_current_task_id k")
  case None
  then show ?thesis by (intro that [of k None]) (simp_all add: retire_current_def)
next
  case (Some tid)
  show ?thesis
  proof (cases "tid \<in> task_id ` set (ALL_TASKS k)")
    case False
    with Some show ?thesis
      by (intro that [of k None]) (simp_all add: retire_current_def take_task_tcb_None)
  next
    case True
    obtain tcb k1 where t: "take_task_tcb tid k = Some (Some tcb, k1)" "task_id tcb = tid"
      "mset (ALL_TASKS k) = add_mset tcb (mset (ALL_TASKS k1))" "same_but_tasks k k1"
      by (rule take_task_tcb_Some [OF True])
    have nr: "tstate tcb \<noteq> Running" using assms t(3) by (simp add: none_running_def)
    show ?thesis
    proof (cases "tstate tcb = Ready")
      case True
      then show ?thesis using Some t nr
        by (intro that [of "k1\<lparr>ALL_TASKS := vec_push (ALL_TASKS k1) tcb\<rparr>" None])
          (simp_all add: retire_current_def same_but_tasks_def)
    next
      case False
      then have "tstate tcb \<in> {Killed, Exited}" using nr by (cases "tstate tcb") simp_all
      with False show ?thesis using Some t nr
        by (intro that [of "drop_tcb tcb k1" "Some tcb"])
          (simp_all add: retire_current_def same_but_tasks_def drop_tcb_def)
    qed
  qed
qed

subsection \<open>Starting the next task\<close>

lemma same_id_same_block:
  assumes "ids_distinct (mset ts)" "t \<in> set ts" "task_id u = task_id t" "mset ts = add_mset u A"
  shows "u = t"
proof (rule ccontr)
  assume "u \<noteq> t"
  moreover have "t \<in># add_mset u A" using assms(2,4) by (metis set_mset_mset)
  ultimately have "task_id t \<in> task_id ` set_mset A" by simp
  moreover have "task_id u \<notin> task_id ` set_mset A" using assms(1,4) by (simp add: ids_distinct_add)
  ultimately show False using assms(3) by simp
qed

lemma get_next_task_id_None: "get_next_task_id ts = None \<longleftrightarrow> (\<forall>t \<in> set ts. tstate t \<noteq> Ready)"
  by (simp add: get_next_task_id_def iter_position_None)

lemma get_next_task_id_Some:
  assumes "get_next_task_id ts = Some tid"
  obtains t where "t \<in> set ts" "tstate t = Ready" "task_id t = tid"
proof -
  obtain i where i: "iter_position (\<lambda>t. tstate t = Ready) ts = Some i" "task_id (ts ! i) = tid"
    using assms by (auto simp: get_next_task_id_def)
  with iter_position_Some [OF i(1)] show ?thesis by (intro that [of "ts ! i"]) auto
qed

lemma run_next_task_cases:
  assumes r: "retire_current k = Some k1" and ids1: "ids_distinct (mset (ALL_TASKS k1))"
  obtains (shutdown) "run_next_task k = Some (Shutdown, k1)" "\<forall>t \<in> set (ALL_TASKS k1). tstate t \<noteq> Ready"
  | (switched) t A time k' where "run_next_task k = Some (Switched (tcontext t), k')"
      "mset (ALL_TASKS k1) = add_mset t A" "tstate t = Ready"
      "mset (ALL_TASKS k') = add_mset (record_run_start time (set_state Running t)) A"
      "mm k' = mm k1" "tp k' = ctx_tp (tcontext t)"
      "csrs k' = csrw SATP_CSR_NO (ctx_satp (tcontext t)) (csrs k1)"
proof (cases "get_next_task_id (ALL_TASKS k1)")
  case None
  with r show ?thesis
    by (intro shutdown) (simp_all add: run_next_task_def get_next_task_id_None [symmetric])
next
  case (Some tid)
  obtain t where t: "t \<in> set (ALL_TASKS k1)" "tstate t = Ready" "task_id t = tid"
    by (rule get_next_task_id_Some [OF Some])
  then have mem: "tid \<in> task_id ` set (ALL_TASKS k1)" by auto
  obtain tcb k2 where k2: "take_task_tcb tid k1 = Some (Some tcb, k2)" "task_id tcb = tid"
    "mset (ALL_TASKS k1) = add_mset tcb (mset (ALL_TASKS k2))" "same_but_tasks k1 k2"
    by (rule take_task_tcb_Some [OF mem])
  have "tcb = t" by (rule same_id_same_block [OF ids1 t(1) _ k2(3)]) (simp add: t(3) k2(2))
  let ?time = "clock k2 (Suc (ticks k2))"
  have "\<exists>k'. run_next_task k = Some (Switched (tcontext t), k') \<and>
      ALL_TASKS k' = vec_push (ALL_TASKS k2) (record_run_start ?time (set_state Running t)) \<and>
      mm k' = mm k2 \<and> tp k' = ctx_tp (tcontext t) \<and>
      csrs k' = csrw SATP_CSR_NO (ctx_satp (tcontext t)) (csrs k2)"
    using r Some k2(1) \<open>tcb = t\<close>
    by (simp add: run_next_task_def read_time_def read_time_ms_def set_next_timer_interrupt_def
        switch_to_def Let_def)
  then obtain k' where k': "run_next_task k = Some (Switched (tcontext t), k')"
    "ALL_TASKS k' = vec_push (ALL_TASKS k2) (record_run_start ?time (set_state Running t))"
    "mm k' = mm k2" "tp k' = ctx_tp (tcontext t)"
    "csrs k' = csrw SATP_CSR_NO (ctx_satp (tcontext t)) (csrs k2)" by blast
  show ?thesis
    by (rule switched [OF k'(1) _ t(2), of "mset (ALL_TASKS k2)" ?time])
      (use k2 k' \<open>tcb = t\<close> in \<open>simp_all add: same_but_tasks_def\<close>)
qed

lemma ids_distinct_sub: "ids_distinct (A + B) \<Longrightarrow> ids_distinct A"
  unfolding ids_distinct_def by (simp add: single_owner_union(1))

subsection \<open>The whole scheduling step\<close>

text \<open>
  \<open>run_next_task\<close> when no task is marked running: at most the current task leaves the list, with
  its memory; if a ready task remains exactly one is started, else the machine shuts down.
\<close>

lemma run_next_task_spec:
  assumes ids: "ids_distinct (mset (ALL_TASKS k))" and nr: "none_running (mset (ALL_TASKS k))"
  obtains (shutdown) k' gone where "run_next_task k = Some (Shutdown, k')"
      "mset (ALL_TASKS k) = mset (ALL_TASKS k') + opt_mset gone"
      "\<forall>t \<in> set (ALL_TASKS k). tstate t \<noteq> Ready"
      "mm k' = (case gone of None \<Rightarrow> mm k | Some t \<Rightarrow> drop_VMSpace (vm_space t) (mm k))"
  | (switched) k' gone t A time where "run_next_task k = Some (Switched (tcontext t), k')"
      "mset (ALL_TASKS k) = add_mset t A + opt_mset gone" "tstate t = Ready"
      "mset (ALL_TASKS k') = add_mset (record_run_start time (set_state Running t)) A"
      "mm k' = (case gone of None \<Rightarrow> mm k | Some g \<Rightarrow> drop_VMSpace (vm_space g) (mm k))"
      "\<And>g. gone = Some g \<Longrightarrow> try_get_current_task_id k = Some (task_id g) \<and> tstate g \<in> {Killed, Exited}"
      "tp k' = ctx_tp (tcontext t)" "csrs k' SATP_CSR_NO = ctx_satp (tcontext t)"
proof -
  obtain k1 gone where k1: "retire_current k = Some k1"
    "mset (ALL_TASKS k) = mset (ALL_TASKS k1) + opt_mset gone" "gone = None \<longrightarrow> mm k1 = mm k"
    "\<And>t. gone = Some t \<Longrightarrow> mm k1 = drop_VMSpace (vm_space t) (mm k) \<and>
      try_get_current_task_id k = Some (task_id t) \<and> tstate t \<in> {Killed, Exited}"
    by (rule retire_current_spec [OF nr]) blast
  have mm1: "mm k1 = (case gone of None \<Rightarrow> mm k | Some t \<Rightarrow> drop_VMSpace (vm_space t) (mm k))"
    using k1(3,4) by (simp split: option.split)
  have ids1: "ids_distinct (mset (ALL_TASKS k1))" using ids unfolding k1(2) by (rule ids_distinct_sub)
  show ?thesis
  proof (rule run_next_task_cases [OF k1(1) ids1], goal_cases sd sw)
    case sd
    have "tstate t \<noteq> Ready" if t: "t \<in> set (ALL_TASKS k)" for t
    proof -
      have "t \<in># mset (ALL_TASKS k1) + opt_mset gone" using t k1(2) by (metis set_mset_mset)
      then show ?thesis using sd(2) k1(4) [of t] by (cases gone) auto
    qed
    with sd(1) k1(2) mm1 show ?thesis by (intro shutdown [of k1 gone]) auto
  next
    case (sw t A time k')
    show ?thesis
      by (rule switched [OF sw(1) _ sw(3,4)])
        (use sw k1(2,4) mm1 in \<open>auto simp: csrw_def\<close>)
  qed
qed

text \<open>A current task that has exited or been killed is the one that leaves.\<close>

lemma retire_current_gone:
  assumes "ids_distinct (mset (ALL_TASKS k))" "none_running (mset (ALL_TASKS k))"
    and t: "t \<in> set (ALL_TASKS k)" "try_get_current_task_id k = Some (task_id t)"
      "tstate t = Killed \<or> tstate t = Exited"
  obtains k' where "retire_current k = Some k'" "mset (ALL_TASKS k) = add_mset t (mset (ALL_TASKS k'))"
    "mm k' = drop_VMSpace (vm_space t) (mm k)"
proof -
  have "task_id t \<in> task_id ` set (ALL_TASKS k)" using t(1) by simp
  then obtain tcb k1 where k1: "take_task_tcb (task_id t) k = Some (Some tcb, k1)" "task_id tcb = task_id t"
    "mset (ALL_TASKS k) = add_mset tcb (mset (ALL_TASKS k1))" "same_but_tasks k k1"
    by (rule take_task_tcb_Some)
  have "tcb = t" using assms(1) t(1) k1(2,3) by (rule same_id_same_block)
  then show ?thesis using t(2,3) k1
    by (intro that [of "drop_tcb t k1"]) (auto simp: retire_current_def drop_tcb_def same_but_tasks_def)
qed

end
