(* ===== verification/Task_Props.thy ===== *)
theory Task_Props
  imports Task_Sched Memory_Props
begin

text \<open>
  The properties of the task layer: scheduling, taking a task from the list, the lifetime of a
  task's memory and the system call statistics.
\<close>

subsection \<open>A sample kernel\<close>

definition sample_tcb :: "usize \<Rightarrow> TaskState \<Rightarrow> PPN \<Rightarrow> TaskControlBlock" where
  "sample_tcb i st r =
     \<lparr>task_id = i, vm_space = sample_space r, tstate = st,
      tcontext = TaskContext_new_initial 0 0 (0x80000 + i) (RootPgt_get_satp (sample_pgt r)),
      statistics = TaskStatistics_new_zeros\<rparr>"

definition sample_kernel :: kernel where
  "sample_kernel =
     \<lparr>mm = sample_state, ALL_TASKS = [sample_tcb 1 Ready sample_root, sample_tcb 2 Ready sample_root2],
      NEXT_TASK_ID = 3, tp = 0, csrs = (\<lambda>_. 0), clock = (\<lambda>n. of_nat (10 * n)), ticks = 0, mtimecmp = 0,
      console = []\<rparr>"

subsection \<open>Scheduling\<close>

text \<open>
  C22. Called when no task is marked running and ids are unique, \<open>run_next_task\<close> does not panic.
  It shuts the machine down exactly when no task is ready.  Otherwise it switches to a task that
  was ready, which becomes the only running one, with the hart's \<open>tp\<close> and \<open>satp\<close> taken from that
  task's context; every other task stays in the list as it was, except that the current task
  leaves it if it had exited or been killed.
\<close>

theorem run_next_task_correct:
  assumes "distinct (map task_id (ALL_TASKS k))" "\<forall>t \<in> set (ALL_TASKS k). tstate t \<noteq> Running"
  shows "\<exists>r k'. run_next_task k = Some (r, k') \<and>
    (case r of
       Shutdown \<Rightarrow> \<forall>t \<in> set (ALL_TASKS k). tstate t \<noteq> Ready
     | Switched c \<Rightarrow> \<exists>t time A gone. t \<in> set (ALL_TASKS k) \<and> tstate t = Ready \<and> c = tcontext t \<and>
         mset (ALL_TASKS k) = add_mset t A + opt_mset gone \<and>
         mset (ALL_TASKS k') = add_mset (record_run_start time (set_state Running t)) A \<and>
         (\<forall>u \<in># A. tstate u \<noteq> Running) \<and>
         (\<forall>g. gone = Some g \<longrightarrow>
            try_get_current_task_id k = Some (task_id g) \<and> tstate g \<in> {Killed, Exited}) \<and>
         tp k' = ctx_tp c \<and> csrs k' SATP_CSR_NO = ctx_satp c)"
proof -
  have ids: "ids_distinct (mset (ALL_TASKS k))" using assms(1) by (simp add: ids_distinct_list)
  have nr: "none_running (mset (ALL_TASKS k))" using assms(2) by (simp add: none_running_def)
  show ?thesis
  proof (rule run_next_task_spec [OF ids nr], goal_cases sd sw)
    case (sd k' gone)
    then show ?thesis by (intro exI [of _ Shutdown] exI [of _ k']) simp
  next
    case (sw k' gone t A time)
    have "t \<in># mset (ALL_TASKS k)" "\<forall>u \<in># A. tstate u \<noteq> Running"
      using nr unfolding sw(2) none_running_def by simp_all
    then have m: "t \<in> set (ALL_TASKS k)" "\<forall>u \<in># A. tstate u \<noteq> Running" by simp_all
    show ?thesis
      by (rule exI [of _ "Switched (tcontext t)"], rule exI [of _ k'], rule conjI [OF sw(1)],
          unfold outcome.case, rule exI [of _ t], rule exI [of _ time], rule exI [of _ A],
          rule exI [of _ gone], intro conjI)
        (use sw m in auto)
  qed
qed

theorem run_next_task_correct_witness:
  "\<exists>r k'. run_next_task sample_kernel = Some (r, k')"
  using run_next_task_correct [of sample_kernel] by (auto simp: sample_kernel_def sample_tcb_def)

text \<open>
  \<open>take_task_tcb\<close>, which swaps the block to a clock-dependent index before removing it,
  removes exactly the block of the requested task whatever the clock says, and finds nothing
  exactly when no task has that id.
\<close>

lemma take_task_tcb_correct:
  "\<exists>r k'. take_task_tcb i k = Some (r, k') \<and>
    (case r of
       None \<Rightarrow> i \<notin> task_id ` set (ALL_TASKS k) \<and> k' = k
     | Some t \<Rightarrow> task_id t = i \<and> mset (ALL_TASKS k) = add_mset t (mset (ALL_TASKS k')) \<and>
         mm k' = mm k \<and> tp k' = tp k)"
proof (cases "i \<in> task_id ` set (ALL_TASKS k)")
  case True
  then show ?thesis by (rule take_task_tcb_Some) (auto simp: same_but_tasks_def)
next
  case False
  then show ?thesis by (simp add: take_task_tcb_None)
qed

text \<open>
  C25. When the current task has exited or been killed, \<open>run_next_task\<close> gives all the memory of
  its address space back to the allocator.
\<close>

theorem exit_frees_memory:
  assumes "distinct (map task_id (ALL_TASKS k))" "\<forall>t \<in> set (ALL_TASKS k). tstate t \<noteq> Running"
    and "t \<in> set (ALL_TASKS k)" "try_get_current_task_id k = Some (task_id t)"
      "tstate t = Killed \<or> tstate t = Exited" "space_ok (vm_space t) (mm k)"
  shows "\<exists>r k'. run_next_task k = Some (r, k') \<and> t \<notin> set (ALL_TASKS k') \<and>
    mfree (mm k') = mfree (mm k) \<union> own (vm_space t)"
proof -
  have ids: "ids_distinct (mset (ALL_TASKS k))" using assms(1) by (simp add: ids_distinct_list)
  have nr: "none_running (mset (ALL_TASKS k))" using assms(2) by (simp add: none_running_def)
  obtain k1 where k1: "retire_current k = Some k1"
    "mset (ALL_TASKS k) = add_mset t (mset (ALL_TASKS k1))" "mm k1 = drop_VMSpace (vm_space t) (mm k)"
    by (rule retire_current_gone [OF ids nr assms(3-5)])
  have "ids_distinct (add_mset t (mset (ALL_TASKS k1)))" using ids k1(2) by simp
  then have ids1: "ids_distinct (mset (ALL_TASKS k1))" "task_id t \<notin> task_id ` set (ALL_TASKS k1)"
    by (simp_all add: ids_distinct_add)
  have free: "mfree (mm k1) = mfree (mm k) \<union> own (vm_space t)"
    using drop_space(2) [OF assms(6)] k1(3) by simp
  show ?thesis
  proof (rule run_next_task_cases [OF k1(1) ids1(1)], goal_cases sd sw)
    case sd
    then show ?thesis using free ids1(2) by auto
  next
    case (sw u A time k')
    have "task_id t \<notin> task_id ` set_mset (add_mset u A)" using ids1(2) unfolding sw(2) [symmetric] by simp
    then have "t \<notin># mset (ALL_TASKS k')" unfolding sw(4) by auto
    then have "t \<notin> set (ALL_TASKS k')" by simp
    then show ?thesis using sw(1,5) free by auto
  qed
qed

definition sample_exiting :: kernel where
  "sample_exiting =
     sample_kernel\<lparr>ALL_TASKS := [sample_tcb 0 Exited sample_root, sample_tcb 2 Ready sample_root2],
       tp := 0xffffffc080020000\<rparr>"

lemma sample_exiting_current: "try_get_current_task_id sample_exiting = Some 0"
proof -
  let ?p = "PPN 0x80020"
  have r: "reachable_ppn ?p" by (simp add: reachable_ppn_def)
  have "mtab sample_state ?p 34 = pte_null"
    unfolding sample_tab by (simp add: sample_defs sample_roots_def)
  then have "load_u64 sample_mem (get_pa ?p + 8 * 34) = 0"
    using r by (simp add: tab_def sample_state_def pte_null_def)
  moreover have "get_pa ?p + 8 * 34 = kptr_pa (0xffffffc080020000 + 8 * 34)"
    by (simp add: get_pa_def kptr_pa_def kconst push_bit_eq_mult)
  ultimately show ?thesis
    by (simp add: try_get_current_task_id_def get_task_id_from_ptr_def sample_exiting_def
        sample_kernel_def sample_state_def)
qed

theorem exit_frees_memory_witness:
  "\<exists>r k'. run_next_task sample_exiting = Some (r, k') \<and> sample_root \<in> mfree (mm k')"
proof -
  let ?t = "sample_tcb 0 Exited sample_root"
  have "sample_root \<in> own (vm_space ?t)"
    by (simp add: sample_tcb_def own_def sample_space_def sample_pgt_def)
  moreover have "\<exists>r k'. run_next_task sample_exiting = Some (r, k') \<and> ?t \<notin> set (ALL_TASKS k') \<and>
      mfree (mm k') = mfree (mm sample_exiting) \<union> own (vm_space ?t)"
    by (rule exit_frees_memory)
      (use sample_exiting_current sample_space_ok in
        \<open>simp_all add: sample_exiting_def sample_kernel_def sample_tcb_def\<close>)
  ultimately show ?thesis by auto
qed

subsection \<open>System call statistics\<close>

text \<open>
  C31. After any sequence of calls to non-zero ids, the statistics hold the first six different
  ids in the order they first came, each with the exact number of its calls (modulo the word
  size), and nothing about the others: no call to a tracked system call is missed or counted
  for another one.
\<close>

theorem syscall_counts_exact:
  assumes "0 \<notin> set calls"
  shows "syscall_counts (count_calls calls TaskStatistics_new_zeros) =
    (let F = take MAX_SYSCALLS_TRACKED (firsts calls)
     in map (\<lambda>y. (y, of_nat (count_list calls y))) F @
        replicate (MAX_SYSCALLS_TRACKED - length F) (0, 0))"
proof -
  have "count_calls calls TaskStatistics_new_zeros =
      TaskStatistics_new_zeros\<lparr>syscall_counts := count_table calls\<rparr>"
    using assms
  proof (induction calls rule: rev_induct)
    case Nil
    then show ?case by (simp add: count_calls_def TaskStatistics_new_zeros_def count_table_def firsts_def
          MAX_SYSCALLS_TRACKED_def)
  next
    case (snoc x calls)
    then show ?case by (simp add: count_calls_def count_table_snoc)
  qed
  then show ?thesis by (simp add: count_table_def MAX_SYSCALLS_TRACKED_def)
qed

theorem syscall_counts_exact_witness:
  "take 2 (syscall_counts (count_calls [64, 124, 64] TaskStatistics_new_zeros)) = [(64, 2), (124, 1)]"
  using syscall_counts_exact [of "[64, 124, 64]"] by (simp add: firsts_def MAX_SYSCALLS_TRACKED_def)

end
