(* ===== verification/Mmu.thy ===== *)
theory Mmu
  imports VM_Unmap
begin

text \<open>
  Address translation as the hart does it (Sv39, page-based, three levels), over the tables the
  kernel keeps in physical memory, and its agreement with the mapping the kernel maintains.  The
  accessed and dirty bits are the hardware's own bookkeeping and are not represented.
\<close>

subsection \<open>The table walk\<close>

datatype access = Load | Store

datatype privilege = U_mode | S_mode

definition hw_entry :: "phys_mem \<Rightarrow> PPN \<Rightarrow> usize \<Rightarrow> PTE" where
  "hw_entry m p i = PTE (load_u64 m (get_pa p + 8 * i))"

text \<open>An entry faults when it is not valid or has the reserved encoding W without R.\<close>

definition hw_bad :: "PTE \<Rightarrow> bool" where
  "hw_bad e \<longleftrightarrow> \<not> PTE_is_valid e \<or> pte_bits e AND FLAG_W \<noteq> 0 \<and> pte_bits e AND FLAG_R = 0"

definition sv39_walk :: "phys_mem \<Rightarrow> PPN \<Rightarrow> usize \<Rightarrow> (PTE \<times> usize) option" where
  "sv39_walk m root va =
     (if \<not> is_valid_va va then None
      else
        let e2 = hw_entry m root (take_bit 9 (drop_bit 30 va)) in
        if hw_bad e2 then None
        else if PTE_hw_leaf e2 then
          (if take_bit 18 (get_raw (pte_ppn e2)) = 0
           then Some (e2, get_pa (pte_ppn e2) + take_bit 30 va) else None)
        else
          let e1 = hw_entry m (pte_ppn e2) (take_bit 9 (drop_bit 21 va)) in
          if hw_bad e1 then None
          else if PTE_hw_leaf e1 then
            (if take_bit 9 (get_raw (pte_ppn e1)) = 0
             then Some (e1, get_pa (pte_ppn e1) + take_bit 21 va) else None)
          else
            let e0 = hw_entry m (pte_ppn e1) (take_bit 9 (drop_bit 12 va)) in
            if hw_bad e0 \<or> \<not> PTE_hw_leaf e0 then None
            else Some (e0, get_pa (pte_ppn e0) + take_bit 12 va))"

text \<open>
  User mode needs the U bit; supervisor mode may touch a page with the U bit only while
  \<open>sstatus.SUM\<close> is set.
\<close>

definition hw_allows :: "privilege \<Rightarrow> bool \<Rightarrow> access \<Rightarrow> PTE \<Rightarrow> bool" where
  "hw_allows mode sm acc e \<longleftrightarrow>
     (case mode of
        U_mode \<Rightarrow> pte_bits e AND FLAG_U \<noteq> 0
      | S_mode \<Rightarrow> pte_bits e AND FLAG_U = 0 \<or> sm) \<and>
     (case acc of Load \<Rightarrow> pte_bits e AND FLAG_R \<noteq> 0 | Store \<Rightarrow> pte_bits e AND FLAG_W \<noteq> 0)"

definition satp_root :: "usize \<Rightarrow> PPN" where
  "satp_root satp = PPN (take_bit 44 satp)"

definition translate :: "privilege \<Rightarrow> bool \<Rightarrow> access \<Rightarrow> usize \<Rightarrow> phys_mem \<Rightarrow> usize \<Rightarrow> usize option" where
  "translate mode sm acc satp m va =
     (case sv39_walk m (satp_root satp) va of
        None \<Rightarrow> None
      | Some (e, pa) \<Rightarrow> if hw_allows mode sm acc e then Some pa else None)"

subsection \<open>Agreement with the kernel's view\<close>

lemma satp_root_get_satp:
  assumes "unat (get_raw (root_ppn t)) < 2 ^ 44"
  shows "satp_root (RootPgt_get_satp t) = root_ppn t"
proof -
  let ?p = "get_raw (root_ppn t)"
  have p: "take_bit 44 ?p = ?p" using assms by (simp add: word_unat_eq_iff bits_nat)
  have "take_bit 44 (push_bit 60 (8 :: usize) OR ?p) = take_bit 44 ?p"
    by (rule bit_eqI) (auto simp: bit_simps)
  with p have "take_bit 44 (RootPgt_get_satp t) = ?p"
    by (simp only: RootPgt_get_satp_def satp_compute_value_def get_mode_value.simps or.commute Let_def and_low_mask)
  then show ?thesis by (simp add: satp_root_def)
qed

definition va_vpn :: "usize \<Rightarrow> VPN" where
  "va_vpn va = VPN (drop_bit 12 va)"

lemma va_vpn_index:
  "parse_vpn (va_vpn va) ! 0 = take_bit 9 (drop_bit 12 va)"
  "parse_vpn (va_vpn va) ! 1 = take_bit 9 (drop_bit 21 va)"
  "parse_vpn (va_vpn va) ! 2 = take_bit 9 (drop_bit 30 va)"
  unfolding parse_vpn_nth va_vpn_def by (simp_all add: drop_bit_drop_bit add.commute)

lemma va_vpn_user: "unat va < 2 ^ 38 \<Longrightarrow> user_vpn (va_vpn va)"
  by (simp add: user_vpn_def va_vpn_def bits_nat)

lemma VPN_from_user_va: "unat va < 2 ^ 38 \<Longrightarrow> VPN_from_va va = Some (va_vpn va)"
  by (simp add: VPN_from_va_Some is_valid_va_iff va_vpn_def)

lemma hw_entry_tab: "reachable_ppn p \<Longrightarrow> i < 512 \<Longrightarrow> hw_entry m p i = tab m p i"
  by (simp add: hw_entry_def tab_def)

lemma not_hw_leaf_bad: "\<not> PTE_hw_leaf e \<Longrightarrow> hw_bad e \<longleftrightarrow> \<not> PTE_is_valid e"
  by (auto simp: hw_bad_def PTE_hw_leaf_def and_or_eq_0)

text \<open>
  On a user address the walk of the hardware finds exactly the leaf of the kernel's mapping,
  unless that leaf has no permission bit or a reserved encoding.
\<close>

lemma sv39_walk_user:
  assumes u: "pgt_user t s" and va: "unat va < 2 ^ 38"
  shows "sv39_walk (phys s) (root_ppn t) va =
    (case lookup t s (va_vpn va) of
       None \<Rightarrow> None
     | Some e \<Rightarrow> if hw_bad e \<or> \<not> PTE_hw_leaf e then None else Some (e, get_pa (pte_ppn e) + take_bit 12 va))"
proof -
  let ?T = "mtab s" and ?r = "root_ppn t" and ?w = "va_vpn va"
  define i j k where "i = take_bit 9 (drop_bit 30 va)" and "j = take_bit 9 (drop_bit 21 va)"
    and "k = take_bit 9 (drop_bit 12 va)"
  note ix = i_def [symmetric] j_def [symmetric] k_def [symmetric]
  have lk: "lookup t s ?w = walk ?T ?r i j k" by (simp only: lookup_def Let_def va_vpn_index ix)
  have b: "i < 512" "j < 512" "k < 512"
    using parse_vpn_bound [of 2 ?w] parse_vpn_bound [of 1 ?w] parse_vpn_bound [of 0 ?w]
    unfolding va_vpn_index ix by simp_all
  have "i < 256" using user_vpn_index [OF va_vpn_user [OF va]] unfolding va_vpn_index ix by simp
  then have nl: "\<not> PTE_hw_leaf (?T ?r i)" "\<And>q j. table1 ?T ?r i = Some q \<Longrightarrow> \<not> PTE_hw_leaf (?T q j)"
    using pgt_userD(2) [OF u] by (auto simp: no_user_large_def)
  note R = pgt_okD(5) [OF pgt_userD(1) [OF u]]
  have e2: "hw_entry (phys s) ?r i = ?T ?r i" by (rule hw_entry_tab [OF R [OF table_pages_intros(1)] b(1)])
  have valid: "is_valid_va va" using va by (simp add: is_valid_va_iff)
  show ?thesis
  proof (cases "table1 ?T ?r i")
    case None
    then have "\<not> PTE_is_valid (?T ?r i)" using nl(1) by (simp add: table1_def subtable_def split: if_splits)
    then show ?thesis using None by (simp add: lk walk_def table0_def sv39_walk_def ix e2 hw_bad_def Let_def)
  next
    case (Some q)
    then have q: "pte_ppn (?T ?r i) = q" "PTE_is_valid (?T ?r i)"
      by (auto simp: table1_def subtable_def split: if_splits)
    have e1: "hw_entry (phys s) q j = ?T q j" by (rule hw_entry_tab [OF R [OF table_pages_intros(2) [OF Some]] b(2)])
    show ?thesis
    proof (cases "table0 ?T ?r i j")
      case None
      then have "\<not> PTE_is_valid (?T q j)" using nl(2) [OF Some, of j] Some
        by (simp add: table0_def subtable_def split: if_splits)
      then show ?thesis using None q nl(1) nl(2) [OF Some, of j]
        by (simp add: lk walk_def sv39_walk_def ix e2 e1 not_hw_leaf_bad Let_def)
    next
      case c: (Some c)
      then have cq: "pte_ppn (?T q j) = c" "PTE_is_valid (?T q j)"
        using Some by (auto simp: table0_def subtable_def split: if_splits)
      have e0: "hw_entry (phys s) c k = ?T c k" by (rule hw_entry_tab [OF R [OF table_pages_intros(3) [OF c]] b(3)])
      show ?thesis using c valid q cq nl(1) nl(2) [OF Some, of j]
        by (simp add: lk walk_def sv39_walk_def ix e2 e1 e0 not_hw_leaf_bad Let_def) (simp add: hw_bad_def)
    qed
  qed
qed

subsection \<open>Accesses to a user space\<close>

text \<open>The permission bit an access needs, and the request a fault handler makes for it.\<close>

definition need :: "access \<Rightarrow> usize" where
  "need acc = (case acc of Load \<Rightarrow> PERMISSION_R | Store \<Rightarrow> PERMISSION_W)"

lemma leaf_of_fields:
  assumes "area_ok a" "unat (get_raw (get_ppn p)) < 2 ^ 44"
  shows "pte_ppn (leaf_of a p) = get_ppn p"
    "n < 10 \<Longrightarrow> n \<noteq> 0 \<Longrightarrow> bit (pte_bits (leaf_of a p)) n \<longleftrightarrow> bit (permissions a) n"
    "PTE_is_valid (leaf_of a p)"
proof -
  have sub: "permissions a AND ALL_PERMISSION_FLAGS = permissions a"
    using assms(1) by (intro and_not_eq_0) (simp add: area_ok_def)
  have small: "\<not> bit (permissions a) n" if "10 \<le> n" for n
  proof -
    have "ALL_PERMISSION_FLAGS = push_bit 1 (mask 4)"
      by (simp add: ALL_PERMISSION_FLAGS_def PERMISSION_R_def PERMISSION_W_def PERMISSION_X_def
          PERMISSION_U_def kconst mask_eq_exp_minus_1)
    moreover have "\<not> bit (push_bit 1 (mask 4) :: usize) n"
      unfolding bit_push_bit_iff bit_mask_iff using that by auto
    ultimately have "\<not> bit (permissions a AND ALL_PERMISSION_FLAGS) n" by (simp only: bit_and_iff simp_thms)
    then show ?thesis unfolding sub .
  qed
  have raw: "take_bit 44 (get_raw (get_ppn p)) = get_raw (get_ppn p)"
    using assms(2) by (simp add: word_unat_eq_iff bits_nat)
  have "bit (take_bit 44 (drop_bit 10 (pte_bits (leaf_of a p)))) n \<longleftrightarrow> bit (take_bit 44 (get_raw (get_ppn p))) n" for n
    using small [of "10 + n"] by (auto simp: leaf_of_def bit_simps FLAG_V_def dest: bit_imp_le_length)
  then show "pte_ppn (leaf_of a p) = get_ppn p"
    by (simp add: pte_ppn_def PPN.expand raw bit_eq_iff)
  show "n < 10 \<Longrightarrow> n \<noteq> 0 \<Longrightarrow> bit (pte_bits (leaf_of a p)) n \<longleftrightarrow> bit (permissions a) n"
    by (simp add: leaf_of_def bit_simps FLAG_V_def)
  show "PTE_is_valid (leaf_of a p)" by (simp add: PTE_bits_iff leaf_of_def bit_simps FLAG_V_def)
qed

lemma access_leaf:
  assumes "hw_allows mode sm acc e" "sound_leaf e" "PTE_is_valid e"
  shows "\<not> hw_bad e" "PTE_hw_leaf e"
  using assms by (auto simp: hw_allows_def sound_leaf_def hw_bad_def PTE_hw_leaf_def and_or_eq_0
      split: access.splits)

text \<open>The pages of a space are in physical memory, so their numbers survive in a leaf.\<close>

lemma area_page_data:
  assumes "a \<in># marea v" "map_of (pages a) w = Some p"
  shows "get_ppn p \<in> data_pages v"
proof -
  have "p \<in># mset (btm_values (pages a))"
    using map_of_SomeD [OF assms(2)] by (force simp: btm_values_def)
  then have "get_ppn p \<in># area_bag a" by (auto simp: area_bag_def)
  then show ?thesis using data_bag_mono [OF assms(1)] by (meson mset_subset_eqD)
qed

text \<open>A physical page is held for one virtual page of one area only.\<close>

lemma page_unique:
  assumes ok: "space_ok v s" and a: "a \<in># marea v" "map_of (pages a) w = Some p"
    and b: "b \<in># marea v" "map_of (pages b) w' = Some q" and eq: "get_ppn p = get_ppn q"
  shows "a = b" "w = w'"
proof -
  note so = space_okD(4) [OF ok]
  have e: "(w, p) \<in> set (pages a)" "(w', q) \<in> set (pages b)" using a(2) b(2) by (auto dest: map_of_SomeD)
  then have m: "get_ppn p \<in># area_bag a" "get_ppn q \<in># area_bag b"
    unfolding area_bag_def btm_values_def by force+
  show ab: "a = b"
  proof (rule ccontr)
    assume "a \<noteq> b"
    then obtain C where C: "marea v = add_mset a (add_mset b C)"
      using a(1) b(1) by (metis insert_DiffM insert_noteq_member)
    have "single_owner (area_bag a + (area_bag b + data_bag C))" using so unfolding C by simp
    from single_owner_union(3) [OF this] m eq show False by auto
  qed
  have "single_owner (area_bag a)" by (rule single_owner_sub [OF so data_bag_mono [OF a(1)]])
  then have "single_owner (mset (map (get_ppn \<circ> snd) (pages a)))"
    by (simp add: area_bag_def btm_values_def multiset.map_comp comp_def)
  then have "inj_on (get_ppn \<circ> snd) (set (pages a))" unfolding single_owner_distinct distinct_map by blast
  from inj_onD [OF this, of "(w, p)" "(w', q)"] have "(w, p) = (w', q)" using e eq unfolding ab by simp
  then show "w = w'" by simp
qed

lemma space_leaf:
  assumes ok: "space_ok v s" and w: "user_vpn w" and l: "lookup (root_pgt v) s w = Some e"
  obtains a p where "a \<in># marea v" "map_of (pages a) w = Some p" "e = leaf_of a p" "area_ok a"
    "map_type a = Anonymous" "contain_vpn a w" "unat (get_raw (get_ppn p)) < 2 ^ 26" "get_ppn p \<in> data_pages v"
proof -
  note D = space_okD [OF ok]
  obtain a p where a: "a \<in># marea v" "map_of (pages a) w = Some p" "e = leaf_of a p"
    using D(7) [OF w, of e] l by (auto simp: maps_to_def)
  have oka: "area_ok a" using D(2) a(1) by blast
  note c = area_ok_contain [OF oka a(2)] and d = area_page_data [OF a(1,2)]
  have "map_type a = Anonymous"
    using oka c w by (cases "map_type a") (auto simp: area_ok_def contain_vpn_def user_vpn_def page_order word_le_nat_alt)
  with a oka c d held_ppn_small [OF D(8)] D(5) show ?thesis by (intro that [of a p]) auto
qed

lemma translate_user:
  assumes ok: "space_ok v s" and va: "unat va < 2 ^ 38"
  shows "translate mode sm acc (RootPgt_get_satp (root_pgt v)) (phys s) va =
    (case lookup (root_pgt v) s (va_vpn va) of
       None \<Rightarrow> None
     | Some e \<Rightarrow> if hw_allows mode sm acc e then Some (get_pa (pte_ppn e) + take_bit 12 va) else None)"
proof -
  let ?t = "root_pgt v"
  note u = space_okD(1) [OF ok]
  have "reachable_ppn (root_ppn ?t)"
    using pgt_okD(5) [OF pgt_userD(1) [OF u]] table_pages_intros(1) by blast
  then have root: "satp_root (RootPgt_get_satp ?t) = root_ppn ?t"
    by (intro satp_root_get_satp) (simp add: reachable_ppn_def)
  show ?thesis
  proof (cases "lookup ?t s (va_vpn va)")
    case None
    then show ?thesis by (simp add: translate_def root sv39_walk_user [OF u va])
  next
    case (Some e)
    note w = va_vpn_user [OF va]
    obtain a p where "e = leaf_of a p" "area_ok a" "unat (get_raw (get_ppn p)) < 2 ^ 26"
      by (rule space_leaf [OF ok w Some])
    then have "PTE_is_valid e" by (simp add: leaf_of_fields)
    with Some access_leaf [OF _ space_okD(12) [OF ok w Some]] show ?thesis
      by (auto simp: translate_def root sv39_walk_user [OF u va])
  qed
qed

lemma bit_flags:
  "x AND FLAG_R = 0 \<longleftrightarrow> \<not> bit x 1" "x AND FLAG_W = 0 \<longleftrightarrow> \<not> bit x 2" "x AND FLAG_U = 0 \<longleftrightarrow> \<not> bit x 4"
  by (simp_all add: FLAG_R_def FLAG_W_def FLAG_U_def del: push_bit_of_1 push_bit_Suc)

definition request :: "access \<Rightarrow> usize" where
  "request acc = PERMISSION_U OR need acc"

lemma request_granted:
  "request acc AND x = request acc \<longleftrightarrow> bit x 4 \<and> bit x (case acc of Load \<Rightarrow> 1 | Store \<Rightarrow> 2)"
proof -
  have "(push_bit 4 1 OR push_bit n 1) AND x = push_bit 4 1 OR push_bit n 1 \<longleftrightarrow> bit x 4 \<and> bit x n"
    if n: "n < 3" for n and x :: usize
  proof -
    have b: "bit (push_bit k 1 :: usize) i \<longleftrightarrow> i = k" if "k < 64" for k i
      using that by (auto simp: bit_exp_iff)
    show ?thesis
    proof
      assume eq: "(push_bit 4 1 OR push_bit n 1) AND x = push_bit 4 1 OR push_bit n 1"
      have "bit ((push_bit 4 1 OR push_bit n 1) AND x) i" if "i = 4 \<or> i = n" for i
        unfolding eq bit_or_iff using that n b [of 4 i] b [of n i] by simp
      then show "bit x 4 \<and> bit x n" unfolding bit_and_iff by simp
    next
      assume "bit x 4 \<and> bit x n"
      then show "(push_bit 4 1 OR push_bit n 1) AND x = push_bit 4 1 OR push_bit n 1"
        using n b [of 4] b [of n] by (intro bit_eqI) (simp add: bit_or_iff bit_and_iff del: push_bit_of_1, blast)
    qed
  qed
  from this [of 1 x] this [of 2 x] show ?thesis
    by (cases acc) (simp_all only: request_def need_def PERMISSION_U_def PERMISSION_R_def
        PERMISSION_W_def FLAG_U_def FLAG_R_def FLAG_W_def access.case)
qed

lemma allows_leaf:
  assumes "area_ok a" "unat (get_raw (get_ppn p)) < 2 ^ 44"
  shows "hw_allows mode sm acc (leaf_of a p) \<longleftrightarrow>
    (case mode of U_mode \<Rightarrow> bit (permissions a) 4 | S_mode \<Rightarrow> \<not> bit (permissions a) 4 \<or> sm) \<and>
    bit (permissions a) (case acc of Load \<Rightarrow> 1 | Store \<Rightarrow> 2)"
  using leaf_of_fields(2) [OF assms, of 1] leaf_of_fields(2) [OF assms, of 2] leaf_of_fields(2) [OF assms, of 4]
  by (simp add: hw_allows_def bit_flags split: access.split privilege.split)

text \<open>
  An access that succeeds goes to a page of an anonymous area; one that faults does so on a
  page that is not mapped, or whose area does not grant what the handler will ask for.
\<close>

lemma user_access:
  assumes ok: "space_ok v s" and va: "unat va < 2 ^ 38"
    and tr: "translate mode sm acc (RootPgt_get_satp (root_pgt v)) (phys s) va = Some pa"
  obtains a p where "a \<in># marea v" "map_of (pages a) (va_vpn va) = Some p" "map_type a = Anonymous"
    "pa = get_pa (get_ppn p) + take_bit 12 va" "PPN (drop_bit 12 pa) = get_ppn p" "get_ppn p \<in> data_pages v"
proof -
  obtain e where e: "lookup (root_pgt v) s (va_vpn va) = Some e" "pa = get_pa (pte_ppn e) + take_bit 12 va"
    using tr by (auto simp: translate_user [OF ok va] split: option.splits if_splits)
  obtain a p where a: "a \<in># marea v" "map_of (pages a) (va_vpn va) = Some p" "e = leaf_of a p" "area_ok a"
    "map_type a = Anonymous" "unat (get_raw (get_ppn p)) < 2 ^ 26" "get_ppn p \<in> data_pages v"
    by (rule space_leaf [OF ok va_vpn_user [OF va] e(1)])
  then have pa: "pa = get_pa (get_ppn p) + take_bit 12 va" using e(2) by (simp add: leaf_of_fields)
  moreover have "unat (take_bit 12 va) < 4096" unfolding bits_nat by simp
  then have "drop_bit 12 pa = get_raw (get_ppn p)"
    using drop_bit_get_pa_add(1) [of "get_ppn p" "take_bit 12 va"] a(6) pa by simp
  then have "PPN (drop_bit 12 pa) = get_ppn p" by simp
  ultimately show ?thesis using a by (intro that [of a p]) auto
qed

lemma user_fault:
  assumes ok: "space_ok v s" and va: "unat va < 2 ^ 38" and sm: "mode = U_mode \<or> sm"
    and tr: "translate mode sm acc (RootPgt_get_satp (root_pgt v)) (phys s) va = None"
  obtains (unmapped) "lookup (root_pgt v) s (va_vpn va) = None"
  | (denied) a where "a \<in># marea v" "contain_vpn a (va_vpn va)" "request acc AND permissions a \<noteq> request acc"
proof (cases "lookup (root_pgt v) s (va_vpn va)")
  case (Some e)
  obtain a p where a: "a \<in># marea v" "e = leaf_of a p" "area_ok a" "contain_vpn a (va_vpn va)"
    "unat (get_raw (get_ppn p)) < 2 ^ 26"
    by (rule space_leaf [OF ok va_vpn_user [OF va] Some])
  then have "\<not> hw_allows mode sm acc (leaf_of a p)"
    using tr Some by (simp add: translate_user [OF ok va] split: if_splits)
  then have "request acc AND permissions a \<noteq> request acc"
    using sm a(3,5) unfolding request_granted by (auto simp: allows_leaf split: privilege.splits)
  with a show ?thesis by (intro denied)
qed (rule unmapped)

subsection \<open>The kernel half\<close>

text \<open>No page of the kernel half of a table is open to user mode.\<close>

definition upper_private :: "RootPgt \<Rightarrow> mm_state \<Rightarrow> bool" where
  "upper_private t s \<longleftrightarrow>
     (\<forall>va e pa. sv39_walk (phys s) (root_ppn t) va = Some (e, pa) \<longrightarrow> \<not> unat va < 2 ^ 38 \<longrightarrow>
        pte_bits e AND FLAG_U = 0)"

lemma upper_private_denied:
  assumes "upper_private t s" "unat (get_raw (root_ppn t)) < 2 ^ 44" "\<not> unat va < 2 ^ 38"
  shows "translate U_mode sm acc (RootPgt_get_satp t) (phys s) va = None"
  using assms satp_root_get_satp [OF assms(2)]
  by (auto simp: translate_def upper_private_def hw_allows_def split: option.splits)

lemma upper_index:
  assumes "is_valid_va va" "\<not> unat va < 2 ^ 38"
  shows "take_bit 9 (drop_bit 30 va) \<notin> user_half"
proof -
  have "2 ^ 64 - 2 ^ 38 \<le> unat va" "unat va < 2 ^ 64"
    using assms unsigned_less [of va, where 'a = nat] by (simp_all add: is_valid_va_iff)
  then have q: "17179868928 \<le> unat va div 2 ^ 30" "unat va div 2 ^ 30 < 17179869184" by simp_all
  define d where "d = unat va div 2 ^ 30 - 17179868928"
  have "unat va div 2 ^ 30 = 256 + d + 33554431 * 512" "d < 256" using q by (simp_all add: d_def)
  then have "unat va div 2 ^ 30 mod 512 = 256 + d" by (simp only: mod_mult_self1) simp
  then have "unat (take_bit 9 (drop_bit 30 va)) \<ge> 256" unfolding bits_nat by simp
  then show ?thesis by (simp add: word_less_nat_alt)
qed

text \<open>
  The walk on a kernel address reads the upper half of the root and tables that are not under
  the user half; a change that leaves those alone leaves the walk alone.
\<close>

lemma upper_walk_kept:
  assumes ok: "pgt_ok t s" and va: "\<not> unat va < 2 ^ 38"
    and root: "\<And>i. i \<notin> user_half \<Longrightarrow> mtab s' (root_ppn t) i = mtab s (root_ppn t) i"
    and mem: "\<And>a. PPN (drop_bit 12 a) \<in> table_pages (mtab s) (root_ppn t) \<Longrightarrow>
      PPN (drop_bit 12 a) \<notin> under (mtab s) (root_ppn t) user_half \<Longrightarrow> phys s' a = phys s a"
  shows "sv39_walk (phys s') (root_ppn t) va = sv39_walk (phys s) (root_ppn t) va"
proof (cases "is_valid_va va")
  case False
  then show ?thesis by (simp add: sv39_walk_def)
next
  case valid: True
  let ?T = "mtab s" and ?T' = "mtab s'" and ?r = "root_ppn t"
  define i j k where "i = take_bit 9 (drop_bit 30 va)" and "j = take_bit 9 (drop_bit 21 va)"
    and "k = take_bit 9 (drop_bit 12 va)"
  have b: "i < 512" "j < 512" "k < 512"
    by (simp_all add: i_def j_def k_def word_less_nat_alt bits_nat)
  have iu: "i \<notin> user_half" unfolding i_def by (rule upper_index [OF valid va])
  note R = pgt_okD(5) [OF ok] and W = pgt_wfD [OF pgt_okD(2) [OF ok]]
  have e2: "hw_entry (phys s) ?r i = ?T ?r i" "hw_entry (phys s') ?r i = ?T ?r i"
    using hw_entry_tab [OF R [OF table_pages_intros(1)] b(1)] root [OF iu] by simp_all
  have out: "hw_entry (phys s) q n = ?T q n" "hw_entry (phys s') q n = ?T q n"
    if q: "q \<in> table_pages ?T ?r" "q \<notin> under ?T ?r user_half" "n < 512" for q n
  proof -
    have "?T' q = ?T q" by (rule tab_page_cong) (use q(1,2) mem in blast)
    then show "hw_entry (phys s) q n = ?T q n" "hw_entry (phys s') q n = ?T q n"
      using hw_entry_tab [OF R [OF q(1)] q(3)] by simp_all
  qed
  show ?thesis
  proof (cases "hw_bad (?T ?r i) \<or> PTE_hw_leaf (?T ?r i)")
    case True
    then show ?thesis by (auto simp: sv39_walk_def Let_def i_def [symmetric] e2)
  next
    case False
    define q where "q = pte_ppn (?T ?r i)"
    have q: "table1 ?T ?r i = Some q"
      using False by (auto simp: table1_def subtable_def q_def hw_bad_def)
    have qu: "q \<notin> under ?T ?r user_half" using q W(2) [OF q] W(3) [OF q] W(5) iu unfolding under_def by blast
    note e1 = out [OF table_pages_intros(2) [OF q] qu b(2)]
    show ?thesis
    proof (cases "hw_bad (?T q j) \<or> PTE_hw_leaf (?T q j)")
      case True
      then show ?thesis using False
        by (auto simp: sv39_walk_def Let_def i_def [symmetric] j_def [symmetric] e2 q_def [symmetric] e1)
    next
      case f1: False
      define c where "c = pte_ppn (?T q j)"
      have c: "table0 ?T ?r i j = Some c"
        using f1 q by (auto simp: table0_def subtable_def c_def hw_bad_def)
      have cu: "c \<notin> under ?T ?r user_half" using c W(4) [OF c] W(5) [OF c] W(6) [OF c] iu unfolding under_def by blast
      note e0 = out [OF table_pages_intros(3) [OF c] cu b(3)]
      show ?thesis using False f1
        by (simp add: sv39_walk_def Let_def i_def [symmetric] j_def [symmetric] k_def [symmetric]
            e2 q_def [symmetric] e1 c_def [symmetric] e0)
    qed
  qed
qed

lemma upper_private_kept:
  assumes "upper_private t s" "pgt_ok t s" "root_ppn t' = root_ppn t"
    and "\<And>i. i \<notin> user_half \<Longrightarrow> mtab s' (root_ppn t) i = mtab s (root_ppn t) i"
    and "\<And>a. PPN (drop_bit 12 a) \<in> table_pages (mtab s) (root_ppn t) \<Longrightarrow>
      PPN (drop_bit 12 a) \<notin> under (mtab s) (root_ppn t) user_half \<Longrightarrow> phys s' a = phys s a"
  shows "upper_private t' s'"
  unfolding upper_private_def assms(3)
proof (intro allI impI)
  fix va e pa assume w: "sv39_walk (phys s') (root_ppn t) va = Some (e, pa)" "\<not> unat va < 2 ^ 38"
  have "sv39_walk (phys s) (root_ppn t) va = Some (e, pa)"
    using upper_walk_kept [OF assms(2) w(2) assms(4,5)] w(1) by simp
  then show "pte_bits e AND FLAG_U = 0" using assms(1) w(2) unfolding upper_private_def by blast
qed

end
