(* ===== verification/UAccess.thy ===== *)
theory UAccess
  imports Task Mmu
begin

text \<open>
  Access to user memory from the kernel: the copy loop of \<open>os/src/mm/uaccess.S\<close> with its callers in
  \<open>os/src/mm/uaccess.rs\<close>, and the handler of the page faults it may take, \<open>os/src/trap/ktrap.rs\<close> with
  \<open>do_page_fault\<close> of \<open>os/src/trap.rs\<close>.

  A load or store of the loop that the MMU refuses traps to the kernel's own handler, which
  either maps the page, so that the instruction is run again, or redirects the loop to its
  fix-up label.  Kernel buffers are a map from addresses to bytes beside the page frames.
\<close>

subsection \<open>Page faults of a task\<close>

definition do_page_fault :: "usize \<Rightarrow> usize \<Rightarrow> usize \<Rightarrow> kernel \<Rightarrow> ((VMError + unit) \<times> kernel) option" where
  "do_page_fault tid stval min_permissions k =
     update_tcb tid (\<lambda>tcb k. do {
       (r, v, s) \<leftarrow> map_fault_page (vm_space tcb) stval min_permissions (mm k);
       Some (r, tcb\<lparr>vm_space := v\<rparr>, k\<lparr>mm := s\<rparr>)
     }) k"

text \<open>The addresses of the labels in \<open>uaccess.S\<close>.\<close>

record uaccess_syms =
  uaccess_lb :: usize
  uaccess_sb :: usize
  uaccess_fix :: usize

definition is_load_user_fault :: "uaccess_syms \<Rightarrow> usize \<Rightarrow> bool" where
  "is_load_user_fault y pc \<longleftrightarrow> pc = uaccess_lb y"

definition is_store_user_fault :: "uaccess_syms \<Rightarrow> usize \<Rightarrow> bool" where
  "is_store_user_fault y pc \<longleftrightarrow> pc = uaccess_sb y"

definition get_uaccess_fix :: "uaccess_syms \<Rightarrow> usize" where
  "get_uaccess_fix y = uaccess_fix y"

subsection \<open>Traps from the kernel\<close>

text \<open>
  \<open>k_trap_handler\<close> on the context that \<open>trap.S\<close> saved on the kernel stack.  Every cause it does not
  expect ends in \<open>trap_panic\<close>.
\<close>

definition k_trap_handler :: "uaccess_syms \<Rightarrow> TrapContext \<Rightarrow> kernel \<Rightarrow> (TrapContext \<times> kernel) option" where
  "k_trap_handler y ctx k =
     (let pc = sepc_read (csrs k);
          stval = stval_read (csrs k);
          saved_tp = xs ctx ! 4;
          cause = match_cause (scause_read (csrs k));
          handle = (\<lambda>min_permissions. do {
            let tid = get_task_id_from_ptr saved_tp (phys (mm k));
            (r, k) \<leftarrow> do_page_fault tid stval min_permissions k;
            case r of
              Inl err \<Rightarrow> Some (ctx\<lparr>sepc := get_uaccess_fix y\<rparr>, k)
            | Inr _ \<Rightarrow> Some (ctx, k)
          })
      in if cause = LoadPageFault \<and> saved_tp \<noteq> 0 \<and> is_load_user_fault y pc
         then handle (PERMISSION_U OR PERMISSION_R)
         else if cause = StoreOrAmoPageFault \<and> saved_tp \<noteq> 0 \<and> is_store_user_fault y pc
         then handle (PERMISSION_U OR PERMISSION_W)
         else None)"

text \<open>What the hart records when it takes a trap.\<close>

definition take_trap :: "usize \<Rightarrow> usize \<Rightarrow> usize \<Rightarrow> csr_file \<Rightarrow> csr_file" where
  "take_trap cause stval pc c =
     csrw SEPC_CSR_NO pc (csrw STVAL_CSR_NO stval (csrw SCAUSE_CSR_NO cause c))"

definition SSCRATCH_CSR_NO :: usize where "SSCRATCH_CSR_NO = 0x140"

text \<open>
  \<open>__save_k_ctx\<close>, \<open>k_trap_handler\<close> and \<open>__restore_k_ctx\<close>: the interrupted registers go to the context
  and come back from it, with \<open>tp\<close> zero in between.  The result is where execution continues.
\<close>

definition kernel_trap ::
  "uaccess_syms \<Rightarrow> usize \<Rightarrow> usize \<Rightarrow> usize \<Rightarrow> usize list \<Rightarrow> kernel \<Rightarrow> (usize \<times> usize list \<times> kernel) option" where
  "kernel_trap y cause stval pc regs k = do {
     let c = take_trap cause stval pc (csrs k);
     let ctx = \<lparr>xs = regs, sstatus = csrr SSTATUS_CSR_NO c, sepc = csrr SEPC_CSR_NO c, ctx_task_id = 0\<rparr>;
     (ctx, k) \<leftarrow> k_trap_handler y ctx (k\<lparr>csrs := csrw SSCRATCH_CSR_NO 0 c, tp := 0\<rparr>);
     let c = csrw SEPC_CSR_NO (sepc ctx)
       (csrw SSTATUS_CSR_NO (sstatus ctx) (csrw SSCRATCH_CSR_NO 0 (csrs k)));
     Some (sepc ctx, xs ctx, k\<lparr>csrs := c, tp := xs ctx ! 4\<rparr>)
   }"

subsection \<open>The copy loop\<close>

text \<open>
  The four registers the loop uses, in the register file the trap saves: \<open>tp\<close>, \<open>a0\<close>, \<open>a1\<close>, \<open>t5\<close>
  and \<open>t6\<close> are \<open>x4\<close>, \<open>x10\<close>, \<open>x11\<close>, \<open>x30\<close> and \<open>x31\<close>.
\<close>

definition loop_regs :: "usize \<Rightarrow> usize \<Rightarrow> usize \<Rightarrow> usize \<Rightarrow> usize \<Rightarrow> usize list" where
  "loop_regs tp_val a0 a1 t5 t6 = (replicate 32 0)[4 := tp_val, 10 := a0, 11 := a1, 30 := t5, 31 := t6]"

definition sum_bit :: "kernel \<Rightarrow> bool" where
  "sum_bit k \<longleftrightarrow> sstatus_read (csrs k) AND SUM_BIT \<noteq> 0"

definition mmu :: "privilege \<Rightarrow> access \<Rightarrow> usize \<Rightarrow> kernel \<Rightarrow> usize option" where
  "mmu mode acc va k =
     translate mode (sum_bit k) acc (csrr SATP_CSR_NO (csrs k)) (phys (mm k)) va"

definition LOAD_PAGE_FAULT :: usize where "LOAD_PAGE_FAULT = 13"
definition STORE_PAGE_FAULT :: usize where "STORE_PAGE_FAULT = 15"

text \<open>
  \<open>lb\<close> at \<open>__uaccess_lb\<close> and \<open>sb\<close> at \<open>__uaccess_sb\<close> on a user address.  The result is \<open>None\<close> inside
  when the handler sends the loop to \<open>__uaccess_fix\<close>; else the instruction is tried again.
\<close>

partial_function (option) user_lb ::
  "uaccess_syms \<Rightarrow> usize list \<Rightarrow> usize \<Rightarrow> kernel \<Rightarrow> (u8 option \<times> kernel) option" where
  "user_lb y regs va k =
     (case mmu S_mode Load va k of
        Some pa \<Rightarrow> Some (Some (phys (mm k) pa), k)
      | None \<Rightarrow> do {
          (pc, regs, k) \<leftarrow> kernel_trap y LOAD_PAGE_FAULT va (uaccess_lb y) regs k;
          if pc = uaccess_fix y then Some (None, k) else user_lb y regs va k
        })"

partial_function (option) user_sb ::
  "uaccess_syms \<Rightarrow> usize list \<Rightarrow> usize \<Rightarrow> u8 \<Rightarrow> kernel \<Rightarrow> (bool \<times> kernel) option" where
  "user_sb y regs va b k =
     (case mmu S_mode Store va k of
        Some pa \<Rightarrow> Some (True, k\<lparr>mm := (mm k)\<lparr>phys := (phys (mm k))(pa := b)\<rparr>\<rparr>)
      | None \<Rightarrow> do {
          (pc, regs, k) \<leftarrow> kernel_trap y STORE_PAGE_FAULT va (uaccess_sb y) regs k;
          if pc = uaccess_fix y then Some (False, k) else user_sb y regs va b k
        })"

text \<open>
  \<open>__uaccess\<close> over the two instructions, which get the registers \<open>a0\<close>, \<open>a1\<close>, \<open>t5\<close>, \<open>t6\<close>.  The
  comparison \<open>bge\<close> is signed.
\<close>

partial_function (option) uaccess_loop ::
  "(usize \<Rightarrow> usize \<Rightarrow> usize \<Rightarrow> 's \<Rightarrow> (u8 option \<times> 's) option)
    \<Rightarrow> (usize \<Rightarrow> usize \<Rightarrow> usize \<Rightarrow> u8 \<Rightarrow> 's \<Rightarrow> (bool \<times> 's) option)
    \<Rightarrow> usize \<Rightarrow> usize \<Rightarrow> usize \<Rightarrow> 's \<Rightarrow> (usize \<times> 's) option" where
  "uaccess_loop lb sb a0 a1 t5 s =
     (if sint a0 \<ge> sint t5 then Some (t5 - a0, s)
      else do {
        (t6, s) \<leftarrow> lb a0 a1 t5 s;
        case t6 of
          None \<Rightarrow> Some (t5 - a0, s)
        | Some b \<Rightarrow> do {
            (stored, s) \<leftarrow> sb a0 a1 t5 b s;
            if stored then uaccess_loop lb sb (a0 + 1) (a1 + 1) t5 s
            else Some (t5 - a0, s)
          }
      })"

definition uaccess ::
  "(usize \<Rightarrow> usize \<Rightarrow> usize \<Rightarrow> 's \<Rightarrow> (u8 option \<times> 's) option)
    \<Rightarrow> (usize \<Rightarrow> usize \<Rightarrow> usize \<Rightarrow> u8 \<Rightarrow> 's \<Rightarrow> (bool \<times> 's) option)
    \<Rightarrow> usize \<Rightarrow> usize \<Rightarrow> usize \<Rightarrow> 's \<Rightarrow> (usize \<times> 's) option" where
  "uaccess lb sb src dst len s = uaccess_loop lb sb src dst (src + len) s"

type_synonym kbuf = "usize \<Rightarrow> u8"

definition permit_sum :: "kernel \<Rightarrow> kernel" where
  "permit_sum k = k\<lparr>csrs := snd (set_sum_permit (csrs k))\<rparr>"

definition deny_sum :: "kernel \<Rightarrow> kernel" where
  "deny_sum k = k\<lparr>csrs := snd (set_sum_deny (csrs k))\<rparr>"

text \<open>\<open>copy_from_user\<close> reads user memory and fills a kernel buffer.\<close>

definition from_user_lb ::
  "uaccess_syms \<Rightarrow> usize \<Rightarrow> usize \<Rightarrow> usize \<Rightarrow> kernel \<times> kbuf \<Rightarrow> (u8 option \<times> kernel \<times> kbuf) option" where
  "from_user_lb y a0 a1 t5 = (\<lambda>(k, buf). do {
     (b, k) \<leftarrow> user_lb y (loop_regs (tp k) a0 a1 t5 0) a0 k;
     Some (b, k, buf)
   })"

definition kernel_sb :: "usize \<Rightarrow> usize \<Rightarrow> usize \<Rightarrow> u8 \<Rightarrow> kernel \<times> kbuf \<Rightarrow> (bool \<times> kernel \<times> kbuf) option" where
  "kernel_sb a0 a1 t5 b = (\<lambda>(k, buf). Some (True, k, buf(a1 := b)))"

definition copy_from_user ::
  "uaccess_syms \<Rightarrow> usize \<Rightarrow> usize \<Rightarrow> usize \<Rightarrow> kernel \<Rightarrow> kbuf \<Rightarrow> (usize \<times> kernel \<times> kbuf) option" where
  "copy_from_user y src dst len k buf = do {
     (r, k, buf) \<leftarrow> uaccess (from_user_lb y) kernel_sb src dst len (permit_sum k, buf);
     Some (r, deny_sum k, buf)
   }"

text \<open>\<open>copy_to_user\<close> reads a kernel buffer and writes user memory.\<close>

definition kernel_lb :: "kbuf \<Rightarrow> usize \<Rightarrow> usize \<Rightarrow> usize \<Rightarrow> kernel \<Rightarrow> (u8 option \<times> kernel) option" where
  "kernel_lb buf a0 a1 t5 k = Some (Some (buf a0), k)"

definition to_user_sb :: "uaccess_syms \<Rightarrow> usize \<Rightarrow> usize \<Rightarrow> usize \<Rightarrow> u8 \<Rightarrow> kernel \<Rightarrow> (bool \<times> kernel) option" where
  "to_user_sb y a0 a1 t5 b k = user_sb y (loop_regs (tp k) a0 a1 t5 (scast b)) a1 b k"

definition copy_to_user ::
  "uaccess_syms \<Rightarrow> kbuf \<Rightarrow> usize \<Rightarrow> usize \<Rightarrow> usize \<Rightarrow> kernel \<Rightarrow> (usize \<times> kernel) option" where
  "copy_to_user y buf src dst len k = do {
     (r, k) \<leftarrow> uaccess (kernel_lb buf) (to_user_sb y) src dst len (permit_sum k);
     Some (r, deny_sum k)
   }"

end
