(* ===== verification/Syscall.thy ===== *)
theory Syscall
  imports UAccess
begin

text \<open>
  The system calls of \<open>os/src/syscall.rs\<close> and its modules \<open>io\<close>, \<open>mm\<close> and \<open>process\<close>.  A call either
  returns a value to the trap handler or leaves through the scheduler and does not return.
  The messages of the logging macros are not part of the state.
\<close>

subsection \<open>UTF-8 text\<close>

text \<open>
  \<open>str::from_utf8\<close> followed by \<open>chars\<close>: the code points of a well-formed UTF-8 text, \<open>None\<close> for
  ill-formed bytes (overlong forms, surrogates and values above \<open>0x10ffff\<close> included).
\<close>

definition cont_byte :: "u8 \<Rightarrow> bool" where
  "cont_byte b \<longleftrightarrow> 0x80 \<le> b \<and> b \<le> 0xbf"

definition cont_bits :: "u8 \<Rightarrow> usize" where
  "cont_bits b = ucast (b AND 0x3f)"

fun from_utf8 :: "u8 list \<Rightarrow> usize list option" where
  "from_utf8 [] = Some []"
| "from_utf8 (b # bs) =
     (if b < 0x80 then map_option ((#) (ucast b)) (from_utf8 bs)
      else if 0xc2 \<le> b \<and> b \<le> 0xdf then
        (case bs of
           c # cs \<Rightarrow>
             if cont_byte c
             then map_option ((#) (push_bit 6 (ucast (b AND 0x1f)) OR cont_bits c)) (from_utf8 cs)
             else None
         | _ \<Rightarrow> None)
      else if 0xe0 \<le> b \<and> b \<le> 0xef then
        (case bs of
           c # d # cs \<Rightarrow>
             if cont_byte c \<and> cont_byte d \<and> (b = 0xe0 \<longrightarrow> 0xa0 \<le> c) \<and> (b = 0xed \<longrightarrow> c \<le> 0x9f)
             then map_option ((#) (push_bit 12 (ucast (b AND 0xf)) OR push_bit 6 (cont_bits c) OR cont_bits d))
               (from_utf8 cs)
             else None
         | _ \<Rightarrow> None)
      else if 0xf0 \<le> b \<and> b \<le> 0xf4 then
        (case bs of
           c # d # e # cs \<Rightarrow>
             if cont_byte c \<and> cont_byte d \<and> cont_byte e \<and> (b = 0xf0 \<longrightarrow> 0x90 \<le> c) \<and> (b = 0xf4 \<longrightarrow> c \<le> 0x8f)
             then map_option ((#) (push_bit 18 (ucast (b AND 0x7)) OR push_bit 12 (cont_bits c)
               OR push_bit 6 (cont_bits d) OR cont_bits e)) (from_utf8 cs)
             else None
         | _ \<Rightarrow> None)
      else None)"

subsection \<open>What the calls rely on\<close>

text \<open>
  The label addresses of \<open>uaccess.S\<close>, the kernel heap (\<open>None\<close> where the allocation fails, which
  aborts the kernel), and the compiler's layout of \<open>TaskInfo\<close>: its size, its bytes and the address
  of the local variable that holds it.
\<close>

record platform =
  syms :: uaccess_syms
  heap_alloc :: "usize \<Rightarrow> usize option"
  TaskInfo_size :: usize
  TaskInfo_bytes :: "TaskInfo \<Rightarrow> u8 list"
  TaskInfo_addr :: usize

datatype flow = Returns isize | Leaves outcome

subsection \<open>Input and output\<close>

definition FD_STDOUT :: usize where "FD_STDOUT = 1"

definition print_chars :: "usize list \<Rightarrow> kernel \<Rightarrow> kernel" where
  "print_chars cs k = k\<lparr>console := console k @ cs\<rparr>"

definition buf_bytes :: "kbuf \<Rightarrow> usize \<Rightarrow> usize \<Rightarrow> u8 list" where
  "buf_bytes buf start len = map (\<lambda>i. buf (start + of_nat i)) [0..<unat len]"

definition sys_write :: "platform \<Rightarrow> usize \<Rightarrow> usize \<Rightarrow> usize \<Rightarrow> kernel \<Rightarrow> (flow \<times> kernel) option" where
  "sys_write e fd buf cnt k =
     (if fd \<noteq> FD_STDOUT then Some (Returns (-1), k)
      else if \<not> check_u_va_range buf cnt then Some (Returns (-1), k)
      else do {
        dst \<leftarrow> heap_alloc e cnt;
        (failed_len, k, data) \<leftarrow> copy_from_user (syms e) buf dst cnt k (\<lambda>_. 0);
        if failed_len \<noteq> 0 then Some (Returns (-1), k)
        else do {
          str \<leftarrow> from_utf8 (buf_bytes data dst cnt);
          Some (Returns cnt, print_chars str k)
        }
      })"

subsection \<open>Memory\<close>

definition PROT_EXEC :: usize where "PROT_EXEC = 1"
definition PROT_READ :: usize where "PROT_READ = 2"
definition PROT_WRITE :: usize where "PROT_WRITE = 4"
definition ALL_PROT_FLAGS :: usize where "ALL_PROT_FLAGS = PROT_EXEC OR PROT_READ OR PROT_WRITE"

definition to_permissions :: "usize \<Rightarrow> usize" where
  "to_permissions prot =
     (let r = PERMISSION_U;
          r = (if prot AND PROT_READ \<noteq> 0 then r OR PERMISSION_R else r);
          r = (if prot AND PROT_WRITE \<noteq> 0 then r OR PERMISSION_W else r)
      in if prot AND PROT_EXEC \<noteq> 0 then r OR PERMISSION_X else r)"

definition mmap :: "usize \<Rightarrow> usize \<Rightarrow> usize \<Rightarrow> kernel \<Rightarrow> (flow \<times> kernel) option" where
  "mmap addr len prot k =
     (if \<not> check_u_va_range addr len then Some (Returns (-1), k)
      else if prot AND NOT ALL_PROT_FLAGS \<noteq> 0 then Some (Returns (-1), k)
      else do {
        tid \<leftarrow> get_current_task_id k;
        (r, k) \<leftarrow> update_tcb tid (\<lambda>tcb k. do {
          start \<leftarrow> VPN_from_va addr;
          end \<leftarrow> VPN_from_va (addr + len + PAGE_SIZE_BYTES - 1);
          let (r, v) = add_new_area (vm_space tcb) start end Anonymous (to_permissions prot);
          Some (r, tcb\<lparr>vm_space := v\<rparr>, k)
        }) k;
        Some (Returns (case r of Inr _ \<Rightarrow> 0 | Inl _ \<Rightarrow> -1), k)
      })"

definition munmap :: "usize \<Rightarrow> usize \<Rightarrow> kernel \<Rightarrow> (flow \<times> kernel) option" where
  "munmap addr len k =
     (if \<not> check_u_va_range addr len then Some (Returns (-1), k)
      else if len = 0 then Some (Returns 0, k)
      else do {
        tid \<leftarrow> get_current_task_id k;
        (r, k) \<leftarrow> update_tcb tid (\<lambda>tcb k. do {
          start \<leftarrow> VPN_from_va addr;
          end \<leftarrow> VPN_from_va (addr + len + PAGE_SIZE_BYTES - 1);
          (r, v, s) \<leftarrow> VMSpace_unmap (vm_space tcb) start end (mm k);
          Some (r, tcb\<lparr>vm_space := v\<rparr>, k\<lparr>mm := s\<rparr>)
        }) k;
        Some (Returns (case r of Inr _ \<Rightarrow> 0 | Inl _ \<Rightarrow> -1), k)
      })"

subsection \<open>Processes\<close>

definition sys_exit :: "isize \<Rightarrow> kernel \<Rightarrow> (flow \<times> kernel) option" where
  "sys_exit exit_code k = do {
     tid \<leftarrow> get_current_task_id k;
     (r, k) \<leftarrow> exchange_current_task_state Running Exited k;
     case r of
       Inl state \<Rightarrow> None
     | Inr _ \<Rightarrow> do {
         (out, k) \<leftarrow> run_next_task k;
         Some (Leaves out, k)
       }
   }"

definition sys_yield :: "kernel \<Rightarrow> (flow \<times> kernel) option" where
  "sys_yield k = do {
     tid \<leftarrow> get_current_task_id k;
     (r, k) \<leftarrow> exchange_current_task_state Running Ready k;
     case r of
       Inl state \<Rightarrow> None
     | Inr _ \<Rightarrow> do {
         (out, k) \<leftarrow> run_next_task k;
         Some (Leaves out, k)
       }
   }"

definition sys_task_info :: "platform \<Rightarrow> usize \<Rightarrow> usize \<Rightarrow> kernel \<Rightarrow> (flow \<times> kernel) option" where
  "sys_task_info e tid dst k =
     (let len = TaskInfo_size e in
      if \<not> check_u_va_range dst len then Some (Returns (-1), k)
      else case get_task_info tid k of
        None \<Rightarrow> Some (Returns (-1), k)
      | Some task_info \<Rightarrow> do {
          let src = TaskInfo_addr e;
          let buf = (\<lambda>a. TaskInfo_bytes e task_info ! unat (a - src));
          (failed_len, k) \<leftarrow> copy_to_user (syms e) buf src dst len k;
          Some (Returns (if failed_len = 0 then 0 else -1), k)
        })"

subsection \<open>Dispatch\<close>

definition SYSCALL_WRITE :: usize where "SYSCALL_WRITE = 64"
definition SYSCALL_MMAP :: usize where "SYSCALL_MMAP = 90"
definition SYSCALL_MUNMAP :: usize where "SYSCALL_MUNMAP = 215"
definition SYSCALL_EXIT :: usize where "SYSCALL_EXIT = 93"
definition SYSCALL_YIELD :: usize where "SYSCALL_YIELD = 124"
definition SYSCALL_TASK_INFO :: usize where "SYSCALL_TASK_INFO = push_bit 63 1 OR 1"

definition syscall_handler ::
  "platform \<Rightarrow> usize \<Rightarrow> usize \<Rightarrow> usize \<Rightarrow> usize \<Rightarrow> kernel \<Rightarrow> (flow \<times> kernel) option" where
  "syscall_handler e syscall_id arg0 arg1 arg2 k =
     (if syscall_id = SYSCALL_WRITE then sys_write e arg0 arg1 arg2 k
      else if syscall_id = SYSCALL_MMAP then mmap arg0 arg1 arg2 k
      else if syscall_id = SYSCALL_MUNMAP then munmap arg0 arg1 k
      else if syscall_id = SYSCALL_EXIT then sys_exit arg0 k
      else if syscall_id = SYSCALL_YIELD then sys_yield k
      else if syscall_id = SYSCALL_TASK_INFO then sys_task_info e arg0 arg1 k
      else None)"

end
