(* ===== verification/Trap.thy ===== *)
theory Trap
  imports Syscall
begin

text \<open>
  Traps from user mode: \<open>os/src/trap.rs\<close>, \<open>os/src/trap/utrap.rs\<close> and the entry and return paths of
  \<open>os/src/trap/trap.S\<close>.  The trap context lies in physical memory, on the kernel stack of the task,
  35 words from the address that \<open>sscratch\<close> holds in user mode.
\<close>

subsection \<open>The context in memory\<close>

definition ctx_word :: "usize \<Rightarrow> usize \<Rightarrow> phys_mem \<Rightarrow> usize" where
  "ctx_word ctx n m = load_u64 m (kptr_pa (ctx + 8 * n))"

definition set_ctx_word :: "usize \<Rightarrow> usize \<Rightarrow> usize \<Rightarrow> kernel \<Rightarrow> kernel" where
  "set_ctx_word ctx n w k =
     k\<lparr>mm := (mm k)\<lparr>phys := store_u64 (phys (mm k)) (kptr_pa (ctx + 8 * n)) w\<rparr>\<rparr>"

text \<open>
  \<open>__save_u_ctx\<close>: \<open>tp\<close> and \<open>sscratch\<close> are exchanged, the 32 registers, \<open>sstatus\<close> and \<open>sepc\<close> are stored,
  and \<open>sscratch\<close> becomes 0.  The user's \<open>tp\<close> is stored from \<open>sscratch\<close>, over the first value of its
  slot.
\<close>

definition save_u_ctx :: "usize list \<Rightarrow> kernel \<Rightarrow> kernel" where
  "save_u_ctx regs k =
     (let ctx = csrr SSCRATCH_CSR_NO (csrs k);
          c = csrw SSCRATCH_CSR_NO (regs ! 4) (csrs k);
          k = k\<lparr>csrs := c, tp := ctx\<rparr>;
          k = foldl (\<lambda>k n. set_ctx_word ctx (of_nat n) ((regs[4 := ctx]) ! n) k) k [0..<32];
          x5 = csrr SSCRATCH_CSR_NO (csrs k);
          k = k\<lparr>csrs := csrw SSCRATCH_CSR_NO 0 (csrs k)\<rparr>;
          k = set_ctx_word ctx 4 x5 k;
          k = set_ctx_word ctx 32 (csrr SSTATUS_CSR_NO (csrs k)) k
      in set_ctx_word ctx 33 (csrr SEPC_CSR_NO (csrs k)) k)"

text \<open>
  \<open>__restore_u_ctx\<close> and \<open>sret\<close>: the registers of the task, the program counter it continues at, and
  the kernel state it leaves behind.
\<close>

definition restore_u_ctx :: "kernel \<Rightarrow> usize list \<times> usize \<times> kernel" where
  "restore_u_ctx k =
     (let ctx = tp k; m = phys (mm k);
          c = csrw SSCRATCH_CSR_NO ctx (csrs k);
          c = csrw SSTATUS_CSR_NO (ctx_word ctx 32 m) c;
          c = csrw SEPC_CSR_NO (ctx_word ctx 33 m) c;
          regs = 0 # map (\<lambda>n. ctx_word ctx (of_nat n) m) [1..<32]
      in (regs, csrr SEPC_CSR_NO c, k\<lparr>csrs := c, tp := regs ! 4\<rparr>))"

subsection \<open>The user trap handler\<close>

text \<open>\<open>expect\<close> on the state exchange panics when the task is not running.\<close>

definition sleep_task :: "kernel \<Rightarrow> kernel option" where
  "sleep_task k = do {
     (r, k) \<leftarrow> exchange_current_task_state Running Ready k;
     case r of Inl _ \<Rightarrow> None | Inr _ \<Rightarrow> record_current_run_end k
   }"

definition kill_task :: "kernel \<Rightarrow> kernel option" where
  "kill_task k = do {
     (r, k) \<leftarrow> exchange_current_task_state Running Killed k;
     case r of Inl _ \<Rightarrow> None | Inr _ \<Rightarrow> record_current_run_end k
   }"

text \<open>\<open>Resumed\<close>: the handler returns the context; \<open>Left\<close>: it left through the scheduler.\<close>

datatype trap_end = Resumed usize | Left outcome

definition leave :: "kernel \<Rightarrow> (trap_end \<times> kernel) option" where
  "leave k = do {
     (out, k) \<leftarrow> run_next_task k;
     Some (Left out, k)
   }"

definition handle_user_fault :: "usize \<Rightarrow> usize \<Rightarrow> usize \<Rightarrow> usize \<Rightarrow> kernel \<Rightarrow> (trap_end \<times> kernel) option" where
  "handle_user_fault ctx tid stval min_permissions k = do {
     (r, k) \<leftarrow> do_page_fault tid stval min_permissions k;
     case r of
       Inl err \<Rightarrow> do { k \<leftarrow> kill_task k; leave k }
     | Inr _ \<Rightarrow> Some (Resumed ctx, k)
   }"

definition u_trap_handler :: "platform \<Rightarrow> usize \<Rightarrow> kernel \<Rightarrow> (trap_end \<times> kernel) option" where
  "u_trap_handler e ctx k = do {
     tid \<leftarrow> get_current_task_id k;
     let stval = stval_read (csrs k);
     let cause = match_cause (scause_read (csrs k));
     if cause = SupervisorTimerInterrupt then do { k \<leftarrow> sleep_task k; leave k }
     else if cause = UserEnvironmentCall then do {
       let syscall_id = ctx_word ctx 17 (phys (mm k));
       (recorded, k) \<leftarrow> record_current_syscall syscall_id k;
       let k = set_ctx_word ctx 33 (ctx_word ctx 33 (phys (mm k)) + 4) k;
       let m = phys (mm k);
       (r, k) \<leftarrow> syscall_handler e syscall_id (ctx_word ctx 10 m) (ctx_word ctx 11 m) (ctx_word ctx 12 m) k;
       case r of
         Returns v \<Rightarrow> Some (Resumed ctx, set_ctx_word ctx 10 v k)
       | Leaves out \<Rightarrow> Some (Left out, k)
     }
     else if cause = StoreOrAmoPageFault \<and> check_u_va stval
     then handle_user_fault ctx tid stval (PERMISSION_U OR PERMISSION_W) k
     else if cause = LoadPageFault \<and> check_u_va stval
     then handle_user_fault ctx tid stval (PERMISSION_U OR PERMISSION_R) k
     else if cause = IllegalInstruction \<or> cause = InstructionPageFault
     then do { k \<leftarrow> kill_task k; leave k }
     else None
   }"

subsection \<open>Enabling traps\<close>

definition enable_interrupts :: "csr_file \<Rightarrow> csr_file" where
  "enable_interrupts c = snd (set_sie c)"

definition enable_timer_interrupts :: "csr_file \<Rightarrow> csr_file" where
  "enable_timer_interrupts c = snd (sie_set_stie c)"

text \<open>\<open>stvec\<close> is the address of \<open>__stvec\<close>; the assertion on \<open>install\<close> panics.\<close>

definition trap_init :: "usize \<Rightarrow> csr_file \<Rightarrow> csr_file option" where
  "trap_init stvec c =
     (let c = csrw SSCRATCH_CSR_NO 0 c;
          (stvec_ok, c) = stvec_install stvec Direct c
      in if stvec_ok then Some (enable_timer_interrupts (enable_interrupts c)) else None)"

end
