(* ===== verification/Copy_Loop.thy ===== *)
theory Copy_Loop
  imports UAccess
begin

text \<open>
  The loop of \<open>__uaccess\<close> apart from what its load and store do: it is a counted loop over the
  bytes, and what a caller can rely on follows from the contract of the two instructions.
\<close>

subsection \<open>The loop counts bytes\<close>

text \<open>The reference: \<open>n\<close> bytes from \<open>a0\<close> to \<open>a1\<close>, with the number that is left when it stops.\<close>

primrec copy_n ::
  "(usize \<Rightarrow> usize \<Rightarrow> usize \<Rightarrow> 's \<Rightarrow> (u8 option \<times> 's) option)
    \<Rightarrow> (usize \<Rightarrow> usize \<Rightarrow> usize \<Rightarrow> u8 \<Rightarrow> 's \<Rightarrow> (bool \<times> 's) option)
    \<Rightarrow> nat \<Rightarrow> usize \<Rightarrow> usize \<Rightarrow> usize \<Rightarrow> 's \<Rightarrow> (nat \<times> 's) option" where
  "copy_n lb sb 0 a0 a1 t5 s = Some (0, s)"
| "copy_n lb sb (Suc n) a0 a1 t5 s = do {
     (c, s) \<leftarrow> lb a0 a1 t5 s;
     case c of
       None \<Rightarrow> Some (Suc n, s)
     | Some b \<Rightarrow> do {
         (stored, s) \<leftarrow> sb a0 a1 t5 b s;
         if stored then copy_n lb sb n (a0 + 1) (a1 + 1) t5 s else Some (Suc n, s)
       }
   }"

lemma sint_add_nat:
  assumes "sint (a :: usize) + int m < 2 ^ 63"
  shows "sint (a + of_nat m) = sint a + int m"
proof -
  have "sint (of_nat m :: usize) = signed_take_bit 63 (int m)"
    by (simp add: signed_of_nat)
  then have "sint (a + of_nat m) = signed_take_bit 63 (sint a + int m)"
    using signed_take_bit_add [of 63 "sint a" "int m"] sint_ge [of a] sint_lt [of a]
    unfolding sint_word_ariths by (simp add: signed_take_bit_int_eq_self)
  moreover have "- (2 ^ 63) \<le> sint a + int m" using sint_ge [of a] by simp
  ultimately show ?thesis using assms by (simp add: signed_take_bit_int_eq_self)
qed

text \<open>
  The signed comparison of the assembly is right as long as the range does not cross the middle
  of the address space.
\<close>

lemma uaccess_loop_copy_n:
  "t5 = a0 + of_nat n \<Longrightarrow> sint a0 + int n < 2 ^ 63 \<Longrightarrow>
    uaccess_loop lb sb a0 a1 t5 s = map_option (\<lambda>(r, s). (of_nat r, s)) (copy_n lb sb n a0 a1 t5 s)"
proof (induction n arbitrary: a0 a1 s)
  case 0
  then show ?case by (simp add: uaccess_loop.simps)
next
  case (Suc n)
  have t: "sint t5 = sint a0 + int (Suc n)" unfolding Suc.prems(1) by (rule sint_add_nat [OF Suc.prems(2)])
  have left: "t5 - a0 = of_nat (Suc n)" using Suc.prems(1) by simp
  have "sint (a0 + 1) = sint a0 + 1" using sint_add_nat [of a0 1] Suc.prems(2) by simp
  then have IH: "uaccess_loop lb sb (a0 + 1) (a1 + 1) t5 s =
      map_option (\<lambda>(r, s). (of_nat r, s)) (copy_n lb sb n (a0 + 1) (a1 + 1) t5 s)" for s
    by (intro Suc.IH) (use Suc.prems in simp_all)
  have "uaccess_loop lb sb a0 a1 t5 s = do {
      (c, s) \<leftarrow> lb a0 a1 t5 s;
      case c of
        None \<Rightarrow> Some (of_nat (Suc n), s)
      | Some b \<Rightarrow> do {
          (stored, s) \<leftarrow> sb a0 a1 t5 b s;
          if stored then uaccess_loop lb sb (a0 + 1) (a1 + 1) t5 s else Some (of_nat (Suc n), s)
        }
    }"
    by (subst uaccess_loop.simps, unfold left) (simp add: t del: of_nat_Suc)
  then show ?case
    by (auto simp: IH split: Option.bind_split option.split)
qed

lemma uaccess_copy_n:
  assumes "sint src + int (unat len) < 2 ^ 63"
  shows "uaccess lb sb src dst len s =
    map_option (\<lambda>(r, s). (of_nat r, s)) (copy_n lb sb (unat len) src dst (src + len) s)"
  unfolding uaccess_def by (rule uaccess_loop_copy_n) (use assms in simp_all)

subsection \<open>What a caller relies on\<close>

lemma add_nat_neq:
  assumes "0 < m" "m < 2 ^ 64"
  shows "(a :: usize) + of_nat m \<noteq> a"
proof
  assume "a + of_nat m = a"
  then have "unat (of_nat m :: usize) = 0" by simp
  then show False using assms by (simp add: unat_of_nat)
qed

text \<open>
  A load and a store between a source and a target memory: \<open>rd\<close> and \<open>wr\<close> read the two memories of
  a state, \<open>writable\<close> says where a store is possible.  A load returns what the source has, or
  nothing where it has nothing; it may extend the memories.  A store changes one byte of the
  target, or nothing where that is not possible.
\<close>

locale byte_copy =
  fixes lb :: "usize \<Rightarrow> usize \<Rightarrow> usize \<Rightarrow> 's \<Rightarrow> (u8 option \<times> 's) option"
    and sb :: "usize \<Rightarrow> usize \<Rightarrow> usize \<Rightarrow> u8 \<Rightarrow> 's \<Rightarrow> (bool \<times> 's) option"
    and ok :: "'s \<Rightarrow> bool" and src_ok dst_ok :: "usize \<Rightarrow> bool"
    and rd wr :: "'s \<Rightarrow> usize \<Rightarrow> u8 option" and writable :: "'s \<Rightarrow> usize \<Rightarrow> bool"
  assumes lb: "ok s \<Longrightarrow> src_ok a0 \<Longrightarrow> \<exists>s'. lb a0 a1 t5 s = Some (rd s' a0, s') \<and> ok s' \<and>
      (\<forall>a b. src_ok a \<longrightarrow> rd s a = Some b \<longrightarrow> rd s' a = Some b) \<and>
      (\<forall>a b. dst_ok a \<longrightarrow> wr s a = Some b \<longrightarrow> wr s' a = Some b)"
    and sb: "ok s \<Longrightarrow> dst_ok a1 \<Longrightarrow> \<exists>w s'. sb a0 a1 t5 c s = Some (w, s') \<and> ok s' \<and>
      (if w then wr s' a1 = Some c else \<not> writable s' a1) \<and>
      (\<forall>a b. src_ok a \<longrightarrow> rd s a = Some b \<longrightarrow> rd s' a = Some b) \<and>
      (\<forall>a b. dst_ok a \<longrightarrow> w \<longrightarrow> a \<noteq> a1 \<longrightarrow> wr s a = Some b \<longrightarrow> wr s' a = Some b) \<and>
      (\<forall>a b. dst_ok a \<longrightarrow> \<not> w \<longrightarrow> wr s a = Some b \<longrightarrow> wr s' a = Some b)"
begin

text \<open>The state after \<open>n - r\<close> of \<open>n\<close> bytes.\<close>

definition copied :: "nat \<Rightarrow> nat \<Rightarrow> usize \<Rightarrow> usize \<Rightarrow> 's \<Rightarrow> 's \<Rightarrow> bool" where
  "copied n r a0 a1 s s' \<longleftrightarrow> r \<le> n \<and> ok s' \<and>
     (\<forall>i < n - r. rd s' (a0 + of_nat i) \<noteq> None \<and> wr s' (a1 + of_nat i) = rd s' (a0 + of_nat i)) \<and>
     (\<forall>a b. src_ok a \<longrightarrow> rd s a = Some b \<longrightarrow> rd s' a = Some b) \<and>
     (\<forall>a b. dst_ok a \<longrightarrow> (\<forall>i < n - r. a \<noteq> a1 + of_nat i) \<longrightarrow> wr s a = Some b \<longrightarrow> wr s' a = Some b) \<and>
     (0 < r \<longrightarrow> rd s' (a0 + of_nat (n - r)) = None \<or> \<not> writable s' (a1 + of_nat (n - r)))"

lemma copiedD:
  assumes "copied n r a0 a1 s s'"
  shows "r \<le> n" "ok s'" "i < n - r \<Longrightarrow> rd s' (a0 + of_nat i) \<noteq> None"
    "i < n - r \<Longrightarrow> wr s' (a1 + of_nat i) = rd s' (a0 + of_nat i)"
    "src_ok a \<Longrightarrow> rd s a = Some b \<Longrightarrow> rd s' a = Some b"
    "dst_ok a \<Longrightarrow> (\<And>i. i < n - r \<Longrightarrow> a \<noteq> a1 + of_nat i) \<Longrightarrow> wr s a = Some b \<Longrightarrow> wr s' a = Some b"
    "0 < r \<Longrightarrow> rd s' (a0 + of_nat (n - r)) = None \<or> \<not> writable s' (a1 + of_nat (n - r))"
  using assms unfolding copied_def by blast+

lemma copied_step:
  assumes c: "copied n r (a0 + 1) (a1 + 1) s2 s'" and small: "n < 2 ^ 64 - 1"
    and ok: "src_ok a0" "dst_ok a1" and a0: "rd s2 a0 = Some b" "wr s2 a1 = Some b"
    and rd: "\<And>a b. src_ok a \<Longrightarrow> rd s a = Some b \<Longrightarrow> rd s2 a = Some b"
    and wr: "\<And>a b. dst_ok a \<Longrightarrow> a \<noteq> a1 \<Longrightarrow> wr s a = Some b \<Longrightarrow> wr s2 a = Some b"
  shows "copied (Suc n) r a0 a1 s s'"
proof -
  have r: "r \<le> n" using c by (simp add: copied_def)
  have shift: "x + of_nat (Suc i) = x + 1 + of_nat i" for x :: usize and i by (simp add: algebra_simps)
  have S: "Suc n - r = Suc (n - r)" using r by simp
  have away: "a1 \<noteq> a1 + of_nat (Suc i)" if "i < n - r" for i
  proof -
    have "Suc i < 2 ^ 64" using that small by auto
    from add_nat_neq [OF _ this, of a1] show ?thesis by (metis zero_less_Suc)
  qed
  have "rd s' (a0 + of_nat i) \<noteq> None \<and> wr s' (a1 + of_nat i) = rd s' (a0 + of_nat i)" if "i < Suc n - r" for i
  proof (cases i)
    case 0
    have "rd s' a0 = Some b" using c ok(1) a0(1) by (simp add: copied_def)
    moreover have "a1 \<noteq> a1 + 1 + of_nat i" if "i < n - r" for i using away [OF that] unfolding shift .
    then have "wr s' a1 = Some b" using c ok(2) a0(2) unfolding copied_def by blast
    ultimately show ?thesis using 0 by simp
  next
    case (Suc j)
    then have "j < n - r" using that S by simp
    with c show ?thesis unfolding Suc shift copied_def by blast
  qed
  moreover have "wr s' a = Some d" if "dst_ok a" "\<forall>i < Suc n - r. a \<noteq> a1 + of_nat i" "wr s a = Some d" for a d
  proof -
    have "a \<noteq> a1" using spec [OF that(2), of 0] unfolding S by simp
    moreover have "a \<noteq> a1 + 1 + of_nat i" if "i < n - r" for i
      using spec [OF \<open>\<forall>i < Suc n - r. a \<noteq> a1 + of_nat i\<close>, of "Suc i"] that unfolding S shift by simp
    ultimately show ?thesis using c that(1,3) wr unfolding copied_def by blast
  qed
  moreover have "0 < r \<longrightarrow> rd s' (a0 + of_nat (Suc n - r)) = None \<or> \<not> writable s' (a1 + of_nat (Suc n - r))"
    using c unfolding S shift copied_def by blast
  ultimately show ?thesis using c rd r unfolding copied_def by auto
qed

lemma copy_n_copied:
  "ok s \<Longrightarrow> n < 2 ^ 64 \<Longrightarrow> \<forall>i < n. src_ok (a0 + of_nat i) \<and> dst_ok (a1 + of_nat i) \<Longrightarrow>
    \<exists>r s'. copy_n lb sb n a0 a1 t5 s = Some (r, s') \<and> copied n r a0 a1 s s'"
proof (induction n arbitrary: a0 a1 s)
  case 0
  then show ?case by (simp add: copied_def)
next
  case (Suc n)
  have u: "src_ok a0" "dst_ok a1" using Suc.prems(3) by (auto dest: spec [of _ 0])
  obtain s1 where s1: "lb a0 a1 t5 s = Some (rd s1 a0, s1)" "ok s1"
    "\<forall>a b. src_ok a \<longrightarrow> rd s a = Some b \<longrightarrow> rd s1 a = Some b" "\<forall>a b. dst_ok a \<longrightarrow> wr s a = Some b \<longrightarrow> wr s1 a = Some b"
    using lb [OF Suc.prems(1) u(1)] by blast
  show ?case
  proof (cases "rd s1 a0")
    case None
    then show ?thesis using s1 by (intro exI [of _ "Suc n"] exI [of _ s1]) (simp add: copied_def)
  next
    case (Some b)
    obtain w s2 where s2: "sb a0 a1 t5 b s1 = Some (w, s2)" "ok s2"
      "if w then wr s2 a1 = Some b else \<not> writable s2 a1" "\<forall>a b. src_ok a \<longrightarrow> rd s1 a = Some b \<longrightarrow> rd s2 a = Some b"
      "\<forall>a b. dst_ok a \<longrightarrow> w \<longrightarrow> a \<noteq> a1 \<longrightarrow> wr s1 a = Some b \<longrightarrow> wr s2 a = Some b"
      "\<forall>a b. dst_ok a \<longrightarrow> \<not> w \<longrightarrow> wr s1 a = Some b \<longrightarrow> wr s2 a = Some b"
      using sb [OF s1(2) u(2)] by blast
    show ?thesis
    proof (cases w)
      case False
      then show ?thesis using s1 s2 Some by (intro exI [of _ "Suc n"] exI [of _ s2]) (simp add: copied_def)
    next
      case True
      have "\<forall>i < n. src_ok (a0 + 1 + of_nat i) \<and> dst_ok (a1 + 1 + of_nat i)"
      proof (intro allI impI)
        fix i assume "i < n"
        then show "src_ok (a0 + 1 + of_nat i) \<and> dst_ok (a1 + 1 + of_nat i)"
          using spec [OF Suc.prems(3), of "Suc i"] by (simp add: algebra_simps)
      qed
      then obtain r s' where r: "copy_n lb sb n (a0 + 1) (a1 + 1) t5 s2 = Some (r, s')"
        "copied n r (a0 + 1) (a1 + 1) s2 s'"
        using Suc.IH [OF s2(2), of "a0 + 1" "a1 + 1"] Suc_lessD [OF Suc.prems(2)] by blast
      have "copied (Suc n) r a0 a1 s s'"
        by (rule copied_step [OF r(2) _ u, of b]) (use u Suc.prems(2) s1 s2 Some True in simp_all)
      with r(1) s1(1) s2(1) Some True show ?thesis by (intro exI [of _ r] exI [of _ s']) simp
    qed
  qed
qed

lemma uaccess_copied:
  assumes "ok s" "sint src + int (unat len) < 2 ^ 63"
    and "\<And>i. i < unat len \<Longrightarrow> src_ok (src + of_nat i) \<and> dst_ok (dst + of_nat i)"
  obtains r s' where "uaccess lb sb src dst len s = Some (of_nat r, s')" "copied (unat len) r src dst s s'"
proof -
  have "unat len < 2 ^ 64" using unsigned_less [of len, where 'a = nat] by simp
  then obtain r s' where "copy_n lb sb (unat len) src dst (src + len) s = Some (r, s')" "copied (unat len) r src dst s s'"
    using copy_n_copied [OF assms(1)] assms(3) by blast
  then show ?thesis by (intro that [of r s']) (simp_all add: uaccess_copy_n [OF assms(2)])
qed

end

text \<open>
  The same copy seen on a memory \<open>M\<close> that does not depend on what happens to be mapped: \<open>rok\<close> and \<open>wok\<close>
  say which cells may be read and written, \<open>put\<close> what a store does to a cell.  A load leaves this
  memory alone, a store changes the cell it writes, and both fail only where the cell does not allow
  the access, or because resources have run out (\<open>full\<close>).
\<close>

locale memory_copy = byte_copy +
  fixes M :: "'a \<Rightarrow> usize \<Rightarrow> 'c" and full :: "'a \<Rightarrow> bool"
    and rok wok :: "'c \<Rightarrow> bool" and put :: "u8 \<Rightarrow> 'c \<Rightarrow> 'c"
  assumes lb_memory: "ok s \<Longrightarrow> src_ok a0 \<Longrightarrow> lb a0 a1 t5 s = Some (b, s') \<Longrightarrow>
      M s' = M s \<and> (b = None \<longrightarrow> full s' \<or> \<not> rok (M s a0))"
    and sb_memory: "ok s \<Longrightarrow> dst_ok a1 \<Longrightarrow> sb a0 a1 t5 c s = Some (w, s') \<Longrightarrow>
      M s' = (if w then (M s)(a1 := put c (M s a1)) else M s) \<and> (\<not> w \<longrightarrow> full s' \<or> \<not> wok (M s a1))"
    and put_kind: "rok (put c x) = rok x" "wok (put c x) = wok x"
begin

text \<open>
  The memory after \<open>n - r\<close> of \<open>n\<close> bytes, which the source has in the final state, and why the copy
  stopped if it did.
\<close>

definition stored :: "nat \<Rightarrow> nat \<Rightarrow> usize \<Rightarrow> usize \<Rightarrow> 'a \<Rightarrow> 'a \<Rightarrow> bool" where
  "stored n r a0 a1 s s' \<longleftrightarrow>
     (\<forall>a. (\<forall>i < n - r. a \<noteq> a1 + of_nat i) \<longrightarrow> M s' a = M s a) \<and>
     (\<forall>i < n - r. M s' (a1 + of_nat i) = put (the (rd s' (a0 + of_nat i))) (M s (a1 + of_nat i))) \<and>
     (0 < r \<longrightarrow> full s' \<or> \<not> rok (M s (a0 + of_nat (n - r))) \<or> \<not> wok (M s (a1 + of_nat (n - r))))"

lemma stored_step:
  assumes st: "stored n r (a0 + 1) (a1 + 1) s2 s'" and small: "r \<le> n" "n < 2 ^ 64 - 1"
    and b: "rd s' a0 = Some b" and M2: "M s2 = (M s)(a1 := put b (M s a1))"
  shows "stored (Suc n) r a0 a1 s s'"
proof -
  have S: "Suc n - r = Suc (n - r)" using small(1) by simp
  have shift: "x + of_nat (Suc i) = x + 1 + of_nat i" for x :: usize and i by (simp add: algebra_simps)
  have away: "a1 + 1 + of_nat i \<noteq> a1" if "i < n - r" for i
    using add_nat_neq [of "Suc i" a1] that small unfolding shift by simp
  have kinds: "rok (M s2 a) = rok (M s a)" "wok (M s2 a) = wok (M s a)" for a by (simp_all add: M2 put_kind)
  have "M s' a = M s a" if "\<forall>i < Suc n - r. a \<noteq> a1 + of_nat i" for a
  proof -
    have "a \<noteq> a1" using spec [OF that, of 0] unfolding S by simp
    moreover have "a \<noteq> a1 + 1 + of_nat i" if "i < n - r" for i
      using spec [OF \<open>\<forall>i < Suc n - r. a \<noteq> a1 + of_nat i\<close>, of "Suc i"] that unfolding S shift by simp
    ultimately show ?thesis using st M2 unfolding stored_def by simp
  qed
  moreover have "M s' (a1 + of_nat i) = put (the (rd s' (a0 + of_nat i))) (M s (a1 + of_nat i))" if "i < Suc n - r" for i
  proof (cases i)
    case 0
    have "M s' a1 = M s2 a1" using st away unfolding stored_def by metis
    then show ?thesis using 0 b M2 by simp
  next
    case (Suc j)
    then have j: "j < n - r" using that S by simp
    then show ?thesis using st away [OF j] M2 unfolding Suc shift stored_def by simp
  qed
  moreover have "0 < r \<longrightarrow> full s' \<or> \<not> rok (M s (a0 + of_nat (Suc n - r))) \<or> \<not> wok (M s (a1 + of_nat (Suc n - r)))"
    using st unfolding S shift stored_def kinds by blast
  ultimately show ?thesis unfolding stored_def by blast
qed

lemma copy_n_stored:
  "ok s \<Longrightarrow> n < 2 ^ 64 \<Longrightarrow> \<forall>i < n. src_ok (a0 + of_nat i) \<and> dst_ok (a1 + of_nat i) \<Longrightarrow>
    copy_n lb sb n a0 a1 t5 s = Some (r, s') \<Longrightarrow> stored n r a0 a1 s s'"
proof (induction n arbitrary: a0 a1 s)
  case 0
  then show ?case by (simp add: stored_def)
next
  case (Suc n)
  have u: "src_ok a0" "dst_ok a1" using Suc.prems(3) by (auto dest: spec [of _ 0])
  obtain s1 where s1: "lb a0 a1 t5 s = Some (rd s1 a0, s1)" "ok s1" using lb [OF Suc.prems(1) u(1)] by blast
  note L = lb_memory [OF Suc.prems(1) u(1) s1(1)]
  show ?case
  proof (cases "rd s1 a0")
    case None
    then have "r = Suc n" "s' = s1" using Suc.prems(4) s1(1) by simp_all
    then show ?thesis using L None by (auto simp: stored_def)
  next
    case (Some b)
    obtain w s2 where s2: "sb a0 a1 t5 b s1 = Some (w, s2)" "ok s2" "\<forall>a b. src_ok a \<longrightarrow> rd s1 a = Some b \<longrightarrow> rd s2 a = Some b"
      using sb [OF s1(2) u(2)] by blast
    note S = sb_memory [OF s1(2) u(2) s2(1)]
    show ?thesis
    proof (cases w)
      case False
      then have "r = Suc n" "s' = s2" using Suc.prems(4) s1(1) s2(1) Some by simp_all
      then show ?thesis using S L False by (auto simp: stored_def)
    next
      case True
      have range: "\<forall>i < n. src_ok (a0 + 1 + of_nat i) \<and> dst_ok (a1 + 1 + of_nat i)"
        using Suc.prems(3) by (metis Suc_less_eq add.assoc of_nat_Suc)
      have n: "n < 2 ^ 64" using Suc.prems(2) by simp
      have run: "copy_n lb sb n (a0 + 1) (a1 + 1) t5 s2 = Some (r, s')" using Suc.prems(4) s1(1) s2(1) Some True by simp
      have c: "copied n r (a0 + 1) (a1 + 1) s2 s'" using copy_n_copied [OF s2(2) n range, of t5] run by auto
      have "rd s' a0 = Some b" using copiedD(5) [OF c u(1)] s2(3) u(1) Some by blast
      then show ?thesis
        by (intro stored_step [OF Suc.IH [OF s2(2) n range run] copiedD(1) [OF c]]) (use Suc.prems(2) S L True in simp_all)
    qed
  qed
qed

lemma uaccess_stored:
  assumes "ok s" "sint src + int (unat len) < 2 ^ 63"
    and r: "\<And>i. i < unat len \<Longrightarrow> src_ok (src + of_nat i) \<and> dst_ok (dst + of_nat i)"
  obtains r s' where "uaccess lb sb src dst len s = Some (of_nat r, s')" "copied (unat len) r src dst s s'"
    "stored (unat len) r src dst s s'"
proof -
  have n: "unat len < 2 ^ 64" using unsigned_less [of len, where 'a = nat] by simp
  then obtain r s' where c: "copy_n lb sb (unat len) src dst (src + len) s = Some (r, s')" "copied (unat len) r src dst s s'"
    using copy_n_copied [OF assms(1)] r by blast
  have "stored (unat len) r src dst s s'" by (rule copy_n_stored [OF assms(1) n _ c(1)]) (use r in blast)
  then show ?thesis using c by (intro that [of r s']) (simp_all add: uaccess_copy_n [OF assms(2)])
qed

end

end
