(* ===== verification/Kernel_Inv.thy ===== *)
theory Kernel_Inv
  imports Trap Task_Sched
begin

text \<open>
  The invariant of the kernel state: every task has a space in good standing, a kernel stack
  with its trap context on top, and a context that leads back there; the spaces of different
  tasks share nothing but kernel tables.  The main lemma says how an operation on the space of
  one task keeps it and leaves all other tasks untouched.
\<close>

subsection \<open>The kernel stack of a task\<close>

definition stack_page :: "VMSpace \<Rightarrow> PPN \<Rightarrow> bool" where
  "stack_page v p \<longleftrightarrow> (\<exists>a w q. a \<in># kstacks v \<and> map_of (pages a) w = Some q \<and> get_ppn q = p \<and>
     k_stack_end v = get_pa p + KERNEL_VA_OFFSET + PAGE_SIZE_BYTES)"

definition task_ok :: "TaskControlBlock \<Rightarrow> mm_state \<Rightarrow> bool" where
  "task_ok t s \<longleftrightarrow> space_ok (vm_space t) s \<and> (\<exists>p. stack_page (vm_space t) p) \<and>
     upper_private (root_pgt (vm_space t)) s \<and>
     ctx_satp (tcontext t) = RootPgt_get_satp (root_pgt (vm_space t)) \<and>
     ctx_tp (tcontext t) = k_stack_end (vm_space t) - TRAP_CONTEXT_SIZE \<and>
     get_task_id_from_ptr (ctx_tp (tcontext t)) (phys s) = task_id t"

definition tasks_ok :: "TaskControlBlock multiset \<Rightarrow> mm_state \<Rightarrow> bool" where
  "tasks_ok A s \<longleftrightarrow> ids_distinct A \<and> mm_inv s \<and> (\<forall>t \<in># A. task_ok t s) \<and>
     (\<forall>t \<in># A. \<forall>u \<in># A. task_id t \<noteq> task_id u \<longrightarrow> spaces_apart (vm_space t) (vm_space u) s)"

text \<open>The words of the trap context are words of the stack page.\<close>

definition stack_ctx :: "PPN \<Rightarrow> usize" where
  "stack_ctx p = get_pa p + KERNEL_VA_OFFSET + PAGE_SIZE_BYTES - TRAP_CONTEXT_SIZE"

lemma stack_ctx_addr: "kptr_pa (stack_ctx p + 8 * n) = get_pa p + 8 * (477 + n)"
  by (simp add: stack_ctx_def kptr_pa_def TRAP_CONTEXT_SIZE_def kconst algebra_simps)

lemma ctx_word_tab:
  "reachable_ppn p \<Longrightarrow> n < 35 \<Longrightarrow> ctx_word (stack_ctx p) n m = pte_bits (tab m p (477 + n))"
  by (simp add: ctx_word_def stack_ctx_addr tab_def word_less_nat_alt unat_word_ariths)

lemma stack_word: "n < 35 \<Longrightarrow> 477 + n < (512 :: usize)"
  by (simp add: word_less_nat_alt unat_word_ariths)

lemma task_id_tab: "reachable_ppn p \<Longrightarrow> get_task_id_from_ptr (stack_ctx p) m = pte_bits (tab m p 511)"
  using ctx_word_tab [of p 34 m] by (simp add: get_task_id_from_ptr_def ctx_word_def)

lemma stack_page_data: "stack_page v p \<Longrightarrow> p \<in> data_pages v"
  using area_page_data by (auto simp: stack_page_def)

lemma stack_page_ctx: "stack_page v p \<Longrightarrow> k_stack_end v - TRAP_CONTEXT_SIZE = stack_ctx p"
  by (auto simp: stack_page_def stack_ctx_def)

lemma stack_page_cong: "kstacks v' = kstacks v \<Longrightarrow> k_stack_end v' = k_stack_end v \<Longrightarrow> stack_page v' p \<longleftrightarrow> stack_page v p"
  by (simp add: stack_page_def)

lemma data_page_reachable: "space_ok v s \<Longrightarrow> p \<in> data_pages v \<Longrightarrow> reachable_ppn p"
  unfolding reachable_ppn_def using held_ppn_small [OF space_okD(8) subsetD [OF space_okD(5)]] by blast

lemma task_okD:
  assumes "task_ok t s"
  obtains p where "space_ok (vm_space t) s" "stack_page (vm_space t) p" "ctx_tp (tcontext t) = stack_ctx p"
    "reachable_ppn p" "p \<in> data_pages (vm_space t)" "pte_bits (tab (phys s) p 511) = task_id t"
    "ctx_satp (tcontext t) = RootPgt_get_satp (root_pgt (vm_space t))" "upper_private (root_pgt (vm_space t)) s"
proof -
  obtain p where p: "stack_page (vm_space t) p" "space_ok (vm_space t) s" "upper_private (root_pgt (vm_space t)) s"
    using assms by (auto simp: task_ok_def)
  note d = stack_page_data [OF p(1)]
  with data_page_reachable [OF p(2)] have r: "reachable_ppn p" by blast
  have c: "ctx_tp (tcontext t) = stack_ctx p" "get_task_id_from_ptr (ctx_tp (tcontext t)) (phys s) = task_id t"
    "ctx_satp (tcontext t) = RootPgt_get_satp (root_pgt (vm_space t))"
    using assms stack_page_ctx [OF p(1)] unfolding task_ok_def by auto
  have "pte_bits (tab (phys s) p 511) = task_id t" using c(1,2) task_id_tab [OF r] by simp
  with p d r c show ?thesis by (intro that [of p])
qed

lemma task_okI:
  assumes "space_ok (vm_space t) s" "stack_page (vm_space t) p" "ctx_tp (tcontext t) = stack_ctx p"
    "pte_bits (tab (phys s) p 511) = task_id t"
    "ctx_satp (tcontext t) = RootPgt_get_satp (root_pgt (vm_space t))" "upper_private (root_pgt (vm_space t)) s"
  shows "task_ok t s"
  using assms data_page_reachable [OF assms(1) stack_page_data [OF assms(2)]]
  by (auto simp: task_ok_def stack_page_ctx task_id_tab)

lemma upper_private_same:
  assumes "upper_private (root_pgt v) s" "space_ok v s"
    and m: "\<And>a. PPN (drop_bit 12 a) \<in> table_pages (mtab s) (root_ppn (root_pgt v)) \<Longrightarrow> phys s' a = phys s a"
  shows "upper_private (root_pgt v) s'"
proof (rule upper_private_kept [OF assms(1) pgt_userD(1) [OF space_okD(1) [OF assms(2)]] refl])
  have "mtab s' (root_ppn (root_pgt v)) = mtab s (root_ppn (root_pgt v))"
    by (rule tab_page_cong, rule m) (simp add: table_pages_intros)
  then show "mtab s' (root_ppn (root_pgt v)) i = mtab s (root_ppn (root_pgt v)) i" for i by simp
qed (rule m)

lemma upper_private_framed:
  assumes p: "upper_private (root_pgt v) s" and ok: "space_ok v s" and f: "vm_frame v s v' s'" and k: "body_kept v s v' s'"
  shows "upper_private (root_pgt v') s'"
proof -
  note D = space_okD [OF ok]
  show ?thesis
  proof (rule upper_private_kept [OF p pgt_userD(1) [OF D(1)] body_keptD(1) [OF k]])
    show "mtab s' (root_ppn (root_pgt v)) i = mtab s (root_ppn (root_pgt v)) i" if "i \<notin> user_half" for i
      by (rule body_keptD(9) [OF k that])
    fix a assume a: "PPN (drop_bit 12 a) \<in> table_pages (mtab s) (root_ppn (root_pgt v))"
      "PPN (drop_bit 12 a) \<notin> under (mtab s) (root_ppn (root_pgt v)) user_half"
    have "get_ppn ` set (root_pages (root_pgt v)) = under (mtab s) (root_ppn (root_pgt v)) user_half"
      using D(1) by (simp add: pgt_user_def)
    then have "PPN (drop_bit 12 a) \<notin> own v \<union> mfree s" using a D(6,9,10) unfolding own_def by blast
    then show "phys s' a = phys s a" using f unfolding vm_frame_def by blast
  qed
qed

subsection \<open>An operation on one task\<close>

text \<open>
  The saved context of a task: of its 35 words an operation may change those in \<open>W\<close>.
\<close>

definition ctx_kept :: "usize set \<Rightarrow> TaskControlBlock \<Rightarrow> mm_state \<Rightarrow> mm_state \<Rightarrow> bool" where
  "ctx_kept W t s s' \<longleftrightarrow> (\<forall>n < 35. n \<notin> W \<longrightarrow>
     ctx_word (ctx_tp (tcontext t)) n (phys s') = ctx_word (ctx_tp (tcontext t)) n (phys s))"

lemma ctx_kept_refl: "ctx_kept W t s s"
  by (simp add: ctx_kept_def)

lemma ctx_kept_trans:
  "ctx_kept W t s s' \<Longrightarrow> ctx_kept W' t' s' s'' \<Longrightarrow> tcontext t' = tcontext t \<Longrightarrow> ctx_kept (W \<union> W') t s s''"
  by (simp add: ctx_kept_def)

text \<open>
  What an operation on the block \<open>t\<close> must respect: the identity and context of the block, the
  frame of its space, its stack, and the context and id stored there.
\<close>

definition block_step ::
  "usize set \<Rightarrow> TaskControlBlock \<Rightarrow> mm_state \<Rightarrow> TaskControlBlock \<Rightarrow> mm_state \<Rightarrow> bool" where
  "block_step W t s t' s' \<longleftrightarrow> task_id t' = task_id t \<and> tcontext t' = tcontext t \<and> ctx_kept W t s s' \<and>
     task_ok t' s' \<and> vm_frame (vm_space t) s (vm_space t') s' \<and>
     root_ppn (root_pgt (vm_space t')) = root_ppn (root_pgt (vm_space t)) \<and>
     table_pages (mtab s') (root_ppn (root_pgt (vm_space t))) \<subseteq>
       table_pages (mtab s) (root_ppn (root_pgt (vm_space t))) \<union> own (vm_space t')"

text \<open>What a task sees of memory: its mapping and the bytes of its pages.\<close>

definition same_view :: "VMSpace \<Rightarrow> mm_state \<Rightarrow> mm_state \<Rightarrow> bool" where
  "same_view v s s' \<longleftrightarrow> lookup (root_pgt v) s' = lookup (root_pgt v) s \<and>
     (\<forall>a. PPN (drop_bit 12 a) \<in> own v \<longrightarrow> phys s' a = phys s a)"

lemma same_view_refl: "same_view v s s"
  by (simp add: same_view_def)

lemma same_view_trans: "same_view v s s' \<Longrightarrow> same_view v s' s'' \<Longrightarrow> same_view v s s''"
  by (simp add: same_view_def)

lemma tab_page_cong_bytes:
  assumes "\<And>a. PPN (drop_bit 12 a) = p \<Longrightarrow> m' a = m a" "reachable_ppn p" "i < 512"
  shows "tab m' p i = tab m p i"
proof -
  have "m' (get_pa p + 8 * i + k) = m (get_pa p + 8 * i + k)" if "unat k < 8" for k
  proof (rule assms(1))
    have "unat (8 * i + k) = 8 * unat i + unat k" "8 * unat i + unat k < 4096"
      using assms(3) that by (simp_all add: unat_word_ariths word_less_nat_alt)
    then show "PPN (drop_bit 12 (get_pa p + 8 * i + k)) = p"
      using drop_bit_get_pa_add(1) [of p "8 * i + k"] assms(2) by (simp add: reachable_ppn_def add.assoc)
  qed
  from this [of 0] this [of 1] this [of 2] this [of 3] this [of 4] this [of 5] this [of 6] this [of 7]
  show ?thesis by (simp add: tab_def load_u64_def)
qed

lemma task_ok_frame:
  assumes t: "task_ok t s" "space_ok v' s'" "vm_frame v s v' s'" "spaces_apart v (vm_space t) s"
  shows "task_ok t s'" "spaces_apart v' (vm_space t) s'" "same_view (vm_space t) s s'"
proof -
  obtain p where p: "space_ok (vm_space t) s" "stack_page (vm_space t) p" "ctx_tp (tcontext t) = stack_ctx p"
    "reachable_ppn p" "p \<in> data_pages (vm_space t)" "pte_bits (tab (phys s) p 511) = task_id t"
    "ctx_satp (tcontext t) = RootPgt_get_satp (root_pgt (vm_space t))" "upper_private (root_pgt (vm_space t)) s"
    by (rule task_okD [OF t(1)])
  note F = frame_isolates [OF t(2,3) p(1) t(4)]
  have "upper_private (root_pgt (vm_space t)) s'"
    by (rule upper_private_same [OF p(8,1) F(6)])
  show "spaces_apart v' (vm_space t) s'" by (rule F(2))
  show "same_view (vm_space t) s s'" using F(3,4) by (simp add: same_view_def)
  have "tab (phys s') p 511 = tab (phys s) p 511"
    by (rule tab_page_cong_bytes [OF F(4) p(4)]) (use p(5) in \<open>auto simp: own_def\<close>)
  with p F(1) \<open>upper_private (root_pgt (vm_space t)) s'\<close> show "task_ok t s'" by (intro task_okI [of t s' p]) simp_all
qed

lemma tasks_ok_step:
  assumes ok: "tasks_ok (add_mset t B) s" and st: "block_step W t s t' s'"
  shows "tasks_ok (add_mset t' B) s'" "\<And>u. u \<in># B \<Longrightarrow> same_view (vm_space u) s s'"
proof -
  let ?v = "vm_space t" and ?v' = "vm_space t'"
  have S: "task_id t' = task_id t" "task_ok t' s'" "vm_frame ?v s ?v' s'"
    "root_ppn (root_pgt ?v') = root_ppn (root_pgt ?v)"
    "table_pages (mtab s') (root_ppn (root_pgt ?v)) \<subseteq> table_pages (mtab s) (root_ppn (root_pgt ?v)) \<union> own ?v'"
    using st unfolding block_step_def by blast+
  have ok': "space_ok ?v' s'" using S(2) by (simp add: task_ok_def)
  have ne: "task_id u \<noteq> task_id t" if "u \<in># B" for u
  proof -
    have "task_id t \<notin> task_id ` set_mset B" using ok by (simp add: tasks_ok_def ids_distinct_add)
    then show ?thesis using that by (metis imageI)
  qed
  have B: "task_ok u s" "spaces_apart ?v (vm_space u) s" "spaces_apart (vm_space u) ?v s" if "u \<in># B" for u
    using ok that ne [OF that] by (simp_all add: tasks_ok_def)
  note F = task_ok_frame [OF B(1) ok' S(3) B(2)]
  show "\<And>u. u \<in># B \<Longrightarrow> same_view (vm_space u) s s'" by (rule F(3))
  have rev_apart: "spaces_apart (vm_space u) ?v' s'" if u: "u \<in># B" for u
  proof -
    have "own (vm_space u) \<inter> own ?v' = {}" using F(2) [OF u u] by (auto simp: spaces_apart_def)
    moreover have "own (vm_space u) \<inter> table_pages (mtab s) (root_ppn (root_pgt ?v)) = {}"
      using B(3) [OF u] by (auto simp: spaces_apart_def)
    ultimately show ?thesis using S(4,5) by (auto simp: spaces_apart_def)
  qed
  have mutual: "spaces_apart (vm_space u) (vm_space w) s'" if "u \<in># B" "w \<in># B" "task_id u \<noteq> task_id w" for u w
  proof -
    have uw: "spaces_apart (vm_space u) (vm_space w) s" using ok that by (simp add: tasks_ok_def)
    have w: "space_ok (vm_space w) s" using B(1) [OF that(2)] by (simp add: task_ok_def)
    have "table_pages (mtab s') (root_ppn (root_pgt (vm_space w))) = table_pages (mtab s) (root_ppn (root_pgt (vm_space w)))"
      by (rule frame_isolates(5) [OF ok' S(3) w B(2) [OF that(2)]])
    with uw show ?thesis by (simp add: spaces_apart_def)
  qed
  have "mm_inv s'" by (rule space_okD(8) [OF ok'])
  moreover have "ids_distinct (add_mset t' B)" using ok S(1) by (simp add: tasks_ok_def ids_distinct_add)
  ultimately show "tasks_ok (add_mset t' B) s'"
    using S(1,2) F(1,2) rev_apart mutual ne unfolding tasks_ok_def by (auto simp: S(1))
qed

end
