(* ===== verification/User_Mem.thy ===== *)
theory User_Mem
  imports Mmu
begin

text \<open>
  What an address space promises to its program.  The abstract memory of a space gives each
  reserved address its permissions and its byte, whether or not a page is behind it yet: a
  reserved page reads as zeros until it is written.  A page fault is a step that this memory does
  not see, and it succeeds wherever the memory grants the access and pages are left.
\<close>

subsection \<open>The abstract memory\<close>

type_synonym user_memory = "usize \<Rightarrow> (usize \<times> u8) option"

definition reserved :: "VMSpace \<Rightarrow> VPN \<Rightarrow> (MapType \<times> usize) option" where
  "reserved v w = map_option (\<lambda>a. (map_type a, permissions a)) (find (\<lambda>a. contain_vpn a w) (areas v))"

definition backing :: "VMSpace \<Rightarrow> mm_state \<Rightarrow> usize \<Rightarrow> u8" where
  "backing v s va = (case lookup (root_pgt v) s (va_vpn va) of
     None \<Rightarrow> 0
   | Some e \<Rightarrow> phys s (get_pa (pte_ppn e) + take_bit 12 va))"

definition user_mem :: "VMSpace \<Rightarrow> mm_state \<Rightarrow> user_memory" where
  "user_mem v s va = map_option (\<lambda>(mt, pm). (pm, backing v s va)) (reserved v (va_vpn va))"

text \<open>The operations a program may rely on, on whole pages from \<open>lo\<close> up to \<open>hi\<close>.\<close>

definition in_pages :: "VPN \<Rightarrow> VPN \<Rightarrow> usize \<Rightarrow> bool" where
  "in_pages lo hi va \<longleftrightarrow> lo \<le> va_vpn va \<and> va_vpn va < hi"

definition spec_reserve :: "VPN \<Rightarrow> VPN \<Rightarrow> usize \<Rightarrow> user_memory \<Rightarrow> user_memory" where
  "spec_reserve lo hi pm M = (\<lambda>va. if in_pages lo hi va then Some (pm, 0) else M va)"

definition spec_release :: "VPN \<Rightarrow> VPN \<Rightarrow> user_memory \<Rightarrow> user_memory" where
  "spec_release lo hi M = (\<lambda>va. if in_pages lo hi va then None else M va)"

definition spec_store :: "usize \<Rightarrow> u8 \<Rightarrow> user_memory \<Rightarrow> user_memory" where
  "spec_store a b M = M(a := map_option (\<lambda>(pm, _). (pm, b)) (M a))"

definition spec_write :: "usize \<Rightarrow> u8 list \<Rightarrow> user_memory \<Rightarrow> user_memory" where
  "spec_write a bs M = (\<lambda>va. if unat (va - a) < length bs
     then map_option (\<lambda>(pm, _). (pm, bs ! unat (va - a))) (M va) else M va)"

text \<open>Equality on the addresses of user programs.\<close>

definition same_user :: "user_memory \<Rightarrow> user_memory \<Rightarrow> bool" where
  "same_user M N \<longleftrightarrow> (\<forall>va. unat va < 2 ^ 38 \<longrightarrow> M va = N va)"

lemma same_user_refl: "same_user M M"
  by (simp add: same_user_def)

lemma same_user_trans: "same_user L M \<Longrightarrow> same_user M N \<Longrightarrow> same_user L N"
  by (simp add: same_user_def)

subsection \<open>Reserved pages\<close>

lemma reserved_region:
  assumes "areas_apart (marea v)"
  shows "reserved v w = Some x \<longleftrightarrow> region (marea v) w x"
proof -
  have one: "a = b" if "a \<in> set (areas v)" "b \<in> set (areas v)" "contain_vpn a w" "contain_vpn b w" for a b
    using area_unique [OF assms] that by (metis in_set_conv_nth)
  show ?thesis
  proof (cases "find (\<lambda>a. contain_vpn a w) (areas v)")
    case None
    then have "\<not> (\<exists>a \<in> set (areas v). contain_vpn a w)" by (auto simp: find_None_iff)
    with None show ?thesis by (auto simp: reserved_def region_def)
  next
    case (Some a)
    then have a: "a \<in> set (areas v)" "contain_vpn a w" by (auto simp: find_Some_iff)
    then show ?thesis using Some one by (auto simp: reserved_def region_def)
  qed
qed

lemma reserved_eqI:
  assumes "areas_apart (marea v)" "areas_apart (marea v')" "\<And>x. region (marea v') w x \<longleftrightarrow> region (marea v) w x"
  shows "reserved v' w = reserved v w"
proof -
  have "reserved v' w = Some x \<longleftrightarrow> reserved v w = Some x" for x
    using assms by (simp add: reserved_region)
  then show ?thesis by (metis not_None_eq)
qed

lemma reserved_None: "areas_apart (marea v) \<Longrightarrow> (\<And>x. \<not> region (marea v) w x) \<Longrightarrow> reserved v w = None"
  using reserved_region by (metis not_None_eq)

text \<open>Only reserved pages are mapped.\<close>

lemma mapped_reserved:
  assumes "space_ok v s" "user_vpn w" "lookup (root_pgt v) s w = Some e"
  shows "reserved v w \<noteq> None"
proof -
  obtain a p where "a \<in># marea v" "contain_vpn a w" by (rule space_leaf [OF assms])
  then have "region (marea v) w (map_type a, permissions a)" by (auto simp: region_def)
  then show ?thesis using reserved_region [OF space_okD(3) [OF assms(1)]] by fastforce
qed

lemma leaf_byte:
  assumes "space_ok v s" "user_vpn w" "lookup (root_pgt v) s w = Some e"
  shows "PPN (drop_bit 12 (get_pa (pte_ppn e) + take_bit 12 va)) = pte_ppn e"
proof -
  have "unat (get_raw (pte_ppn e)) < 2 ^ 26" by (rule space_leaf [OF assms]) (simp add: leaf_of_fields)
  moreover have "unat (take_bit 12 va) < 4096" unfolding bits_nat by simp
  ultimately show ?thesis using drop_bit_get_pa_add(1) [of "pte_ppn e" "take_bit 12 va"] by simp
qed

lemma backing_kept:
  assumes ok: "space_ok v s" "space_ok v' s'" and va: "unat va < 2 ^ 38"
    and l: "lookup (root_pgt v') s' (va_vpn va) = lookup (root_pgt v) s (va_vpn va)"
    and b: "\<And>a. PPN (drop_bit 12 a) \<in> data_pages v \<inter> data_pages v' \<Longrightarrow> phys s' a = phys s a"
  shows "backing v' s' va = backing v s va"
proof (cases "lookup (root_pgt v) s (va_vpn va)")
  case None
  then show ?thesis by (simp add: backing_def l)
next
  case (Some e)
  note w = va_vpn_user [OF va]
  have "pte_ppn e \<in> data_pages v" by (rule space_leaf [OF ok(1) w Some]) (simp add: leaf_of_fields)
  moreover have "pte_ppn e \<in> data_pages v'"
    by (rule space_leaf [OF ok(2) w l [unfolded Some]]) (simp add: leaf_of_fields)
  ultimately show ?thesis using b leaf_byte [OF ok(1) w Some, of va] by (simp add: backing_def l Some)
qed

subsection \<open>Page faults\<close>

lemma region_replace:
  assumes "i < length l" "\<And>w. contain_vpn a w = contain_vpn (l ! i) w" "map_type a = map_type (l ! i)"
    "permissions a = permissions (l ! i)"
  shows "region (mset (l[i := a])) w x \<longleftrightarrow> region (mset l) w x"
proof -
  have "mset l = add_mset (l ! i) (mset l - {#l ! i#})" "mset (l[i := a]) = add_mset a (mset l - {#l ! i#})"
    using mset_replace_nth [OF assms(1)] by blast+
  then show ?thesis using assms(2-4) by (metis region_simps(3))
qed

lemma map_fault_mem:
  assumes ok: "space_ok v s" and w: "user_vpn w" and un: "lookup (root_pgt v) s w = None"
    and r: "VMSpace_map v w pm s = Some (r, v', s')"
  shows "same_user (user_mem v' s') (user_mem v s)"
proof (rule VMSpace_map_cases [OF ok w un, of pm], goal_cases err map)
  case (err e v1 s1)
  then have eq: "v' = v1" "s' = s1" using r by simp_all
  have "backing v1 s1 va = backing v s va" if "unat va < 2 ^ 38" for va
    by (rule backing_kept [OF ok err(3) that]) (use err(5) body_keptD(8) [OF err(6)] in simp_all)
  then show ?case by (simp add: eq same_user_def user_mem_def reserved_def err(2))
next
  case (map v1 s1 i p)
  then have eq: "v' = v1" "s' = s1" using r by simp_all
  note D = space_okD [OF ok] and D1 = space_okD [OF map(2)]
  have "reserved v1 x = reserved v x" for x
    by (rule reserved_eqI [OF D(3) D1(3)]) (simp add: map(8) region_replace [OF map(4)] contain_vpn_def)
  moreover have "backing v1 s1 va = backing v s va" if va: "unat va < 2 ^ 38" for va
  proof (cases "va_vpn va = w")
    case True
    then have e: "lookup (root_pgt v1) s1 (va_vpn va) = Some (leaf_of (areas v ! i) p)" using map(9) [OF w] by simp
    have "areas v ! i \<in># marea v" using map(4) by simp
    then have a: "area_ok (areas v ! i)" using D(2) by blast
    have "unat (get_raw (get_ppn p)) < 2 ^ 44" using free_ppn_small [OF D(8) map(7)] by simp
    then have "pte_ppn (leaf_of (areas v ! i) p) = get_ppn p" using a by (simp add: leaf_of_fields)
    then have "phys s1 (get_pa (pte_ppn (leaf_of (areas v ! i) p)) + take_bit 12 va) = 0"
      using leaf_byte [OF map(2) va_vpn_user [OF va] e] map(10) by simp
    then show ?thesis using un e unfolding True by (simp add: backing_def True)
  next
    case False
    then show ?thesis
      by (intro backing_kept [OF ok map(2) va]) (use map(9) va_vpn_user [OF va] body_keptD(8) [OF map(11)] in simp_all)
  qed
  ultimately show ?case by (simp add: eq same_user_def user_mem_def)
qed

subsection \<open>Granted accesses\<close>

text \<open>
  The accesses that the permissions of an address grant, with the bits R (1), W (2) and U (4).  A
  page that may be written but not read is a reserved encoding of the architecture, for which no
  entry is made.
\<close>

definition allows :: "access \<Rightarrow> (usize \<times> u8) option \<Rightarrow> bool" where
  "allows acc c \<longleftrightarrow> (case c of None \<Rightarrow> False
     | Some (pm, _) \<Rightarrow> bit pm 4 \<and> bit pm 1 \<and> (acc = Store \<longrightarrow> bit pm 2))"

lemma allows_cell: "allows acc c \<longleftrightarrow> (\<exists>pm b. c = Some (pm, b) \<and> bit pm 4 \<and> bit pm 1 \<and> (acc = Store \<longrightarrow> bit pm 2))"
  by (auto simp: allows_def split: option.splits)

lemma allows_area:
  assumes ok: "space_ok v s" and al: "allows acc (user_mem v s va)"
  obtains a where "a \<in> set (areas v)" "contain_vpn a (va_vpn va)" "request acc AND permissions a = request acc"
    "is_valid_flags (permissions a OR FLAG_V)"
proof -
  obtain a where a: "find (\<lambda>a. contain_vpn a (va_vpn va)) (areas v) = Some a"
    and bits: "bit (permissions a) 4" "bit (permissions a) 1" "acc = Store \<longrightarrow> bit (permissions a) 2"
    using al by (auto simp: allows_cell user_mem_def reserved_def)
  have in_a: "a \<in> set (areas v)" "contain_vpn a (va_vpn va)" using a by (auto simp: find_Some_iff)
  then have "area_ok a" using space_okD(2) [OF ok] by simp
  then have p: "permissions a AND ALL_PERMISSION_FLAGS = permissions a" by (intro and_not_eq_0) (simp add: area_ok_def)
  have f: "ALL_PERMISSION_FLAGS = 30"
    by (simp add: ALL_PERMISSION_FLAGS_def PERMISSION_R_def PERMISSION_W_def PERMISSION_X_def PERMISSION_U_def flag_vals)
  have "(permissions a AND 30 OR 1) AND NOT 0x3ff = permissions a AND (30 AND NOT 0x3ff) OR (1 AND NOT 0x3ff)"
    by (simp only: bit.conj_disj_distrib2 and.assoc)
  also have "\<dots> = 0" by simp
  finally have "\<not> has_unknown_flags_set (permissions a OR FLAG_V)"
    using p by (simp add: has_unknown_flags_set_def flag_vals f)
  then have "unat (permissions a OR FLAG_V) < 1024" by (simp add: unknown_flags_iff)
  then have "is_valid_flags (permissions a OR FLAG_V)"
    using bits by (simp add: is_valid_flags_bits bit_or_iff flag_vals)
  moreover have "request acc AND permissions a = request acc"
    unfolding request_granted using bits by (cases acc) simp_all
  ultimately show ?thesis using in_a by (intro that)
qed

end
