(* ===== verification/Kernel_Fault.thy ===== *)
theory Kernel_Fault
  imports Kernel_Inv User_Mem
begin

text \<open>
  Page faults at the level of the kernel: the fault handler maps exactly the missing page of the
  task that faulted, or reports an error, and in both cases keeps the invariant of all tasks.
\<close>

subsection \<open>Operations of the memory manager as steps of a block\<close>

lemma block_step_vm:
  assumes t: "task_ok t s" and v': "space_ok v' s'" "vm_frame (vm_space t) s v' s'" "body_kept (vm_space t) s v' s'"
    and t': "task_id t' = task_id t" "tcontext t' = tcontext t" "vm_space t' = v'"
  shows "block_step {} t s t' s'"
proof -
  note K = body_keptD [OF v'(3)]
  obtain p where p: "space_ok (vm_space t) s" "stack_page (vm_space t) p" "ctx_tp (tcontext t) = stack_ctx p"
    "reachable_ppn p" "p \<in> data_pages (vm_space t)" "pte_bits (tab (phys s) p 511) = task_id t"
    "ctx_satp (tcontext t) = RootPgt_get_satp (root_pgt (vm_space t))" "upper_private (root_pgt (vm_space t)) s"
    by (rule task_okD [OF t])
  have sp: "stack_page v' p" using p(2) stack_page_cong [OF K(2,7)] by simp
  have w: "tab (phys s') p i = tab (phys s) p i" if "i < 512" for i
    by (rule tab_page_cong_bytes [OF K(8) p(4) that]) (use p(5) stack_page_data [OF sp] in auto)
  have "task_ok t' s'"
    using upper_private_framed [OF p(8,1) v'(2,3)] p v'(1) sp t' K(1) by (intro task_okI [of _ _ p]) (simp_all add: RootPgt_get_satp_def w)
  moreover have "ctx_kept {} t s s'" using w by (simp add: ctx_kept_def p(3) ctx_word_tab [OF p(4)] stack_word)
  moreover have "get_ppn ` set (root_pages (root_pgt v')) \<subseteq> own v'" by (auto simp: own_def)
  ultimately show ?thesis using t' v'(2) K(1,4) unfolding block_step_def t'(3) by blast
qed

lemma block_step_refl: "task_ok t s \<Longrightarrow> block_step {} t s t s"
  by (rule block_step_vm [OF _ _ vm_frame_refl body_kept_refl]) (auto simp: task_ok_def)

text \<open>
  The mapping of a space grows: what was mapped stays mapped to the same page with the same
  bytes, and the program's memory is the same.
\<close>

definition view_grows :: "VMSpace \<Rightarrow> mm_state \<Rightarrow> VMSpace \<Rightarrow> mm_state \<Rightarrow> bool" where
  "view_grows v s v' s' \<longleftrightarrow>
     (\<forall>w e. user_vpn w \<longrightarrow> lookup (root_pgt v) s w = Some e \<longrightarrow> lookup (root_pgt v') s' w = Some e \<and>
        (\<forall>a. PPN (drop_bit 12 a) = pte_ppn e \<longrightarrow> phys s' a = phys s a)) \<and>
     same_user (user_mem v' s') (user_mem v s)"

lemma view_grows_refl: "view_grows v s v s"
  by (simp add: view_grows_def same_user_refl)

lemma view_grows_mem: "view_grows v s v' s' \<Longrightarrow> same_user (user_mem v' s') (user_mem v s)"
  by (simp add: view_grows_def)

lemma body_kept_view:
  assumes ok: "space_ok v s" "space_ok v' s'" and k: "body_kept v s v' s'"
    and l: "\<And>w e. user_vpn w \<Longrightarrow> lookup (root_pgt v) s w = Some e \<Longrightarrow> lookup (root_pgt v') s' w = Some e"
    and m: "same_user (user_mem v' s') (user_mem v s)"
  shows "view_grows v s v' s'"
  unfolding view_grows_def
proof (intro allI impI conjI m)
  fix w e a
  assume w: "user_vpn w" "lookup (root_pgt v) s w = Some e"
  from l [OF this] show w': "lookup (root_pgt v') s' w = Some e" .
  assume "PPN (drop_bit 12 a) = pte_ppn e"
  moreover have "pte_ppn e \<in> data_pages v"
    by (rule space_leaf [OF ok(1) w]) (simp add: leaf_of_fields)
  moreover have "pte_ppn e \<in> data_pages v'"
    by (rule space_leaf [OF ok(2) w(1) w']) (simp add: leaf_of_fields)
  ultimately show "phys s' a = phys s a" by (intro body_keptD(8) [OF k]) simp_all
qed

lemma view_translate:
  assumes ok: "space_ok v s" "space_ok v' s'" and g: "view_grows v s v' s'" and va: "unat va < 2 ^ 38"
    and tr: "translate mode sm acc (RootPgt_get_satp (root_pgt v)) (phys s) va = Some pa"
  shows "translate mode sm acc (RootPgt_get_satp (root_pgt v')) (phys s') va = Some pa" "phys s' pa = phys s pa"
proof -
  obtain e where e: "lookup (root_pgt v) s (va_vpn va) = Some e" "hw_allows mode sm acc e"
    "pa = get_pa (pte_ppn e) + take_bit 12 va"
    using tr by (auto simp: translate_user [OF ok(1) va] split: option.splits if_splits)
  note w = va_vpn_user [OF va]
  from g w e(1) have e': "lookup (root_pgt v') s' (va_vpn va) = Some e"
    and b: "\<And>a. PPN (drop_bit 12 a) = pte_ppn e \<Longrightarrow> phys s' a = phys s a"
    by (auto simp: view_grows_def)
  show "translate mode sm acc (RootPgt_get_satp (root_pgt v')) (phys s') va = Some pa"
    by (simp add: translate_user [OF ok(2) va] e' e(2,3))
  obtain a p where "get_ppn p \<in> data_pages v" "PPN (drop_bit 12 pa) = get_ppn p" "map_of (pages a) (va_vpn va) = Some p" "a \<in># marea v"
    by (rule user_access [OF ok(1) va tr])
  have "unat (get_raw (pte_ppn e)) < 2 ^ 26"
    by (rule space_leaf [OF ok(1) w e(1)]) (simp add: leaf_of_fields)
  moreover have "unat (take_bit 12 va) < 4096" unfolding bits_nat by simp
  ultimately have "drop_bit 12 pa = get_raw (pte_ppn e)"
    using drop_bit_get_pa_add(1) [of "pte_ppn e" "take_bit 12 va"] e(3) by simp
  then show "phys s' pa = phys s pa" by (intro b) simp
qed

subsection \<open>One fault\<close>

lemma map_fault_cases:
  assumes ok: "space_ok v s" and va: "unat va < 2 ^ 38" and md: "mode = U_mode \<or> sm"
    and tr: "translate mode sm acc (RootPgt_get_satp (root_pgt v)) (phys s) va = None"
  obtains r v' s' where "map_fault_page v va (request acc) s = Some (r, v', s')"
    "space_ok v' s'" "vm_frame v s v' s'" "body_kept v s v' s'" "view_grows v s v' s'"
    "r = Inr () \<Longrightarrow> \<exists>pa. \<forall>mode sm. mode = U_mode \<or> sm \<longrightarrow>
       translate mode sm acc (RootPgt_get_satp (root_pgt v')) (phys s') va = Some pa"
    "r \<noteq> Inr () \<Longrightarrow> lookup (root_pgt v') s' = lookup (root_pgt v) s"
    "r \<noteq> Inr () \<Longrightarrow> allows acc (user_mem v s va) \<Longrightarrow> card (mfree s) \<le> 3 \<and> card (mfree s') \<le> 1"
proof -
  let ?w = "va_vpn va"
  note D = space_okD [OF ok] and w = va_vpn_user [OF va]
  have code: "map_fault_page v va (request acc) s = VMSpace_map v ?w (request acc) s"
    by (simp add: map_fault_page_def VPN_from_user_va [OF va])
  show ?thesis
  proof (rule user_fault [OF ok va md tr])
    assume un: "lookup (root_pgt v) s ?w = None"
    show ?thesis
    proof (rule VMSpace_map_cases [OF ok w un, of "request acc"], goal_cases err map)
      case (err e v' s')
      have "card (mfree s) \<le> 3 \<and> card (mfree s') \<le> 1" if al: "allows acc (user_mem v s va)"
        by (rule allows_area [OF ok al], rule err(7))
      then show ?thesis
        by (intro that [OF _ err(3,4,6) body_kept_view [OF ok err(3,6) _ map_fault_mem [OF ok w un err(1)]]])
          (auto simp: code err(1,5))
    next
      case (map v' s' i p)
      have "view_grows v s v' s'"
        by (rule body_kept_view [OF ok map(2,11) _ map_fault_mem [OF ok w un map(1)]])
          (use map(9) un in \<open>auto split: if_splits\<close>)
      moreover have "areas v ! i \<in># marea v" using map(4) by simp
      then have oka: "area_ok (areas v ! i)" using D(2) by blast
      have small: "unat (get_raw (get_ppn p)) < 2 ^ 44" using free_ppn_small [OF D(8) map(7)] by simp
      have "hw_allows mode sm acc (leaf_of (areas v ! i) p)" if "mode = U_mode \<or> sm" for mode sm
        using that map(6) unfolding request_granted by (auto simp: allows_leaf [OF oka small] split: privilege.split)
      then have "\<exists>pa. \<forall>mode sm. mode = U_mode \<or> sm \<longrightarrow>
          translate mode sm acc (RootPgt_get_satp (root_pgt v')) (phys s') va = Some pa"
        using map(9) [OF w] by (auto simp: translate_user [OF map(2) va])
      ultimately show ?thesis using map by (intro that [of "Inr ()" v' s']) (simp_all add: code)
    qed
  next
    fix a
    assume a: "a \<in># marea v" "contain_vpn a ?w" "request acc AND permissions a \<noteq> request acc"
    have "VMSpace_map v ?w (request acc) s = Some (Inl (PermissionDenied ?w (request acc)), v, s)"
    proof (rule find_area_cases [OF D(2) w])
      assume "find_area_mut v ?w = Inl (NoAreaContainVpn ?w)"
      then have "\<forall>x \<in> set (areas v). \<not> contain_vpn x ?w"
        by (auto simp: find_area_mut_def iter_position_None split: option.splits)
      with a show ?thesis by auto
    next
      fix i assume f: "find_area_mut v ?w = Inr i" "i < length (areas v)" "contain_vpn (areas v ! i) ?w"
      have "a = areas v ! i" by (rule area_unique [OF D(3) f(2,3) _ a(2)]) (use a(1) in simp)
      with f a(3) show ?thesis by (simp add: VMSpace_map_def)
    qed
    moreover have "\<not> allows acc (user_mem v s va)"
    proof
      assume "allows acc (user_mem v s va)"
      then obtain b where b: "b \<in> set (areas v)" "contain_vpn b ?w" "request acc AND permissions b = request acc"
        by (rule allows_area [OF ok])
      have "a = b" using area_unique [OF D(3) _ _ _ a(2)] a(1) b(1,2) by (metis in_set_conv_nth set_mset_mset)
      with a(3) b(3) show False by simp
    qed
    ultimately show ?thesis
      by (intro that [OF _ ok vm_frame_refl body_kept_refl view_grows_refl]) (auto simp: code)
  qed
qed

end
