(* ===== verification/Kernel_Step.thy ===== *)
theory Kernel_Step
  imports Kernel_Fault
begin

text \<open>
  The kernel while it works for one task: the block of that task is in the list, the hart
  translates with its page table, and an operation on the block or on the bytes of its pages
  keeps the invariant of all tasks.
\<close>

subsection \<open>Writing to the pages of a space\<close>

lemma page_write:
  assumes ok: "space_ok v s" and m: "\<And>a. PPN (drop_bit 12 a) \<notin> data_pages v \<Longrightarrow> m a = phys s a"
  shows "space_ok v (s\<lparr>phys := m\<rparr>)" "lookup (root_pgt v) (s\<lparr>phys := m\<rparr>) = lookup (root_pgt v) s"
    "table_pages (mtab (s\<lparr>phys := m\<rparr>)) (root_ppn (root_pgt v)) = table_pages (mtab s) (root_ppn (root_pgt v))"
    "vm_frame v s v (s\<lparr>phys := m\<rparr>)"
proof -
  let ?s = "s\<lparr>phys := m\<rparr>" and ?t = "root_pgt v"
  note D = space_okD [OF ok]
  have inv: "mm_inv ?s" using D(8) by (simp add: mm_inv_def)
  have held: "table_pages (mtab s) (root_ppn ?t) \<subseteq> mheld ?s" using D(9) by simp
  have mem: "phys ?s a = phys s a" if "PPN (drop_bit 12 a) \<in> table_pages (mtab s) (root_ppn ?t)" for a
  proof -
    have "PPN (drop_bit 12 a) \<notin> data_pages v" using that D(6) by blast
    then show ?thesis by (simp add: m)
  qed
  note c = pgt_user_cong [OF D(1) inv held mem]
  show lk: "lookup ?t ?s = lookup ?t s" by (rule c(2))
  show tabs: "table_pages (mtab ?s) (root_ppn ?t) = table_pages (mtab s) (root_ppn ?t)" by (rule c(3))
  have "pgt_user ?t ?s" by (rule c(1))
  with ok show "space_ok v ?s" unfolding space_ok_def lk tabs by simp
  show "vm_frame v s v ?s" using m unfolding vm_frame_def own_def by auto
qed

lemma block_step_write:
  assumes t: "task_ok t s"
    and m: "\<And>a. PPN (drop_bit 12 a) \<notin> data_pages (vm_space t) \<Longrightarrow> m a = phys s a"
    and i: "\<And>p n. stack_page (vm_space t) p \<Longrightarrow> reachable_ppn p \<Longrightarrow> n < 35 \<Longrightarrow> n \<notin> W \<Longrightarrow>
      tab m p (477 + n) = tab (phys s) p (477 + n)" and W: "34 \<notin> W"
    and t': "task_id t' = task_id t" "tcontext t' = tcontext t" "vm_space t' = vm_space t"
  shows "block_step W t s t' (s\<lparr>phys := m\<rparr>)"
proof -
  obtain p where p: "space_ok (vm_space t) s" "stack_page (vm_space t) p" "ctx_tp (tcontext t) = stack_ctx p"
    "reachable_ppn p" "p \<in> data_pages (vm_space t)" "pte_bits (tab (phys s) p 511) = task_id t"
    "ctx_satp (tcontext t) = RootPgt_get_satp (root_pgt (vm_space t))" "upper_private (root_pgt (vm_space t)) s"
    by (rule task_okD [OF t])
  note w = page_write [OF p(1) m]
  have "upper_private (root_pgt (vm_space t)) (s\<lparr>phys := m\<rparr>)"
  proof (rule upper_private_same [OF p(8,1)])
    fix a assume "PPN (drop_bit 12 a) \<in> table_pages (mtab s) (root_ppn (root_pgt (vm_space t)))"
    then have "PPN (drop_bit 12 a) \<notin> data_pages (vm_space t)" using space_okD(6) [OF p(1)] by blast
    then show "phys (s\<lparr>phys := m\<rparr>) a = phys s a" by (simp add: m)
  qed
  then have "task_ok t' (s\<lparr>phys := m\<rparr>)"
    by (intro task_okI [of _ _ p]) (use p w(1) i [OF p(2,4), of 34] W t' in simp_all)
  moreover have "ctx_kept W t s (s\<lparr>phys := m\<rparr>)"
    using i [OF p(2,4)] by (simp add: ctx_kept_def p(3) ctx_word_tab [OF p(4)])
  ultimately show ?thesis using t' w(3,4) unfolding block_step_def by simp
qed

lemma anonymous_not_stack:
  assumes ok: "space_ok v s" and a: "a \<in># marea v" "map_of (pages a) w = Some p" "map_type a = Anonymous"
    and q: "stack_page v q"
  shows "get_ppn p \<noteq> q"
proof -
  obtain b w' p' where b: "b \<in># marea v" "map_type b = KernelVaOffset" "map_of (pages b) w' = Some p'" "get_ppn p' = q"
    using q by (auto simp: stack_page_def)
  then show ?thesis using page_unique(1) [OF ok a(1,2) b(1,3)] a(3) by auto
qed

text \<open>A store through the MMU to a user address of the space.\<close>

lemma user_store_step:
  assumes t: "task_ok t s" and va: "unat va < 2 ^ 38"
    and tr: "translate mode sm acc (RootPgt_get_satp (root_pgt (vm_space t))) (phys s) va = Some pa"
  shows "block_step {} t s t (s\<lparr>phys := (phys s)(pa := b)\<rparr>)"
proof -
  have ok: "space_ok (vm_space t) s" using t by (simp add: task_ok_def)
  obtain a p where a: "a \<in># marea (vm_space t)" "map_of (pages a) (va_vpn va) = Some p" "map_type a = Anonymous"
    "PPN (drop_bit 12 pa) = get_ppn p" "get_ppn p \<in> data_pages (vm_space t)"
    by (rule user_access [OF ok va tr])
  show ?thesis
  proof (rule block_step_write [OF t])
    fix x assume "PPN (drop_bit 12 x) \<notin> data_pages (vm_space t)"
    then show "((phys s)(pa := b)) x = phys s x" using a(4,5) by (metis fun_upd_other)
  next
    fix q n assume q: "stack_page (vm_space t) q" "reachable_ppn q" "n < (35 :: usize)"
    have "get_ppn p \<noteq> q" by (rule anonymous_not_stack [OF ok a(1-3) q(1)])
    then show "tab ((phys s)(pa := b)) q (477 + n) = tab (phys s) q (477 + n)"
      by (intro tab_page_cong_bytes [OF _ q(2) stack_word [OF q(3)]]) (use a(4) in auto)
  qed simp_all
qed

subsection \<open>The task the hart works for\<close>

definition hosted :: "kernel \<Rightarrow> TaskControlBlock \<Rightarrow> TaskControlBlock multiset \<Rightarrow> bool" where
  "hosted k t B \<longleftrightarrow> mset (ALL_TASKS k) = add_mset t B \<and> tasks_ok (add_mset t B) (mm k) \<and>
     csrs k SATP_CSR_NO = ctx_satp (tcontext t)"

text \<open>
  What an operation on behalf of \<open>t\<close> does: \<open>t\<close> becomes \<open>t'\<close>, no other task notices, and of the
  saved context only the words in \<open>W\<close> may change.
\<close>

definition step_on ::
  "usize set \<Rightarrow> TaskControlBlock \<Rightarrow> TaskControlBlock multiset \<Rightarrow> kernel \<Rightarrow> TaskControlBlock \<Rightarrow> kernel \<Rightarrow> bool" where
  "step_on W t B k t' k' \<longleftrightarrow> hosted k' t' B \<and> task_id t' = task_id t \<and> tcontext t' = tcontext t \<and>
     tstate t' = tstate t \<and> (\<forall>u \<in># B. same_view (vm_space u) (mm k) (mm k')) \<and> ctx_kept W t (mm k) (mm k')"

abbreviation step_for ::
  "TaskControlBlock \<Rightarrow> TaskControlBlock multiset \<Rightarrow> kernel \<Rightarrow> TaskControlBlock \<Rightarrow> kernel \<Rightarrow> bool" where
  "step_for \<equiv> step_on {}"

lemma step_for_refl: "hosted k t B \<Longrightarrow> step_for t B k t k"
  by (simp add: step_on_def same_view_refl ctx_kept_refl)

lemma step_on_trans:
  assumes "step_on W t B k t' k'" "step_on W' t' B k' t'' k''"
  shows "step_on (W \<union> W') t B k t'' k''"
proof -
  have "ctx_kept (W \<union> W') t (mm k) (mm k'')"
    using assms by (intro ctx_kept_trans [of W t "mm k" "mm k'" W' t']) (simp_all add: step_on_def)
  then show ?thesis using assms same_view_trans unfolding step_on_def by metis
qed

lemmas step_for_trans = step_on_trans [of "{}" _ _ _ _ _ "{}", simplified]

lemma hostedD:
  assumes "hosted k t B"
  shows "mset (ALL_TASKS k) = add_mset t B" "ids_distinct (add_mset t B)" "task_ok t (mm k)"
    "csrs k SATP_CSR_NO = RootPgt_get_satp (root_pgt (vm_space t))" "space_ok (vm_space t) (mm k)"
proof -
  show "mset (ALL_TASKS k) = add_mset t B" "ids_distinct (add_mset t B)" and t: "task_ok t (mm k)"
    using assms by (simp_all add: hosted_def tasks_ok_def)
  then show "csrs k SATP_CSR_NO = RootPgt_get_satp (root_pgt (vm_space t))" "space_ok (vm_space t) (mm k)"
    using assms by (simp_all add: hosted_def task_ok_def)
qed

lemma hosted_step:
  assumes h: "hosted k t B" and st: "block_step W t (mm k) t' (mm k')" "tstate t' = tstate t"
    and k': "mset (ALL_TASKS k') = add_mset t' B" "csrs k' SATP_CSR_NO = csrs k SATP_CSR_NO"
  shows "step_on W t B k t' k'"
proof -
  have ok: "tasks_ok (add_mset t B) (mm k)" using h by (simp add: hosted_def)
  note T = tasks_ok_step [OF ok st(1)]
  have s: "task_id t' = task_id t" "tcontext t' = tcontext t" "ctx_kept W t (mm k) (mm k')" using st(1) by (simp_all add: block_step_def)
  have "hosted k' t' B" using h k' T(1) s(2) by (simp add: hosted_def)
  with s st(2) T(2) show ?thesis by (simp add: step_on_def)
qed

lemma hosted_position:
  assumes "hosted k t B"
  obtains i where "position_of (task_id t) (ALL_TASKS k) = Some i" "i < length (ALL_TASKS k)"
    "ALL_TASKS k ! i = t" "\<And>t'. mset ((ALL_TASKS k)[i := t']) = add_mset t' B"
proof -
  note H = hostedD [OF assms]
  have "t \<in># mset (ALL_TASKS k)" unfolding H(1) by simp
  then have mem: "t \<in> set (ALL_TASKS k)" by simp
  have ids: "ids_distinct (mset (ALL_TASKS k))" using H(1,2) by simp
  obtain i where i: "position_of (task_id t) (ALL_TASKS k) = Some i" "i < length (ALL_TASKS k)" "ALL_TASKS k ! i = t"
    by (rule position_of_unique [OF ids mem])
  have "mset ((ALL_TASKS k)[i := t']) = add_mset t' B" for t'
    unfolding mset_replace_nth(2) [OF i(2)] i(3) H(1) by simp
  with i show ?thesis by (intro that)
qed

text \<open>
  \<open>update_tcb\<close> with a function that only works on the block and on memory.
\<close>

lemma update_tcb_hosted:
  assumes h: "hosted k t B" and f: "f t k = Some (r, t', k\<lparr>mm := s'\<rparr>)"
    and st: "block_step {} t (mm k) t' s'" "tstate t' = tstate t"
  obtains k' where "update_tcb (task_id t) f k = Some (r, k')" "step_for t B k t' k'"
    "k' = k\<lparr>mm := s', ALL_TASKS := ALL_TASKS k'\<rparr>"
proof (rule hosted_position [OF h])
  fix i
  assume i: "position_of (task_id t) (ALL_TASKS k) = Some i" "i < length (ALL_TASKS k)" "ALL_TASKS k ! i = t"
    "\<And>t'. mset ((ALL_TASKS k)[i := t']) = add_mset t' B"
  let ?k = "k\<lparr>mm := s', ALL_TASKS := (ALL_TASKS k)[i := t']\<rparr>"
  have "step_for t B k t' ?k" by (rule hosted_step [OF h]) (use st i(4) in simp_all)
  then show ?thesis by (intro that [of ?k]) (simp_all add: update_tcb_def i f)
qed

subsection \<open>Page faults\<close>

lemma do_page_fault_cases:
  assumes h: "hosted k t B" and va: "unat va < 2 ^ 38" and md: "mode = U_mode \<or> sm"
    and tr: "translate mode sm acc (csrs k SATP_CSR_NO) (phys (mm k)) va = None"
  obtains r t' k' where "do_page_fault (task_id t) va (request acc) k = Some (r, k')"
    "step_for t B k t' k'" "k' = k\<lparr>mm := mm k', ALL_TASKS := ALL_TASKS k'\<rparr>"
    "view_grows (vm_space t) (mm k) (vm_space t') (mm k')"
    "r = Inr () \<Longrightarrow> \<exists>pa. \<forall>mode sm. mode = U_mode \<or> sm \<longrightarrow>
       translate mode sm acc (csrs k SATP_CSR_NO) (phys (mm k')) va = Some pa"
    "r \<noteq> Inr () \<Longrightarrow> translate mode sm acc (csrs k SATP_CSR_NO) (phys (mm k')) va = None"
    "r \<noteq> Inr () \<Longrightarrow> allows acc (user_mem (vm_space t) (mm k) va) \<Longrightarrow> card (mfree (mm k)) \<le> 3 \<and> card (mfree (mm k')) \<le> 1"
proof -
  note H = hostedD [OF h]
  show ?thesis
  proof (rule map_fault_cases [OF H(5) va md tr [unfolded H(4)]])
    fix r v' s'
    assume r: "map_fault_page (vm_space t) va (request acc) (mm k) = Some (r, v', s')"
      and ok: "space_ok v' s'" "vm_frame (vm_space t) (mm k) v' s'" "body_kept (vm_space t) (mm k) v' s'"
        "view_grows (vm_space t) (mm k) v' s'"
      and good: "r = Inr () \<Longrightarrow> \<exists>pa. \<forall>mode sm. mode = U_mode \<or> sm \<longrightarrow>
         translate mode sm acc (RootPgt_get_satp (root_pgt v')) (phys s') va = Some pa"
      and bad: "r \<noteq> Inr () \<Longrightarrow> lookup (root_pgt v') s' = lookup (root_pgt (vm_space t)) (mm k)"
      and why: "r \<noteq> Inr () \<Longrightarrow> allows acc (user_mem (vm_space t) (mm k) va) \<Longrightarrow> card (mfree (mm k)) \<le> 3 \<and> card (mfree s') \<le> 1"
    let ?t = "t\<lparr>vm_space := v'\<rparr>"
    have satp: "RootPgt_get_satp (root_pgt v') = csrs k SATP_CSR_NO"
      using body_keptD(1) [OF ok(3)] by (simp add: H(4) RootPgt_get_satp_def)
    have st: "block_step {} t (mm k) ?t s'" by (rule block_step_vm [OF H(3) ok(1-3)]) simp_all
    show ?thesis
    proof (rule update_tcb_hosted [OF h _ st])
      show "(\<lambda>tcb k. do {
         (r, v, s) \<leftarrow> map_fault_page (vm_space tcb) va (request acc) (mm k);
         Some (r, tcb\<lparr>vm_space := v\<rparr>, k\<lparr>mm := s\<rparr>)
       }) t k = Some (r, ?t, k\<lparr>mm := s'\<rparr>)" by (simp add: r)
      fix k'
      assume k': "update_tcb (task_id t) (\<lambda>tcb k. do {
           (r, v, s) \<leftarrow> map_fault_page (vm_space tcb) va (request acc) (mm k);
           Some (r, tcb\<lparr>vm_space := v\<rparr>, k\<lparr>mm := s\<rparr>)
         }) k = Some (r, k')" "step_for t B k ?t k'" "k' = k\<lparr>mm := s', ALL_TASKS := ALL_TASKS k'\<rparr>"
      have mm: "mm k' = s'" by (subst k'(3)) simp
      have "translate mode sm acc (csrs k SATP_CSR_NO) (phys s') va = None" if "r \<noteq> Inr ()"
        using tr bad [OF that] unfolding satp [symmetric] translate_user [OF ok(1) va]
        unfolding satp H(4) translate_user [OF H(5) va] by simp
      then show ?thesis using k' ok(4) good why unfolding satp
        by (intro that [of r k' ?t]) (simp_all add: do_page_fault_def mm)
    qed simp
  qed
qed

end
