(* ===== verification/Demand_Paging.thy ===== *)
theory Demand_Paging
  imports Kernel_Step
begin

text \<open>
  The operations of the code on an address space refine simple operations on its abstract memory:
  reserving and releasing pages, loads and stores.
\<close>

subsection \<open>Reserving and releasing\<close>

lemma mmap_mem:
  assumes ok: "space_ok v s" "space_ok v' s" and a: "areas v' = areas v @ [VMArea_new lo hi Anonymous pm]"
    and r: "root_pgt v' = root_pgt v" and free: "\<forall>a \<in> set (areas v). end_vpn a \<le> lo \<or> hi \<le> start_vpn a"
  shows "same_user (user_mem v' s) (spec_reserve lo hi pm (user_mem v s))"
    "in_pages lo hi va \<Longrightarrow> user_mem v s va = None"
proof -
  note D = space_okD [OF ok(1)] and D' = space_okD [OF ok(2)]
  have out: "\<not> contain_vpn b w" if "b \<in> set (areas v)" "lo \<le> w" "w < hi" for b w
    using free that by (auto simp: contain_vpn_def)
  have none: "reserved v w = None" if "lo \<le> w" "w < hi" for w
    by (rule reserved_None [OF D(3)]) (use out that in \<open>auto simp: region_def\<close>)
  then show "in_pages lo hi va \<Longrightarrow> user_mem v s va = None" by (simp add: user_mem_def in_pages_def)
  have reg: "region (marea v') w x \<longleftrightarrow> region (marea v) w x \<or> lo \<le> w \<and> w < hi \<and> x = (Anonymous, pm)" for w x
    by (auto simp: a contain_vpn_def VMArea_new_def)
  have bk: "backing v' s va = backing v s va" for va by (simp add: backing_def r)
  show "same_user (user_mem v' s) (spec_reserve lo hi pm (user_mem v s))"
    unfolding same_user_def
  proof (intro allI impI)
    fix va :: usize assume va: "unat va < 2 ^ 38"
    show "user_mem v' s va = spec_reserve lo hi pm (user_mem v s) va"
    proof (cases "in_pages lo hi va")
      case True
      then have "reserved v (va_vpn va) = None" using none by (simp add: in_pages_def)
      then have "lookup (root_pgt v) s (va_vpn va) = None"
        using mapped_reserved [OF ok(1) va_vpn_user [OF va]] by (metis not_None_eq)
      then have "backing v s va = 0" by (simp add: backing_def)
      moreover have "reserved v' (va_vpn va) = Some (Anonymous, pm)"
        using True by (simp add: reserved_region [OF D'(3)] reg in_pages_def)
      ultimately show ?thesis using True by (simp add: user_mem_def spec_reserve_def bk)
    next
      case False
      then have "reserved v' (va_vpn va) = reserved v (va_vpn va)"
        by (intro reserved_eqI [OF D(3) D'(3)]) (auto simp: reg in_pages_def)
      with False show ?thesis by (simp add: user_mem_def spec_reserve_def bk)
    qed
  qed
qed

lemma munmap_mem:
  assumes ok: "space_ok v s" "space_ok v' s'"
    and l: "\<And>w. user_vpn w \<Longrightarrow> lookup (root_pgt v') s' w = (if lo \<le> w \<and> w < hi then None else lookup (root_pgt v) s w)"
    and reg: "\<And>w x. region (marea v') w x \<longleftrightarrow> region (marea v) w x \<and> \<not> (lo \<le> w \<and> w < hi)"
    and b: "body_kept v s v' s'"
  shows "same_user (user_mem v' s') (spec_release lo hi (user_mem v s))"
  unfolding same_user_def
proof (intro allI impI)
  fix va :: usize assume va: "unat va < 2 ^ 38"
  note D = space_okD [OF ok(1)] and D' = space_okD [OF ok(2)]
  show "user_mem v' s' va = spec_release lo hi (user_mem v s) va"
  proof (cases "in_pages lo hi va")
    case True
    then have "reserved v' (va_vpn va) = None" by (intro reserved_None [OF D'(3)]) (simp add: reg in_pages_def)
    with True show ?thesis by (simp add: user_mem_def spec_release_def)
  next
    case False
    then have "reserved v' (va_vpn va) = reserved v (va_vpn va)"
      by (intro reserved_eqI [OF D(3) D'(3)]) (auto simp: reg in_pages_def)
    moreover have "backing v' s' va = backing v s va"
      by (rule backing_kept [OF ok va])
        (use False l [OF va_vpn_user [OF va]] body_keptD(8) [OF b] in \<open>auto simp: in_pages_def\<close>)
    ultimately show ?thesis using False by (simp add: user_mem_def spec_release_def)
  qed
qed

subsection \<open>Loads and stores\<close>

lemma load_mem:
  assumes ok: "space_ok v s" and va: "unat va < 2 ^ 38"
    and tr: "translate mode sm acc (RootPgt_get_satp (root_pgt v)) (phys s) va = Some pa"
  shows "\<exists>pm. user_mem v s va = Some (pm, phys s pa)"
proof -
  obtain e where e: "lookup (root_pgt v) s (va_vpn va) = Some e" "pa = get_pa (pte_ppn e) + take_bit 12 va"
    using tr by (auto simp: translate_user [OF ok va] split: option.splits if_splits)
  then have "reserved v (va_vpn va) \<noteq> None" by (intro mapped_reserved [OF ok va_vpn_user [OF va]])
  with e show ?thesis by (auto simp: user_mem_def backing_def)
qed

lemma mapped_inj:
  assumes ok: "space_ok v s" and va: "unat va < 2 ^ 38" "unat vb < 2 ^ 38"
    and l: "lookup (root_pgt v) s (va_vpn va) = Some e" "lookup (root_pgt v) s (va_vpn vb) = Some f"
    and eq: "get_pa (pte_ppn e) + take_bit 12 va = get_pa (pte_ppn f) + take_bit 12 vb"
  shows "va = vb"
proof -
  note w = va_vpn_user [OF va(1)] va_vpn_user [OF va(2)]
  have pp: "pte_ppn e = pte_ppn f" using leaf_byte [OF ok w(1) l(1), of va] leaf_byte [OF ok w(2) l(2), of vb] eq by simp
  obtain a p where a: "a \<in># marea v" "map_of (pages a) (va_vpn va) = Some p" "pte_ppn e = get_ppn p"
    by (rule space_leaf [OF ok w(1) l(1)]) (simp add: leaf_of_fields)
  obtain b q where b: "b \<in># marea v" "map_of (pages b) (va_vpn vb) = Some q" "pte_ppn f = get_ppn q"
    by (rule space_leaf [OF ok w(2) l(2)]) (simp add: leaf_of_fields)
  have "va_vpn va = va_vpn vb" by (rule page_unique(2) [OF ok a(1,2) b(1,2)]) (use a(3) b(3) pp in simp)
  then have "drop_bit 12 va = drop_bit 12 vb" by (simp add: va_vpn_def)
  moreover have "take_bit 12 va = take_bit 12 vb" using eq pp by simp
  ultimately show ?thesis by (metis bits_ident)
qed

lemma store_mem:
  assumes ok: "space_ok v s" and va: "unat va < 2 ^ 38"
    and tr: "translate mode sm acc (RootPgt_get_satp (root_pgt v)) (phys s) va = Some pa"
  shows "same_user (user_mem v (s\<lparr>phys := (phys s)(pa := b)\<rparr>)) (spec_store va b (user_mem v s))"
  unfolding same_user_def
proof (intro allI impI)
  fix vb :: usize assume vb: "unat vb < 2 ^ 38"
  let ?s = "s\<lparr>phys := (phys s)(pa := b)\<rparr>"
  obtain e where e: "lookup (root_pgt v) s (va_vpn va) = Some e" "pa = get_pa (pte_ppn e) + take_bit 12 va"
    using tr by (auto simp: translate_user [OF ok va] split: option.splits if_splits)
  obtain a p where a: "PPN (drop_bit 12 pa) = get_ppn p" "get_ppn p \<in> data_pages v" "a \<in># marea v"
    "map_of (pages a) (va_vpn va) = Some p" by (rule user_access [OF ok va tr])
  have lk: "lookup (root_pgt v) ?s = lookup (root_pgt v) s"
    by (rule page_write(2) [OF ok]) (use a(1,2) in auto)
  have "backing v ?s vb = (if vb = va then b else backing v s vb)"
  proof (cases "lookup (root_pgt v) s (va_vpn vb)")
    case None
    then show ?thesis using e(1) by (auto simp: backing_def lk)
  next
    case (Some f)
    show ?thesis
    proof (cases "vb = va")
      case True
      then show ?thesis by (simp add: backing_def lk e(1) e(2) [symmetric])
    next
      case False
      then have "get_pa (pte_ppn f) + take_bit 12 vb \<noteq> pa" using mapped_inj [OF ok va vb e(1) Some] e(2) by metis
      with False show ?thesis by (simp add: backing_def lk Some)
    qed
  qed
  then show "user_mem v ?s vb = spec_store va b (user_mem v s) vb"
    by (cases "reserved v (va_vpn vb)") (auto simp: user_mem_def spec_store_def)
qed

end
