(* ===== verification/Kernel_Copy.thy ===== *)
theory Kernel_Copy
  imports Demand_Paging Copy_Loop
begin

text \<open>
  Copying between kernel and user memory: an access of the copy loop that faults is either
  repaired, and then runs again with success, or refused for good; so the loop always ends, and
  it stops at the first byte the user space cannot provide.
\<close>

subsection \<open>A fault in the copy loop\<close>

text \<open>The labels of \<open>uaccess.S\<close> are different addresses.\<close>

definition labels_ok :: "uaccess_syms \<Rightarrow> bool" where
  "labels_ok y \<longleftrightarrow> uaccess_lb y \<noteq> uaccess_fix y \<and> uaccess_sb y \<noteq> uaccess_fix y"

definition trap_code :: "access \<Rightarrow> usize" where
  "trap_code acc = (case acc of Load \<Rightarrow> LOAD_PAGE_FAULT | Store \<Rightarrow> STORE_PAGE_FAULT)"

definition trap_pc :: "uaccess_syms \<Rightarrow> access \<Rightarrow> usize" where
  "trap_pc y acc = (case acc of Load \<Rightarrow> uaccess_lb y | Store \<Rightarrow> uaccess_sb y)"

lemma trap_code_cause:
  "match_cause (trap_code acc) = (case acc of Load \<Rightarrow> LoadPageFault | Store \<Rightarrow> StoreOrAmoPageFault)"
  by (cases acc) (simp_all add: trap_code_def LOAD_PAGE_FAULT_def STORE_PAGE_FAULT_def match_cause_def
      is_interrupt_def INTERRUPT_BIT_def match_exception_cause_def)

lemma stack_ctx_nonzero:
  assumes "unat (get_raw p) < 2 ^ 26"
  shows "stack_ctx p \<noteq> 0"
proof -
  have "unat (get_pa p) \<le> 2 ^ 38 - 4096"
    using assms by (simp add: get_pa_def kconst bits_nat)
  moreover have c: "unat (0xffffffc000000ee8 :: usize) = 0xffffffc000000ee8" by simp
  ultimately have "unat (get_pa p) + unat (0xffffffc000000ee8 :: usize) < 2 ^ 64" unfolding c by simp
  then have "unat (get_pa p + 0xffffffc000000ee8) = unat (get_pa p) + unat (0xffffffc000000ee8 :: usize)"
    unfolding unat_word_ariths by simp
  moreover have "stack_ctx p = get_pa p + 0xffffffc000000ee8"
    by (simp add: stack_ctx_def kconst TRAP_CONTEXT_SIZE_def)
  ultimately show ?thesis by (metis add_is_0 c unat_0 zero_neq_numeral)
qed

lemma case_unit_result: "(case r of Inl _ \<Rightarrow> a | Inr (_ :: unit) \<Rightarrow> b) = (if r = Inr () then b else a)"
  by (cases r) auto

lemmas csr_numbers = SCAUSE_CSR_NO_def STVAL_CSR_NO_def SEPC_CSR_NO_def SSCRATCH_CSR_NO_def
  SATP_CSR_NO_def SSTATUS_CSR_NO_def

text \<open>The CSRs that a trap from the kernel and the return from it leave alone.\<close>

definition same_csrs :: "csr_file \<Rightarrow> csr_file \<Rightarrow> bool" where
  "same_csrs c c' \<longleftrightarrow>
     (\<forall>n. n \<notin> {SCAUSE_CSR_NO, STVAL_CSR_NO, SEPC_CSR_NO, SSCRATCH_CSR_NO} \<longrightarrow> c' n = c n)"

text \<open>A step of the kernel's copy loop on behalf of \<open>t\<close>.\<close>

definition copy_step ::
  "TaskControlBlock \<Rightarrow> TaskControlBlock multiset \<Rightarrow> kernel \<Rightarrow> TaskControlBlock \<Rightarrow> kernel \<Rightarrow> bool" where
  "copy_step t B k t' k' \<longleftrightarrow> step_for t B k t' k' \<and> same_csrs (csrs k) (csrs k') \<and>
     k' = k\<lparr>mm := mm k', ALL_TASKS := ALL_TASKS k', csrs := csrs k'\<rparr>"

lemma copy_step_refl: "hosted k t B \<Longrightarrow> copy_step t B k t k"
  by (simp add: copy_step_def same_csrs_def step_for_refl)

lemma copy_stepD:
  assumes "copy_step t B k t' k'"
  shows "step_for t B k t' k'" "hosted k' t' B" "tp k' = tp k" "sum_bit k' = sum_bit k" "console k' = console k"
    "csrs k' SATP_CSR_NO = csrs k SATP_CSR_NO" "csrs k' SSTATUS_CSR_NO = csrs k SSTATUS_CSR_NO"
proof -
  have c: "same_csrs (csrs k) (csrs k')" "k' = k\<lparr>mm := mm k', ALL_TASKS := ALL_TASKS k', csrs := csrs k'\<rparr>"
    using assms by (simp_all add: copy_step_def)
  show "step_for t B k t' k'" "hosted k' t' B" using assms by (simp_all add: copy_step_def step_on_def)
  show "tp k' = tp k" "console k' = console k" by (subst c(2), simp)+
  show "csrs k' SATP_CSR_NO = csrs k SATP_CSR_NO" and st: "csrs k' SSTATUS_CSR_NO = csrs k SSTATUS_CSR_NO"
    using c(1) by (simp_all add: same_csrs_def csr_numbers)
  show "sum_bit k' = sum_bit k" by (simp add: sum_bit_def sstatus_read_def csrr_def st)
qed

lemma copy_step_trans:
  assumes "copy_step t B k t' k'" "copy_step t' B k' t'' k''"
  shows "copy_step t B k t'' k''"
proof -
  have "k'' = k\<lparr>mm := mm k'', ALL_TASKS := ALL_TASKS k'', csrs := csrs k''\<rparr>"
  proof -
    have a: "k' = k\<lparr>mm := mm k', ALL_TASKS := ALL_TASKS k', csrs := csrs k'\<rparr>"
      and b: "k'' = k'\<lparr>mm := mm k'', ALL_TASKS := ALL_TASKS k'', csrs := csrs k''\<rparr>"
      using assms by (simp_all add: copy_step_def)
    show ?thesis by (rule trans [OF b], subst a) simp
  qed
  moreover have "same_csrs (csrs k) (csrs k'')" using assms by (simp add: copy_step_def same_csrs_def)
  ultimately show ?thesis using assms step_for_trans unfolding copy_step_def by blast
qed

lemma hosted_cong:
  "hosted k t B \<Longrightarrow> mm k' = mm k \<Longrightarrow> ALL_TASKS k' = ALL_TASKS k \<Longrightarrow>
    csrs k' SATP_CSR_NO = csrs k SATP_CSR_NO \<Longrightarrow> hosted k' t B"
  by (simp add: hosted_def)

lemma hosted_ptr:
  assumes h: "hosted k t B"
  shows "ctx_tp (tcontext t) \<noteq> 0" "get_task_id_from_ptr (ctx_tp (tcontext t)) (phys (mm k)) = task_id t"
proof -
  note H = hostedD [OF h]
  obtain p where p: "stack_page (vm_space t) p" "ctx_tp (tcontext t) = stack_ctx p"
    "p \<in> data_pages (vm_space t)" "pte_bits (tab (phys (mm k)) p 511) = task_id t" "reachable_ppn p"
    by (rule task_okD [OF H(3)])
  have "unat (get_raw p) < 2 ^ 26"
    by (rule held_ppn_small [OF space_okD(8) [OF H(5)] subsetD [OF space_okD(5) [OF H(5)] p(3)]])
  then show "ctx_tp (tcontext t) \<noteq> 0" using stack_ctx_nonzero p(2) by simp
  show "get_task_id_from_ptr (ctx_tp (tcontext t)) (phys (mm k)) = task_id t"
    using p(2,4,5) by (simp add: task_id_tab)
qed

lemma k_trap_handler_user:
  assumes "match_cause (scause_read (csrs k)) = match_cause (trap_code acc)" "sepc_read (csrs k) = trap_pc y acc"
    and "xs ctx ! 4 \<noteq> 0"
  shows "k_trap_handler y ctx k = do {
     (r, k) \<leftarrow> do_page_fault (get_task_id_from_ptr (xs ctx ! 4) (phys (mm k))) (stval_read (csrs k)) (request acc) k;
     case r of
       Inl err \<Rightarrow> Some (ctx\<lparr>sepc := get_uaccess_fix y\<rparr>, k)
     | Inr _ \<Rightarrow> Some (ctx, k)
   }"
  using assms(2,3) unfolding k_trap_handler_def assms(1) trap_code_cause Let_def
  by (cases acc) (simp_all add: is_load_user_fault_def is_store_user_fault_def trap_pc_def request_def need_def)

lemma kernel_trap_fault:
  assumes h: "hosted k t B" and tp: "tp k = ctx_tp (tcontext t)" "regs ! 4 = tp k" and sm: "sum_bit k"
    and va: "unat va < 2 ^ 38" and tr: "mmu S_mode acc va k = None" and y: "labels_ok y"
  obtains pc t' k' where "kernel_trap y (trap_code acc) va (trap_pc y acc) regs k = Some (pc, regs, k')"
    "copy_step t B k t' k'" "view_grows (vm_space t) (mm k) (vm_space t') (mm k')"
    "pc = uaccess_fix y \<Longrightarrow> mmu S_mode acc va k' = None"
    "pc \<noteq> uaccess_fix y \<Longrightarrow> pc = trap_pc y acc \<and> (\<exists>pa. mmu S_mode acc va k' = Some pa)"
    "pc = uaccess_fix y \<Longrightarrow> allows acc (user_mem (vm_space t) (mm k) va) \<Longrightarrow> card (mfree (mm k')) \<le> 1"
proof -
  define c where "c = take_trap (trap_code acc) va (trap_pc y acc) (csrs k)"
  define k1 where "k1 = k\<lparr>csrs := csrw SSCRATCH_CSR_NO 0 c, tp := 0\<rparr>"
  define ctx where "ctx = \<lparr>xs = regs, sstatus = csrr SSTATUS_CSR_NO c, sepc = csrr SEPC_CSR_NO c, ctx_task_id = 0\<rparr>"
  have c1: "csrs k1 SATP_CSR_NO = csrs k SATP_CSR_NO" "scause_read (csrs k1) = trap_code acc"
    "sepc_read (csrs k1) = trap_pc y acc" "stval_read (csrs k1) = va"
    "csrr SSTATUS_CSR_NO c = csrs k SSTATUS_CSR_NO" "csrr SEPC_CSR_NO c = trap_pc y acc"
    by (simp_all add: k1_def c_def take_trap_def csrw_def csrr_def scause_read_def sepc_read_def stval_read_def csr_numbers)
  have h1: "hosted k1 t B" by (rule hosted_cong [OF h]) (simp_all add: c1, simp_all add: k1_def)
  note H = hostedD [OF h]
  have ptr: "regs ! 4 \<noteq> 0" "get_task_id_from_ptr (regs ! 4) (phys (mm k1)) = task_id t"
    using hosted_ptr [OF h1] tp by simp_all
  have tr1: "translate S_mode True acc (csrs k1 SATP_CSR_NO) (phys (mm k1)) va = None"
    using tr sm by (simp add: mmu_def csrr_def c1(1)) (simp add: k1_def)
  show ?thesis
  proof (rule do_page_fault_cases [OF h1 va _ tr1])
    fix r t' k2
    assume r: "do_page_fault (task_id t) va (request acc) k1 = Some (r, k2)" "step_for t B k1 t' k2"
      and k2: "k2 = k1\<lparr>mm := mm k2, ALL_TASKS := ALL_TASKS k2\<rparr>"
      and grows: "view_grows (vm_space t) (mm k1) (vm_space t') (mm k2)"
      and good: "r = Inr () \<Longrightarrow> \<exists>pa. \<forall>mode sm. mode = U_mode \<or> sm \<longrightarrow>
        translate mode sm acc (csrs k1 SATP_CSR_NO) (phys (mm k2)) va = Some pa"
      and bad: "r \<noteq> Inr () \<Longrightarrow> translate S_mode True acc (csrs k1 SATP_CSR_NO) (phys (mm k2)) va = None"
      and why: "r \<noteq> Inr () \<Longrightarrow> allows acc (user_mem (vm_space t) (mm k1) va) \<Longrightarrow> card (mfree (mm k1)) \<le> 3 \<and> card (mfree (mm k2)) \<le> 1"
    define pc where "pc = (case r of Inl _ \<Rightarrow> uaccess_fix y | Inr _ \<Rightarrow> trap_pc y acc)"
    define k' where "k' = k2\<lparr>csrs := csrw SEPC_CSR_NO pc (csrw SSTATUS_CSR_NO (csrs k SSTATUS_CSR_NO)
      (csrw SSCRATCH_CSR_NO 0 (csrs k2))), tp := regs ! 4\<rparr>"
    have "k_trap_handler y ctx k1 = Some (ctx\<lparr>sepc := pc\<rparr>, k2)"
      by (subst k_trap_handler_user [where acc = acc])
        (use ptr r(1) in \<open>simp_all add: c1 ctx_def pc_def get_uaccess_fix_def split: sum.split\<close>)
    then have run: "kernel_trap y (trap_code acc) va (trap_pc y acc) regs k = Some (pc, regs, k')"
      unfolding kernel_trap_def Let_def c_def [symmetric] k1_def [symmetric] ctx_def [symmetric]
      by (simp add: k'_def ctx_def c1)
    have "csrs k2 = csrs k1" by (subst k2) simp
    then have cs: "same_csrs (csrs k) (csrs k')" 
      by (auto simp: same_csrs_def k'_def k1_def c_def take_trap_def csrw_def)
    have eq: "k' = k\<lparr>mm := mm k', ALL_TASKS := ALL_TASKS k', csrs := csrs k'\<rparr>"
      unfolding k'_def using tp(2) by (subst k2) (simp add: k1_def)
    have sat: "csrs k' SATP_CSR_NO = csrs k SATP_CSR_NO" "csrs k' SSTATUS_CSR_NO = csrs k SSTATUS_CSR_NO"
      using cs by (simp_all add: same_csrs_def csr_numbers)
    have mm: "mm k' = mm k2" "mm k1 = mm k" by (simp_all add: k'_def k1_def)
    have "hosted k' t' B"
    proof (rule hosted_cong)
      show "hosted k2 t' B" using r(2) by (simp add: step_on_def)
      show "csrs k' SATP_CSR_NO = csrs k2 SATP_CSR_NO" using sat(1) c1(1) \<open>csrs k2 = csrs k1\<close> by simp
    qed (simp_all add: k'_def)
    then have step: "copy_step t B k t' k'"
      using r(2) cs eq by (simp add: copy_step_def step_on_def mm)
    have mmu: "mmu S_mode acc va k' = translate S_mode True acc (csrs k1 SATP_CSR_NO) (phys (mm k2)) va"
      using sm by (simp add: mmu_def csrr_def sat c1(1) mm sum_bit_def sstatus_read_def)
    have "trap_pc y acc \<noteq> uaccess_fix y" using y by (simp add: labels_ok_def trap_pc_def split: access.split)
    then have pc: "pc = uaccess_fix y \<longleftrightarrow> r \<noteq> Inr ()" "r = Inr () \<Longrightarrow> pc = trap_pc y acc"
      unfolding pc_def case_unit_result by simp_all
    show ?thesis
    proof (rule that [OF run step])
      show "view_grows (vm_space t) (mm k) (vm_space t') (mm k')" using grows by (simp add: mm)
      show "mmu S_mode acc va k' = None" if "pc = uaccess_fix y" using that bad pc unfolding mmu by blast
      show "card (mfree (mm k')) \<le> 1" if "pc = uaccess_fix y" "allows acc (user_mem (vm_space t) (mm k) va)"
        using that why pc(1) by (simp add: mm)
      show "pc = trap_pc y acc \<and> (\<exists>pa. mmu S_mode acc va k' = Some pa)" if "pc \<noteq> uaccess_fix y"
      proof -
        have r: "r = Inr ()" using that pc(1) by blast
        from good [OF r] obtain pa where "\<forall>mode sm. mode = U_mode \<or> sm \<longrightarrow>
          translate mode sm acc (csrs k1 SATP_CSR_NO) (phys (mm k2)) va = Some pa" ..
        from this [rule_format, of S_mode True]
        have "translate S_mode True acc (csrs k1 SATP_CSR_NO) (phys (mm k2)) va = Some pa" by simp
        then show ?thesis unfolding mmu using pc(2) [OF r] by blast
      qed
    qed
  qed simp
qed

subsection \<open>One byte\<close>

text \<open>What the kernel reads at a user address with \<open>SUM\<close> set.\<close>

definition user_byte :: "kernel \<Rightarrow> usize \<Rightarrow> u8 option" where
  "user_byte k va =
     map_option (phys (mm k)) (translate S_mode True Load (csrs k SATP_CSR_NO) (phys (mm k)) va)"

definition user_writable :: "kernel \<Rightarrow> usize \<Rightarrow> bool" where
  "user_writable k va \<longleftrightarrow> translate S_mode True Store (csrs k SATP_CSR_NO) (phys (mm k)) va \<noteq> None"

lemma mmu_sum: "sum_bit k \<Longrightarrow> mmu S_mode acc va k = translate S_mode True acc (csrs k SATP_CSR_NO) (phys (mm k)) va"
  by (simp add: mmu_def csrr_def)

lemma user_lb_cases:
  assumes h: "hosted k t B" and tp: "tp k = ctx_tp (tcontext t)" "regs ! 4 = tp k" and sm: "sum_bit k"
    and va: "unat va < 2 ^ 38" and y: "labels_ok y"
  obtains t' k' where "user_lb y regs va k = Some (user_byte k' va, k')" "copy_step t B k t' k'"
    "view_grows (vm_space t) (mm k) (vm_space t') (mm k')"
    "user_byte k' va = None \<longrightarrow> allows Load (user_mem (vm_space t) (mm k) va) \<longrightarrow> card (mfree (mm k')) \<le> 1"
proof (cases "mmu S_mode Load va k")
  case (Some pa)
  then have "user_lb y regs va k = Some (user_byte k va, k)" "user_byte k va \<noteq> None"
    using sm by (simp_all add: user_lb.simps user_byte_def mmu_sum)
  then show ?thesis by (intro that [OF _ copy_step_refl [OF h] view_grows_refl]) auto
next
  case None
  show ?thesis
  proof (rule kernel_trap_fault [OF h tp sm va None y])
    fix pc t' k'
    assume run: "kernel_trap y (trap_code Load) va (trap_pc y Load) regs k = Some (pc, regs, k')"
      and step: "copy_step t B k t' k'" "view_grows (vm_space t) (mm k) (vm_space t') (mm k')"
      and bad: "pc = uaccess_fix y \<Longrightarrow> mmu S_mode Load va k' = None"
      and good: "pc \<noteq> uaccess_fix y \<Longrightarrow> pc = trap_pc y Load \<and> (\<exists>pa. mmu S_mode Load va k' = Some pa)"
      and why: "pc = uaccess_fix y \<Longrightarrow> allows Load (user_mem (vm_space t) (mm k) va) \<Longrightarrow> card (mfree (mm k')) \<le> 1"
    have sm': "sum_bit k'" using copy_stepD(4) [OF step(1)] sm by simp
    have "user_lb y regs va k =
        (if pc = uaccess_fix y then Some (None, k') else user_lb y regs va k')"
      using None run by (subst user_lb.simps) (simp add: trap_code_def trap_pc_def)
    also have "\<dots> = Some (user_byte k' va, k')"
      using bad good sm' by (auto simp: user_lb.simps user_byte_def mmu_sum)
    finally show ?thesis
      by (rule that [OF _ step]) (use good why sm' in \<open>cases "pc = uaccess_fix y"; auto simp: user_byte_def mmu_sum\<close>)
  qed
qed

lemma user_sb_cases:
  assumes h: "hosted k t B" and tp: "tp k = ctx_tp (tcontext t)" "regs ! 4 = tp k" and sm: "sum_bit k"
    and va: "unat va < 2 ^ 38" and y: "labels_ok y"
  obtains (refused) t' k' where "user_sb y regs va b k = Some (False, k')" "copy_step t B k t' k'"
      "view_grows (vm_space t) (mm k) (vm_space t') (mm k')" "\<not> user_writable k' va"
      "allows Store (user_mem (vm_space t) (mm k) va) \<Longrightarrow> card (mfree (mm k')) \<le> 1"
  | (stored) t' k' pa where "copy_step t B k t' k'" "view_grows (vm_space t) (mm k) (vm_space t') (mm k')"
      "translate S_mode True Store (csrs k' SATP_CSR_NO) (phys (mm k')) va = Some pa"
      "user_sb y regs va b k = Some (True, k'\<lparr>mm := (mm k')\<lparr>phys := (phys (mm k'))(pa := b)\<rparr>\<rparr>)"
proof (cases "mmu S_mode Store va k")
  case (Some pa)
  then show ?thesis using sm
    by (intro stored [OF copy_step_refl [OF h] view_grows_refl]) (auto simp: user_sb.simps mmu_sum)
next
  case None
  show ?thesis
  proof (rule kernel_trap_fault [OF h tp sm va None y])
    fix pc t' k'
    assume run: "kernel_trap y (trap_code Store) va (trap_pc y Store) regs k = Some (pc, regs, k')"
      and step: "copy_step t B k t' k'" "view_grows (vm_space t) (mm k) (vm_space t') (mm k')"
      and bad: "pc = uaccess_fix y \<Longrightarrow> mmu S_mode Store va k' = None"
      and good: "pc \<noteq> uaccess_fix y \<Longrightarrow> pc = trap_pc y Store \<and> (\<exists>pa. mmu S_mode Store va k' = Some pa)"
      and why: "pc = uaccess_fix y \<Longrightarrow> allows Store (user_mem (vm_space t) (mm k) va) \<Longrightarrow> card (mfree (mm k')) \<le> 1"
    have sm': "sum_bit k'" using copy_stepD(4) [OF step(1)] sm by simp
    have eq: "user_sb y regs va b k =
        (if pc = uaccess_fix y then Some (False, k') else user_sb y regs va b k')"
      using None run by (subst user_sb.simps) (simp add: trap_code_def trap_pc_def)
    show ?thesis
    proof (cases "pc = uaccess_fix y")
      case True
      with eq bad why sm' show ?thesis by (intro refused [OF _ step]) (simp_all add: user_writable_def mmu_sum)
    next
      case False
      then obtain pa where "mmu S_mode Store va k' = Some pa" using good by blast
      with eq False sm' show ?thesis by (intro stored [OF step]) (auto simp: user_sb.simps mmu_sum)
    qed
  qed
qed

subsection \<open>User memory across the steps\<close>

lemma view_user_byte:
  assumes st: "copy_step t B k t' k'" "hosted k t B" and g: "view_grows (vm_space t) (mm k) (vm_space t') (mm k')"
    and va: "unat va < 2 ^ 38" and b: "user_byte k va = Some b"
  shows "user_byte k' va = Some b"
proof -
  note H = hostedD [OF st(2)] and H' = hostedD [OF copy_stepD(2) [OF st(1)]]
  obtain pa where pa: "translate S_mode True Load (csrs k SATP_CSR_NO) (phys (mm k)) va = Some pa" "phys (mm k) pa = b"
    using b by (auto simp: user_byte_def)
  note V = view_translate [OF H(5) H'(5) g va pa(1) [unfolded H(4)]]
  show ?thesis unfolding user_byte_def H'(4) V(1) using V(2) pa(2) by simp
qed

text \<open>Different user addresses go to different physical addresses.\<close>

lemma translate_inj:
  assumes ok: "space_ok v s" and va: "unat va < 2 ^ 38" "unat vb < 2 ^ 38"
    and tr: "translate m1 sm1 acc1 (RootPgt_get_satp (root_pgt v)) (phys s) va = Some pa"
      "translate m2 sm2 acc2 (RootPgt_get_satp (root_pgt v)) (phys s) vb = Some pa"
  shows "va = vb"
proof -
  obtain a p where a: "a \<in># marea v" "map_of (pages a) (va_vpn va) = Some p"
    "pa = get_pa (get_ppn p) + take_bit 12 va" "PPN (drop_bit 12 pa) = get_ppn p"
    by (rule user_access [OF ok va(1) tr(1)])
  obtain b q where b: "b \<in># marea v" "map_of (pages b) (va_vpn vb) = Some q"
    "pa = get_pa (get_ppn q) + take_bit 12 vb" "PPN (drop_bit 12 pa) = get_ppn q"
    by (rule user_access [OF ok va(2) tr(2)])
  have pq: "get_ppn p = get_ppn q" using a(4) b(4) by simp
  have "take_bit 12 va = take_bit 12 vb" using a(3) b(3) unfolding pq by simp
  moreover have "va_vpn va = va_vpn vb" by (rule page_unique(2) [OF ok a(1,2) b(1,2) pq])
  then have "drop_bit 12 va = drop_bit 12 vb" by (simp add: va_vpn_def)
  ultimately show ?thesis by (metis bits_ident)
qed

lemma store_user_byte:
  assumes h: "hosted k t B" and va: "unat va < 2 ^ 38" "unat vb < 2 ^ 38"
    and tr: "translate S_mode True Store (csrs k SATP_CSR_NO) (phys (mm k)) va = Some pa"
  shows "user_byte (k\<lparr>mm := (mm k)\<lparr>phys := (phys (mm k))(pa := b)\<rparr>\<rparr>) vb =
    (if vb = va then Some b else user_byte k vb)"
proof -
  let ?v = "vm_space t" and ?s = "(mm k)\<lparr>phys := (phys (mm k))(pa := b)\<rparr>"
  note H = hostedD [OF h]
  note tr' = tr [unfolded H(4)]
  obtain p where p: "PPN (drop_bit 12 pa) = get_ppn p" "get_ppn p \<in> data_pages ?v"
    by (rule user_access [OF H(5) va(1) tr'])
  have m: "((phys (mm k))(pa := b)) x = phys (mm k) x" if "PPN (drop_bit 12 x) \<notin> data_pages ?v" for x
    using that p by (metis fun_upd_other)
  have W: "space_ok ?v ?s" "lookup (root_pgt ?v) ?s = lookup (root_pgt ?v) (mm k)"
    by (rule page_write [OF H(5)], rule m, assumption)+
  have same: "translate S_mode True acc (RootPgt_get_satp (root_pgt ?v)) ((phys (mm k))(pa := b)) vb =
      translate S_mode True acc (RootPgt_get_satp (root_pgt ?v)) (phys (mm k)) vb" for acc
    using translate_user [OF W(1) va(2), of S_mode True acc] unfolding W(2) translate_user [OF H(5) va(2)] by simp
  show ?thesis
  proof (cases "vb = va")
    case True
    have "translate S_mode True Load (RootPgt_get_satp (root_pgt ?v)) (phys (mm k)) va = Some pa"
      using tr' space_okD(12) [OF H(5) va_vpn_user [OF va(1)]] unfolding translate_user [OF H(5) va(1)]
      by (auto simp: hw_allows_def sound_leaf_def split: option.splits if_splits)
    then show ?thesis using same [of Load] by (simp add: user_byte_def H(4) True)
  next
    case False
    then have "translate S_mode True Load (RootPgt_get_satp (root_pgt ?v)) (phys (mm k)) vb \<noteq> Some pa"
      using translate_inj [OF H(5) va tr'] by blast
    then show ?thesis using False
      by (cases "translate S_mode True Load (RootPgt_get_satp (root_pgt ?v)) (phys (mm k)) vb")
        (simp_all add: user_byte_def H(4) same)
  qed
qed

lemma store_copy_step:
  assumes h: "hosted k t B" and va: "unat va < 2 ^ 38"
    and tr: "translate S_mode True Store (csrs k SATP_CSR_NO) (phys (mm k)) va = Some pa"
  shows "copy_step t B k t (k\<lparr>mm := (mm k)\<lparr>phys := (phys (mm k))(pa := b)\<rparr>\<rparr>)"
proof -
  note H = hostedD [OF h]
  have "block_step {} t (mm k) t ((mm k)\<lparr>phys := (phys (mm k))(pa := b)\<rparr>)"
    by (rule user_store_step [OF H(3) va]) (use tr H(4) in simp)
  then have "step_for t B k t (k\<lparr>mm := (mm k)\<lparr>phys := (phys (mm k))(pa := b)\<rparr>\<rparr>)"
    by (intro hosted_step [OF h]) (simp_all add: H(1))
  then show ?thesis by (simp add: copy_step_def same_csrs_def)
qed

lemma user_byte_mem:
  assumes h: "hosted k t B" and va: "unat va < 2 ^ 38" and b: "user_byte k va = Some b"
  shows "\<exists>pm. user_mem (vm_space t) (mm k) va = Some (pm, b)"
proof -
  note H = hostedD [OF h]
  obtain pa where "translate S_mode True Load (csrs k SATP_CSR_NO) (phys (mm k)) va = Some pa" "phys (mm k) pa = b"
    using b by (auto simp: user_byte_def)
  then show ?thesis using load_mem [OF H(5) va, of S_mode True Load pa] by (simp add: H(4))
qed

subsection \<open>The two copies\<close>

text \<open>States of a copy that began in \<open>k0\<close> with the task \<open>t\<close> on the hart.\<close>

definition copying :: "uaccess_syms \<Rightarrow> TaskControlBlock \<Rightarrow> TaskControlBlock multiset \<Rightarrow> kernel \<Rightarrow> kernel \<Rightarrow> bool" where
  "copying y t B k0 k \<longleftrightarrow> labels_ok y \<and> hosted k0 t B \<and> tp k0 = ctx_tp (tcontext t) \<and> sum_bit k0 \<and>
     (\<exists>t'. copy_step t B k0 t' k)"

lemma copyingD:
  assumes "copying y t B k0 k"
  obtains t' where "copy_step t B k0 t' k" "hosted k t' B" "tp k = ctx_tp (tcontext t')" "sum_bit k" "labels_ok y"
    "\<And>t'' k'. copy_step t' B k t'' k' \<Longrightarrow> copying y t B k0 k'"
proof -
  obtain t' where t': "copy_step t B k0 t' k" and c: "labels_ok y" "hosted k0 t B" "tp k0 = ctx_tp (tcontext t)" "sum_bit k0"
    using assms by (auto simp: copying_def)
  have "tcontext t' = tcontext t" using t' by (simp add: copy_step_def step_on_def)
  then show ?thesis using copy_stepD [OF t'] c t' copy_step_trans [OF t']
    by (intro that [of t']) (auto simp: copying_def)
qed

interpretation from_user: byte_copy "from_user_lb y" kernel_sb "\<lambda>(k, buf). copying y t B k0 k"
  "\<lambda>a. unat a < 2 ^ 38" "\<lambda>_. True" "\<lambda>(k, buf). user_byte k" "\<lambda>(k, buf) a. Some (buf a)" "\<lambda>_ _. True"
  for y t B k0
proof (unfold_locales, goal_cases lb sb)
  case (lb s a0 a1 t5)
  obtain k buf where s: "s = (k, buf)" by (cases s)
  have c: "copying y t B k0 k" using lb(1) s by simp
  obtain t1 where "copy_step t B k0 t1 k" and t1: "hosted k t1 B" "tp k = ctx_tp (tcontext t1)" "sum_bit k" "labels_ok y"
    "\<And>t'' k'. copy_step t1 B k t'' k' \<Longrightarrow> copying y t B k0 k'"
    by (rule copyingD [OF c]) blast
  have r: "loop_regs (tp k) a0 a1 t5 0 ! 4 = tp k" by (simp add: loop_regs_def)
  obtain t2 k2 where k2: "user_lb y (loop_regs (tp k) a0 a1 t5 0) a0 k = Some (user_byte k2 a0, k2)"
    "copy_step t1 B k t2 k2" "view_grows (vm_space t1) (mm k) (vm_space t2) (mm k2)"
    by (rule user_lb_cases [OF t1(1,2) r t1(3) lb(2) t1(4)])
  then show ?case using t1(5) [OF k2(2)] view_user_byte [OF k2(2) t1(1) k2(3)]
    by (intro exI [of _ "(k2, buf)"]) (simp add: s from_user_lb_def)
next
  case (sb s a1 a0 t5 c)
  then show ?case by (auto simp: kernel_sb_def split: prod.splits)
qed

interpretation to_user: byte_copy "kernel_lb buf" "to_user_sb y" "copying y t B k0"
  "\<lambda>_. True" "\<lambda>a. unat a < 2 ^ 38" "\<lambda>k a. Some (buf a)" user_byte user_writable
  for buf y t B k0
proof (unfold_locales, goal_cases lb sb)
  case (lb k a0 a1 t5)
  then show ?case by (simp add: kernel_lb_def)
next
  case (sb k a1 a0 t5 c)
  obtain t1 where "copy_step t B k0 t1 k" and t1: "hosted k t1 B" "tp k = ctx_tp (tcontext t1)" "sum_bit k" "labels_ok y"
    "\<And>t'' k'. copy_step t1 B k t'' k' \<Longrightarrow> copying y t B k0 k'"
    by (rule copyingD [OF sb(1)]) blast
  let ?regs = "loop_regs (tp k) a0 a1 t5 (scast c)"
  have r: "?regs ! 4 = tp k" by (simp add: loop_regs_def)
  show ?case
  proof (rule user_sb_cases [OF t1(1,2) r t1(3) sb(2) t1(4), where b = c], goal_cases refused stored)
    case (refused t2 k2)
    then show ?case using t1(5) view_user_byte [OF refused(2) t1(1) refused(3)]
      by (intro exI [of _ False] exI [of _ k2]) (simp add: to_user_sb_def)
  next
    case (stored t2 k2 pa)
    let ?k = "k2\<lparr>mm := (mm k2)\<lparr>phys := (phys (mm k2))(pa := c)\<rparr>\<rparr>"
    note h2 = copy_stepD(2) [OF stored(1)]
    have "copying y t B k0 ?k"
      by (rule t1(5) [OF copy_step_trans [OF stored(1) store_copy_step [OF h2 sb(2) stored(3)]]])
    then show ?case
      using stored(4) view_user_byte [OF stored(1) t1(1) stored(2)] store_user_byte [OF h2 sb(2) _ stored(3)] sb(2)
      by (intro exI [of _ True] exI [of _ ?k]) (simp add: to_user_sb_def)
  qed
qed

text \<open>
  The same copies on the memory of the program that is on the hart.  Outside user space this memory
  is empty.
\<close>

definition user_view :: "usize \<Rightarrow> kernel \<Rightarrow> user_memory" where
  "user_view i k va = (case position_of i (ALL_TASKS k) of
     None \<Rightarrow> None
   | Some n \<Rightarrow> if unat va < 2 ^ 38 then user_mem (vm_space (ALL_TASKS k ! n)) (mm k) va else None)"

lemma hosted_view:
  assumes "hosted k t B"
  shows "user_view (task_id t) k va = (if unat va < 2 ^ 38 then user_mem (vm_space t) (mm k) va else None)"
  by (rule hosted_position [OF assms]) (simp add: user_view_def)

lemma view_eqI:
  assumes "hosted k t B" "hosted k' t' B" "task_id t' = task_id t" "same_user (user_mem (vm_space t') (mm k')) N"
  shows "user_view (task_id t) k' va = (if unat va < 2 ^ 38 then N va else None)"
  using hosted_view [OF assms(2), of va] assms(3,4) by (simp add: same_user_def)

definition put_byte :: "u8 \<Rightarrow> (usize \<times> u8) option \<Rightarrow> (usize \<times> u8) option" where
  "put_byte b c = map_option (\<lambda>(pm, _). (pm, b)) c"

lemma allows_put [simp]: "allows acc (put_byte b c) = allows acc c"
  by (auto simp: allows_def put_byte_def split: option.splits)

interpretation read_memory: memory_copy "from_user_lb y" kernel_sb "\<lambda>(k, buf). copying y t B k0 k"
  "\<lambda>a. unat a < 2 ^ 38" "\<lambda>_. True" "\<lambda>(k, buf). user_byte k" "\<lambda>(k, buf) a. Some (buf a)" "\<lambda>_ _. True"
  "\<lambda>(k, buf). user_view (task_id t) k" "\<lambda>(k, buf). card (mfree (mm k)) \<le> 1" "allows Load" "\<lambda>_. True" "\<lambda>_ c. c"
  for y t B k0
proof (unfold_locales, goal_cases lb sb r w)
  case (lb s a0 a1 t5 b s')
  obtain k buf where s: "s = (k, buf)" by (cases s)
  have c: "copying y t B k0 k" using lb(1) s by simp
  obtain t1 where t1: "copy_step t B k0 t1 k" "hosted k t1 B" "tp k = ctx_tp (tcontext t1)" "sum_bit k" "labels_ok y"
    by (rule copyingD [OF c]) blast
  have r: "loop_regs (tp k) a0 a1 t5 0 ! 4 = tp k" by (simp add: loop_regs_def)
  obtain t2 k2 where k2: "user_lb y (loop_regs (tp k) a0 a1 t5 0) a0 k = Some (user_byte k2 a0, k2)"
    "copy_step t1 B k t2 k2" "view_grows (vm_space t1) (mm k) (vm_space t2) (mm k2)"
    "user_byte k2 a0 = None \<longrightarrow> allows Load (user_mem (vm_space t1) (mm k) a0) \<longrightarrow> card (mfree (mm k2)) \<le> 1"
    by (rule user_lb_cases [OF t1(2,3) r t1(4) lb(2) t1(5)])
  have s': "b = user_byte k2 a0" "s' = (k2, buf)" using lb(3) k2(1) by (simp_all add: s from_user_lb_def)
  have id: "task_id t1 = task_id t" "task_id t2 = task_id t1" using t1(1) k2(2) by (simp_all add: copy_step_def step_on_def)
  have "user_view (task_id t) k2 = user_view (task_id t) k"
    using view_eqI [OF t1(2) copy_stepD(2) [OF k2(2)] id(2) view_grows_mem [OF k2(3)]] hosted_view [OF t1(2)] id(1)
    by (simp add: fun_eq_iff)
  then show ?case using k2(4) hosted_view [OF t1(2), of a0] id(1) lb(2) by (auto simp: s s')
next
  case (sb s a1 a0 t5 c w s')
  then show ?case by (auto simp: kernel_sb_def split: prod.splits)
qed simp_all

interpretation write_memory: memory_copy "kernel_lb buf" "to_user_sb y" "copying y t B k0"
  "\<lambda>_. True" "\<lambda>a. unat a < 2 ^ 38" "\<lambda>k a. Some (buf a)" user_byte user_writable
  "user_view (task_id t)" "\<lambda>k. card (mfree (mm k)) \<le> 1" "\<lambda>_. True" "allows Store" put_byte
  for buf y t B k0
proof (unfold_locales, goal_cases lb sb r w)
  case (lb k a0 a1 t5 b k')
  then show ?case by (auto simp: kernel_lb_def)
next
  case (sb k a1 a0 t5 c w k')
  obtain t1 where t1: "copy_step t B k0 t1 k" "hosted k t1 B" "tp k = ctx_tp (tcontext t1)" "sum_bit k" "labels_ok y"
    by (rule copyingD [OF sb(1)]) blast
  let ?regs = "loop_regs (tp k) a0 a1 t5 (scast c)"
  have r: "?regs ! 4 = tp k" by (simp add: loop_regs_def)
  have id: "task_id t1 = task_id t" using t1(1) by (simp add: copy_step_def step_on_def)
  note V = hosted_view [OF t1(2), unfolded id]
  show ?case
  proof (rule user_sb_cases [OF t1(2,3) r t1(4) sb(2) t1(5), where b = c], goal_cases refused stored)
    case (refused t2 k2)
    have s': "w = False" "k' = k2" using sb(3) refused(1) by (simp_all add: to_user_sb_def)
    have "task_id t2 = task_id t1" using refused(2) by (simp add: copy_step_def step_on_def)
    from view_eqI [OF t1(2) copy_stepD(2) [OF refused(2)] this view_grows_mem [OF refused(3)]]
    have "user_view (task_id t) k2 = user_view (task_id t) k" by (simp add: fun_eq_iff V id)
    then show ?case using refused(5) sb(2) V [of a1] by (auto simp: s')
  next
    case (stored t2 k2 pa)
    let ?k = "k2\<lparr>mm := (mm k2)\<lparr>phys := (phys (mm k2))(pa := c)\<rparr>\<rparr>"
    have s': "w = True" "k' = ?k" using sb(3) stored(4) by (simp_all add: to_user_sb_def)
    note h2 = copy_stepD(2) [OF stored(1)]
    note H2 = hostedD [OF h2] and h3 = copy_stepD(2) [OF store_copy_step [OF h2 sb(2) stored(3), of c]]
    have id2: "task_id t2 = task_id t1" using stored(1) by (simp add: copy_step_def step_on_def)
    have m: "same_user (user_mem (vm_space t2) (mm ?k)) (spec_store a1 c (user_mem (vm_space t2) (mm k2)))"
      using store_mem [OF H2(5) sb(2), of S_mode True Store pa c] stored(3) H2(4) by simp
    have g: "user_mem (vm_space t2) (mm k2) va = user_mem (vm_space t1) (mm k) va" if "unat va < 2 ^ 38" for va
      using view_grows_mem [OF stored(2)] that by (simp add: same_user_def)
    have "user_view (task_id t) ?k va = ((user_view (task_id t) k)(a1 := put_byte c (user_view (task_id t) k a1))) va" for va
      using view_eqI [OF t1(2) h3 id2 m, of va] g sb(2) by (simp add: id V spec_store_def put_byte_def)
    then show ?case by (simp add: s' fun_eq_iff)
  qed
qed simp_all

end
