(* ===== verification/Kernel_Calls.thy ===== *)
theory Kernel_Calls
  imports Kernel_Copy
begin

text \<open>
  The system calls on behalf of a running task: what each of them returns, what it does to the
  address space of the task, and that no other task is affected.
\<close>

subsection \<open>A running task\<close>

definition runs :: "kernel \<Rightarrow> TaskControlBlock \<Rightarrow> TaskControlBlock multiset \<Rightarrow> bool" where
  "runs k t B \<longleftrightarrow> hosted k t B \<and> tp k = ctx_tp (tcontext t) \<and> tstate t = Running \<and> none_running B"

lemma runsD:
  assumes "runs k t B"
  shows "hosted k t B" "tp k = ctx_tp (tcontext t)" "tstate t = Running" "none_running B"
  using assms by (simp_all add: runs_def)

lemma runs_step:
  assumes "runs k t B" "step_on W t B k t' k'" "tp k' = tp k"
  shows "runs k' t' B"
  using assms by (simp add: runs_def step_on_def)

lemma current_task:
  assumes "runs k t B"
  shows "get_current_task_id k = Some (task_id t)" "try_get_current_task_id k = Some (task_id t)"
  using hosted_ptr [OF runsD(1) [OF assms]] runsD(2) [OF assms]
  by (simp_all add: get_current_task_id_def try_get_current_task_id_def)

subsection \<open>Copies\<close>

lemma permit_sum_hosted: "hosted (permit_sum k) t B \<longleftrightarrow> hosted k t B" "hosted (deny_sum k) t B \<longleftrightarrow> hosted k t B"
  by (simp_all add: hosted_def permit_sum_def deny_sum_def set_sum_permit_def set_sum_deny_def csrrs_def csrrc_def csr_numbers)

lemma permit_sum_simps:
  "mm (permit_sum k) = mm k" "tp (permit_sum k) = tp k" "ALL_TASKS (permit_sum k) = ALL_TASKS k"
  "console (permit_sum k) = console k" "mm (deny_sum k) = mm k" "tp (deny_sum k) = tp k"
  "ALL_TASKS (deny_sum k) = ALL_TASKS k" "console (deny_sum k) = console k"
  "user_byte (permit_sum k) = user_byte k" "user_byte (deny_sum k) = user_byte k"
  "user_writable (permit_sum k) = user_writable k" "user_writable (deny_sum k) = user_writable k"
  "user_view i (permit_sum k) = user_view i k" "user_view i (deny_sum k) = user_view i k"
  by (simp_all add: permit_sum_def deny_sum_def set_sum_permit_def set_sum_deny_def csrrs_def csrrc_def
      csr_numbers user_byte_def user_writable_def user_view_def fun_eq_iff
      split: option.split)

lemma SUM_BIT_not_0: "(x OR SUM_BIT) AND SUM_BIT \<noteq> 0" "(x AND NOT SUM_BIT) AND SUM_BIT = 0"
proof -
  have b: "bit SUM_BIT n \<longleftrightarrow> n = 18" for n
    unfolding SUM_BIT_def push_bit_of_1 bit_exp_iff by auto
  have "bit ((x OR SUM_BIT) AND SUM_BIT) 18" by (simp add: bit_and_iff bit_or_iff b)
  then show "(x OR SUM_BIT) AND SUM_BIT \<noteq> 0" by auto
  show "(x AND NOT SUM_BIT) AND SUM_BIT = 0"
    by (rule bit_eqI) (simp add: bit_and_iff bit_not_iff)
qed

lemma permit_sum_set: "sum_bit (permit_sum k)" "\<not> sum_bit (deny_sum k)"
  using SUM_BIT_not_0 by (simp_all add: sum_bit_def permit_sum_def deny_sum_def sstatus_read_def csrr_def
      set_sum_permit_def set_sum_deny_def csrrs_def csrrc_def)

lemma user_range:
  assumes "check_u_va_range a len" "i < unat len"
  shows "unat (a + of_nat i) < 2 ^ 38"
proof -
  have "unat a + unat len \<le> 2 ^ 38" using assms by (auto simp: check_u_va_range_iff kconst split: if_splits)
  moreover have "unat (of_nat i :: usize) = i"
    using assms(2) unsigned_less [of len, where 'a = nat] by (simp add: unat_of_nat)
  ultimately show ?thesis using assms(2) unfolding unat_word_ariths by simp
qed

lemma user_range_sint:
  assumes "check_u_va_range a len"
  shows "sint a + int (unat len) < 2 ^ 63"
proof -
  have *: "unat a < 2 ^ 38" "len \<noteq> 0 \<Longrightarrow> unat a + unat len \<le> 2 ^ 38"
    using assms by (auto simp: check_u_va_range_iff kconst split: if_splits)
  have "uint a < 2 ^ 38" using *(1) unfolding uint_nat by (metis of_nat_less_iff of_nat_numeral of_nat_power)
  moreover have "0 \<le> uint a" by simp
  ultimately have "signed_take_bit 63 (uint a) = uint a"
    by (intro signed_take_bit_int_eq_self order.trans [of "- (2 ^ 63)" 0 "uint a"]) simp_all
  then have "sint a = int (unat a)" by (simp add: sint_uint)
  moreover have "unat a + unat len < 2 ^ 63" using * by (cases "len = 0") simp_all
  then have "int (unat a + unat len) < 2 ^ 63" by (metis of_nat_less_iff of_nat_numeral of_nat_power)
  ultimately show ?thesis by simp
qed

text \<open>What a copy leaves behind: the task still runs, with \<open>SUM\<close> off, and no other task noticed.\<close>

definition copy_done ::
  "TaskControlBlock \<Rightarrow> TaskControlBlock multiset \<Rightarrow> kernel \<Rightarrow> TaskControlBlock \<Rightarrow> kernel \<Rightarrow> bool" where
  "copy_done t B k t' k' \<longleftrightarrow> runs k' t' B \<and> step_for t B k t' k' \<and> \<not> sum_bit k' \<and> console k' = console k"

lemma copying_done:
  assumes r: "runs k t B" and c: "copying y t B (permit_sum k) k1"
  obtains t' where "copy_done t B k t' (deny_sum k1)"
proof -
  obtain t' where s: "copy_step t B (permit_sum k) t' k1" using c by (auto simp: copying_def)
  note S = copy_stepD [OF s]
  have st: "step_for t B k t' (deny_sum k1)"
    using S(1) by (simp add: step_on_def permit_sum_hosted permit_sum_simps)
  moreover have "runs (deny_sum k1) t' B"
    by (rule runs_step [OF r st]) (simp add: permit_sum_simps S(3))
  ultimately show ?thesis using S(5) by (intro that [of t']) (simp add: copy_done_def permit_sum_set permit_sum_simps)
qed

text \<open>The memory of the program before and after.\<close>

lemma copy_done_mem:
  assumes r: "runs k t B" and d: "copy_done t B k t' k'" and a: "unat a < 2 ^ 38"
  shows "user_view (task_id t) k a = user_mem (vm_space t) (mm k) a"
    "user_view (task_id t) k' a = user_mem (vm_space t') (mm k') a"
proof -
  have "hosted k' t' B" "task_id t' = task_id t" using d by (simp_all add: copy_done_def runs_def step_on_def)
  then show "user_view (task_id t) k' a = user_mem (vm_space t') (mm k') a" using hosted_view [of k' t' B a] a by simp
  show "user_view (task_id t) k a = user_mem (vm_space t) (mm k) a" using hosted_view [OF runsD(1) [OF r], of a] a by simp
qed

lemma copying_start: "runs k t B \<Longrightarrow> labels_ok y \<Longrightarrow> copying y t B (permit_sum k) (permit_sum k)"
  using copy_step_refl [of "permit_sum k" t B]
  by (auto simp: copying_def runs_def permit_sum_hosted permit_sum_simps permit_sum_set)

lemma copy_from_user_spec:
  assumes r: "runs k t B" and y: "labels_ok y" and u: "check_u_va_range src len"
  obtains n t' k' buf' where "copy_from_user y src dst len k buf = Some (len - of_nat n, k', buf')"
    "n \<le> unat len" "copy_done t B k t' k'"
    "\<And>i. i < n \<Longrightarrow> user_byte k' (src + of_nat i) = Some (buf' (dst + of_nat i))"
    "\<And>a b. unat a < 2 ^ 38 \<Longrightarrow> user_byte k a = Some b \<Longrightarrow> user_byte k' a = Some b"
    "\<And>a. (\<And>i. i < n \<Longrightarrow> a \<noteq> dst + of_nat i) \<Longrightarrow> buf' a = buf a"
    "n < unat len \<Longrightarrow> user_byte k' (src + of_nat n) = None"
    "same_user (user_mem (vm_space t') (mm k')) (user_mem (vm_space t) (mm k))"
    "n < unat len \<Longrightarrow> card (mfree (mm k')) \<le> 1 \<or> \<not> allows Load (user_mem (vm_space t) (mm k) (src + of_nat n))"
proof -
  have ok: "(\<lambda>(k1, buf). copying y t B (permit_sum k) k1) (permit_sum k, buf)"
    using copying_start [OF r y] by simp
  show ?thesis
  proof (rule read_memory.uaccess_stored [OF ok user_range_sint [OF u], of dst], goal_cases range run)
    case (range i)
    then show ?case using user_range [OF u] by simp
  next
    case (run rest s')
    obtain k1 buf1 where s': "s' = (k1, buf1)" by (cases s')
    define n where "n = unat len - rest"
    note C = from_user.copiedD [OF run(2), unfolded s' prod.case n_def [symmetric]]
    obtain t' where d: "copy_done t B k t' (deny_sum k1)" by (rule copying_done [OF r C(2)])
    have n: "of_nat rest = len - of_nat n" "n \<le> unat len" "n < unat len \<Longrightarrow> 0 < rest"
      using C(1) by (simp_all add: n_def of_nat_diff)
    note S = run(3) [unfolded read_memory.stored_def s' prod.case n_def [symmetric] permit_sum_simps]
      and V = copy_done_mem [OF r d, unfolded permit_sum_simps]
    have keep: "user_view (task_id t) k1 a = user_view (task_id t) k a" for a
      using S by (cases "\<exists>i < n. a = dst + of_nat i") auto
    show ?thesis
    proof (rule that [OF _ n(2) d])
      show "same_user (user_mem (vm_space t') (mm (deny_sum k1))) (user_mem (vm_space t) (mm k))"
        using keep V by (simp add: same_user_def permit_sum_simps)
      show "card (mfree (mm (deny_sum k1))) \<le> 1 \<or> \<not> allows Load (user_mem (vm_space t) (mm k) (src + of_nat n))"
        if "n < unat len" using that S n(3) V(1) [OF user_range [OF u that]] by (auto simp: permit_sum_simps)
      show "copy_from_user y src dst len k buf = Some (len - of_nat n, deny_sum k1, buf1)"
        using run(1) n(1) by (simp add: copy_from_user_def s')
      fix a assume "\<And>i. i < n \<Longrightarrow> a \<noteq> dst + of_nat i"
      then show "buf1 a = buf a" using C(6) [of a] by simp
    qed (use C(4,5,7) n(3) in \<open>simp_all add: permit_sum_simps\<close>)
  qed
qed

lemma copy_to_user_spec:
  assumes r: "runs k t B" and y: "labels_ok y" and u: "check_u_va_range dst len"
    and src: "sint src + int (unat len) < 2 ^ 63"
  obtains n t' k' where "copy_to_user y buf src dst len k = Some (len - of_nat n, k')"
    "n \<le> unat len" "copy_done t B k t' k'"
    "\<And>i. i < n \<Longrightarrow> user_byte k' (dst + of_nat i) = Some (buf (src + of_nat i))"
    "\<And>a b. unat a < 2 ^ 38 \<Longrightarrow> (\<And>i. i < n \<Longrightarrow> a \<noteq> dst + of_nat i) \<Longrightarrow> user_byte k a = Some b \<Longrightarrow> user_byte k' a = Some b"
    "n < unat len \<Longrightarrow> \<not> user_writable k' (dst + of_nat n)"
    "same_user (user_mem (vm_space t') (mm k'))
       (spec_write dst (map (\<lambda>i. buf (src + of_nat i)) [0..<n]) (user_mem (vm_space t) (mm k)))"
    "n < unat len \<Longrightarrow> card (mfree (mm k')) \<le> 1 \<or> \<not> allows Store (user_mem (vm_space t) (mm k) (dst + of_nat n))"
proof -
  show ?thesis
  proof (rule write_memory.uaccess_stored [where buf = buf, OF copying_start [OF r y] src, of dst], goal_cases range run)
    case (range i)
    then show ?case using user_range [OF u] by simp
  next
    case (run rest k1)
    define n where "n = unat len - rest"
    note C = to_user.copiedD [OF run(2), folded n_def]
    obtain t' where d: "copy_done t B k t' (deny_sum k1)" by (rule copying_done [OF r C(2)])
    have n: "of_nat rest = len - of_nat n" "n \<le> unat len" "n < unat len \<Longrightarrow> 0 < rest"
      using C(1) by (simp_all add: n_def of_nat_diff)
    note S = run(3) [unfolded write_memory.stored_def n_def [symmetric] permit_sum_simps]
      and V = copy_done_mem [OF r d, unfolded permit_sum_simps]
    have "user_view (task_id t) k1 a = spec_write dst (map (\<lambda>i. buf (src + of_nat i)) [0..<n]) (user_view (task_id t) k) a" for a
    proof (cases "unat (a - dst) < n")
      case True
      from S have "user_view (task_id t) k1 (dst + of_nat i) =
          put_byte (buf (src + of_nat i)) (user_view (task_id t) k (dst + of_nat i))" if "i < n" for i
        using that by simp
      from this [OF True] True show ?thesis by (simp add: spec_write_def put_byte_def)
    next
      case False
      have "a \<noteq> dst + of_nat i" if "i < n" for i
        using that False n(2) unsigned_less [of len, where 'a = nat] by (auto simp: unat_of_nat)
      then show ?thesis using S False by (simp add: spec_write_def)
    qed
    note mem = this
    show ?thesis
    proof (rule that [OF _ n(2) d])
      show "same_user (user_mem (vm_space t') (mm (deny_sum k1)))
          (spec_write dst (map (\<lambda>i. buf (src + of_nat i)) [0..<n]) (user_mem (vm_space t) (mm k)))"
        unfolding same_user_def permit_sum_simps
        by (intro allI impI, simp only: V(2) [symmetric] mem) (simp add: spec_write_def V(1))
      show "card (mfree (mm (deny_sum k1))) \<le> 1 \<or> \<not> allows Store (user_mem (vm_space t) (mm k) (dst + of_nat n))"
        if "n < unat len" using that S n(3) V(1) [OF user_range [OF u that]] by (auto simp: permit_sum_simps)
      show "copy_to_user y buf src dst len k = Some (len - of_nat n, deny_sum k1)"
        using run(1) n(1) by (simp add: copy_to_user_def)
    qed (use C(4,6,7) n(3) in \<open>simp_all add: permit_sum_simps\<close>)
  qed
qed

end
