(* ===== verification/Kernel_Sys.thy ===== *)
theory Kernel_Sys
  imports Kernel_Calls
begin

text \<open>
  The system calls that return to the caller, for a running task: \<open>mmap\<close>, \<open>munmap\<close>, \<open>sys_write\<close> and
  \<open>sys_task_info\<close>.
\<close>

subsection \<open>Page ranges of a call\<close>

lemma left_zero:
  assumes "n \<le> unat (len :: usize)"
  shows "len - of_nat n = 0 \<longleftrightarrow> n = unat len"
proof -
  have "unat (of_nat n :: usize) = n"
    using assms unsigned_less [of len, where 'a = nat] by (simp add: unat_of_nat)
  moreover have "len - of_nat n = 0 \<longleftrightarrow> len = of_nat n" by (rule right_minus_eq)
  ultimately show ?thesis by (metis word_unat_eq_iff)
qed

text \<open>The first page of a range, and the page after its last byte.\<close>

definition page_lo :: "usize \<Rightarrow> VPN" where "page_lo addr = va_vpn addr"
definition page_hi :: "usize \<Rightarrow> usize \<Rightarrow> VPN" where "page_hi addr len = va_vpn (addr + len + 4095)"

lemma call_range:
  assumes "check_u_va_range addr len"
  shows "VPN_from_va addr = Some (page_lo addr)"
    "VPN_from_va (addr + len + PAGE_SIZE_BYTES - 1) = Some (page_hi addr len)"
    "unat (vpn_raw (page_hi addr len)) \<le> 2 ^ 26" "len \<noteq> 0 \<Longrightarrow> page_lo addr < page_hi addr len"
    "w < page_hi addr len \<longleftrightarrow> unat (vpn_raw w) * 4096 < unat addr + unat len"
    "page_lo addr \<le> w \<longleftrightarrow> unat addr < unat (vpn_raw w) * 4096 + 4096"
proof -
  have u: "unat addr < 2 ^ 38 - 4096" "unat addr + unat len \<le> 2 ^ 38 - 4096"
    using assms by (auto simp: check_u_va_range_iff kconst split: if_splits)
  then have e: "unat (addr + len + 4095) = unat addr + unat len + 4095"
    unfolding unat_word_ariths by simp
  have a: "addr + len + PAGE_SIZE_BYTES - 1 = addr + len + 4095" by (simp add: kconst)
  have lt: "unat addr < 2 ^ 38" "unat (addr + len + 4095) < 2 ^ 38" using u e by simp_all
  show "VPN_from_va addr = Some (page_lo addr)"
    "VPN_from_va (addr + len + PAGE_SIZE_BYTES - 1) = Some (page_hi addr len)"
    unfolding a page_lo_def page_hi_def by (rule VPN_from_user_va [OF lt(1)], rule VPN_from_user_va [OF lt(2)])
  have hi: "unat (vpn_raw (page_hi addr len)) = (unat addr + unat len + 4095) div 4096"
    by (simp add: page_hi_def va_vpn_def bits_nat e)
  have lo: "unat (vpn_raw (page_lo addr)) = unat addr div 4096"
    by (simp add: page_lo_def va_vpn_def bits_nat)
  show "unat (vpn_raw (page_hi addr len)) \<le> 2 ^ 26" using hi u(2) by simp
  show "len \<noteq> 0 \<Longrightarrow> page_lo addr < page_hi addr len"
    using hi lo unat_gt_0 [of len] by (simp add: page_order word_less_nat_alt) 
  show "w < page_hi addr len \<longleftrightarrow> unat (vpn_raw w) * 4096 < unat addr + unat len"
    using hi by (auto simp: page_order word_less_nat_alt)
  show "page_lo addr \<le> w \<longleftrightarrow> unat addr < unat (vpn_raw w) * 4096 + 4096"
    using lo by (auto simp: page_order word_le_nat_alt)
qed

subsection \<open>mmap\<close>

lemma to_permissions_known: "to_permissions prot AND NOT ALL_PERMISSION_FLAGS = 0"
  by (simp add: to_permissions_def Let_def ALL_PERMISSION_FLAGS_def PERMISSION_R_def PERMISSION_W_def
      PERMISSION_X_def PERMISSION_U_def flag_vals)

lemma add_area_body_kept:
  assumes ok: "space_ok v s" and r: "add_new_area v lo hi Anonymous pm = (Inr (), v')" and hi: "unat (vpn_raw hi) \<le> 2 ^ 26"
  shows "body_kept v s v' s" "vm_frame v s v' s" "space_ok v' s"
proof -
  note A = add_new_area_ok [OF ok r]
  have "v' = v\<lparr>areas := vec_push (areas v) (VMArea_new lo hi Anonymous pm)\<rparr>"
    using r by (auto simp: add_new_area_def split: if_splits)
  then show "body_kept v s v' s" by (simp add: body_kept_def VMArea_new_def vec_push_def)
  show "vm_frame v s v' s" "space_ok v' s" using A hi by (simp_all add: vm_frame_def)
qed

text \<open>
  What the protection bits of \<open>mmap\<close> (1 execute, 2 read, 4 write) mean for a page: the permission
  bits R (2), W (4) and X (8) as asked for, and always U (16).
\<close>

definition spec_prot :: "usize \<Rightarrow> usize" where
  "spec_prot prot = 16 OR (prot AND 6) OR push_bit 3 (prot AND 1)"

definition mmap_accepts :: "TaskControlBlock \<Rightarrow> usize \<Rightarrow> usize \<Rightarrow> usize \<Rightarrow> bool" where
  "mmap_accepts t addr len prot \<longleftrightarrow> check_u_va_range addr len \<and> unat prot < 8 \<and>
     page_lo addr < page_hi addr len \<and>
     (\<forall>a \<in> set (areas (vm_space t)). end_vpn a \<le> page_lo addr \<or> page_hi addr len \<le> start_vpn a)"

lemma prot_known: "prot AND NOT ALL_PROT_FLAGS = 0 \<longleftrightarrow> unat prot < 8"
proof -
  have m: "ALL_PROT_FLAGS = mask 3" by (simp add: ALL_PROT_FLAGS_def PROT_EXEC_def PROT_READ_def PROT_WRITE_def mask_eq_exp_minus_1)
  have "prot AND NOT (mask 3) = 0 \<longleftrightarrow> unat (push_bit 3 (drop_bit 3 prot)) = 0"
    by (simp add: push_drop_bit [symmetric] unat_eq_0 del: push_bit_eq_0_iff)
  also have "\<dots> \<longleftrightarrow> unat prot < 8" by (simp only: unat_push_drop_bit) auto
  finally show ?thesis by (simp add: m)
qed

lemma to_permissions_spec:
  assumes "unat prot < 8"
  shows "to_permissions prot = spec_prot prot"
proof -
  obtain n where p: "prot = of_nat n" "n < 8" using assms by (intro that [of "unat prot"]) simp_all
  then consider "n = 0" | "n = 1" | "n = 2" | "n = 3" | "n = 4" | "n = 5" | "n = 6" | "n = 7" by linarith
  then show ?thesis unfolding p(1)
    by cases (simp_all add: to_permissions_def Let_def spec_prot_def PROT_EXEC_def PROT_READ_def PROT_WRITE_def
        PERMISSION_R_def PERMISSION_W_def PERMISSION_X_def PERMISSION_U_def flag_vals)
qed

lemma mmap_spec:
  assumes r: "runs k t B"
  obtains (refused) "mmap addr len prot k = Some (Returns (-1), k)" "\<not> mmap_accepts t addr len prot"
  | (accepted) t' k' where "mmap addr len prot k = Some (Returns 0, k')" "mmap_accepts t addr len prot"
      "runs k' t' B" "step_for t B k t' k'" "mm k' = mm k" "csrs k' = csrs k" "console k' = console k"
      "areas (vm_space t') = areas (vm_space t) @ [VMArea_new (page_lo addr) (page_hi addr len) Anonymous (spec_prot prot)]"
      "root_pgt (vm_space t') = root_pgt (vm_space t)"
proof (cases "check_u_va_range addr len \<and> unat prot < 8")
  case False
  then show ?thesis by (intro refused) (auto simp: mmap_def mmap_accepts_def prot_known)
next
  case True
  note perm = to_permissions_spec [OF True [THEN conjunct2]]
  note R = call_range [OF True [THEN conjunct1]] and h = runsD(1) [OF r]
  note H = hostedD [OF h]
  let ?lo = "page_lo addr" and ?hi = "page_hi addr len"
  let ?f = "\<lambda>tcb k. do {
      start \<leftarrow> VPN_from_va addr;
      end \<leftarrow> VPN_from_va (addr + len + PAGE_SIZE_BYTES - 1);
      let (r, v) = add_new_area (vm_space tcb) start end Anonymous (to_permissions prot);
      Some (r, tcb\<lparr>vm_space := v\<rparr>, k :: kernel)
    }"
  have m: "mmap addr len prot k = do {
      (r, k) \<leftarrow> update_tcb (task_id t) ?f k;
      Some (Returns (case r of Inr _ \<Rightarrow> 0 | Inl _ \<Rightarrow> -1), k)
    }"
    using True by (simp add: mmap_def current_task(1) [OF r] prot_known)
  show ?thesis
  proof (cases "add_new_area (vm_space t) ?lo ?hi Anonymous (to_permissions prot)")
    case (Pair res v)
    show ?thesis
    proof (cases "res = Inr ()")
      case False
      then have v: "v = vm_space t" "\<not> mmap_accepts t addr len prot"
        using Pair to_permissions_known by (auto simp: add_new_area_def list_all_iff mmap_accepts_def split: if_splits)
      obtain i where i: "position_of (task_id t) (ALL_TASKS k) = Some i" "i < length (ALL_TASKS k)" "ALL_TASKS k ! i = t"
        "\<And>t'. mset ((ALL_TASKS k)[i := t']) = add_mset t' B"
        by (rule hosted_position [OF h]) blast
      have "update_tcb (task_id t) ?f k = Some (res, k)"
        using i list_update_id [of "ALL_TASKS k" i] by (simp add: update_tcb_def R(1,2) Pair v(1))
      with m v(2) False show ?thesis by (intro refused) (simp_all add: case_unit_result)
    next
      case True
      note A = Pair [unfolded True]
      note K = add_area_body_kept [OF H(5) A R(3)]
      let ?t = "t\<lparr>vm_space := v\<rparr>"
      have st: "block_step {} t (mm k) ?t (mm k)" by (rule block_step_vm [OF H(3) K(3,2,1)]) simp_all
      have acc: "mmap_accepts t addr len prot"
        "areas v = areas (vm_space t) @ [VMArea_new ?lo ?hi Anonymous (spec_prot prot)]" "root_pgt v = root_pgt (vm_space t)"
        using A \<open>check_u_va_range addr len \<and> _\<close>
        by (auto simp: add_new_area_def list_all_iff mmap_accepts_def vec_push_def perm split: if_splits)
      have f: "?f t k = Some (Inr (), ?t, k\<lparr>mm := mm k\<rparr>)" by (simp add: R(1,2) A)
      show ?thesis
      proof (rule update_tcb_hosted [where f = ?f, OF h f st])
        fix k' assume k': "update_tcb (task_id t) ?f k = Some (Inr (), k')" "step_for t B k ?t k'"
          "k' = k\<lparr>mm := mm k, ALL_TASKS := ALL_TASKS k'\<rparr>"
        have same: "tp k' = tp k" "mm k' = mm k" "csrs k' = csrs k" "console k' = console k"
          by (subst k'(3), simp)+
        show ?thesis
          by (rule accepted [OF _ acc(1) runs_step [OF r k'(2) same(1)] k'(2) same(2-4)])
            (use m k'(1) acc(2,3) in simp_all)
      qed simp
    qed
  qed
qed

subsection \<open>munmap\<close>

lemma munmap_spec:
  assumes r: "runs k t B"
  obtains (refused) "munmap addr len k = Some (Returns (-1), k)" "\<not> check_u_va_range addr len"
  | (empty) "munmap addr len k = Some (Returns 0, k)" "check_u_va_range addr len" "len = 0"
  | (unmapped) t' k' where "munmap addr len k = Some (Returns 0, k')" "check_u_va_range addr len" "len \<noteq> 0"
      "runs k' t' B" "step_for t B k t' k'" "csrs k' = csrs k" "console k' = console k"
      "\<And>w. user_vpn w \<Longrightarrow> lookup (root_pgt (vm_space t')) (mm k') w =
         (if page_lo addr \<le> w \<and> w < page_hi addr len then None else lookup (root_pgt (vm_space t)) (mm k) w)"
      "\<And>w x. region (marea (vm_space t')) w x \<longleftrightarrow>
         region (marea (vm_space t)) w x \<and> \<not> (page_lo addr \<le> w \<and> w < page_hi addr len)"
      "own (vm_space t') \<union> mfree (mm k') = own (vm_space t) \<union> mfree (mm k)"
      "body_kept (vm_space t) (mm k) (vm_space t') (mm k')"
      "VMSpace_unmap (vm_space t) (page_lo addr) (page_hi addr len) (mm k) = Some (Inr (), vm_space t', mm k')"
proof (cases "check_u_va_range addr len \<and> len \<noteq> 0")
  case False
  then consider "\<not> check_u_va_range addr len" | "check_u_va_range addr len" "len = 0" by blast
  then show ?thesis
  proof cases
    case 1
    then show ?thesis by (intro refused) (simp_all add: munmap_def)
  next
    case 2
    then show ?thesis by (intro empty) (simp_all add: munmap_def)
  qed
next
  case True
  note R = call_range [OF True [THEN conjunct1]] and h = runsD(1) [OF r]
  note H = hostedD [OF h]
  let ?lo = "page_lo addr" and ?hi = "page_hi addr len"
  let ?f = "\<lambda>tcb k. do {
      start \<leftarrow> VPN_from_va addr;
      end \<leftarrow> VPN_from_va (addr + len + PAGE_SIZE_BYTES - 1);
      (r, v, s) \<leftarrow> VMSpace_unmap (vm_space tcb) start end (mm k);
      Some (r, tcb\<lparr>vm_space := v\<rparr>, k\<lparr>mm := s\<rparr>)
    }"
  have m: "munmap addr len k = do {
      (r, k) \<leftarrow> update_tcb (task_id t) ?f k;
      Some (Returns (case r of Inr _ \<Rightarrow> 0 | Inl _ \<Rightarrow> -1), k)
    }"
    using True by (simp add: munmap_def current_task(1) [OF r])
  show ?thesis
  proof (rule VMSpace_unmap_spec [OF H(5) R(3) R(4) [OF True [THEN conjunct2]]])
    fix v' s'
    assume u: "VMSpace_unmap (vm_space t) ?lo ?hi (mm k) = Some (Inr (), v', s')"
      and K: "space_ok v' s'" "vm_frame (vm_space t) (mm k) v' s'"
      and L: "\<And>w. user_vpn w \<Longrightarrow> lookup (root_pgt v') s' w =
        (if ?lo \<le> w \<and> w < ?hi then None else lookup (root_pgt (vm_space t)) (mm k) w)"
        "\<And>w x. region (marea v') w x \<longleftrightarrow> region (marea (vm_space t)) w x \<and> \<not> (?lo \<le> w \<and> w < ?hi)"
      and b: "body_kept (vm_space t) (mm k) v' s'"
    let ?t = "t\<lparr>vm_space := v'\<rparr>"
    have st: "block_step {} t (mm k) ?t s'" by (rule block_step_vm [OF H(3) K b]) simp_all
    have f: "?f t k = Some (Inr (), ?t, k\<lparr>mm := s'\<rparr>)" by (simp add: R(1,2) u)
    show ?thesis
    proof (rule update_tcb_hosted [where f = ?f, OF h f st])
      fix k' assume k': "update_tcb (task_id t) ?f k = Some (Inr (), k')" "step_for t B k ?t k'"
        "k' = k\<lparr>mm := s', ALL_TASKS := ALL_TASKS k'\<rparr>"
      have same: "tp k' = tp k" "csrs k' = csrs k" "console k' = console k" "mm k' = s'"
        by (subst k'(3), simp)+
      show ?thesis
        by (rule unmapped [OF _ True [THEN conjunct1] True [THEN conjunct2] runs_step [OF r k'(2) same(1)] k'(2) same(2,3)])
          (use m k'(1) L K(2) b u in \<open>simp_all add: same(4) vm_frame_def\<close>)
    qed simp
  qed
qed

subsection \<open>sys_write\<close>

text \<open>
  What the calls need from the platform: distinct labels, and a \<open>TaskInfo\<close> of its size that does
  not reach past the end of the address space.
\<close>

definition platform_ok :: "platform \<Rightarrow> bool" where
  "platform_ok e \<longleftrightarrow> labels_ok (syms e) \<and> sint (TaskInfo_addr e) + int (unat (TaskInfo_size e)) < 2 ^ 63"

text \<open>The bytes of a user range, as the kernel reads them.\<close>

definition user_bytes :: "kernel \<Rightarrow> usize \<Rightarrow> nat \<Rightarrow> u8 list" where
  "user_bytes k a n = map (\<lambda>i. the (user_byte k (a + of_nat i))) [0..<n]"

lemma sys_write_spec:
  assumes r: "runs k t B" and e: "platform_ok e"
  obtains (refused) "sys_write e fd buf cnt k = Some (Returns (-1), k)" "fd \<noteq> FD_STDOUT \<or> \<not> check_u_va_range buf cnt"
  | (no_heap) "sys_write e fd buf cnt k = None" "fd = FD_STDOUT" "check_u_va_range buf cnt" "heap_alloc e cnt = None"
  | (fault) t' k' n where "sys_write e fd buf cnt k = Some (Returns (-1), k')" "fd = FD_STDOUT"
      "check_u_va_range buf cnt" "copy_done t B k t' k'" "n < unat cnt" "user_byte k' (buf + of_nat n) = None"
      "\<And>a b. unat a < 2 ^ 38 \<Longrightarrow> user_byte k a = Some b \<Longrightarrow> user_byte k' a = Some b"
      "same_user (user_mem (vm_space t') (mm k')) (user_mem (vm_space t) (mm k))"
      "card (mfree (mm k')) \<le> 1 \<or> \<not> allows Load (user_mem (vm_space t) (mm k) (buf + of_nat n))"
  | (copied) t' k' where "copy_done t B k t' k'" "fd = FD_STDOUT" "check_u_va_range buf cnt"
      "\<And>i. i < unat cnt \<Longrightarrow> user_byte k' (buf + of_nat i) \<noteq> None"
      "sys_write e fd buf cnt k = (case from_utf8 (user_bytes k' buf (unat cnt)) of
         None \<Rightarrow> None | Some str \<Rightarrow> Some (Returns cnt, print_chars str k'))"
      "\<And>a b. unat a < 2 ^ 38 \<Longrightarrow> user_byte k a = Some b \<Longrightarrow> user_byte k' a = Some b"
      "same_user (user_mem (vm_space t') (mm k')) (user_mem (vm_space t) (mm k))"
proof (cases "fd \<noteq> FD_STDOUT \<or> \<not> check_u_va_range buf cnt")
  case True
  then show ?thesis by (intro refused) (auto simp: sys_write_def)
next
  case False
  then have g: "fd = FD_STDOUT" "check_u_va_range buf cnt" by simp_all
  show ?thesis
  proof (cases "heap_alloc e cnt")
    case None
    then show ?thesis using g by (intro no_heap) (simp_all add: sys_write_def)
  next
    case (Some dst)
    have y: "labels_ok (syms e)" using e by (simp add: platform_ok_def)
    show ?thesis
    proof (rule copy_from_user_spec [OF r y g(2), of dst "\<lambda>_. 0"], goal_cases ok)
      case (ok n t' k' data)
      note z = left_zero [OF ok(2)]
      show ?thesis
      proof (cases "n = unat cnt")
        case False
        then show ?thesis using ok g Some z by (intro fault [of k' t' n]) (simp_all add: sys_write_def)
      next
        case True
        have "buf_bytes data dst cnt = user_bytes k' buf (unat cnt)"
          using ok(4) True by (simp add: buf_bytes_def user_bytes_def)
        then show ?thesis using ok g Some z True
          by (intro copied [of t' k']) (simp_all add: sys_write_def split: option.split)
      qed
    qed
  qed
qed

subsection \<open>sys_task_info\<close>

lemma sys_task_info_spec:
  assumes r: "runs k t B" and e: "platform_ok e"
  obtains (refused) "sys_task_info e tid dst k = Some (Returns (-1), k)"
      "\<not> check_u_va_range dst (TaskInfo_size e) \<or> tid \<notin> task_id ` set (ALL_TASKS k)"
  | (fault) t' k' n where "sys_task_info e tid dst k = Some (Returns (-1), k')" "copy_done t B k t' k'"
      "n < unat (TaskInfo_size e)" "\<not> user_writable k' (dst + of_nat n)"
      "card (mfree (mm k')) \<le> 1 \<or> \<not> allows Store (user_mem (vm_space t) (mm k) (dst + of_nat n))"
  | (copied) t' k' info where "sys_task_info e tid dst k = Some (Returns 0, k')" "copy_done t B k t' k'"
      "get_task_info tid k = Some info"
      "\<And>i. i < unat (TaskInfo_size e) \<Longrightarrow> user_byte k' (dst + of_nat i) = Some (TaskInfo_bytes e info ! i)"
      "same_user (user_mem (vm_space t') (mm k'))
        (spec_write dst (map ((!) (TaskInfo_bytes e info)) [0..<unat (TaskInfo_size e)]) (user_mem (vm_space t) (mm k)))"
proof (cases "\<not> check_u_va_range dst (TaskInfo_size e) \<or> tid \<notin> task_id ` set (ALL_TASKS k)")
  case True
  then have "\<not> check_u_va_range dst (TaskInfo_size e) \<or> get_task_info tid k = None"
    by (auto simp: get_task_info_def position_of_None)
  then show ?thesis by (intro refused [OF _ True]) (auto simp: sys_task_info_def Let_def)
next
  case False
  then have g: "check_u_va_range dst (TaskInfo_size e)" by simp
  obtain info where info: "get_task_info tid k = Some info"
    using False position_of_None [of tid "ALL_TASKS k"] by (auto simp: get_task_info_def)
  let ?len = "TaskInfo_size e" and ?src = "TaskInfo_addr e"
  have y: "labels_ok (syms e)" "sint ?src + int (unat ?len) < 2 ^ 63" using e by (simp_all add: platform_ok_def)
  show ?thesis
  proof (rule copy_to_user_spec [OF r y(1) g y(2), of "\<lambda>a. TaskInfo_bytes e info ! unat (a - ?src)"], goal_cases ok)
    case (ok n t' k')
    note z = left_zero [OF ok(2)]
    have un: "unat (of_nat i :: usize) = i" if "i < n" for i
      using that ok(2) unsigned_less [of ?len, where 'a = nat] by (simp add: unat_of_nat)
    show ?thesis
    proof (cases "n = unat ?len")
      case False
      then show ?thesis using ok g info z
        by (intro fault [of k' t' n]) (simp_all add: sys_task_info_def Let_def)
    next
      case True
      have b: "user_byte k' (dst + of_nat i) = Some (TaskInfo_bytes e info ! i)" if "i < unat ?len" for i
        using ok(4) [of i] un [of i] that True by simp
      have "map (\<lambda>i. TaskInfo_bytes e info ! unat (?src + of_nat i - ?src)) [0..<n] =
          map ((!) (TaskInfo_bytes e info)) [0..<unat ?len]" using un True by simp
      note mem = ok(7) [unfolded this]
      show ?thesis
        by (rule copied [OF _ ok(3) info b mem]) (use ok(1) g info z True in \<open>simp_all add: sys_task_info_def Let_def\<close>)
    qed
  qed
qed

end
