(* ===== verification/Kernel_Sched.thy ===== *)
theory Kernel_Sched
  imports Kernel_Sys
begin

text \<open>
  Scheduling with the invariant of all tasks: blocks change state, an ended task leaves with its
  memory, and the task that is started finds its space as it left it.
\<close>

subsection \<open>Blocks that keep their space\<close>

definition same_block :: "TaskControlBlock \<Rightarrow> TaskControlBlock \<Rightarrow> bool" where
  "same_block t t' \<longleftrightarrow> task_id t' = task_id t \<and> vm_space t' = vm_space t \<and> tcontext t' = tcontext t"

lemma same_block_simps [simp]:
  "same_block t t" "same_block t (set_state st t)" "same_block t (record_run_start time t)"
  "same_block t (record_run_end time t)" "same_block t (snd (record_syscall i t))"
  by (simp_all add: same_block_def set_state_def record_run_start_def record_run_end_def record_syscall_def
      Let_def split: prod.split)

lemma same_block_trans: "same_block t u \<Longrightarrow> same_block u w \<Longrightarrow> same_block t w"
  by (simp add: same_block_def)

lemma tasks_ok_same_block: "tasks_ok (add_mset t B) s \<Longrightarrow> same_block t t' \<Longrightarrow> tasks_ok (add_mset t' B) s"
  by (auto simp: tasks_ok_def ids_distinct_add same_block_def task_ok_def)

lemma hosted_same_block:
  assumes "hosted k t B" "same_block t t'" "mset (ALL_TASKS k') = add_mset t' B" "mm k' = mm k"
    "csrs k' SATP_CSR_NO = csrs k SATP_CSR_NO"
  shows "hosted k' t' B"
  using assms tasks_ok_same_block [OF _ assms(2)] by (simp add: hosted_def same_block_def)

text \<open>A task that the kernel did not work for is still there, with the same view of memory.\<close>

definition untouched :: "TaskControlBlock \<Rightarrow> kernel \<Rightarrow> kernel \<Rightarrow> bool" where
  "untouched u k k' \<longleftrightarrow> (\<exists>u' \<in> set (ALL_TASKS k'). same_block u u') \<and> same_view (vm_space u) (mm k) (mm k')"

lemma untouched_block: "same_block t t' \<Longrightarrow> mm k1 = mm k \<Longrightarrow> untouched t' k1 k' \<Longrightarrow> untouched t k k'"
  by (auto simp: untouched_def same_block_def)

lemma step_for_untouched:
  assumes "step_on W t B k t' k'" "u \<in># B"
  shows "untouched u k k'"
proof -
  have "mset (ALL_TASKS k') = add_mset t' B" using assms(1) by (simp add: step_on_def hosted_def)
  then have "u \<in># mset (ALL_TASKS k')" using assms(2) by simp
  then have "u \<in> set (ALL_TASKS k')" by simp
  then show ?thesis using assms by (auto simp: untouched_def step_on_def intro: bexI [of _ u])
qed

subsection \<open>A task that leaves\<close>

lemma task_ok_drop:
  assumes g: "space_ok v s" and t: "task_ok t s" and a: "spaces_apart v (vm_space t) s"
  shows "task_ok t (drop_VMSpace v s)" "same_view (vm_space t) s (drop_VMSpace v s)"
    "table_pages (mtab (drop_VMSpace v s)) = table_pages (mtab s)"
proof -
  let ?s = "drop_VMSpace v s" and ?w = "vm_space t"
  note D = drop_space [OF g]
  have tab: "mtab ?s = mtab s" by (simp add: D(4))
  then show "table_pages (mtab ?s) = table_pages (mtab s)" by simp
  have lk: "lookup (root_pgt ?w) ?s = lookup (root_pgt ?w) s" by (simp add: lookup_def tab fun_eq_iff)
  then show "same_view ?w s ?s" by (simp add: same_view_def D(4))
  have ok: "space_ok ?w s" using t by (simp add: task_ok_def)
  note W = space_okD [OF ok]
  have held: "table_pages (mtab s) (root_ppn (root_pgt ?w)) \<subseteq> mheld ?s" "data_pages ?w \<subseteq> mheld ?s"
    using W(9,5) a D(3) by (auto simp: spaces_apart_def own_def)
  have "pgt_user (root_pgt ?w) ?s" by (rule pgt_user_cong(1) [OF W(1) D(1) held(1)]) (simp add: D(4))
  then have "space_ok ?w ?s" using ok held(2) by (simp add: space_ok_def lk tab)
  moreover have "upper_private (root_pgt ?w) ?s"
    by (rule upper_private_same [OF _ ok]) (use t in \<open>simp_all add: task_ok_def D(4)\<close>)
  ultimately show "task_ok t ?s" using t unfolding task_ok_def D(4) by blast
qed

lemma tasks_ok_drop:
  assumes ok: "tasks_ok (add_mset t B) s"
  shows "tasks_ok B (drop_VMSpace (vm_space t) s)"
    "\<And>u. u \<in># B \<Longrightarrow> same_view (vm_space u) s (drop_VMSpace (vm_space t) s)"
proof -
  have g: "space_ok (vm_space t) s" using ok by (simp add: tasks_ok_def task_ok_def)
  have ne: "task_id t \<noteq> task_id u" if "u \<in># B" for u
  proof -
    have "task_id t \<notin> task_id ` set_mset B" using ok by (simp add: tasks_ok_def ids_distinct_add)
    then show ?thesis using that by (metis imageI)
  qed
  have B: "task_ok u s" "spaces_apart (vm_space t) (vm_space u) s" if "u \<in># B" for u
    using ok that ne [OF that] by (simp_all add: tasks_ok_def)
  note D = task_ok_drop [OF g B]
  show "\<And>u. u \<in># B \<Longrightarrow> same_view (vm_space u) s (drop_VMSpace (vm_space t) s)" by (rule D(2))
  have "spaces_apart (vm_space u) (vm_space w) (drop_VMSpace (vm_space t) s)"
    if "u \<in># B" "w \<in># B" "task_id u \<noteq> task_id w" for u w
    using ok that D(3) [OF that(1) that(1)] by (simp add: tasks_ok_def spaces_apart_def)
  then show "tasks_ok B (drop_VMSpace (vm_space t) s)"
    using ok D(1) drop_space(1) [OF g] by (simp add: tasks_ok_def ids_distinct_add)
qed

subsection \<open>Switching\<close>

lemma schedule:
  assumes ok: "tasks_ok (mset (ALL_TASKS k)) (mm k)" and nr: "none_running (mset (ALL_TASKS k))"
  obtains (shutdown) k' where "run_next_task k = Some (Shutdown, k')" "\<forall>t \<in> set (ALL_TASKS k). tstate t \<noteq> Ready"
  | (switched) k' t u A gone where "run_next_task k = Some (Switched (tcontext u), k')" "runs k' u A"
      "same_block t u" "tstate t = Ready" "mset (ALL_TASKS k) = add_mset t A + opt_mset gone"
      "\<And>g. gone = Some g \<Longrightarrow> try_get_current_task_id k = Some (task_id g) \<and> tstate g \<in> {Killed, Exited}"
      "\<And>w. w \<in># add_mset t A \<Longrightarrow> untouched w k k'"
proof -
  have ids: "ids_distinct (mset (ALL_TASKS k))" using ok by (simp add: tasks_ok_def)
  show ?thesis
  proof (rule run_next_task_spec [OF ids nr], goal_cases sd sw)
    case (sd k' gone)
    then show ?case by (intro shutdown)
  next
    case (sw k' gone t A time)
    let ?u = "record_run_start time (set_state Running t)"
    have sb: "same_block t ?u" by (rule same_block_trans [OF same_block_simps(2,3)])
    have T: "tasks_ok (add_mset t A) (mm k') \<and> (\<forall>w \<in># add_mset t A. same_view (vm_space w) (mm k) (mm k'))"
    proof (cases gone)
      case None
      then show ?thesis using sw(2,5) ok by (simp add: same_view_refl)
    next
      case (Some g)
      then have "tasks_ok (add_mset g (add_mset t A)) (mm k)" using sw(2) ok by simp
      from tasks_ok_drop [OF this] show ?thesis using sw(5) Some by simp
    qed
    have nrA: "none_running A" using nr unfolding sw(2) none_running_def by simp
    have "tstate ?u = Running" by (simp add: record_run_start_def set_state_def Let_def)
    then have run: "runs k' ?u A"
      using T sw(4,7,8) nrA tasks_ok_same_block [OF _ sb] sb
      by (simp add: runs_def hosted_def same_block_def)
    have un: "untouched w k k'" if w: "w \<in># add_mset t A" for w
    proof -
      have "?u \<in># mset (ALL_TASKS k')" "A \<subseteq># mset (ALL_TASKS k')" unfolding sw(4) by simp_all
      then have m: "?u \<in> set (ALL_TASKS k')" "set_mset A \<subseteq> set (ALL_TASKS k')"
        by (simp, metis set_mset_mono set_mset_mset)
      have "\<exists>u' \<in> set (ALL_TASKS k'). same_block w u'"
        using w m sb by (cases "w = t") (auto intro: bexI [of _ w])
      then show ?thesis using T w unfolding untouched_def by blast
    qed
    show ?case
      by (rule switched [OF _ run sb sw(3,2)]) (use sw(1,6) sb un in \<open>simp_all add: same_block_def\<close>)
  qed
qed

subsection \<open>Changing the state of the running task\<close>

lemma exchange_state:
  assumes r: "runs k t B"
  obtains k' where "exchange_current_task_state Running st k = Some (Inr Running, k')"
    "mset (ALL_TASKS k') = add_mset (set_state st t) B" "hosted k' (set_state st t) B"
    "k' = k\<lparr>ALL_TASKS := ALL_TASKS k'\<rparr>"
proof -
  note h = runsD(1) [OF r]
  obtain i where i: "position_of (task_id t) (ALL_TASKS k) = Some i" "i < length (ALL_TASKS k)" "ALL_TASKS k ! i = t"
    "\<And>t'. mset ((ALL_TASKS k)[i := t']) = add_mset t' B"
    by (rule hosted_position [OF h]) blast
  let ?k = "k\<lparr>ALL_TASKS := (ALL_TASKS k)[i := set_state st t]\<rparr>"
  have "hosted ?k (set_state st t) B" by (rule hosted_same_block [OF h]) (simp_all add: i(4))
  then show ?thesis using i r current_task(1) [OF r]
    by (intro that [of ?k]) (simp_all add: exchange_current_task_state_def Let_def runs_def)
qed

lemma record_end:
  assumes h: "hosted k t B" and tp: "tp k = ctx_tp (tcontext t)"
  obtains time k' where "record_current_run_end k = Some k'"
    "mset (ALL_TASKS k') = add_mset (record_run_end time t) B" "hosted k' (record_run_end time t) B"
    "mm k' = mm k" "tp k' = tp k" "csrs k' = csrs k"
proof -
  obtain i where i: "position_of (task_id t) (ALL_TASKS k) = Some i" "i < length (ALL_TASKS k)" "ALL_TASKS k ! i = t"
    "\<And>t'. mset ((ALL_TASKS k)[i := t']) = add_mset t' B"
    by (rule hosted_position [OF h]) blast
  have cur: "get_current_task_id k = Some (task_id t)"
    using hosted_ptr [OF h] tp by (simp add: get_current_task_id_def try_get_current_task_id_def)
  let ?time = "clock k (ticks k)"
  let ?k = "k\<lparr>ticks := Suc (ticks k), ALL_TASKS := (ALL_TASKS k)[i := record_run_end ?time t]\<rparr>"
  have "hosted ?k (record_run_end ?time t) B" by (rule hosted_same_block [OF h]) (simp_all add: i(4))
  moreover have "record_current_run_end k = Some ?k"
    using i(1,3) cur by (simp add: record_current_run_end_def read_time_def Let_def)
  ultimately show ?thesis by (intro that [of ?k ?time]) (simp_all add: i(4))
qed

lemma tstate_simps [simp]:
  "tstate (record_run_end time t) = tstate t" "tstate (set_state st t) = st"
  "tstate (snd (record_syscall i t)) = tstate t"
  by (simp_all add: record_run_end_def set_state_def record_syscall_def Let_def split: prod.split)

subsection \<open>Leaving through the scheduler\<close>

text \<open>
  How the kernel leaves the running task: it ends in a shutdown, or some task runs, every task
  but the one that was running is as before, and all that remain have their saved contexts, up
  to the words \<open>W\<close>.
\<close>

definition left_for ::
  "usize set \<Rightarrow> TaskControlBlock \<Rightarrow> TaskControlBlock multiset \<Rightarrow> kernel \<Rightarrow> outcome \<Rightarrow> kernel \<Rightarrow> bool" where
  "left_for W t B k out k' \<longleftrightarrow> (case out of
     Shutdown \<Rightarrow> \<forall>u \<in># B. tstate u \<noteq> Ready
   | Switched c \<Rightarrow> (\<exists>u A. c = tcontext u \<and> runs k' u A \<and>
       (\<forall>w \<in># add_mset u A. \<exists>w0 \<in># add_mset t B. task_id w = task_id w0 \<and> tcontext w = tcontext w0 \<and>
          ctx_kept W w0 (mm k) (mm k'))) \<and>
     (\<forall>u \<in># B. untouched u k k'))"

lemma same_view_ctx:
  assumes t: "task_ok u s0" and v: "same_view (vm_space u) s s'"
  shows "ctx_kept W u s s'"
proof -
  obtain p where p: "ctx_tp (tcontext u) = stack_ctx p" "reachable_ppn p" "p \<in> data_pages (vm_space u)"
    by (rule task_okD [OF t])
  have "tab (phys s') p i = tab (phys s) p i" if "i < 512" for i
    by (rule tab_page_cong_bytes [OF _ p(2) that]) (use v p(3) in \<open>auto simp: same_view_def own_def\<close>)
  then show ?thesis by (simp add: ctx_kept_def p(1) ctx_word_tab [OF p(2)] stack_word)
qed

lemma left_for_trans:
  assumes st: "step_on W t B k t' k1" and l: "left_for W' t' B k1 out k'"
  shows "left_for (W \<union> W') t B k out k'"
proof (cases out)
  case (Switched c)
  obtain u A where u: "c = tcontext u" "runs k' u A"
    "\<And>w. w \<in># add_mset u A \<Longrightarrow> \<exists>w0 \<in># add_mset t' B. task_id w = task_id w0 \<and> tcontext w = tcontext w0 \<and>
       ctx_kept W' w0 (mm k1) (mm k')"
    using l unfolding Switched left_for_def outcome.case by blast
  have un: "untouched u k k'" if "u \<in># B" for u
    using st l that same_view_trans unfolding Switched left_for_def outcome.case untouched_def step_on_def by blast
  have "\<exists>w0 \<in># add_mset t B. task_id w = task_id w0 \<and> tcontext w = tcontext w0 \<and> ctx_kept (W \<union> W') w0 (mm k) (mm k')"
    if w: "w \<in># add_mset u A" for w
  proof -
    obtain w0 where w0: "w0 \<in># add_mset t' B" "task_id w = task_id w0" "tcontext w = tcontext w0"
      "ctx_kept W' w0 (mm k1) (mm k')" using u(3) [OF w] by blast
    consider "w0 = t'" | "w0 \<in># B" using w0(1) by auto
    then show ?thesis
    proof cases
      case 1
      have "ctx_kept (W \<union> W') t (mm k) (mm k')"
        using st w0(4) 1 by (intro ctx_kept_trans [of W t "mm k" "mm k1" W' t']) (simp_all add: step_on_def)
      then show ?thesis using 1 w0(2,3) st by (auto simp: step_on_def)
    next
      case 2
      have "task_ok w0 (mm k1)" using st 2 by (simp add: step_on_def hosted_def tasks_ok_def)
      moreover have "same_view (vm_space w0) (mm k) (mm k1)" using st 2 by (simp add: step_on_def)
      ultimately have "ctx_kept W w0 (mm k) (mm k1)" by (rule same_view_ctx)
      then have "ctx_kept (W \<union> W') w0 (mm k) (mm k')" using w0(4) by (rule ctx_kept_trans) simp
      then show ?thesis using 2 w0(2,3) by auto
    qed
  qed
  then show ?thesis using u(1,2) un unfolding left_for_def Switched outcome.case by blast
qed (use l in \<open>simp add: left_for_def\<close>)

lemma left_for_block:
  assumes "same_block t t'" "mm k1 = mm k" "left_for W t' B k1 out k'"
  shows "left_for W t B k out k'"
proof (cases out)
  case (Switched c)
  have "ctx_kept W t' = ctx_kept W t" using assms(1) by (simp add: ctx_kept_def same_block_def fun_eq_iff)
  then show ?thesis using assms unfolding Switched left_for_def outcome.case untouched_def same_block_def by auto
qed (use assms(3) in \<open>simp add: left_for_def\<close>)

lemma leave_task:
  assumes h: "hosted k t B" and tp: "tp k = ctx_tp (tcontext t)" and nr: "tstate t \<noteq> Running" "none_running B"
  obtains out k' where "run_next_task k = Some (out, k')" "left_for {} t B k out k'"
    "tstate t = Ready \<Longrightarrow> out \<noteq> Shutdown \<and> untouched t k k'"
proof -
  note H = hostedD [OF h]
  have ok: "tasks_ok (mset (ALL_TASKS k)) (mm k)" using h by (simp add: hosted_def)
  have n: "none_running (mset (ALL_TASKS k))" using nr by (simp add: H(1) none_running_def)
  have cur: "try_get_current_task_id k = Some (task_id t)"
    using hosted_ptr [OF h] tp by (simp add: try_get_current_task_id_def)
  show ?thesis
  proof (rule schedule [OF ok n], goal_cases sd sw)
    case (sd k')
    then have "\<forall>u \<in># mset (ALL_TASKS k). tstate u \<noteq> Ready" by simp
    then have "\<forall>u \<in># B. tstate u \<noteq> Ready" "tstate t \<noteq> Ready" unfolding H(1) by simp_all
    then show ?case using sd(1) by (intro that [of Shutdown k']) (simp_all add: left_for_def)
  next
    case (sw k' t1 u A gone)
    have "u \<in># add_mset t1 A" if u: "u \<in># B" for u
    proof (cases gone)
      case None
      then have "add_mset t B = add_mset t1 A" using sw(5) by (simp add: H(1))
      then show ?thesis using u by (metis insert_iff set_mset_add_mset_insert)
    next
      case (Some g)
      then have m: "add_mset t B = add_mset g (add_mset t1 A)" using sw(5) by (simp add: H(1))
      have "g \<in># add_mset t B" unfolding m by simp
      moreover have "task_id g = task_id t" using sw(6) [OF Some] cur by simp
      ultimately have "g = t" using H(2) unfolding ids_distinct_add by (metis imageI insert_iff set_mset_add_mset_insert)
      then show ?thesis using m u by simp
    qed
    then have un: "untouched u k k'" if "u \<in># B" for u using sw(7) that by blast
    have ready: "untouched t k k'" if rdy: "tstate t = Ready"
    proof (rule sw(7), cases gone)
      case None
      then have "add_mset t B = add_mset t1 A" using sw(5) by (simp add: H(1))
      then show "t \<in># add_mset t1 A" by (metis union_single_eq_member)
    next
      case (Some g)
      then have m: "add_mset t B = add_mset g (add_mset t1 A)" using sw(5) by (simp add: H(1))
      have "tstate g \<noteq> Ready" using sw(6) [OF Some] by auto
      then have "t \<noteq> g" using rdy by auto
      then show "t \<in># add_mset t1 A" using m by (metis insert_noteq_member)
    qed
    have "\<exists>w0 \<in># add_mset t B. task_id w = task_id w0 \<and> tcontext w = tcontext w0 \<and> ctx_kept {} w0 (mm k) (mm k')"
      if w: "w \<in># add_mset u A" for w
    proof -
      define w0 where "w0 = (if w = u then t1 else w)"
      have w0: "w0 \<in># add_mset t1 A" "same_block w0 w" using w sw(3) by (auto simp: w0_def)
      have "w0 \<in># mset (ALL_TASKS k)" unfolding sw(5) using w0(1) by auto
      then have m: "w0 \<in># add_mset t B" unfolding H(1) .
      have "task_ok w0 (mm k)" using m h unfolding hosted_def tasks_ok_def by blast
      moreover have "same_view (vm_space w0) (mm k) (mm k')" using sw(7) [OF w0(1)] by (simp add: untouched_def)
      ultimately have "ctx_kept {} w0 (mm k) (mm k')" by (rule same_view_ctx)
      then show ?thesis using m w0(2) by (auto simp: same_block_def)
    qed
    then have "left_for {} t B k (Switched (tcontext u)) k'"
      using sw(2) un unfolding left_for_def outcome.case by blast
    then show ?case using sw(1) ready by (intro that [of "Switched (tcontext u)" k']) simp_all
  qed
qed

end
