(* ===== verification/Kernel_Trap.thy ===== *)
theory Kernel_Trap
  imports Kernel_Sched
begin

text \<open>
  The trap path from user mode as a whole: saving the context, handling the trap, restoring a
  context.  The invariant of all tasks survives every trap a user program can cause, and only
  the task that trapped is affected.
\<close>

subsection \<open>The end of a task's turn\<close>

lemma sleep_or_kill:
  assumes r: "runs k t B" and st: "st \<noteq> Running"
  obtains k1 k' out where "exchange_current_task_state Running st k = Some (Inr Running, k1)"
    "record_current_run_end k1 \<bind> run_next_task = Some (out, k')" "left_for {} t B k out k'" "st = Ready \<Longrightarrow> out \<noteq> Shutdown \<and> untouched t k k'"
proof -
  obtain k1 where k1: "exchange_current_task_state Running st k = Some (Inr Running, k1)"
    "hosted k1 (set_state st t) B" "k1 = k\<lparr>ALL_TASKS := ALL_TASKS k1\<rparr>"
    by (rule exchange_state [OF r])
  have s1: "mm k1 = mm k" "tp k1 = tp k" by (subst k1(3), simp)+
  have tp1: "tp k1 = ctx_tp (tcontext (set_state st t))" using r s1 by (simp add: runs_def set_state_def)
  obtain time k2 where k2: "record_current_run_end k1 = Some k2" "hosted k2 (record_run_end time (set_state st t)) B"
    "mm k2 = mm k1" "tp k2 = tp k1"
    by (rule record_end [OF k1(2) tp1])
  have tp2: "tp k2 = ctx_tp (tcontext (record_run_end time (set_state st t)))"
    using k2(4) tp1 by (simp add: record_run_end_def Let_def)
  obtain out k' where k': "run_next_task k2 = Some (out, k')" "left_for {} (record_run_end time (set_state st t)) B k2 out k'"
    "st = Ready \<Longrightarrow> out \<noteq> Shutdown \<and> untouched (record_run_end time (set_state st t)) k2 k'"
    by (rule leave_task [OF k2(2) tp2]) (use st runsD(4) [OF r] in simp_all)
  have "left_for {} t B k out k'"
    by (rule left_for_block [OF same_block_trans [OF same_block_simps(2,4)] _ k'(2)]) (simp add: k2(3) s1(1))
  moreover have "record_current_run_end k1 \<bind> run_next_task = Some (out, k')" using k2(1) k'(1) by (simp only: Option.bind_lunit)
  moreover have "out \<noteq> Shutdown \<and> untouched t k k'" if "st = Ready"
    using k'(3) [OF that] untouched_block [OF same_block_trans [OF same_block_simps(2,4)]] k2(3) s1(1) by metis
  ultimately show ?thesis using k1(1) by (intro that)
qed

lemma exit_or_yield:
  assumes r: "runs k t B" and st: "st \<noteq> Running"
  obtains k1 k' out where "exchange_current_task_state Running st k = Some (Inr Running, k1)"
    "run_next_task k1 = Some (out, k')" "left_for {} t B k out k'" "st = Ready \<Longrightarrow> out \<noteq> Shutdown \<and> untouched t k k'"
proof -
  obtain k1 where k1: "exchange_current_task_state Running st k = Some (Inr Running, k1)"
    "hosted k1 (set_state st t) B" "k1 = k\<lparr>ALL_TASKS := ALL_TASKS k1\<rparr>"
    by (rule exchange_state [OF r])
  have s1: "mm k1 = mm k" "tp k1 = tp k" by (subst k1(3), simp)+
  have tp1: "tp k1 = ctx_tp (tcontext (set_state st t))" using r s1 by (simp add: runs_def set_state_def)
  obtain out k' where k': "run_next_task k1 = Some (out, k')" "left_for {} (set_state st t) B k1 out k'"
    "st = Ready \<Longrightarrow> out \<noteq> Shutdown \<and> untouched (set_state st t) k1 k'"
    by (rule leave_task [OF k1(2) tp1]) (use st runsD(4) [OF r] in simp_all)
  have "left_for {} t B k out k'" by (rule left_for_block [OF same_block_simps(2) s1(1) k'(2)])
  moreover have "out \<noteq> Shutdown \<and> untouched t k k'" if "st = Ready"
    using k'(3) [OF that] untouched_block [OF same_block_simps(2)] s1(1) by metis
  ultimately show ?thesis using k1(1) k'(1) by (intro that)
qed

lemma sys_exit_spec:
  assumes "runs k t B"
  obtains out k' where "sys_exit code k = Some (Leaves out, k')" "left_for {} t B k out k'"
proof -
  obtain k1 k' out where "exchange_current_task_state Running Exited k = Some (Inr Running, k1)"
    "run_next_task k1 = Some (out, k')" "left_for {} t B k out k'"
    by (rule exit_or_yield [OF assms, of Exited]) simp_all
  then show ?thesis by (intro that) (simp_all add: sys_exit_def current_task [OF assms])
qed

lemma sys_yield_spec:
  assumes "runs k t B"
  obtains out k' where "sys_yield k = Some (Leaves out, k')" "left_for {} t B k out k'" "out \<noteq> Shutdown"
    "untouched t k k'"
proof -
  obtain k1 k' out where "exchange_current_task_state Running Ready k = Some (Inr Running, k1)"
    "run_next_task k1 = Some (out, k')" "left_for {} t B k out k'" "out \<noteq> Shutdown"
    "untouched t k k'"
    by (rule exit_or_yield [OF assms, of Ready]) simp_all
  then show ?thesis by (intro that) (simp_all add: sys_yield_def current_task [OF assms])
qed

lemma sleep_leave:
  assumes "runs k t B"
  obtains out k' where "sleep_task k \<bind> leave = Some (Left out, k')" "left_for {} t B k out k'" "out \<noteq> Shutdown"
    "untouched t k k'"
proof -
  obtain k1 k' out where k: "exchange_current_task_state Running Ready k = Some (Inr Running, k1)"
    "record_current_run_end k1 \<bind> run_next_task = Some (out, k')" "left_for {} t B k out k'" "out \<noteq> Shutdown"
    "untouched t k k'"
    by (rule sleep_or_kill [OF assms, of Ready]) simp_all
  then show ?thesis
    by (intro that) (auto simp: sleep_task_def leave_def split: Option.bind_splits)
qed

lemma kill_leave:
  assumes "runs k t B"
  obtains out k' where "kill_task k \<bind> leave = Some (Left out, k')" "left_for {} t B k out k'"
proof -
  obtain k1 k' out where k: "exchange_current_task_state Running Killed k = Some (Inr Running, k1)"
    "record_current_run_end k1 \<bind> run_next_task = Some (out, k')" "left_for {} t B k out k'"
    by (rule sleep_or_kill [OF assms, of Killed]) simp_all
  then show ?thesis
    by (intro that) (auto simp: kill_task_def leave_def split: Option.bind_splits)
qed

subsection \<open>The trap context on the kernel stack\<close>

lemma set_ctx_word_step:
  assumes h: "hosted k t B" and n: "n < 34"
  shows "step_on {n} t B k t (set_ctx_word (ctx_tp (tcontext t)) n w k)"
    "lookup (root_pgt (vm_space t)) (mm (set_ctx_word (ctx_tp (tcontext t)) n w k)) = lookup (root_pgt (vm_space t)) (mm k)"
proof -
  note H = hostedD [OF h]
  obtain p where p: "stack_page (vm_space t) p" "ctx_tp (tcontext t) = stack_ctx p" "reachable_ppn p"
    "p \<in> data_pages (vm_space t)" by (rule task_okD [OF H(3)])
  let ?i = "477 + n" and ?m = "phys (mm k)"
  have i: "?i < 512" using n by (simp add: word_less_nat_alt unat_word_ariths)
  let ?m' = "store_u64 ?m (get_pa p + 8 * ?i) w"
  have out: "?m' a = ?m a" if "PPN (drop_bit 12 a) \<notin> data_pages (vm_space t)" for a
    by (rule store_outside [OF p(3) i]) (use that p(4) in auto)
  have code: "set_ctx_word (ctx_tp (tcontext t)) n w k = k\<lparr>mm := (mm k)\<lparr>phys := ?m'\<rparr>\<rparr>"
    unfolding set_ctx_word_def p(2) stack_ctx_addr ..
  show "lookup (root_pgt (vm_space t)) (mm (set_ctx_word (ctx_tp (tcontext t)) n w k)) = lookup (root_pgt (vm_space t)) (mm k)"
    unfolding code using page_write(2) [OF H(5), of ?m'] out by simp
  have "block_step {n} t (mm k) t ((mm k)\<lparr>phys := ?m'\<rparr>)"
  proof (rule block_step_write [OF H(3) out])
    fix q j assume "j \<notin> {n}"
    then show "tab ?m' q (477 + j) = tab ?m q (477 + j)" unfolding tab_store [OF p(3) i] upd_apply by simp
  qed (use n in auto)
  then have "step_on {n} t B k t (k\<lparr>mm := (mm k)\<lparr>phys := ?m'\<rparr>\<rparr>)"
    by (intro hosted_step [OF h]) (simp_all add: H(1))
  then show "step_on {n} t B k t (set_ctx_word (ctx_tp (tcontext t)) n w k)" unfolding code .
qed

lemma ctx_word_set:
  assumes h: "hosted k t B" and n: "n < 35" "j < 35"
  shows "ctx_word (ctx_tp (tcontext t)) j (phys (mm (set_ctx_word (ctx_tp (tcontext t)) n w k))) =
    (if j = n then w else ctx_word (ctx_tp (tcontext t)) j (phys (mm k)))"
proof -
  obtain p where p: "ctx_tp (tcontext t) = stack_ctx p" "reachable_ppn p"
    by (rule task_okD [OF hostedD(3) [OF h]])
  have "477 + n < 512" using n(1) by (simp add: word_less_nat_alt unat_word_ariths)
  note T = tab_store [OF p(2) this]
  have m: "phys (mm (set_ctx_word (stack_ctx p) n w k)) = store_u64 (phys (mm k)) (get_pa p + 8 * (477 + n)) w"
    unfolding set_ctx_word_def stack_ctx_addr by simp
  show ?thesis unfolding p(1) ctx_word_tab [OF p(2) n(2)] m T upd_apply by simp
qed

lemma set_ctx_word_outside:
  assumes "reachable_ppn p" "n < 35" "PPN (drop_bit 12 a) \<noteq> p"
  shows "phys (mm (set_ctx_word (stack_ctx p) n w k)) a = phys (mm k) a"
proof -
  have "drop_bit 12 a \<noteq> get_raw p" using assms(3) by auto
  from store_outside [OF assms(1) stack_word [OF assms(2)] this] show ?thesis
    unfolding set_ctx_word_def stack_ctx_addr by simp
qed

lemma set_ctx_word_simps [simp]:
  "tp (set_ctx_word c n w k) = tp k" "csrs (set_ctx_word c n w k) = csrs k"
  "console (set_ctx_word c n w k) = console k" "ALL_TASKS (set_ctx_word c n w k) = ALL_TASKS k"
  "PAGE_ALLOCATOR (mm (set_ctx_word c n w k)) = PAGE_ALLOCATOR (mm k)"
  by (simp_all add: set_ctx_word_def)

lemma record_call:
  assumes r: "runs k t B"
  obtains b k' where "record_current_syscall i k = Some (b, k')" "runs k' (snd (record_syscall i t)) B"
    "step_for t B k (snd (record_syscall i t)) k'" "k' = k\<lparr>ALL_TASKS := ALL_TASKS k'\<rparr>"
proof -
  note h = runsD(1) [OF r]
  obtain j where j: "position_of (task_id t) (ALL_TASKS k) = Some j" "j < length (ALL_TASKS k)" "ALL_TASKS k ! j = t"
    "\<And>t'. mset ((ALL_TASKS k)[j := t']) = add_mset t' B"
    by (rule hosted_position [OF h]) blast
  obtain b t' where t': "record_syscall i t = (b, t')" by (cases "record_syscall i t")
  let ?k = "k\<lparr>ALL_TASKS := (ALL_TASKS k)[j := t']\<rparr>"
  have sb: "same_block t t'" "tstate t' = tstate t"
    using same_block_simps(5) [of t i] tstate_simps(3) [of i t] t' by simp_all
  have h': "hosted ?k t' B" by (rule hosted_same_block [OF h sb(1)]) (simp_all add: j(4))
  have st: "step_for t B k t' ?k"
    using h' sb by (simp add: step_on_def same_block_def same_view_refl ctx_kept_refl)
  show ?thesis
  proof (rule that)
    show "record_current_syscall i k = Some (b, ?k)"
      using j t' current_task(1) [OF r] by (simp add: record_current_syscall_def Let_def)
    show "runs ?k (snd (record_syscall i t)) B" using runs_step [OF r st] t' by simp
  qed (use st t' in simp_all)
qed

subsection \<open>Dispatch of system calls\<close>

definition KNOWN_CALLS :: "usize set" where
  "KNOWN_CALLS = {SYSCALL_WRITE, SYSCALL_MMAP, SYSCALL_MUNMAP, SYSCALL_EXIT, SYSCALL_YIELD, SYSCALL_TASK_INFO}"

lemmas call_numbers = SYSCALL_WRITE_def SYSCALL_MMAP_def SYSCALL_MUNMAP_def SYSCALL_EXIT_def SYSCALL_YIELD_def
  SYSCALL_TASK_INFO_def

lemma copy_done_step: "copy_done t B k t' k' \<Longrightarrow> runs k' t' B \<and> step_for t B k t' k'"
  by (simp add: copy_done_def)

lemma print_chars_step:
  assumes "copy_done t B k t' k'"
  shows "runs (print_chars cs k') t' B" "step_for t B k t' (print_chars cs k')"
proof -
  have p: "hosted (print_chars cs k') = hosted k'" "mm (print_chars cs k') = mm k'" "tp (print_chars cs k') = tp k'"
    by (simp_all add: hosted_def print_chars_def fun_eq_iff)
  show "runs (print_chars cs k') t' B" "step_for t B k t' (print_chars cs k')"
    using assms unfolding copy_done_def runs_def step_on_def p by blast+
qed

lemma syscall_handler_spec:
  assumes r: "runs k t B" and e: "platform_ok e"
  obtains (panic) "syscall_handler e i a0 a1 a2 k = None" "i \<notin> KNOWN_CALLS \<or> i = SYSCALL_WRITE"
  | (returns) v t' k' where "syscall_handler e i a0 a1 a2 k = Some (Returns v, k')" "runs k' t' B" "step_for t B k t' k'"
  | (leaves) out k' where "syscall_handler e i a0 a1 a2 k = Some (Leaves out, k')" "left_for {} t B k out k'"
      "out = Shutdown \<Longrightarrow> i = SYSCALL_EXIT"
proof -
  note refl = step_for_refl [OF runsD(1) [OF r]]
  show ?thesis
  proof (cases "i \<in> KNOWN_CALLS")
    case False
    then show ?thesis by (intro panic) (simp_all add: KNOWN_CALLS_def syscall_handler_def)
  next
    case True
    then consider (w) "i = SYSCALL_WRITE" | (m) "i = SYSCALL_MMAP" | (u) "i = SYSCALL_MUNMAP" | (x) "i = SYSCALL_EXIT"
      | (y) "i = SYSCALL_YIELD" | (f) "i = SYSCALL_TASK_INFO" by (auto simp: KNOWN_CALLS_def)
    then show ?thesis
    proof cases
      case w
      then have c: "syscall_handler e i a0 a1 a2 k = sys_write e a0 a1 a2 k" by (simp add: syscall_handler_def)
      show ?thesis
      proof (rule sys_write_spec [OF r e, of a0 a1 a2], goal_cases)
        case 1 then show ?case using c r refl by (intro returns) auto
      next
        case 2 then show ?case using c w by (intro panic) auto
      next
        case (3 t' k' n) then show ?case using c copy_done_step [OF 3(4)] by (intro returns [of _ k' t']) auto
      next
        case (4 t' k')
        show ?case
        proof (cases "from_utf8 (user_bytes k' a1 (unat a2))")
          case None
          then show ?thesis using c w 4(5) by (intro panic) simp_all
        next
          case (Some str)
          then show ?thesis using c 4(5) by (intro returns [OF _ print_chars_step [OF 4(1)], of a2 str]) simp
        qed
      qed
    next
      case m
      then have c: "syscall_handler e i a0 a1 a2 k = mmap a0 a1 a2 k"
        by (simp add: syscall_handler_def call_numbers)
      show ?thesis by (rule mmap_spec [OF r, of a0 a1 a2]) (use c r refl in \<open>auto intro: returns\<close>)
    next
      case u
      then have c: "syscall_handler e i a0 a1 a2 k = munmap a0 a1 k"
        by (simp add: syscall_handler_def call_numbers)
      show ?thesis by (rule munmap_spec [OF r, of a0 a1]) (use c r refl in \<open>auto intro: returns\<close>)
    next
      case x
      then have c: "syscall_handler e i a0 a1 a2 k = sys_exit a0 k"
        by (simp add: syscall_handler_def call_numbers)
      show ?thesis by (rule sys_exit_spec [OF r, of a0]) (use c x in \<open>auto intro: leaves\<close>)
    next
      case y
      then have c: "syscall_handler e i a0 a1 a2 k = sys_yield k"
        by (simp add: syscall_handler_def call_numbers)
      show ?thesis by (rule sys_yield_spec [OF r]) (use c in \<open>auto intro: leaves\<close>)
    next
      case f
      then have c: "syscall_handler e i a0 a1 a2 k = sys_task_info e a0 a1 k"
        by (simp add: syscall_handler_def call_numbers)
      show ?thesis by (rule sys_task_info_spec [OF r e, of a0 a1])
        (use c r refl in \<open>auto simp: copy_done_def intro: returns\<close>)
    qed
  qed
qed

subsection \<open>The user trap handler\<close>

text \<open>
  How a trap ends: the task goes on, or the kernel left it through the scheduler.  A task that
  goes on has the saved context it had, except after a system call, where the program counter
  has moved on by one instruction and \<open>a0\<close> holds the result.
\<close>

abbreviation trap_cause :: "kernel \<Rightarrow> Cause" where
  "trap_cause k \<equiv> match_cause (scause_read (csrs k))"

text \<open>
  The traps that may end the task: those that kill it, among them page faults that the memory of
  the program does not grant or that find too few pages left, and its own exit.
\<close>

definition ends_task :: "Cause \<Rightarrow> usize \<Rightarrow> usize \<Rightarrow> user_memory \<Rightarrow> mm_state \<Rightarrow> bool" where
  "ends_task c stval call M s \<longleftrightarrow> (case c of
     IllegalInstruction \<Rightarrow> True
   | InstructionPageFault \<Rightarrow> True
   | LoadPageFault \<Rightarrow> \<not> allows Load (M stval) \<or> card (mfree s) \<le> 3
   | StoreOrAmoPageFault \<Rightarrow> \<not> allows Store (M stval) \<or> card (mfree s) \<le> 3
   | UserEnvironmentCall \<Rightarrow> call = SYSCALL_EXIT
   | _ \<Rightarrow> False)"

definition handled ::
  "TaskControlBlock \<Rightarrow> TaskControlBlock multiset \<Rightarrow> kernel \<Rightarrow> trap_end \<Rightarrow> kernel \<Rightarrow> bool" where
  "handled t B k r k' \<longleftrightarrow> (case r of
     Resumed c \<Rightarrow> c = tp k \<and> (\<exists>t'. runs k' t' B \<and>
       (if trap_cause k = UserEnvironmentCall
        then step_on {10, 33} t B k t' k' \<and>
          ctx_word c 33 (phys (mm k')) = ctx_word c 33 (phys (mm k)) + 4
        else step_for t B k t' k'))
   | Left out \<Rightarrow> left_for (if trap_cause k = UserEnvironmentCall then {33} else {}) t B k out k' \<and>
       (out = Shutdown \<longrightarrow> ends_task (trap_cause k) (stval_read (csrs k)) (ctx_word (tp k) 17 (phys (mm k)))
          (user_mem (vm_space t) (mm k)) (mm k)))"

lemma handle_user_fault_spec:
  assumes r: "runs k t B" and va: "unat va < 2 ^ 38" and tr: "mmu U_mode acc va k = None"
  obtains (repaired) t' k' pa where "handle_user_fault (tp k) (task_id t) va (request acc) k = Some (Resumed (tp k), k')"
      "runs k' t' B" "step_for t B k t' k'" "mmu U_mode acc va k' = Some pa"
      "same_user (user_mem (vm_space t') (mm k')) (user_mem (vm_space t) (mm k))"
  | (killed) out k' where "handle_user_fault (tp k) (task_id t) va (request acc) k = Some (Left out, k')"
      "left_for {} t B k out k'" "\<not> allows acc (user_mem (vm_space t) (mm k) va) \<or> card (mfree (mm k)) \<le> 3"
proof -
  have tr': "translate U_mode (sum_bit k) acc (csrs k SATP_CSR_NO) (phys (mm k)) va = None"
    using tr by (simp add: mmu_def csrr_def)
  show ?thesis
  proof (rule do_page_fault_cases [OF runsD(1) [OF r] va _ tr'])
    fix res t' k1
    assume f: "do_page_fault (task_id t) va (request acc) k = Some (res, k1)" "step_for t B k t' k1"
      and k1: "k1 = k\<lparr>mm := mm k1, ALL_TASKS := ALL_TASKS k1\<rparr>"
      and grows: "view_grows (vm_space t) (mm k) (vm_space t') (mm k1)"
      and good: "res = Inr () \<Longrightarrow> \<exists>pa. \<forall>mode sm. mode = U_mode \<or> sm \<longrightarrow>
        translate mode sm acc (csrs k SATP_CSR_NO) (phys (mm k1)) va = Some pa"
      and why: "res \<noteq> Inr () \<Longrightarrow> allows acc (user_mem (vm_space t) (mm k) va) \<Longrightarrow> card (mfree (mm k)) \<le> 3 \<and> card (mfree (mm k1)) \<le> 1"
    have same: "tp k1 = tp k" "csrs k1 = csrs k" by (subst k1, simp)+
    note r1 = runs_step [OF r f(2) same(1)]
    show ?thesis
    proof (cases "res = Inr ()")
      case True
      then obtain pa where pa: "\<forall>mode sm. mode = U_mode \<or> sm \<longrightarrow>
          translate mode sm acc (csrs k SATP_CSR_NO) (phys (mm k1)) va = Some pa" using good by blast
      have "mmu U_mode acc va k1 = Some pa" using pa by (simp add: mmu_def csrr_def same)
      then show ?thesis using f(1) True view_grows_mem [OF grows]
        by (intro repaired [OF _ r1 f(2)]) (simp_all add: handle_user_fault_def)
    next
      case False
      then obtain err where err: "res = Inl err" by (cases res) auto
      obtain out k' where k': "kill_task k1 \<bind> leave = Some (Left out, k')" "left_for {} t' B k1 out k'"
        by (rule kill_leave [OF r1])
      show ?thesis using f(1) err k'(1)
        by (intro killed [OF _ left_for_trans [OF f(2) k'(2), simplified]])
          (use why False in \<open>auto simp: handle_user_fault_def\<close>)
    qed
  qed simp
qed

text \<open>The hart reports a page fault only for an access that the tables refuse.\<close>

definition fault_real :: "kernel \<Rightarrow> bool" where
  "fault_real k \<longleftrightarrow>
     (match_cause (scause_read (csrs k)) = LoadPageFault \<longrightarrow> mmu U_mode Load (stval_read (csrs k)) k = None) \<and>
     (match_cause (scause_read (csrs k)) = StoreOrAmoPageFault \<longrightarrow> mmu U_mode Store (stval_read (csrs k)) k = None)"

text \<open>The traps that stop the kernel.\<close>

definition trap_may_panic :: "kernel \<Rightarrow> bool" where
  "trap_may_panic k \<longleftrightarrow> (case match_cause (scause_read (csrs k)) of
     SupervisorTimerInterrupt \<Rightarrow> False
   | IllegalInstruction \<Rightarrow> False
   | InstructionPageFault \<Rightarrow> False
   | LoadPageFault \<Rightarrow> \<not> check_u_va (stval_read (csrs k))
   | StoreOrAmoPageFault \<Rightarrow> \<not> check_u_va (stval_read (csrs k))
   | UserEnvironmentCall \<Rightarrow>
       (let i = ctx_word (tp k) 17 (phys (mm k)) in i \<notin> KNOWN_CALLS \<or> i = SYSCALL_WRITE)
   | _ \<Rightarrow> True)"

lemma call_entry:
  assumes r: "runs k t B" and c: "trap_cause k = UserEnvironmentCall"
  obtains t1 k1 where "same_block t t1" "runs k1 t1 B" "step_on {33} t B k t1 k1" "tp k1 = tp k"
    "ctx_word (tp k) 33 (phys (mm k1)) = ctx_word (tp k) 33 (phys (mm k)) + 4"
    "lookup (root_pgt (vm_space t)) (mm k1) = lookup (root_pgt (vm_space t)) (mm k)"
    "\<And>p a. stack_page (vm_space t) p \<Longrightarrow> PPN (drop_bit 12 a) \<noteq> p \<Longrightarrow> phys (mm k1) a = phys (mm k) a"
    "u_trap_handler e (tp k) k = do {
      (r, k') \<leftarrow> syscall_handler e (ctx_word (tp k) 17 (phys (mm k))) (ctx_word (tp k) 10 (phys (mm k)))
        (ctx_word (tp k) 11 (phys (mm k))) (ctx_word (tp k) 12 (phys (mm k))) k1;
      case r of
        Returns v \<Rightarrow> Some (Resumed (tp k), set_ctx_word (tp k) 10 v k')
      | Leaves out \<Rightarrow> Some (Left out, k')
    }" "console k1 = console k"
proof -
  define i where "i = ctx_word (tp k) 17 (phys (mm k))"
  obtain b k0 where k0: "record_current_syscall i k = Some (b, k0)" "runs k0 (snd (record_syscall i t)) B"
    "step_for t B k (snd (record_syscall i t)) k0" "k0 = k\<lparr>ALL_TASKS := ALL_TASKS k0\<rparr>"
    by (rule record_call [OF r])
  let ?t1 = "snd (record_syscall i t)"
  have same: "tp k0 = tp k" "mm k0 = mm k" "console k0 = console k" by (subst k0(4), simp)+
  have ctx: "tp k = ctx_tp (tcontext ?t1)" using runsD(2) [OF k0(2)] same by simp
  note h0 = runsD(1) [OF k0(2)]
  define k1 where "k1 = set_ctx_word (tp k) 33 (ctx_word (tp k) 33 (phys (mm k)) + 4) k0"
  have s1: "step_on {33} ?t1 B k0 ?t1 k1" unfolding k1_def ctx by (rule set_ctx_word_step(1) [OF h0]) simp
  have w: "ctx_word (tp k) n (phys (mm k1)) = (if n = 33 then ctx_word (tp k) 33 (phys (mm k)) + 4 else ctx_word (tp k) n (phys (mm k)))"
    if "n < 35" for n using ctx_word_set [OF h0, of 33 n] ctx same that by (simp add: k1_def)
  have sb: "same_block t ?t1" by simp
  then have v: "vm_space ?t1 = vm_space t" by (simp add: same_block_def)
  show ?thesis
  proof (rule that [OF sb])
    show "runs k1 ?t1 B" by (rule runs_step [OF k0(2) s1]) (simp add: k1_def)
    show "step_on {33} t B k ?t1 k1" using step_on_trans [OF k0(3) s1] by simp
    show "ctx_word (tp k) 33 (phys (mm k1)) = ctx_word (tp k) 33 (phys (mm k)) + 4" by (simp add: w)
    show "lookup (root_pgt (vm_space t)) (mm k1) = lookup (root_pgt (vm_space t)) (mm k)"
      using set_ctx_word_step(2) [OF h0, of 33] ctx same v by (simp add: k1_def)
    show "phys (mm k1) a = phys (mm k) a" if p: "stack_page (vm_space t) p" "PPN (drop_bit 12 a) \<noteq> p" for p a
    proof -
      note H = hostedD [OF h0]
      have "tp k = stack_ctx p" using H(3) stack_page_ctx [OF p(1)] ctx v unfolding task_ok_def by simp
      then show ?thesis using set_ctx_word_outside [OF data_page_reachable [OF H(5)] _ p(2), of 33] stack_page_data [OF p(1)]
        by (simp add: k1_def v same)
    qed
    show "u_trap_handler e (tp k) k = do {
      (r, k') \<leftarrow> syscall_handler e (ctx_word (tp k) 17 (phys (mm k))) (ctx_word (tp k) 10 (phys (mm k)))
        (ctx_word (tp k) 11 (phys (mm k))) (ctx_word (tp k) 12 (phys (mm k))) k1;
      case r of
        Returns v \<Rightarrow> Some (Resumed (tp k), set_ctx_word (tp k) 10 v k')
      | Leaves out \<Rightarrow> Some (Left out, k')
    }"
      unfolding u_trap_handler_def
      by (simp add: c current_task(1) [OF r] k0(1) [unfolded i_def] same k1_def [symmetric] w Let_def)
  qed (simp_all add: k1_def same)
qed

lemma environment_call:
  assumes r: "runs k t B" and e: "platform_ok e" and c: "trap_cause k = UserEnvironmentCall"
  obtains (panic) "u_trap_handler e (tp k) k = None" "trap_may_panic k"
  | (ended) r k' where "u_trap_handler e (tp k) k = Some (r, k')" "handled t B k r k'"
proof -
  let ?w = "\<lambda>n. ctx_word (tp k) n (phys (mm k))"
  show ?thesis
  proof (rule call_entry [OF r c, of e])
    fix t1 k1
    assume 1: "runs k1 t1 B" "step_on {33} t B k t1 k1" "tp k1 = tp k"
      and pc1: "ctx_word (tp k) 33 (phys (mm k1)) = ?w 33 + 4"
      and code: "u_trap_handler e (tp k) k = do {
      (r, k') \<leftarrow> syscall_handler e (?w 17) (?w 10) (?w 11) (?w 12) k1;
      case r of
        Returns v \<Rightarrow> Some (Resumed (tp k), set_ctx_word (tp k) 10 v k')
      | Leaves out \<Rightarrow> Some (Left out, k')
    }"
    have ctx: "tp k = ctx_tp (tcontext t1)" using runsD(2) [OF 1(1)] 1(3) by simp
    show ?thesis
    proof (rule syscall_handler_spec [OF 1(1) e, of "?w 17" "?w 10" "?w 11" "?w 12"], goal_cases)
      case 1
      then show ?case using code c by (intro panic) (simp_all add: trap_may_panic_def Let_def)
    next
      case (2 v t' k')
      have h': "hosted k' t' B" "tp k' = ctx_tp (tcontext t')" using 2(2) by (simp_all add: runs_def)
      have tpk: "tp k' = tp k" using h'(2) 2(3) ctx by (simp add: step_on_def)
      let ?k = "set_ctx_word (tp k) 10 v k'"
      have s3: "step_on {10} t' B k' t' ?k"
        using set_ctx_word_step(1) [OF h'(1), of 10 v] h'(2) tpk by simp
      have "runs ?k t' B" by (rule runs_step [OF 2(2) s3]) simp
      moreover have "ctx_word (tp k) 33 (phys (mm ?k)) = ctx_word (tp k) 33 (phys (mm k'))"
        using ctx_word_set [OF h'(1), of 10 33 v] h'(2) tpk by simp
      moreover have "ctx_word (tp k) 33 (phys (mm k')) = ctx_word (tp k) 33 (phys (mm k1))"
        using 2(3) ctx by (simp add: step_on_def ctx_kept_def)
      ultimately have "handled t B k (Resumed (tp k)) ?k"
        using step_on_trans [OF 1(2) step_on_trans [OF 2(3) s3]] c pc1 by (auto simp: handled_def insert_commute)
      then show ?case using code 2(1) by (intro ended [of "Resumed (tp k)" ?k]) simp_all
    next
      case (3 out k')
      have "handled t B k (Left out) k'" using left_for_trans [OF 1(2) 3(2)] 3(3) c by (simp add: handled_def ends_task_def)
      then show ?case using code 3(1) by (intro ended [of "Left out" k']) simp_all
    qed
  qed
qed

lemma u_trap_fault:
  assumes r: "runs k t B" and c: "trap_cause k = (case acc of Load \<Rightarrow> LoadPageFault | Store \<Rightarrow> StoreOrAmoPageFault)"
    and va: "check_u_va (stval_read (csrs k))"
  shows "u_trap_handler e (tp k) k = handle_user_fault (tp k) (task_id t) (stval_read (csrs k)) (request acc) k"
  using c va current_task [OF r] by (cases acc) (simp_all add: u_trap_handler_def Let_def request_def need_def)

lemma u_trap_handler_spec:
  assumes r: "runs k t B" and e: "platform_ok e" and f: "fault_real k"
  obtains (panic) "u_trap_handler e (tp k) k = None" "trap_may_panic k"
  | (ended) r k' where "u_trap_handler e (tp k) k = Some (r, k')" "handled t B k r k'"
proof -
  let ?c = "match_cause (scause_read (csrs k))" and ?va = "stval_read (csrs k)"
  have fault: ?thesis if c: "?c = (case acc of Load \<Rightarrow> LoadPageFault | Store \<Rightarrow> StoreOrAmoPageFault)" for acc
  proof (cases "check_u_va ?va")
    case False
    then show ?thesis using c current_task [OF r]
      by (intro panic) (cases acc; simp add: u_trap_handler_def trap_may_panic_def Let_def)+
  next
    case True
    have va: "unat ?va < 2 ^ 38" using True by (simp add: check_u_va_def kconst word_less_nat_alt)
    have tr: "mmu U_mode acc ?va k = None" using f c by (cases acc) (simp_all add: fault_real_def)
    note code = u_trap_fault [OF r c True, of e]
    have ne: "?c \<noteq> UserEnvironmentCall" using c by (cases acc) simp_all
    show ?thesis
    proof (rule handle_user_fault_spec [OF r va tr], goal_cases)
      case (1 t' k' pa)
      then have "handled t B k (Resumed (tp k)) k'" using ne by (auto simp: handled_def)
      with 1(1) code show ?case by (intro ended) simp_all
    next
      case (2 out k')
      then have "handled t B k (Left out) k'" using ne c by (cases acc) (simp_all add: handled_def ends_task_def)
      with 2(1) code show ?case by (intro ended) simp_all
    qed
  qed
  consider (timer) "?c = SupervisorTimerInterrupt" | (ecall) "?c = UserEnvironmentCall" | (load) "?c = LoadPageFault"
    | (store) "?c = StoreOrAmoPageFault" | (illegal) "?c = IllegalInstruction \<or> ?c = InstructionPageFault"
    | (other) "?c \<notin> {SupervisorTimerInterrupt, UserEnvironmentCall, LoadPageFault, StoreOrAmoPageFault,
        IllegalInstruction, InstructionPageFault}" by blast
  then show ?thesis
  proof cases
    case timer
    obtain out k' where "sleep_task k \<bind> leave = Some (Left out, k')" "left_for {} t B k out k'" "out \<noteq> Shutdown"
      by (rule sleep_leave [OF r])
    then show ?thesis using timer current_task [OF r]
      by (intro ended [of "Left out" k']) (simp_all add: u_trap_handler_def handled_def)
  next
    case illegal
    obtain out k' where "kill_task k \<bind> leave = Some (Left out, k')" "left_for {} t B k out k'"
      by (rule kill_leave [OF r])
    then show ?thesis using illegal current_task [OF r]
      by (intro ended [of "Left out" k']) (auto simp: u_trap_handler_def handled_def ends_task_def)
  next
    case other
    then show ?thesis using current_task [OF r]
      by (intro panic) (simp_all add: u_trap_handler_def Let_def trap_may_panic_def split: Cause.split)
  next
    case ecall
    show ?thesis by (rule environment_call [OF r e ecall]) (auto intro: panic ended)
  next
    case load
    then show ?thesis by (intro fault [of Load]) simp
  next
    case store
    then show ?thesis by (intro fault [of Store]) simp
  qed
qed

end
