(* ===== verification/System.thy ===== *)
theory System
  imports Kernel_Trap
begin

text \<open>
  The machine as the user programs see it: a hart in user mode that computes, loads and stores
  through its page table and traps into the kernel.  The trap path is the code of \<open>trap.S\<close> around
  \<open>u_trap_handler\<close>; what the hart itself does at a trap and at \<open>sret\<close> follows the privileged
  architecture.
\<close>

subsection \<open>Saving a context\<close>

lemma foldl_ctx_words:
  assumes h: "hosted k t B" and m: "m \<le> 32"
  shows "hosted (foldl (\<lambda>k n. set_ctx_word (ctx_tp (tcontext t)) (of_nat n) (f n) k) k [0..<m]) t B \<and>
    step_on {n. n < 34} t B k t (foldl (\<lambda>k n. set_ctx_word (ctx_tp (tcontext t)) (of_nat n) (f n) k) k [0..<m]) \<and>
    (\<forall>j < 35. ctx_word (ctx_tp (tcontext t)) j
       (phys (mm (foldl (\<lambda>k n. set_ctx_word (ctx_tp (tcontext t)) (of_nat n) (f n) k) k [0..<m]))) =
       (if unat j < m then f (unat j) else ctx_word (ctx_tp (tcontext t)) j (phys (mm k)))) \<and>
    lookup (root_pgt (vm_space t)) (mm (foldl (\<lambda>k n. set_ctx_word (ctx_tp (tcontext t)) (of_nat n) (f n) k) k [0..<m])) =
      lookup (root_pgt (vm_space t)) (mm k)"
  using m
proof (induction m)
  case 0
  have "step_on {n. n < 34} t B k t k" using h by (simp add: step_on_def same_view_refl ctx_kept_refl)
  with h show ?case by simp
next
  case (Suc m)
  let ?c = "ctx_tp (tcontext t)" and ?k = "foldl (\<lambda>k n. set_ctx_word (ctx_tp (tcontext t)) (of_nat n) (f n) k) k [0..<m]"
  have IH: "hosted ?k t B" "step_on {n. n < 34} t B k t ?k"
    "\<And>j. j < 35 \<Longrightarrow> ctx_word ?c j (phys (mm ?k)) = (if unat j < m then f (unat j) else ctx_word ?c j (phys (mm k)))"
    "lookup (root_pgt (vm_space t)) (mm ?k) = lookup (root_pgt (vm_space t)) (mm k)"
    using Suc by simp_all
  have un: "unat (of_nat m :: usize) = m" using Suc.prems by (simp add: unat_of_nat)
  then have lt: "of_nat m < (34 :: usize)" "of_nat m < (35 :: usize)" using Suc.prems by (simp_all add: word_less_nat_alt)
  note S = set_ctx_word_step [OF IH(1) lt(1), of "f m"]
  have "{n. n < 34} \<union> {of_nat m} = {n :: usize. n < 34}" using lt(1) by auto
  then have "step_on {n. n < 34} t B k t (set_ctx_word ?c (of_nat m) (f m) ?k)"
    using step_on_trans [OF IH(2) S(1)] by simp
  moreover have "hosted (set_ctx_word ?c (of_nat m) (f m) ?k) t B" using S(1) by (simp add: step_on_def)
  moreover have "ctx_word ?c j (phys (mm (set_ctx_word ?c (of_nat m) (f m) ?k))) =
      (if unat j < Suc m then f (unat j) else ctx_word ?c j (phys (mm k)))" if "j < 35" for j
  proof -
    have "j = of_nat m \<longleftrightarrow> unat j = m" using un by (metis word_unat_eq_iff)
    then show ?thesis by (auto simp: ctx_word_set [OF IH(1) lt(2) that] IH(3) [OF that] un less_Suc_eq)
  qed
  ultimately show ?case using S(2) IH(4) by simp
qed

text \<open>The hart in user mode with the task \<open>t\<close>.\<close>

definition user_kernel :: "kernel \<Rightarrow> TaskControlBlock \<Rightarrow> TaskControlBlock multiset \<Rightarrow> bool" where
  "user_kernel k t B \<longleftrightarrow> hosted k t B \<and> csrs k SSCRATCH_CSR_NO = ctx_tp (tcontext t) \<and>
     tstate t = Running \<and> none_running B"

lemma foldl_ctx_simps [simp]:
  "csrs (foldl (\<lambda>k n. set_ctx_word c (g n) (f n) k) k l) = csrs k"
  "tp (foldl (\<lambda>k n. set_ctx_word c (g n) (f n) k) k l) = tp k"
  "PAGE_ALLOCATOR (mm (foldl (\<lambda>k n. set_ctx_word c (g n) (f n) k) k l)) = PAGE_ALLOCATOR (mm k)"
  by (induction l arbitrary: k) simp_all

lemma save_u_ctx_spec:
  assumes u: "user_kernel k t B" and len: "length rs = 32"
  shows "runs (save_u_ctx rs k) t B" "step_on {n. n < 34} t B k t (save_u_ctx rs k)"
    "csrs (save_u_ctx rs k) = (csrs k)(SSCRATCH_CSR_NO := 0)"
    "n < 32 \<Longrightarrow> ctx_word (ctx_tp (tcontext t)) (of_nat n) (phys (mm (save_u_ctx rs k))) = rs ! n"
    "ctx_word (ctx_tp (tcontext t)) 32 (phys (mm (save_u_ctx rs k))) = csrs k SSTATUS_CSR_NO"
    "ctx_word (ctx_tp (tcontext t)) 33 (phys (mm (save_u_ctx rs k))) = csrs k SEPC_CSR_NO"
    "lookup (root_pgt (vm_space t)) (mm (save_u_ctx rs k)) = lookup (root_pgt (vm_space t)) (mm k)"
proof -
  let ?c = "ctx_tp (tcontext t)"
  have h: "hosted k t B" and sc: "csrs k SSCRATCH_CSR_NO = ?c" using u by (simp_all add: user_kernel_def)
  define k1 where "k1 = k\<lparr>csrs := csrw SSCRATCH_CSR_NO (rs ! 4) (csrs k), tp := ?c\<rparr>"
  define k2 where "k2 = foldl (\<lambda>k n. set_ctx_word ?c (of_nat n) ((rs[4 := ?c]) ! n) k) k1 [0..<32]"
  define k3 where "k3 = k2\<lparr>csrs := csrw SSCRATCH_CSR_NO 0 (csrs k2)\<rparr>"
  define k4 where "k4 = set_ctx_word ?c 4 (rs ! 4) k3"
  define k5 where "k5 = set_ctx_word ?c 32 (csrs k SSTATUS_CSR_NO) k4"
  define k6 where "k6 = set_ctx_word ?c 33 (csrs k SEPC_CSR_NO) k5"
  have cs: "csrs k2 = csrs k1" "csrs k4 = csrs k3" "csrs k5 = csrs k3" "csrs k6 = csrs k3"
    by (simp_all add: k2_def k4_def k5_def k6_def)
  have code: "save_u_ctx rs k = k6"
    unfolding save_u_ctx_def Let_def csrr_def sc k1_def [symmetric] k2_def [symmetric] k3_def [symmetric]
    by (simp add: k6_def k5_def k4_def cs) (simp add: k3_def cs k1_def csrw_def csr_numbers)
  have h1: "hosted k1 t B" by (rule hosted_cong [OF h]) (simp_all add: k1_def csrw_def csr_numbers)
  have s1: "step_on {} t B k t k1"
    using h1 by (simp add: step_on_def same_view_def ctx_kept_def k1_def)
  from foldl_ctx_words [OF h1, of 32 "\<lambda>n. (rs[4 := ?c]) ! n"]
  have h2: "hosted k2 t B" "step_on {n. n < 34} t B k1 t k2"
    "\<And>j. j < 35 \<Longrightarrow> ctx_word ?c j (phys (mm k2)) =
      (if unat j < 32 then (rs[4 := ?c]) ! unat j else ctx_word ?c j (phys (mm k1)))"
    "lookup (root_pgt (vm_space t)) (mm k2) = lookup (root_pgt (vm_space t)) (mm k1)"
    by (simp_all add: k2_def)
  have h3: "hosted k3 t B" by (rule hosted_cong [OF h2(1)]) (simp_all add: k3_def csrw_def csr_numbers)
  have s3: "step_on {} t B k2 t k3" using h3 by (simp add: step_on_def same_view_def ctx_kept_def k3_def)
  have s4: "step_on {4} t B k3 t k4" unfolding k4_def by (rule set_ctx_word_step(1) [OF h3]) simp
  then have h4: "hosted k4 t B" by (simp add: step_on_def)
  have s5: "step_on {32} t B k4 t k5" unfolding k5_def by (rule set_ctx_word_step(1) [OF h4]) simp
  then have h5: "hosted k5 t B" by (simp add: step_on_def)
  have s6: "step_on {33} t B k5 t k6" unfolding k6_def by (rule set_ctx_word_step(1) [OF h5]) simp
  then have h6: "hosted k6 t B" by (simp add: step_on_def)
  note w4 = ctx_word_set [OF h3, of 4 _ "rs ! 4", folded k4_def]
  note w5 = ctx_word_set [OF h4, of 32 _ "csrs k SSTATUS_CSR_NO", folded k5_def]
  note w6 = ctx_word_set [OF h5, of 33 _ "csrs k SEPC_CSR_NO", folded k6_def]
  have m3: "mm k3 = mm k2" by (simp add: k3_def)
  have "lookup (root_pgt (vm_space t)) (mm k6) = lookup (root_pgt (vm_space t)) (mm k3)"
    unfolding k6_def k5_def k4_def using h3 h4 [unfolded k4_def] h5 [unfolded k5_def k4_def]
    by (simp add: set_ctx_word_step(2))
  then show "lookup (root_pgt (vm_space t)) (mm (save_u_ctx rs k)) = lookup (root_pgt (vm_space t)) (mm k)"
    by (simp add: code m3 h2(4)) (simp add: k1_def)
  show "csrs (save_u_ctx rs k) = (csrs k)(SSCRATCH_CSR_NO := 0)"
    by (simp add: code cs k3_def k1_def csrw_def)
  have "tp k6 = ?c" by (simp add: k6_def k5_def k4_def k3_def k2_def k1_def)
  then show "runs (save_u_ctx rs k) t B" using h6 u by (simp add: code runs_def user_kernel_def)
  have "step_on ({} \<union> ({n. n < 34} \<union> ({} \<union> ({4} \<union> ({32} \<union> {33}))))) t B k t k6"
    by (intro step_on_trans [OF s1] step_on_trans [OF h2(2)] step_on_trans [OF s3] step_on_trans [OF s4] step_on_trans [OF s5] s6)
  moreover have "{} \<union> ({n. n < 34} \<union> ({} \<union> ({4} \<union> ({32} \<union> {33})))) = {n :: usize. n < 34}" by auto
  ultimately show "step_on {n. n < 34} t B k t (save_u_ctx rs k)" by (simp add: code)
  show "ctx_word ?c 32 (phys (mm (save_u_ctx rs k))) = csrs k SSTATUS_CSR_NO"
    "ctx_word ?c 33 (phys (mm (save_u_ctx rs k))) = csrs k SEPC_CSR_NO"
    by (simp_all add: code w6 w5)
  show "ctx_word ?c (of_nat n) (phys (mm (save_u_ctx rs k))) = rs ! n" if n: "n < 32"
  proof -
    have un: "unat (of_nat n :: usize) = n" using n by (simp add: unat_of_nat)
    have ne: "(of_nat n :: usize) < 35" "(of_nat n :: usize) \<noteq> 32" "(of_nat n :: usize) \<noteq> 33"
      using n un by (auto simp: word_less_nat_alt dest: arg_cong [of _ _ unat])
    have four: "of_nat n = (4 :: usize) \<longleftrightarrow> n = 4" using un by (auto dest: arg_cong [of _ _ unat])
    show ?thesis using ne n len
      by (simp add: code w6 w5 w4 four m3 h2(3) un nth_list_update)
  qed
qed

subsection \<open>The machine\<close>

record machine =
  kern :: kernel
  regs :: "usize list"
  pc :: usize

text \<open>
  A trap from user mode: the hart notes the cause, clears \<open>SPP\<close> because it came from user mode, and
  disables interrupts.  \<open>sret\<close> goes to the mode that \<open>SPP\<close> says.
\<close>

definition hart_trap :: "usize \<Rightarrow> usize \<Rightarrow> usize \<Rightarrow> csr_file \<Rightarrow> csr_file" where
  "hart_trap cause stval p c = take_trap cause stval p
     (csrw SSTATUS_CSR_NO (csrr SSTATUS_CSR_NO c AND NOT SPP_BIT AND NOT SIE_BIT) c)"

definition sret_mode :: "csr_file \<Rightarrow> privilege" where
  "sret_mode c = (if csrr SSTATUS_CSR_NO c AND SPP_BIT = 0 then U_mode else S_mode)"

text \<open>A trap from user mode, up to the return to a task; \<open>None\<close> is a shutdown or a panic.\<close>

definition resume :: "kernel \<Rightarrow> privilege \<times> machine" where
  "resume k = (let (rs, p, k) = restore_u_ctx k in (sret_mode (csrs k), \<lparr>kern = k, regs = rs, pc = p\<rparr>))"

definition user_trap :: "platform \<Rightarrow> usize \<Rightarrow> usize \<Rightarrow> machine \<Rightarrow> (privilege \<times> machine) option" where
  "user_trap e cause stval m = do {
     let k = (kern m)\<lparr>csrs := hart_trap cause stval (pc m) (csrs (kern m))\<rparr>;
     let k = save_u_ctx (regs m) k;
     (r, k) \<leftarrow> u_trap_handler e (tp k) k;
     case r of
       Resumed _ \<Rightarrow> Some (resume k)
     | Left (Switched _) \<Rightarrow> Some (resume k)
     | Left Shutdown \<Rightarrow> None
   }"

subsection \<open>The invariant of the machine\<close>

text \<open>The saved status of a task that is not on the hart returns to user mode.\<close>

definition saved_user :: "TaskControlBlock \<Rightarrow> mm_state \<Rightarrow> bool" where
  "saved_user u s \<longleftrightarrow> ctx_word (ctx_tp (tcontext u)) 32 (phys s) AND SPP_BIT = 0"

definition machine_ok :: "machine \<Rightarrow> TaskControlBlock \<Rightarrow> TaskControlBlock multiset \<Rightarrow> bool" where
  "machine_ok m t B \<longleftrightarrow> user_kernel (kern m) t B \<and> (\<forall>u \<in># B. saved_user u (mm (kern m))) \<and>
     length (regs m) = 32 \<and> regs m ! 0 = 0"

lemma saved_user_kept:
  "ctx_kept W w0 s s' \<Longrightarrow> 32 \<notin> W \<Longrightarrow> tcontext w = tcontext w0 \<Longrightarrow> saved_user w0 s \<Longrightarrow> saved_user w s'"
  by (simp add: saved_user_def ctx_kept_def)

lemma resume_spec:
  assumes r: "runs k t B" and st: "saved_user t (mm k)" "\<forall>u \<in># B. saved_user u (mm k)"
  obtains m' where "resume k = (U_mode, m')" "machine_ok m' t B" "mm (kern m') = mm k"
    "ALL_TASKS (kern m') = ALL_TASKS k" "csrs (kern m') SATP_CSR_NO = csrs k SATP_CSR_NO"
    "pc m' = ctx_word (ctx_tp (tcontext t)) 33 (phys (mm k))"
    "\<And>n. 0 < n \<Longrightarrow> n < 32 \<Longrightarrow> regs m' ! n = ctx_word (ctx_tp (tcontext t)) (of_nat n) (phys (mm k))"
proof -
  let ?c = "ctx_tp (tcontext t)" and ?m = "phys (mm k)"
  note R = runsD [OF r]
  define c where "c = csrw SEPC_CSR_NO (ctx_word ?c 33 ?m) (csrw SSTATUS_CSR_NO (ctx_word ?c 32 ?m) (csrw SSCRATCH_CSR_NO ?c (csrs k)))"
  define rs where "rs = 0 # map (\<lambda>n. ctx_word ?c (of_nat n) ?m) [1..<32]"
  define m' where "m' = \<lparr>kern = k\<lparr>csrs := c, tp := rs ! 4\<rparr>, regs = rs, pc = ctx_word ?c 33 ?m\<rparr>"
  have code: "resume k = (sret_mode c, m')"
    unfolding resume_def restore_u_ctx_def Let_def R(2) c_def [symmetric] rs_def [symmetric] prod.case
    by (simp add: m'_def) (simp add: c_def csrr_def csrw_def)
  have mode: "sret_mode c = U_mode"
    using st(1) by (simp add: sret_mode_def c_def csrr_def csrw_def csr_numbers saved_user_def)
  have cs: "c SATP_CSR_NO = csrs k SATP_CSR_NO" "c SSCRATCH_CSR_NO = ?c"
    by (simp_all add: c_def csrw_def csr_numbers)
  have "hosted (kern m') t B" by (rule hosted_cong [OF R(1)]) (simp_all add: m'_def cs)
  then have "machine_ok m' t B"
    using R(3,4) st(2) by (simp add: machine_ok_def user_kernel_def) (simp add: m'_def cs rs_def)
  moreover have "regs m' ! n = ctx_word ?c (of_nat n) ?m" if "0 < n" "n < 32" for n
    using that nth_upt [of 1 "n - 1" 32] by (simp add: m'_def rs_def)
  ultimately show ?thesis using code mode by (intro that [of m']) (simp_all add: m'_def cs)
qed

subsection \<open>Traps from user mode\<close>

lemma hart_trap_kernel:
  assumes "user_kernel k t B"
  shows "user_kernel (k\<lparr>csrs := hart_trap cause stval p (csrs k)\<rparr>) t B"
proof -
  have "hart_trap cause stval p (csrs k) SATP_CSR_NO = csrs k SATP_CSR_NO"
    "hart_trap cause stval p (csrs k) SSCRATCH_CSR_NO = csrs k SSCRATCH_CSR_NO"
    by (simp_all add: hart_trap_def take_trap_def csrw_def csr_numbers)
  then show ?thesis using assms by (simp add: user_kernel_def hosted_def)
qed

text \<open>
  The trap as the handler sees it.
\<close>

definition trapped :: "usize \<Rightarrow> usize \<Rightarrow> machine \<Rightarrow> kernel" where
  "trapped cause stval m =
     save_u_ctx (regs m) ((kern m)\<lparr>csrs := hart_trap cause stval (pc m) (csrs (kern m))\<rparr>)"

lemma trapped_spec:
  assumes m: "machine_ok m t B"
  shows "runs (trapped cause stval m) t B" "step_on {n. n < 34} t B (kern m) t (trapped cause stval m)"
    "scause_read (csrs (trapped cause stval m)) = cause" "stval_read (csrs (trapped cause stval m)) = stval"
    "saved_user t (mm (trapped cause stval m))" "\<And>u. u \<in># B \<Longrightarrow> saved_user u (mm (trapped cause stval m))"
    "n < 32 \<Longrightarrow> ctx_word (ctx_tp (tcontext t)) (of_nat n) (phys (mm (trapped cause stval m))) = regs m ! n"
    "ctx_word (ctx_tp (tcontext t)) 33 (phys (mm (trapped cause stval m))) = pc m"
    "csrs (trapped cause stval m) SATP_CSR_NO = csrs (kern m) SATP_CSR_NO"
proof -
  let ?k = "(kern m)\<lparr>csrs := hart_trap cause stval (pc m) (csrs (kern m))\<rparr>" and ?k' = "trapped cause stval m"
  have u: "user_kernel (kern m) t B" "length (regs m) = 32" using m by (simp_all add: machine_ok_def)
  note S = save_u_ctx_spec [OF hart_trap_kernel [OF u(1), of cause stval "pc m"] u(2), folded trapped_def]
  show "runs ?k' t B" by (rule S(1))
  have h: "hosted ?k' t B" using S(1) by (simp add: runs_def)
  show st: "step_on {n. n < 34} t B (kern m) t ?k'"
    using S(2) by (simp add: step_on_def same_view_def ctx_kept_def)
  show "scause_read (csrs ?k') = cause" "stval_read (csrs ?k') = stval"
    "csrs ?k' SATP_CSR_NO = csrs (kern m) SATP_CSR_NO"
    by (simp_all add: S(3) scause_read_def stval_read_def csrr_def hart_trap_def take_trap_def csrw_def csr_numbers)
  have "hart_trap cause stval (pc m) (csrs (kern m)) SSTATUS_CSR_NO =
      csrs (kern m) SSTATUS_CSR_NO AND NOT SPP_BIT AND NOT SIE_BIT"
    by (simp add: hart_trap_def take_trap_def csrw_def csrr_def csr_numbers)
  moreover have "(x AND NOT SPP_BIT AND NOT SIE_BIT) AND SPP_BIT = 0" for x
    by (rule bit_eqI) (auto simp: bit_and_iff bit_not_iff)
  ultimately show "saved_user t (mm ?k')" unfolding saved_user_def S(5) by simp
  show "saved_user w (mm ?k')" if "w \<in># B" for w
  proof -
    have "task_ok w (mm ?k')" using h that by (simp add: hosted_def tasks_ok_def)
    moreover have "same_view (vm_space w) (mm (kern m)) (mm ?k')" using st that by (simp add: step_on_def)
    ultimately have "ctx_kept {} w (mm (kern m)) (mm ?k')" by (rule same_view_ctx)
    then show ?thesis by (rule saved_user_kept) (use m that in \<open>simp_all add: machine_ok_def\<close>)
  qed
  show "n < 32 \<Longrightarrow> ctx_word (ctx_tp (tcontext t)) (of_nat n) (phys (mm ?k')) = regs m ! n" by (rule S(4))
  show "ctx_word (ctx_tp (tcontext t)) 33 (phys (mm ?k')) = pc m"
    unfolding S(6) by (simp add: hart_trap_def take_trap_def csrw_def)
qed

lemma user_trap_code:
  "user_trap e cause stval m = do {
     (r, k) \<leftarrow> u_trap_handler e (tp (trapped cause stval m)) (trapped cause stval m);
     case r of
       Resumed _ \<Rightarrow> Some (resume k)
     | Left (Switched _) \<Rightarrow> Some (resume k)
     | Left Shutdown \<Rightarrow> None
   }"
  by (simp add: user_trap_def trapped_def Let_def)

end
