(* ===== verification/System_Run.thy ===== *)
theory System_Run
  imports System
begin

text \<open>
  Runs of the machine: user programs that compute, store and trap in any order.  Every state of a
  run satisfies the invariant, the hart is always in user mode between traps, and what one
  program does is invisible to the others.
\<close>

subsection \<open>Steps\<close>

text \<open>
  The hart raises a load or store page fault only where the tables refuse the access.
\<close>

definition fault_guard :: "usize \<Rightarrow> usize \<Rightarrow> kernel \<Rightarrow> bool" where
  "fault_guard cause stval k \<longleftrightarrow>
     (match_cause cause = LoadPageFault \<longrightarrow> mmu U_mode Load stval k = None) \<and>
     (match_cause cause = StoreOrAmoPageFault \<longrightarrow> mmu U_mode Store stval k = None)"

definition user_store :: "usize \<Rightarrow> u8 \<Rightarrow> kernel \<Rightarrow> kernel" where
  "user_store pa b k = k\<lparr>mm := (mm k)\<lparr>phys := (phys (mm k))(pa := b)\<rparr>\<rparr>"

text \<open>
  A step from user mode: a computation may set every register and the program counter to
  anything (loads included), a store goes through the tables, and a trap enters the kernel with
  any cause the hart can report.
\<close>

inductive user_step :: "platform \<Rightarrow> privilege \<times> machine \<Rightarrow> privilege \<times> machine \<Rightarrow> bool" for e where
  compute: "length rs = 32 \<Longrightarrow> rs ! 0 = 0 \<Longrightarrow> user_step e (U_mode, m) (U_mode, m\<lparr>regs := rs, pc := p\<rparr>)"
| store: "mmu U_mode Store va (kern m) = Some pa \<Longrightarrow>
    user_step e (U_mode, m) (U_mode, m\<lparr>kern := user_store pa b (kern m), pc := p\<rparr>)"
| trap: "fault_guard cause stval (kern m) \<Longrightarrow> user_trap e cause stval m = Some c \<Longrightarrow> user_step e (U_mode, m) c"

inductive_cases user_stepE: "user_step e c c'"
inductive_simps user_step_S [simp]: "user_step e (S_mode, m) c"

definition running_id :: "machine \<Rightarrow> usize" where
  "running_id m = get_task_id_from_ptr (csrr SSCRATCH_CSR_NO (csrs (kern m))) (phys (mm (kern m)))"

text \<open>Runs, and runs in which the task \<open>i\<close> takes no step.\<close>

inductive user_run :: "platform \<Rightarrow> privilege \<times> machine \<Rightarrow> privilege \<times> machine \<Rightarrow> bool" for e where
  run_refl: "user_run e c c"
| run_step: "user_run e c c' \<Longrightarrow> user_step e c' c'' \<Longrightarrow> user_run e c c''"

inductive others_run :: "platform \<Rightarrow> usize \<Rightarrow> privilege \<times> machine \<Rightarrow> privilege \<times> machine \<Rightarrow> bool" for e i where
  others_refl: "others_run e i c c"
| others_step: "others_run e i c c' \<Longrightarrow> running_id (snd c') \<noteq> i \<Longrightarrow> user_step e c' c'' \<Longrightarrow> others_run e i c c''"

subsection \<open>Facts of the invariant\<close>

lemma machine_okD:
  assumes "machine_ok m t B"
  shows "hosted (kern m) t B" "csrs (kern m) SSCRATCH_CSR_NO = ctx_tp (tcontext t)" "tstate t = Running" "none_running B"
    "\<And>u. u \<in># B \<Longrightarrow> saved_user u (mm (kern m))" "length (regs m) = 32" "regs m ! 0 = 0"
    "mset (ALL_TASKS (kern m)) = add_mset t B"
  using assms hostedD(1) by (simp_all add: machine_ok_def user_kernel_def)

lemma machine_running: "machine_ok m t B \<Longrightarrow> running_id m = task_id t"
proof -
  assume "machine_ok m t B"
  note M = machine_okD [OF this]
  have "task_ok t (mm (kern m))" using hostedD(3) [OF M(1)] .
  then have "get_task_id_from_ptr (ctx_tp (tcontext t)) (phys (mm (kern m))) = task_id t" unfolding task_ok_def by blast
  then show ?thesis by (simp add: running_id_def csrr_def M(2))
qed

lemma machine_task_member:
  assumes m: "machine_ok m t B" and u: "u \<in> set (ALL_TASKS (kern m))"
  shows "u \<in># add_mset t B" "running_id m \<noteq> task_id u \<Longrightarrow> u \<in># B" "running_id m = task_id u \<Longrightarrow> u = t"
    "task_ok u (mm (kern m))"
proof -
  note M = machine_okD [OF m]
  have "u \<in># mset (ALL_TASKS (kern m))" using u by simp
  then show A: "u \<in># add_mset t B" unfolding M(8) .
  then show "running_id m \<noteq> task_id u \<Longrightarrow> u \<in># B" using machine_running [OF m] by auto
  have "task_id t \<notin> task_id ` set_mset B" using hostedD(2) [OF M(1)] by (simp add: ids_distinct_add)
  then show "running_id m = task_id u \<Longrightarrow> u = t" using A machine_running [OF m] by (auto simp: image_iff)
  show "task_ok u (mm (kern m))" using A M(1) by (auto simp: hosted_def tasks_ok_def)
qed

text \<open>User mode sees the same through tables that map the same, and nothing of the kernel half.\<close>

lemma user_mmu_upper:
  assumes h: "hosted k t B" and va: "\<not> unat va < 2 ^ 38"
  shows "mmu U_mode acc va k = None"
proof -
  note H = hostedD [OF h]
  have "reachable_ppn (root_ppn (root_pgt (vm_space t)))"
    using pgt_okD(5) [OF pgt_userD(1) [OF space_okD(1) [OF H(5)]]] table_pages_intros(1) by blast
  moreover obtain p where "upper_private (root_pgt (vm_space t)) (mm k)" by (rule task_okD [OF H(3)])
  ultimately show ?thesis
    using upper_private_denied [OF _ _ va] by (simp add: mmu_def csrr_def H(4) reachable_ppn_def)
qed

lemma user_mmu_lookup:
  assumes h: "hosted k t B" "hosted k' t' B'"
    and r: "root_pgt (vm_space t') = root_pgt (vm_space t)"
    and l: "lookup (root_pgt (vm_space t)) (mm k') = lookup (root_pgt (vm_space t)) (mm k)"
  shows "mmu U_mode acc va k' = mmu U_mode acc va k"
proof (cases "unat va < 2 ^ 38")
  case True
  note H = hostedD(4,5) [OF h(1)] and H' = hostedD(4,5) [OF h(2)]
  have sm: "hw_allows U_mode a acc = hw_allows U_mode False acc" for a by (simp add: hw_allows_def fun_eq_iff)
  show ?thesis unfolding mmu_def csrr_def H(1) H'(1) translate_user [OF H(2) True] translate_user [OF H'(2) True]
    unfolding sm [of "sum_bit k'"] sm [of "sum_bit k"] r l ..
qed (simp add: user_mmu_upper [OF h(1)] user_mmu_upper [OF h(2)])

subsection \<open>The trap step\<close>

text \<open>A task that just came back has the registers and the program counter of its saved context.\<close>

definition restored :: "machine \<Rightarrow> TaskControlBlock \<Rightarrow> bool" where
  "restored m t \<longleftrightarrow> pc m = ctx_word (ctx_tp (tcontext t)) 33 (phys (mm (kern m))) \<and>
     (\<forall>n. 0 < n \<longrightarrow> n < 32 \<longrightarrow> regs m ! n = ctx_word (ctx_tp (tcontext t)) (of_nat n) (phys (mm (kern m))))"

definition same_task :: "TaskControlBlock \<Rightarrow> TaskControlBlock \<Rightarrow> bool" where
  "same_task u w \<longleftrightarrow> task_id w = task_id u \<and> tcontext w = tcontext u"

definition machine_step ::
  "TaskControlBlock \<Rightarrow> TaskControlBlock multiset \<Rightarrow> machine \<Rightarrow> TaskControlBlock \<Rightarrow> TaskControlBlock multiset \<Rightarrow> machine \<Rightarrow> bool" where
  "machine_step t B m t' B' m' \<longleftrightarrow> machine_ok m' t' B' \<and> (\<forall>u \<in># B. untouched u (kern m) (kern m')) \<and>
     (\<forall>w \<in># add_mset t' B'. \<exists>w0 \<in># add_mset t B. same_task w0 w)"

lemma fault_guard_trapped:
  assumes m: "machine_ok m t B" and g: "fault_guard cause stval (kern m)"
  shows "fault_real (trapped cause stval m)"
proof -
  note T = trapped_spec [where cause = cause and stval = stval, OF m]
  have h: "hosted (trapped cause stval m) t B" using T(1) by (simp add: runs_def)
  note u = hart_trap_kernel [of "kern m" t B cause stval "pc m"]
  have "lookup (root_pgt (vm_space t)) (mm (trapped cause stval m)) = lookup (root_pgt (vm_space t)) (mm (kern m))"
    using save_u_ctx_spec(7) [OF u, of "regs m"] m by (simp add: machine_ok_def trapped_def)
  from user_mmu_lookup [OF machine_okD(1) [OF m] h refl this]
  show ?thesis using g by (simp add: fault_real_def fault_guard_def T(3,4))
qed

lemma resume_step:
  assumes m: "machine_ok m t B" and r: "runs k u A"
    and st: "\<And>w. w \<in># B \<Longrightarrow> same_view (vm_space w) (mm (kern m)) (mm k0) \<and> untouched w k0 k"
    and w: "\<And>w. w \<in># add_mset u A \<Longrightarrow> \<exists>w0 \<in># add_mset t B. same_task w0 w \<and> ctx_kept W w0 (mm k0) (mm k)"
    and su: "\<And>w. w \<in># add_mset t B \<Longrightarrow> saved_user w (mm k0)" and W: "32 \<notin> W"
  obtains m' where "resume k = (U_mode, m')" "machine_step t B m u A m'" "restored m' u" "mm (kern m') = mm k"
    "ALL_TASKS (kern m') = ALL_TASKS k"
proof -
  have s: "saved_user w (mm k)" if w1: "w \<in># add_mset u A" for w
  proof -
    obtain w0 where "w0 \<in># add_mset t B" "same_task w0 w" "ctx_kept W w0 (mm k0) (mm k)" using w [OF w1] by blast
    then show ?thesis using su W by (auto simp: same_task_def intro: saved_user_kept)
  qed
  obtain m' where m': "resume k = (U_mode, m')" "machine_ok m' u A" "mm (kern m') = mm k"
    "ALL_TASKS (kern m') = ALL_TASKS k" "pc m' = ctx_word (ctx_tp (tcontext u)) 33 (phys (mm k))"
    "\<And>n. 0 < n \<Longrightarrow> n < 32 \<Longrightarrow> regs m' ! n = ctx_word (ctx_tp (tcontext u)) (of_nat n) (phys (mm k))"
    by (rule resume_spec [OF r]) (use s in auto)
  have "untouched w (kern m) (kern m')" if "w \<in># B" for w
    using st [OF that] m'(3,4) same_view_trans unfolding untouched_def by metis
  then have "machine_step t B m u A m'" using m'(2) w unfolding machine_step_def by blast
  then show ?thesis using m' by (intro that) (simp_all add: restored_def)
qed

lemma resumed_step:
  assumes m: "machine_ok m t B" and r: "runs k t' B" and s: "step_on W t B (trapped cause stval m) t' k" and W: "32 \<notin> W"
  obtains m' where "resume k = (U_mode, m')" "machine_step t B m t' B m'" "restored m' t'" "mm (kern m') = mm k"
    "ALL_TASKS (kern m') = ALL_TASKS k"
proof -
  let ?k = "trapped cause stval m"
  note T = trapped_spec [where cause = cause and stval = stval, OF m]
  have un: "same_view (vm_space w) (mm (kern m)) (mm ?k) \<and> untouched w ?k k" if "w \<in># B" for w
    using T(2) step_for_untouched [OF s that] that by (simp add: step_on_def)
  have su: "saved_user w (mm ?k)" if "w \<in># add_mset t B" for w using T(5,6) that by auto
  have w: "\<exists>w0 \<in># add_mset t B. same_task w0 w \<and> ctx_kept W w0 (mm ?k) (mm k)" if wm: "w \<in># add_mset t' B" for w
  proof (cases "w \<in># B")
    case True
    have "task_ok w (mm k)" using s True by (simp add: step_on_def hosted_def tasks_ok_def)
    from same_view_ctx [OF this] show ?thesis using s True by (auto simp: step_on_def same_task_def ctx_kept_def)
  next
    case False
    then show ?thesis using wm s by (auto simp: step_on_def same_task_def)
  qed
  show ?thesis by (rule resume_step [OF m r un w su W]) (assumption | rule that, assumption+)+
qed

lemma user_trap_spec:
  assumes m: "machine_ok m t B" and e: "platform_ok e" and g: "fault_guard cause stval (kern m)"
    and tr: "user_trap e cause stval m = Some c"
  obtains m' t' B' where "c = (U_mode, m')" "machine_step t B m t' B' m'" "restored m' t'"
proof -
  let ?k = "trapped cause stval m"
  note T = trapped_spec [where cause = cause and stval = stval, OF m]
  have v: "same_view (vm_space w) (mm (kern m)) (mm ?k)" if "w \<in># B" for w using T(2) that by (simp add: step_on_def)
  have su: "saved_user w (mm ?k)" if "w \<in># add_mset t B" for w using T(5,6) that by auto
  let ?W = "{10, 33} :: usize set"
  have W: "32 \<notin> ?W" by simp
  have kept: "ctx_kept ?W w0 s s'" if "ctx_kept W' w0 s s'" "W' \<subseteq> ?W" for W' w0 s s'
    using that unfolding ctx_kept_def by blast
  show ?thesis
  proof (rule u_trap_handler_spec [OF T(1) e fault_guard_trapped [OF m g]])
    assume "u_trap_handler e (tp ?k) ?k = None"
    then show ?thesis using tr by (simp add: user_trap_code)
  next
    fix r k' assume r: "u_trap_handler e (tp ?k) ?k = Some (r, k')" and h: "handled t B ?k r k'"
    show ?thesis
    proof (cases r)
      case (Resumed x)
      obtain t' W' where t': "runs k' t' B" "step_on W' t B ?k t' k'" "W' \<subseteq> ?W"
        using h unfolding Resumed handled_def trap_end.case by (auto split: if_splits)
      have "32 \<notin> W'" using t'(3) W by blast
      then obtain m' where "resume k' = (U_mode, m')" "machine_step t B m t' B m'" "restored m' t'"
        by (rule resumed_step [OF m t'(1,2)])
      then show ?thesis using tr r Resumed by (intro that) (simp_all add: user_trap_code)
    next
      case (Left out)
      obtain W' where W': "left_for W' t B ?k out k'" "W' \<subseteq> ?W"
        using h unfolding Left handled_def trap_end.case by (auto split: if_splits)
      show ?thesis
      proof (cases out)
        case Shutdown
        then show ?thesis using tr r Left by (simp add: user_trap_code)
      next
        case (Switched x)
        obtain u A where u: "runs k' u A" "\<forall>w \<in># add_mset u A. \<exists>w0 \<in># add_mset t B. task_id w = task_id w0 \<and>
          tcontext w = tcontext w0 \<and> ctx_kept W' w0 (mm ?k) (mm k')" "\<forall>u \<in># B. untouched u ?k k'"
          using W'(1) unfolding Switched left_for_def outcome.case by blast
        have w: "\<exists>w0 \<in># add_mset t B. same_task w0 w \<and> ctx_kept ?W w0 (mm ?k) (mm k')" if "w \<in># add_mset u A" for w
          using u(2) that kept [OF _ W'(2)] unfolding same_task_def by blast
        obtain m' where "resume k' = (U_mode, m')" "machine_step t B m u A m'" "restored m' u"
          by (rule resume_step [OF m u(1) _ w su W]) (use v u(3) in auto)
        then show ?thesis using tr r Left Switched by (intro that) (simp_all add: user_trap_code)
      qed
    qed
  qed
qed

subsection \<open>Every step\<close>

lemma user_store_spec:
  assumes m: "machine_ok m t B" and tr: "mmu U_mode Store va (kern m) = Some pa"
  shows "machine_step t B m t B (m\<lparr>kern := user_store pa b (kern m), pc := p\<rparr>)"
proof -
  note M = machine_okD [OF m]
  let ?k = "kern m" and ?k' = "user_store pa b (kern m)"
  note H = hostedD [OF M(1)]
  have va: "unat va < 2 ^ 38" using user_mmu_upper [OF M(1), of va Store] tr by fastforce
  have "block_step {} t (mm ?k) t (mm ?k')"
    using user_store_step [OF H(3) va, of U_mode "sum_bit ?k" Store pa b] tr
    by (simp add: user_store_def mmu_def csrr_def H(4))
  then have st: "step_for t B ?k t ?k'" by (intro hosted_step [OF M(1)]) (simp_all add: user_store_def M(8))
  then have h: "hosted ?k' t B" by (simp add: step_on_def)
  have su: "saved_user w (mm ?k')" if w: "w \<in># B" for w
  proof -
    have "task_ok w (mm ?k')" using h w by (simp add: hosted_def tasks_ok_def)
    from same_view_ctx [OF this] have "ctx_kept {} w (mm ?k) (mm ?k')" using st w by (simp add: step_on_def)
    then show ?thesis using M(5) [OF w] by (auto intro: saved_user_kept)
  qed
  have "machine_ok (m\<lparr>kern := ?k', pc := p\<rparr>) t B"
    using h su M by (simp add: machine_ok_def user_kernel_def) (simp add: user_store_def)
  then show ?thesis using step_for_untouched [OF st] by (auto simp: machine_step_def same_task_def)
qed

lemma user_step_spec:
  assumes st: "user_step e (U_mode, m) c" and m: "machine_ok m t B" and e: "platform_ok e"
  obtains m' t' B' where "c = (U_mode, m')" "machine_step t B m t' B' m'"
    "running_id m' \<noteq> running_id m \<Longrightarrow> restored m' t'"
  using st
proof (cases rule: user_step.cases)
  case (compute rs p)
  let ?m = "m\<lparr>regs := rs, pc := p\<rparr>"
  have "machine_ok ?m t B" using m compute by (simp add: machine_ok_def)
  moreover have "untouched u (kern m) (kern ?m)" if "u \<in># B" for u
    using step_for_untouched [OF step_for_refl [OF machine_okD(1) [OF m]] that] by simp
  ultimately have "machine_step t B m t B ?m" by (auto simp: machine_step_def same_task_def)
  moreover have "running_id ?m = running_id m" by (simp add: running_id_def)
  ultimately show ?thesis using compute by (intro that [of ?m t B]) simp_all
next
  case (store va pa p b)
  note S = user_store_spec [OF m store(2)]
  let ?m = "m\<lparr>kern := user_store pa b (kern m), pc := p\<rparr>"
  have "machine_ok ?m t B" using S by (simp add: machine_step_def)
  then have "running_id ?m = running_id m" using m by (simp add: machine_running)
  then show ?thesis using S store by (intro that [of ?m t B]) simp_all
next
  case (trap cause stval)
  show ?thesis by (rule user_trap_spec [OF m e trap]) (auto intro: that)
qed

subsection \<open>Runs\<close>

lemma user_run_ok:
  assumes "user_run e c c'" "c = (U_mode, m)" "machine_ok m t B" "platform_ok e"
  shows "\<exists>m' t' B'. c' = (U_mode, m') \<and> machine_ok m' t' B'"
  using assms
proof (induction arbitrary: m t B rule: user_run.induct)
  case (run_step c c' c'')
  then obtain m1 t1 B1 where 1: "c' = (U_mode, m1)" "machine_ok m1 t1 B1" by blast
  show ?case
    by (rule user_step_spec [OF run_step.hyps(2) [unfolded 1(1)] 1(2) run_step.prems(3)]) (auto simp: machine_step_def)
qed blast

lemma untouched_trans:
  assumes "untouched u k k'" "u' \<in> set (ALL_TASKS k')" "same_block u u'" "untouched u' k' k''"
  shows "untouched u k k''"
proof -
  obtain w where w: "w \<in> set (ALL_TASKS k'')" "same_block u' w" "same_view (vm_space u') (mm k') (mm k'')"
    using assms(4) by (auto simp: untouched_def)
  have v: "vm_space u' = vm_space u" using assms(3) by (simp add: same_block_def)
  have "same_view (vm_space u) (mm k) (mm k'')"
    using assms(1) w(3) [unfolded v] same_view_trans by (auto simp: untouched_def)
  then show ?thesis using w(1) same_block_trans [OF assms(3) w(2)] by (auto simp: untouched_def)
qed

lemma others_run_spec:
  assumes run: "others_run e i c c'" "c = (U_mode, m)" "machine_ok m t B" "platform_ok e"
    and u: "u \<in> set (ALL_TASKS (kern m))" "task_id u = i"
  shows "\<exists>m' t' B'. c' = (U_mode, m') \<and> machine_ok m' t' B' \<and> untouched u (kern m) (kern m') \<and>
    (restored m t \<longrightarrow> running_id m' = i \<longrightarrow> restored m' t')"
  using run
proof (induction rule: others_run.induct)
  case (others_refl c)
  have "untouched u (kern m) (kern m)" using u by (auto simp: untouched_def same_view_refl intro: bexI [of _ u])
  then show ?case using others_refl by blast
next
  case (others_step c c' c'')
  then obtain m1 t1 B1 where 1: "c' = (U_mode, m1)" "machine_ok m1 t1 B1" "untouched u (kern m) (kern m1)" by blast
  obtain u' where u': "u' \<in> set (ALL_TASKS (kern m1))" "same_block u u'" using 1(3) by (auto simp: untouched_def)
  have ne: "running_id m1 \<noteq> i" using others_step.hyps(2) 1(1) by simp
  then have "u' \<in># B1" using machine_task_member(2) [OF 1(2) u'(1)] u'(2) u(2) by (simp add: same_block_def)
  moreover obtain m2 t2 B2 where 2: "c'' = (U_mode, m2)" "machine_step t1 B1 m1 t2 B2 m2"
    "running_id m2 \<noteq> running_id m1 \<Longrightarrow> restored m2 t2"
    by (rule user_step_spec [OF others_step.hyps(3) [unfolded 1(1)] 1(2) others_step.prems(3)]) blast
  ultimately have "untouched u' (kern m1) (kern m2)" by (simp add: machine_step_def)
  from untouched_trans [OF 1(3) u' this] show ?case using 2 ne by (auto simp: machine_step_def)
qed

subsection \<open>Away and back\<close>

text \<open>What user code reads at an address.\<close>

definition user_load :: "kernel \<Rightarrow> usize \<Rightarrow> u8 option" where
  "user_load k va = map_option (phys (mm k)) (mmu U_mode Load va k)"

lemma save_u_ctx_outside:
  assumes p: "reachable_ppn p" "csrr SSCRATCH_CSR_NO (csrs k) = stack_ctx p" and a: "PPN (drop_bit 12 a) \<noteq> p"
  shows "phys (mm (save_u_ctx rs k)) a = phys (mm k) a"
proof -
  have "phys (mm (foldl (\<lambda>k n. set_ctx_word (stack_ctx p) (of_nat n) (f n) k) j l)) a = phys (mm j) a"
    if "set l \<subseteq> {0..<32}" for f j l
    using that
  proof (induction l arbitrary: j)
    case (Cons n l)
    then have "of_nat n < (35 :: usize)" by (simp add: word_less_nat_alt unat_of_nat)
    with Cons show ?case by (simp add: set_ctx_word_outside [OF p(1) _ a])
  qed simp
  then show ?thesis by (simp add: save_u_ctx_def p(2) Let_def set_ctx_word_outside [OF p(1) _ a])
qed

lemma user_load_pages:
  assumes h: "hosted k t B" "hosted k' t' B'" and v: "vm_space t' = vm_space t"
    and l: "lookup (root_pgt (vm_space t)) (mm k') = lookup (root_pgt (vm_space t)) (mm k)"
    and b: "\<And>a p. stack_page (vm_space t) p \<Longrightarrow> PPN (drop_bit 12 a) \<noteq> p \<Longrightarrow>
      PPN (drop_bit 12 a) \<in> data_pages (vm_space t) \<Longrightarrow> phys (mm k') a = phys (mm k) a"
  shows "user_load k' va = user_load k va"
proof -
  note H = hostedD [OF h(1)]
  have eq: "mmu U_mode Load va k' = mmu U_mode Load va k" by (rule user_mmu_lookup [OF h _ l]) (simp add: v)
  show ?thesis
  proof (cases "mmu U_mode Load va k")
    case (Some pa)
    have va: "unat va < 2 ^ 38" using user_mmu_upper [OF h(1), of va Load] Some by fastforce
    obtain a q where a: "a \<in># marea (vm_space t)" "map_of (pages a) (va_vpn va) = Some q" "map_type a = Anonymous"
      "PPN (drop_bit 12 pa) = get_ppn q" "get_ppn q \<in> data_pages (vm_space t)"
      by (rule user_access [OF H(5) va]) (use Some in \<open>simp add: mmu_def csrr_def H(4)\<close>)
    obtain p where p: "stack_page (vm_space t) p" by (rule task_okD [OF H(3)])
    have "phys (mm k') pa = phys (mm k) pa"
      by (rule b [OF p]) (use a anonymous_not_stack [OF H(5) a(1-3) p] in auto)
    then show ?thesis using eq Some by (simp add: user_load_def)
  qed (simp add: user_load_def eq)
qed

lemma trapped_user_load:
  assumes m: "machine_ok m t B"
  shows "lookup (root_pgt (vm_space t)) (mm (trapped cause stval m)) = lookup (root_pgt (vm_space t)) (mm (kern m))"
    "stack_page (vm_space t) p \<Longrightarrow> PPN (drop_bit 12 a) \<noteq> p \<Longrightarrow> phys (mm (trapped cause stval m)) a = phys (mm (kern m)) a"
proof -
  have u: "user_kernel (kern m) t B" using m by (simp add: machine_ok_def)
  let ?k = "(kern m)\<lparr>csrs := hart_trap cause stval (pc m) (csrs (kern m))\<rparr>"
  note K = hart_trap_kernel [OF u, of cause stval "pc m"]
  show "lookup (root_pgt (vm_space t)) (mm (trapped cause stval m)) = lookup (root_pgt (vm_space t)) (mm (kern m))"
    using save_u_ctx_spec(7) [OF K, of "regs m"] machine_okD(6) [OF m] by (simp add: trapped_def)
  assume p: "stack_page (vm_space t) p" and a: "PPN (drop_bit 12 a) \<noteq> p"
  have ok: "task_ok t (mm (kern m))" using hostedD(3) machine_okD(1) [OF m] .
  then have "ctx_tp (tcontext t) = stack_ctx p" using stack_page_ctx [OF p] by (simp add: task_ok_def)
  moreover have "reachable_ppn p"
    using data_page_reachable [OF _ stack_page_data [OF p]] ok by (auto simp: task_ok_def)
  ultimately show "phys (mm (trapped cause stval m)) a = phys (mm (kern m)) a"
    unfolding trapped_def using save_u_ctx_outside [of p ?k a "regs m"] a K by (simp add: user_kernel_def csrr_def)
qed

text \<open>The kernel stack of a task is no part of the memory of its program.\<close>

lemma stack_invisible:
  assumes ok: "space_ok v s" and p: "stack_page v p" and l: "lookup (root_pgt v) s' = lookup (root_pgt v) s"
    and b: "\<And>a. PPN (drop_bit 12 a) \<noteq> p \<Longrightarrow> phys s' a = phys s a"
  shows "same_user (user_mem v s') (user_mem v s)"
proof -
  have "backing v s' va = backing v s va" if va: "unat va < 2 ^ 38" for va
  proof (cases "lookup (root_pgt v) s (va_vpn va)")
    case (Some e)
    note w = va_vpn_user [OF va]
    obtain a q where a: "a \<in># marea v" "map_of (pages a) (va_vpn va) = Some q" "map_type a = Anonymous" "pte_ppn e = get_ppn q"
      by (rule space_leaf [OF ok w Some]) (simp add: leaf_of_fields)
    then have "pte_ppn e \<noteq> p" using anonymous_not_stack [OF ok a(1-3) p] by simp
    then show ?thesis using b leaf_byte [OF ok w Some, of va] by (simp add: backing_def l Some)
  qed (simp add: backing_def l)
  then show ?thesis by (simp add: same_user_def user_mem_def)
qed

lemma trapped_mem:
  assumes m: "machine_ok m t B"
  shows "same_user (user_mem (vm_space t) (mm (trapped cause stval m))) (user_mem (vm_space t) (mm (kern m)))"
    "PAGE_ALLOCATOR (mm (trapped cause stval m)) = PAGE_ALLOCATOR (mm (kern m))"
proof -
  note H = hostedD [OF machine_okD(1) [OF m]] and L = trapped_user_load [where cause = cause and stval = stval, OF m]
  obtain p where p: "stack_page (vm_space t) p" by (rule task_okD [OF H(3)])
  show "same_user (user_mem (vm_space t) (mm (trapped cause stval m))) (user_mem (vm_space t) (mm (kern m)))"
    by (rule stack_invisible [OF H(5) p L(1) L(2) [OF p]])
  show "PAGE_ALLOCATOR (mm (trapped cause stval m)) = PAGE_ALLOCATOR (mm (kern m))"
    by (simp add: trapped_def save_u_ctx_def Let_def)
qed

subsection \<open>Page faults that are repaired\<close>

lemma restored_same:
  assumes m: "machine_ok m t B" and m': "machine_ok m' t' B'" and r: "restored m' t'"
    and s: "step_for t B (trapped cause stval m) t' k'" and mm: "mm (kern m') = mm k'"
  shows "pc m' = pc m" "regs m' = regs m"
proof -
  note T = trapped_spec [where cause = cause and stval = stval, OF m]
  have w: "ctx_word (ctx_tp (tcontext t')) n (phys (mm k')) = ctx_word (ctx_tp (tcontext t)) n (phys (mm (trapped cause stval m)))"
    if "n < 35" for n using s that by (simp add: step_on_def ctx_kept_def)
  show "pc m' = pc m" using r w [of 33] T(8) by (simp add: restored_def mm)
  show "regs m' = regs m"
  proof (rule nth_equalityI)
    show "regs m' ! n = regs m ! n" if "n < length (regs m')" for n
    proof (cases "n = 0")
      case True
      then show ?thesis using machine_okD(7) [OF m'] machine_okD(7) [OF m] by simp
    next
      case False
      then have n: "0 < n" "n < 32" using that machine_okD(6) [OF m'] by simp_all
      then have "(of_nat n :: usize) < 35" by (simp add: word_less_nat_alt unat_of_nat)
      then show ?thesis using r w T(7) [OF n(2)] n by (simp add: restored_def mm)
    qed
  qed (simp add: machine_okD(6) [OF m'] machine_okD(6) [OF m])
qed

lemma user_fault_repaired:
  assumes m: "machine_ok m t B"
    and c: "match_cause cause = (case acc of Load \<Rightarrow> LoadPageFault | Store \<Rightarrow> StoreOrAmoPageFault)"
    and va: "check_u_va va" and tr: "mmu U_mode acc va (kern m) = None"
    and al: "allows acc (user_mem (vm_space t) (mm (kern m)) va)" and pages: "3 < card (mfree (mm (kern m)))"
  obtains m' t' pa where "user_trap e cause va m = Some (U_mode, m')" "machine_step t B m t' B m'"
    "pc m' = pc m" "regs m' = regs m" "mmu U_mode acc va (kern m') = Some pa"
    "same_user (user_mem (vm_space t') (mm (kern m'))) (user_mem (vm_space t) (mm (kern m)))"
proof -
  let ?k = "trapped cause va m"
  note T = trapped_spec [where cause = cause and stval = va, OF m] and mem = trapped_mem [OF m, of cause va]
  have low: "unat va < 2 ^ 38" using va by (simp add: check_u_va_def kconst word_less_nat_alt)
  have "mmu U_mode acc va ?k = mmu U_mode acc va (kern m)"
    by (rule user_mmu_lookup [OF machine_okD(1) [OF m] runsD(1) [OF T(1)] refl trapped_user_load(1) [OF m]])
  then have tr': "mmu U_mode acc va ?k = None" using tr by simp
  have "user_mem (vm_space t) (mm ?k) va = user_mem (vm_space t) (mm (kern m)) va" using mem(1) low by (simp add: same_user_def)
  then have al': "allows acc (user_mem (vm_space t) (mm ?k) va)" "3 < card (mfree (mm ?k))" using al pages mem(2) by simp_all
  have code: "u_trap_handler e (tp ?k) ?k = handle_user_fault (tp ?k) (task_id t) va (request acc) ?k"
    using u_trap_fault [OF T(1), of acc e] c va by (simp add: T(3,4))
  show ?thesis
  proof (rule handle_user_fault_spec [OF T(1) low tr'], goal_cases repaired killed)
    case (repaired t' k' pa)
    obtain m' where m': "resume k' = (U_mode, m')" "machine_step t B m t' B m'" "restored m' t'" "mm (kern m') = mm k'"
      by (rule resumed_step [OF m repaired(2,3)]) simp_all
    have ok': "machine_ok m' t' B" using m'(2) by (simp add: machine_step_def)
    have run: "user_trap e cause va m = Some (U_mode, m')" using repaired(1) code m'(1) by (simp add: user_trap_code)
    have pa: "mmu U_mode acc va (kern m') = Some pa"
      using user_mmu_lookup [OF runsD(1) [OF repaired(2)] machine_okD(1) [OF ok'] refl, of acc va] repaired(4) m'(4) by simp
    show ?case
      by (rule that [OF run m'(2) restored_same [OF m ok' m'(3) repaired(3) m'(4)] pa])
        (use repaired(5) mem(1) m'(4) in \<open>auto intro: same_user_trans\<close>)
  next
    case (killed out k')
    then show ?case using al' by simp
  qed
qed

lemma parked_return:
  assumes m: "machine_ok m1 t1 B1" "restored m1 t1" and e: "platform_ok e"
    and u: "u \<in> set (ALL_TASKS (kern m1))"
    and run: "others_run e (task_id u) (U_mode, m1) (md, m2)" "running_id m2 = task_id u"
  obtains t2 B2 where "md = U_mode" "machine_ok m2 t2 B2" "same_block u t2"
    "same_view (vm_space u) (mm (kern m1)) (mm (kern m2))"
    "pc m2 = ctx_word (ctx_tp (tcontext u)) 33 (phys (mm (kern m1)))"
    "\<forall>n. 0 < n \<longrightarrow> n < 32 \<longrightarrow> regs m2 ! n = ctx_word (ctx_tp (tcontext u)) (of_nat n) (phys (mm (kern m1)))"
proof -
  obtain t2 B2 where 2: "md = U_mode" "machine_ok m2 t2 B2" "untouched u (kern m1) (kern m2)" "restored m2 t2"
    using others_run_spec [OF run(1) refl m(1) e u refl] run(2) m(2) by auto
  obtain u2 where u2: "u2 \<in> set (ALL_TASKS (kern m2))" "same_block u u2" and v: "same_view (vm_space u) (mm (kern m1)) (mm (kern m2))"
    using 2(3) by (auto simp: untouched_def)
  have "u2 = t2" using machine_task_member(3) [OF 2(2) u2(1)] run(2) u2(2) by (simp add: same_block_def)
  then have sb: "same_block u t2" using u2(2) by simp
  have "ctx_kept {} u (mm (kern m1)) (mm (kern m2))"
    by (rule same_view_ctx [OF machine_task_member(4) [OF m(1) u] v])
  then have w: "ctx_word (ctx_tp (tcontext u)) n (phys (mm (kern m2))) = ctx_word (ctx_tp (tcontext u)) n (phys (mm (kern m1)))"
    if "n < 35" for n using that by (simp add: ctx_kept_def)
  have "of_nat n < (35 :: usize)" if "n < 32" for n using that by (simp add: word_less_nat_alt unat_of_nat)
  then show ?thesis using 2 sb v w by (intro that [of t2 B2]) (simp_all add: restored_def same_block_def)
qed

subsection \<open>Giving up the hart\<close>

text \<open>
  Leaving through the scheduler as a ready task, from a state that differs from that of the trap
  only on the stack page, in the context words \<open>W\<close>.
\<close>

lemma parked_step:
  assumes m: "machine_ok m t B" and s: "step_on W t B (trapped cause stval m) t1 k" "same_block t t1" "32 \<notin> W"
    and l: "left_for {} t1 B k out k'" "out \<noteq> Shutdown" "untouched t1 k k'"
  obtains m' t' B' where "resume k' = (U_mode, m')" "machine_step t B m t' B' m'" "restored m' t'"
    "untouched t k (kern m')"
proof -
  note T = trapped_spec [where cause = cause and stval = stval, OF m]
  let ?k = "trapped cause stval m"
  note l' = left_for_trans [OF s(1) l(1), simplified]
  obtain x where x: "out = Switched x" using l(2) by (cases out) auto
  obtain u A where u: "runs k' u A" "\<forall>w \<in># add_mset u A. \<exists>w0 \<in># add_mset t B. task_id w = task_id w0 \<and>
      tcontext w = tcontext w0 \<and> ctx_kept W w0 (mm ?k) (mm k')" "\<forall>u \<in># B. untouched u ?k k'"
    using l' unfolding x left_for_def outcome.case by blast
  have w: "\<exists>w0 \<in># add_mset t B. same_task w0 w \<and> ctx_kept W w0 (mm ?k) (mm k')" if "w \<in># add_mset u A" for w
    using u(2) that unfolding same_task_def by blast
  have su: "saved_user w (mm ?k)" if "w \<in># add_mset t B" for w using T(5,6) that by auto
  have v: "same_view (vm_space w) (mm (kern m)) (mm ?k) \<and> untouched w ?k k'" if "w \<in># B" for w
    using T(2) u(3) that by (simp add: step_on_def)
  obtain m' where m': "resume k' = (U_mode, m')" "machine_step t B m u A m'" "restored m' u" "mm (kern m') = mm k'"
    "ALL_TASKS (kern m') = ALL_TASKS k'"
    by (rule resume_step [OF m u(1) v w su s(3)])
  have "untouched t k (kern m')" using untouched_block [OF s(2) refl l(3)] m'(4,5) by (simp add: untouched_def)
  with m' show ?thesis by (intro that)
qed

lemma away_and_back:
  assumes m: "machine_ok m t B" and e: "platform_ok e" and s: "step_on W t B (trapped cause stval m) t1 k"
    and lk: "lookup (root_pgt (vm_space t)) (mm k) = lookup (root_pgt (vm_space t)) (mm (trapped cause stval m))"
    and b: "\<forall>p a. stack_page (vm_space t) p \<longrightarrow> PPN (drop_bit 12 a) \<noteq> p \<longrightarrow>
      phys (mm k) a = phys (mm (trapped cause stval m)) a"
    and m1: "machine_step t B m u A m1" "restored m1 u" "untouched t k (kern m1)"
    and run: "others_run e (task_id t) (U_mode, m1) (md, m2)" "running_id m2 = task_id t"
  shows "md = U_mode" "0 < n \<Longrightarrow> n < 32 \<Longrightarrow> of_nat n \<notin> W \<Longrightarrow> regs m2 ! n = regs m ! n"
    "pc m2 = ctx_word (ctx_tp (tcontext t)) 33 (phys (mm k))" "user_load (kern m2) va = user_load (kern m) va"
    "length (regs m2) = 32" "regs m2 ! 0 = 0"
proof -
  let ?k = "trapped cause stval m" and ?c = "ctx_tp (tcontext t)"
  note T = trapped_spec [where cause = cause and stval = stval, OF m] and L = trapped_user_load [where cause = cause and stval = stval, OF m]
  obtain w where w: "w \<in> set (ALL_TASKS (kern m1))" "same_block t w" and v1: "same_view (vm_space t) (mm k) (mm (kern m1))"
    using m1(3) by (auto simp: untouched_def)
  have id: "task_id w = task_id t" "tcontext w = tcontext t" "vm_space w = vm_space t" using w(2) by (simp_all add: same_block_def)
  have ok1: "machine_ok m1 u A" using m1(1) by (simp add: machine_step_def)
  obtain t2 B2 where 2: "md = U_mode" "machine_ok m2 t2 B2" "same_block w t2"
    "same_view (vm_space t) (mm (kern m1)) (mm (kern m2))" "pc m2 = ctx_word ?c 33 (phys (mm (kern m1)))"
    "\<forall>n. 0 < n \<longrightarrow> n < 32 \<longrightarrow> regs m2 ! n = ctx_word ?c (of_nat n) (phys (mm (kern m1)))"
    by (rule parked_return [OF ok1 m1(2) e w(1), unfolded id, OF run])
  show "md = U_mode" by (rule 2(1))
  show "length (regs m2) = 32" "regs m2 ! 0 = 0" using machine_okD(6,7) [OF 2(2)] .
  have "task_ok t (mm (kern m))" using hostedD(3) machine_okD(1) [OF m] .
  from same_view_ctx [OF this v1] have c1: "ctx_word ?c j (phys (mm (kern m1))) = ctx_word ?c j (phys (mm k))" if "j < 35" for j
    using that by (auto simp: ctx_kept_def)
  then show "pc m2 = ctx_word ?c 33 (phys (mm k))" using 2(5) by simp
  show "regs m2 ! n = regs m ! n" if n: "0 < n" "n < 32" "of_nat n \<notin> W"
  proof -
    have "of_nat n < (35 :: usize)" using n(2) by (simp add: word_less_nat_alt unat_of_nat)
    then show ?thesis using 2(6) n(1,2) c1 s n(3) T(7) [OF n(2)] by (simp add: step_on_def ctx_kept_def)
  qed
  have v: "same_view (vm_space t) (mm k) (mm (kern m2))" using same_view_trans [OF v1] 2(4) id by simp
  show "user_load (kern m2) va = user_load (kern m) va"
  proof (rule user_load_pages [OF machine_okD(1) [OF m] machine_okD(1) [OF 2(2)]])
    show "vm_space t2 = vm_space t" using 2(3) id by (simp add: same_block_def)
    show "lookup (root_pgt (vm_space t)) (mm (kern m2)) = lookup (root_pgt (vm_space t)) (mm (kern m))"
      using v lk L(1) by (simp add: same_view_def)
    fix a p assume "stack_page (vm_space t) p" "PPN (drop_bit 12 a) \<noteq> p" "PPN (drop_bit 12 a) \<in> data_pages (vm_space t)"
    then show "phys (mm (kern m2)) a = phys (mm (kern m)) a" using v b L(2) by (simp add: same_view_def own_def)
  qed
qed

lemma timer_trap:
  assumes m: "machine_ok m t B" and c: "match_cause cause = SupervisorTimerInterrupt"
  obtains m' t' B' where "user_trap e cause stval m = Some (U_mode, m')" "machine_step t B m t' B' m'" "restored m' t'"
    "untouched t (trapped cause stval m) (kern m')"
proof -
  let ?k = "trapped cause stval m"
  note T = trapped_spec [where cause = cause and stval = stval, OF m]
  obtain out k' where k': "sleep_task ?k \<bind> leave = Some (Left out, k')" "left_for {} t B ?k out k'" "out \<noteq> Shutdown"
    "untouched t ?k k'" by (rule sleep_leave [OF T(1)])
  have s: "step_for t B ?k t ?k" by (rule step_for_refl [OF runsD(1) [OF T(1)]])
  obtain m' t' B' where m': "resume k' = (U_mode, m')" "machine_step t B m t' B' m'" "restored m' t'"
    "untouched t ?k (kern m')" by (rule parked_step [OF m s _ _ k'(2-4)]) simp_all
  have "user_trap e cause stval m = Some (U_mode, m')"
    using k'(1,3) m'(1) current_task(1) [OF T(1)] c
    by (cases out) (simp_all add: user_trap_code u_trap_handler_def T(3))
  with m' show ?thesis by (intro that)
qed

lemma yield_trap:
  assumes m: "machine_ok m t B" and c: "match_cause cause = UserEnvironmentCall" and i: "regs m ! 17 = SYSCALL_YIELD"
  obtains m' t' B' k t1 where "user_trap e cause stval m = Some (U_mode, m')" "machine_step t B m t' B' m'" "restored m' t'"
    "untouched t k (kern m')" "step_on {33} t B (trapped cause stval m) t1 k"
    "ctx_word (ctx_tp (tcontext t)) 33 (phys (mm k)) = pc m + 4"
    "lookup (root_pgt (vm_space t)) (mm k) = lookup (root_pgt (vm_space t)) (mm (trapped cause stval m))"
    "\<And>p a. stack_page (vm_space t) p \<Longrightarrow> PPN (drop_bit 12 a) \<noteq> p \<Longrightarrow>
      phys (mm k) a = phys (mm (trapped cause stval m)) a"
proof -
  let ?k = "trapped cause stval m"
  note T = trapped_spec [where cause = cause and stval = stval, OF m]
  have cause: "trap_cause ?k = UserEnvironmentCall" using c T(3) by simp
  have tpk: "tp ?k = ctx_tp (tcontext t)" using T(1) by (simp add: runs_def)
  have call: "ctx_word (tp ?k) 17 (phys (mm ?k)) = SYSCALL_YIELD" using T(7) [of 17] i tpk by simp
  show ?thesis
  proof (rule call_entry [OF T(1) cause, of e], goal_cases)
    case (1 t1 k)
    obtain out k' where k': "sys_yield k = Some (Leaves out, k')" "left_for {} t1 B k out k'" "out \<noteq> Shutdown" "untouched t1 k k'"
      by (rule sys_yield_spec [OF 1(2)])
    obtain m' t' B' where m': "resume k' = (U_mode, m')" "machine_step t B m t' B' m'" "restored m' t'" "untouched t k (kern m')"
      by (rule parked_step [OF m 1(3,1) _ k'(2-4)]) simp
    have "user_trap e cause stval m = Some (U_mode, m')"
      using k'(1,3) m'(1) call 1(8) by (cases out) (simp_all add: user_trap_code syscall_handler_def call_numbers)
    moreover have "ctx_word (ctx_tp (tcontext t)) 33 (phys (mm k)) = pc m + 4" using 1(5) tpk T(8) by simp
    ultimately show ?case using m'(2-4) 1(3,6,7) by (intro that)
  qed
qed

end
