(* ===== verification/Sample_Machine.thy ===== *)
theory Sample_Machine
  imports System_Run Samples
begin

text \<open>
  A concrete machine that meets the invariant of the whole system: two tasks, each with a user
  area, a kernel stack page whose last word holds the task id, and a context that leads back to
  that page.  Task 1 is on the hart, task 2 is ready.
\<close>

subsection \<open>Memory\<close>

definition sample_stack :: PPN where "sample_stack = PPN 0x80010"
definition sample_stack2 :: PPN where "sample_stack2 = PPN 0x80011"

definition host_state :: mm_state where
  "host_state = sample_state\<lparr>phys :=
     store_u64 (store_u64 sample_mem (get_pa sample_stack + 8 * 511) 1) (get_pa sample_stack2 + 8 * 511) 2\<rparr>"

definition stack_area :: "PPN \<Rightarrow> VMArea" where
  "stack_area p = \<lparr>start_vpn = VPN 0x4080010, end_vpn = VPN 0x4080012, map_type = KernelVaOffset,
     permissions = PERMISSION_R OR PERMISSION_W, pages = [(VPN 0x4080010, \<lparr>page_ppn = p\<rparr>)]\<rparr>"

definition host_space :: "PPN \<Rightarrow> PPN \<Rightarrow> VMSpace" where
  "host_space r p = \<lparr>root_pgt = sample_pgt r, areas = [sample_area, stack_area p], entry_addr = 0x10000,
     u_stack_end = 0x20000, k_stack_end = get_pa p + KERNEL_VA_OFFSET + PAGE_SIZE_BYTES\<rparr>"

lemma stack_reachable: "reachable_ppn sample_stack" "reachable_ppn sample_stack2"
  by (simp_all add: reachable_ppn_def sample_stack_def sample_stack2_def)

lemma host_tab:
  "mtab host_state = upd (upd (mtab sample_state) sample_stack 511 (PTE 1)) sample_stack2 511 (PTE 2)"
  using tab_store [OF stack_reachable(1), of 511] tab_store [OF stack_reachable(2), of 511]
  by (simp add: host_state_def sample_state_def)

lemma stack_distinct:
  "sample_stack \<noteq> sample_stack2" "r \<in> sample_roots \<Longrightarrow> sample_stack \<noteq> r" "r \<in> sample_roots \<Longrightarrow> sample_stack2 \<noteq> r"
  "sample_stack \<noteq> sample_mid" "sample_stack \<noteq> sample_low" "sample_stack2 \<noteq> sample_mid" "sample_stack2 \<noteq> sample_low"
  by (auto simp: sample_stack_def sample_stack2_def sample_defs sample_roots_def)

lemma host_phys:
  assumes "PPN (drop_bit 12 a) \<noteq> sample_stack" "PPN (drop_bit 12 a) \<noteq> sample_stack2"
  shows "phys host_state a = phys sample_state a"
proof -
  have "drop_bit 12 a \<noteq> get_raw sample_stack" "drop_bit 12 a \<noteq> get_raw sample_stack2" using assms by auto
  then show ?thesis using store_outside [OF stack_reachable(1), of 511 a] store_outside [OF stack_reachable(2), of 511 a]
    by (simp add: host_state_def sample_state_def)
qed

lemma host_pgt:
  assumes r: "r \<in> sample_roots"
  shows "pgt_user (sample_pgt r) host_state" "lookup (sample_pgt r) host_state = lookup (sample_pgt r) sample_state"
    "table_pages (mtab host_state) r = {r, sample_mid, sample_low}"
proof -
  have u: "pgt_user (sample_pgt r) sample_state" by (rule sample_pgt_user [OF r])
  have A: "PAGE_ALLOCATOR host_state = PAGE_ALLOCATOR sample_state" by (simp add: host_state_def)
  have "mm_inv sample_state" using sample_pgt_ok [OF r] by (simp add: pgt_ok_def)
  then have inv: "mm_inv host_state" by (simp add: mm_inv_def A)
  have root: "root_ppn (sample_pgt r) = r" by (simp add: sample_pgt_def)
  have held: "table_pages (mtab sample_state) (root_ppn (sample_pgt r)) \<subseteq> mheld host_state"
    using sample_pgt_ok [OF r] unfolding pgt_ok_def A by blast
  have mem: "phys host_state a = phys sample_state a"
    if "PPN (drop_bit 12 a) \<in> table_pages (mtab sample_state) (root_ppn (sample_pgt r))" for a
    using that stack_distinct(2,3) [OF r] stack_distinct unfolding root sample_pages [OF r] by (intro host_phys) fastforce+
  note C = pgt_user_cong [OF u inv held mem]
  show "pgt_user (sample_pgt r) host_state" by (rule C(1))
  show "lookup (sample_pgt r) host_state = lookup (sample_pgt r) sample_state" by (rule C(2))
  show "table_pages (mtab host_state) r = {r, sample_mid, sample_low}" using C(3) by (simp add: root sample_pages [OF r])
qed

lemma sample_walk:
  assumes r: "r \<in> sample_roots" and m: "\<And>p. p \<in> {r, sample_mid, sample_low} \<Longrightarrow> tab m p = mtab sample_state p"
  shows "sv39_walk m r va = None"
proof -
  have t: "hw_entry m p i = mtab sample_state p i" if "p \<in> {r, sample_mid, sample_low}" "i < 512" for p i
  proof -
    have "reachable_ppn p" using that(1) sample_reachable r by auto
    then show ?thesis using hw_entry_tab [OF _ that(2), of p m] m [OF that(1)] by simp
  qed
  have b: "take_bit 9 x < (512 :: usize)" for x
    using take_bit_nat_less_exp [of 9 "unat x"] by (simp add: word_less_nat_alt unsigned_take_bit_eq)
  note L = sample_link_fields [OF sample_reachable(2)] sample_link_fields [OF sample_reachable(3)]
  have z: "hw_bad pte_null" "\<not> PTE_hw_leaf pte_null" "pte_ppn pte_null = PPN 0"
    by (simp_all add: hw_bad_def PTE_is_valid_def PTE_hw_leaf_def pte_null_def pte_ppn_def)
  show ?thesis
    using r L z by (auto simp: sv39_walk_def Let_def t b sample_tab not_hw_leaf_bad)
qed

lemma host_upper:
  assumes r: "r \<in> sample_roots"
  shows "upper_private (sample_pgt r) host_state"
proof -
  have "sv39_walk (phys host_state) r va = None" for va
    by (rule sample_walk [OF r]) (use stack_distinct(2,3) [OF r] stack_distinct in \<open>auto simp: host_tab upd_apply fun_eq_iff\<close>)
  then show ?thesis by (simp add: upper_private_def sample_pgt_def)
qed

subsection \<open>Spaces\<close>

lemma stack_bag: "area_bag sample_area = {#}" "area_bag (stack_area p) = {#p#}" "data_bag {#sample_area, stack_area p#} = {#p#}"
  by (simp_all add: data_bag_def area_bag_def sample_area_def stack_area_def VMArea_new_def btm_values_def)

lemma host_space_ok:
  assumes r: "r \<in> sample_roots" and p: "p \<in> {sample_stack, sample_stack2}"
  shows "space_ok (host_space r p) host_state" "stack_page (host_space r p) p"
proof -
  have "area_ok sample_area" using sample_space_ok [OF r] by (simp add: space_ok_def sample_space_def)
  moreover have "area_ok (stack_area p)"
    by (simp add: area_ok_def stack_area_def btm_inv_def contain_vpn_def page_order ALL_PERMISSION_FLAGS_def
        PERMISSION_R_def PERMISSION_W_def PERMISSION_X_def PERMISSION_U_def flag_vals)
  moreover have "areas_apart {#sample_area, stack_area p#}"
    by (auto simp: areas_apart_def holders_def sample_area_def stack_area_def VMArea_new_def contain_vpn_def page_order
        word_less_nat_alt word_le_nat_alt)
  moreover have "\<not> maps_to {#sample_area, stack_area p#} vpn e" if "user_vpn vpn" for vpn e
    using that by (auto simp: maps_to_def sample_area_def stack_area_def VMArea_new_def user_vpn_def split: if_splits)
  moreover have "p \<in> mheld host_state"
    using p by (auto simp: host_state_def held_pages_def sample_state_def sample_stack_def sample_stack2_def page_order)
  moreover have "p \<notin> {r, sample_mid, sample_low}" using p stack_distinct r by auto
  moreover have "root_ppn (sample_pgt r) = r" by (simp add: sample_pgt_def)
  ultimately show "space_ok (host_space r p) host_state"
    using host_pgt [OF r] sample_lookup [OF r]
    by (simp add: space_ok_def host_space_def stack_bag single_owner_add) (simp add: single_owner_def)
  show "stack_page (host_space r p) p"
    by (auto simp: stack_page_def host_space_def stack_area_def sample_area_def VMArea_new_def)
qed

subsection \<open>Tasks and the machine\<close>

definition host_tcb :: "usize \<Rightarrow> TaskState \<Rightarrow> PPN \<Rightarrow> PPN \<Rightarrow> TaskControlBlock" where
  "host_tcb i st r p = \<lparr>task_id = i, vm_space = host_space r p, tstate = st,
     tcontext = TaskContext_new_initial 0 0 (stack_ctx p) (RootPgt_get_satp (sample_pgt r)),
     statistics = TaskStatistics_new_zeros\<rparr>"

definition host_task1 :: TaskControlBlock where "host_task1 = host_tcb 1 Running sample_root sample_stack"
definition host_task2 :: TaskControlBlock where "host_task2 = host_tcb 2 Ready sample_root2 sample_stack2"

definition host_kernel :: kernel where
  "host_kernel = \<lparr>mm = host_state, ALL_TASKS = [host_task1, host_task2], NEXT_TASK_ID = 3,
     tp = stack_ctx sample_stack,
     csrs = (\<lambda>_. 0)(SATP_CSR_NO := RootPgt_get_satp (sample_pgt sample_root), SSCRATCH_CSR_NO := stack_ctx sample_stack),
     clock = (\<lambda>n. of_nat (10 * n)), ticks = 0, mtimecmp = 0, console = []\<rparr>"

definition host_machine :: "usize list \<Rightarrow> machine" where
  "host_machine rs = \<lparr>kern = host_kernel, regs = rs, pc = 0x10000\<rparr>"

definition sample_platform :: platform where
  "sample_platform = \<lparr>syms = \<lparr>uaccess_lb = 16, uaccess_sb = 20, uaccess_fix = 32\<rparr>,
     heap_alloc = (\<lambda>n. if n < 4096 then Some 0x1000 else None), TaskInfo_size = 16,
     TaskInfo_bytes = (\<lambda>_. replicate 16 0), TaskInfo_addr = 0x2000\<rparr>"

lemma host_task_ok:
  "task_ok (host_tcb 1 st sample_root sample_stack) host_state"
  "task_ok (host_tcb 2 st sample_root2 sample_stack2) host_state"
proof -
  have "task_ok (host_tcb i st r p) host_state"
    if "r \<in> sample_roots" "p \<in> {sample_stack, sample_stack2}" "pte_bits (mtab host_state p 511) = i" for i r p
  proof (rule task_okI [where p = p])
    have "vm_space (host_tcb i st r p) = host_space r p" "root_pgt (host_space r p) = sample_pgt r"
      by (simp_all add: host_tcb_def host_space_def)
    then show "space_ok (vm_space (host_tcb i st r p)) host_state" "stack_page (vm_space (host_tcb i st r p)) p"
      "upper_private (root_pgt (vm_space (host_tcb i st r p))) host_state"
      using host_space_ok [OF that(1,2)] host_upper [OF that(1)] by simp_all
  qed (use that(3) in \<open>simp_all add: host_tcb_def TaskContext_new_initial_def host_space_def\<close>)
  then show "task_ok (host_tcb 1 st sample_root sample_stack) host_state"
    "task_ok (host_tcb 2 st sample_root2 sample_stack2) host_state"
    by (simp_all add: host_tab upd_apply stack_distinct)
qed

lemma host_apart:
  assumes "r \<in> sample_roots" "r' \<in> sample_roots" "r \<noteq> r'" "{p, p'} = {sample_stack, sample_stack2}" "p \<noteq> p'"
  shows "spaces_apart (host_space r p) (host_space r' p') host_state"
proof -
  have o: "own (host_space r p) = {r, p}" for r p
    by (auto simp: own_def host_space_def stack_bag sample_pgt_def)
  have r: "root_ppn (root_pgt (host_space r' p')) = r'" by (simp add: host_space_def sample_pgt_def)
  have "p \<in> {sample_stack, sample_stack2}" "p' \<in> {sample_stack, sample_stack2}" using assms(4) by auto
  then have "{r, p} \<inter> ({r', p'} \<union> {r', sample_mid, sample_low}) = {}"
    using assms(1-3,5) stack_distinct stack_distinct(2,3) [OF assms(1)] stack_distinct(2,3) [OF assms(2)] sample_distinct(1,2) [OF assms(1)]
    by auto
  then show ?thesis unfolding spaces_apart_def o r host_pgt(3) [OF assms(2)] .
qed

lemma host_tasks_ok: "tasks_ok {#host_task1, host_task2#} host_state"
proof -
  have ne: "sample_root \<noteq> sample_root2" by (simp add: sample_defs)
  have "spaces_apart (vm_space host_task1) (vm_space host_task2) host_state"
    "spaces_apart (vm_space host_task2) (vm_space host_task1) host_state"
    using ne stack_distinct(1) by (auto simp: host_task1_def host_task2_def host_tcb_def intro!: host_apart)
  moreover have "mm_inv host_state" using host_pgt(1) [OF sample_roots_in(1)] by (simp add: pgt_user_def pgt_ok_def)
  moreover have "task_id host_task1 = 1" "task_id host_task2 = 2"
    by (simp_all add: host_task1_def host_task2_def host_tcb_def)
  moreover have "task_ok host_task1 host_state" "task_ok host_task2 host_state"
    by (simp_all add: host_task1_def host_task2_def host_task_ok)
  ultimately show ?thesis by (simp add: tasks_ok_def ids_distinct_def single_owner_add) (simp add: single_owner_def)
qed

lemma host_hosted: "hosted host_kernel host_task1 {#host_task2#}"
  using host_tasks_ok
  by (simp add: hosted_def host_kernel_def host_task1_def host_tcb_def TaskContext_new_initial_def csr_numbers SATP_CSR_NO_def)

lemma host_runs: "runs host_kernel host_task1 {#host_task2#}"
  using host_hosted
  by (simp add: runs_def none_running_def)
    (simp add: host_kernel_def host_task1_def host_task2_def host_tcb_def TaskContext_new_initial_def)

lemma host_machine_ok:
  assumes "length rs = 32" "rs ! 0 = 0"
  shows "machine_ok (host_machine rs) host_task1 {#host_task2#}"
proof -
  have "ctx_word (stack_ctx sample_stack2) 32 (phys host_state) = pte_bits (mtab host_state sample_stack2 509)"
    using ctx_word_tab [OF stack_reachable(2), of 32] by simp
  also have "\<dots> = 0"
    using stack_distinct by (simp add: host_tab upd_apply sample_tab pte_null_def)
  finally have "saved_user host_task2 host_state"
    by (simp add: saved_user_def host_task2_def host_tcb_def TaskContext_new_initial_def)
  moreover have "user_kernel host_kernel host_task1 {#host_task2#}"
    using host_runs by (simp add: user_kernel_def runs_def) (simp add: host_kernel_def)
  moreover have "mm host_kernel = host_state" by (simp add: host_kernel_def)
  ultimately show ?thesis using assms by (simp add: machine_ok_def host_machine_def)
qed

lemma sample_platform_ok: "platform_ok sample_platform"
  by (simp add: platform_ok_def labels_ok_def sample_platform_def)

text \<open>The same machine with task 1 only.\<close>

definition solo_machine :: "usize list \<Rightarrow> machine" where
  "solo_machine rs = \<lparr>kern = host_kernel\<lparr>ALL_TASKS := [host_task1]\<rparr>, regs = rs, pc = 0x10000\<rparr>"

lemma solo_machine_ok:
  assumes "length rs = 32" "rs ! 0 = 0"
  shows "machine_ok (solo_machine rs) host_task1 {#}"
proof -
  have "tasks_ok {#host_task1#} host_state"
    using host_tasks_ok by (simp add: tasks_ok_def ids_distinct_def single_owner_def)
  moreover have "mm host_kernel = host_state" by (simp add: host_kernel_def)
  moreover have "user_kernel host_kernel host_task1 {#host_task2#}"
    using host_machine_ok [OF assms] by (simp add: machine_ok_def host_machine_def)
  ultimately have "user_kernel (host_kernel\<lparr>ALL_TASKS := [host_task1]\<rparr>) host_task1 {#}"
    by (simp add: user_kernel_def hosted_def none_running_def)
  then show ?thesis using assms by (simp add: machine_ok_def solo_machine_def)
qed

text \<open>Whatever trap it takes, it comes back to its only task.\<close>

lemma solo_running:
  assumes "machine_step host_task1 {#} m t' B' m'"
  shows "running_id m' = 1"
proof -
  have "machine_ok m' t' B'" "same_task host_task1 t'" using assms by (auto simp: machine_step_def)
  then show ?thesis
    using machine_running [of m' t' B'] by (simp add: same_task_def host_task1_def host_tcb_def)
qed

end
