(* ===== verification/System_Props.thy ===== *)
theory System_Props
  imports Sample_Machine
begin

text \<open>
  The properties of the system as a whole: what user programs can and cannot do to the kernel and
  to each other.  The hypotheses on \<open>platform_ok\<close> are about addresses the linker and the compiler
  choose.
\<close>

subsection \<open>Isolation\<close>

text \<open>
  C1. Whatever the other tasks do (compute, store to any address the tables allow, and trap with
  any cause, any number of times and in any order), a task that takes no step stays in the task
  list with its id, its address space and its context, every page it has mapped stays mapped as
  it was, and no byte of its tables, pages and kernel stack changes.
\<close>

theorem tasks_isolated:
  assumes "machine_ok m t B" "platform_ok e" "u \<in> set (ALL_TASKS (kern m))"
    "others_run e (task_id u) (U_mode, m) (md, m')"
  shows "(\<exists>u' \<in> set (ALL_TASKS (kern m')). task_id u' = task_id u \<and> vm_space u' = vm_space u \<and> tcontext u' = tcontext u) \<and>
    lookup (root_pgt (vm_space u)) (mm (kern m')) = lookup (root_pgt (vm_space u)) (mm (kern m)) \<and>
    (\<forall>a. PPN (drop_bit 12 a) \<in> own (vm_space u) \<longrightarrow> phys (mm (kern m')) a = phys (mm (kern m)) a)"
proof -
  have "untouched u (kern m) (kern m')"
    using others_run_spec [OF assms(4) refl assms(1,2,3) refl] by auto
  then show ?thesis unfolding untouched_def same_block_def same_view_def by blast
qed

definition idle_regs :: "usize list" where "idle_regs = replicate 32 0"

lemma idle_machine: "machine_ok (host_machine idle_regs) host_task1 {#host_task2#}"
  by (rule host_machine_ok) (simp_all add: idle_regs_def)

lemma host_kern: "kern (host_machine rs) = host_kernel" "ALL_TASKS host_kernel = [host_task1, host_task2]"
  by (simp_all add: host_machine_def host_kernel_def)

lemma host_ids: "task_id host_task1 = 1" "task_id host_task2 = 2" "running_id (host_machine rs) = 1"
proof -
  show "task_id host_task1 = 1" "task_id host_task2 = 2" by (simp_all add: host_task1_def host_task2_def host_tcb_def)
  then have "running_id (host_machine idle_regs) = 1" using machine_running [OF idle_machine] by simp
  then show "running_id (host_machine rs) = 1" by (simp add: running_id_def host_kern)
qed

text \<open>Task 1 of the sample machine takes a step while task 2 waits.\<close>

lemma host_others:
  "others_run sample_platform 2 (U_mode, host_machine idle_regs) (U_mode, (host_machine idle_regs)\<lparr>regs := idle_regs, pc := 0x10004\<rparr>)"
  by (rule others_run.others_step [OF others_run.others_refl]) (simp_all add: host_ids user_step.compute idle_regs_def)

theorem tasks_isolated_witness:
  "lookup (root_pgt (vm_space host_task2)) (mm (kern ((host_machine idle_regs)\<lparr>regs := idle_regs, pc := 0x10004\<rparr>))) =
   lookup (root_pgt (vm_space host_task2)) (mm host_kernel)"
proof -
  have "host_task2 \<in> set (ALL_TASKS (kern (host_machine idle_regs)))" by (simp add: host_kern)
  from tasks_isolated [OF idle_machine sample_platform_ok this] show ?thesis
    using host_others by (simp add: host_ids host_kern)
qed

subsection \<open>The invariant of a run\<close>

text \<open>
  C2. Every state of every run of user programs satisfies the invariant of the machine: the hart
  is in user mode (no trap ever returns to user code in supervisor mode), exactly one task is
  running and the hart uses its page table and its trap context, all address spaces are
  well-formed and disjoint, every saved context returns to user mode.
\<close>

theorem runs_keep_invariant:
  assumes "machine_ok m t B" "platform_ok e" "user_run e (U_mode, m) (md, m')"
  shows "md = U_mode \<and> (\<exists>t' B'. machine_ok m' t' B')"
  using user_run_ok [OF assms(3) refl assms(1,2)] by auto

theorem runs_keep_invariant_witness:
  "\<exists>t' B'. machine_ok ((host_machine idle_regs)\<lparr>regs := idle_regs, pc := 0x10004\<rparr>) t' B'"
proof -
  have "user_run sample_platform (U_mode, host_machine idle_regs)
      (U_mode, (host_machine idle_regs)\<lparr>regs := idle_regs, pc := 0x10004\<rparr>)"
    by (rule user_run.run_step [OF user_run.run_refl]) (simp add: user_step.compute idle_regs_def)
  from runs_keep_invariant [OF idle_machine sample_platform_ok this] show ?thesis by simp
qed

subsection \<open>Preemption\<close>

text \<open>
  C3. A timer interrupt is invisible to the program it interrupts: when the task runs again,
  whatever the others did in between, it is in user mode with every register and the program
  counter as they were, and every address reads as it did.
\<close>

theorem preemption_transparent:
  assumes "machine_ok m t B" "platform_ok e" "match_cause cause = SupervisorTimerInterrupt"
    "user_trap e cause stval m = Some (md1, m1)"
    "others_run e (task_id t) (md1, m1) (md, m2)" "running_id m2 = task_id t"
  shows "md = U_mode \<and> regs m2 = regs m \<and> pc m2 = pc m \<and> (\<forall>va. user_load (kern m2) va = user_load (kern m) va)"
proof -
  note T = trapped_spec [where cause = cause and stval = stval, OF assms(1)]
  obtain m' t' B' where 1: "user_trap e cause stval m = Some (U_mode, m')" "machine_step t B m t' B' m'" "restored m' t'"
    "untouched t (trapped cause stval m) (kern m')"
    by (rule timer_trap [OF assms(1,3)])
  then have eq: "md1 = U_mode" "m1 = m'" using assms(4) by simp_all
  have s: "step_on {} t B (trapped cause stval m) t (trapped cause stval m)" by (rule step_for_refl [OF runsD(1) [OF T(1)]])
  note A = away_and_back [where k = "trapped cause stval m", OF assms(1,2) s refl _ 1(2-4) assms(5) [unfolded eq] assms(6), simplified]
  note M = machine_okD(6,7) [OF assms(1)]
  have "regs m2 = regs m"
  proof (rule nth_equalityI)
    show "regs m2 ! n = regs m ! n" if "n < length (regs m2)" for n
      using that A(2) [of n] A(5,6) M by (cases "n = 0") auto
  qed (simp add: A(5) M)
  then show ?thesis using A(1,3,4) T(8) by simp
qed

definition TIMER_CAUSE :: usize where "TIMER_CAUSE = 0x8000000000000005"

lemma timer_cause: "match_cause TIMER_CAUSE = SupervisorTimerInterrupt"
  by (simp add: match_cause_def is_interrupt_def match_interrupt_cause_def TIMER_CAUSE_def INTERRUPT_BIT_def)

lemma solo_idle: "machine_ok (solo_machine idle_regs) host_task1 {#}"
  by (rule solo_machine_ok) (simp_all add: idle_regs_def)

theorem preemption_transparent_witness:
  "\<exists>m1. user_trap sample_platform TIMER_CAUSE 0 (solo_machine idle_regs) = Some (U_mode, m1) \<and>
     regs m1 = idle_regs \<and> pc m1 = 0x10000"
proof -
  obtain m1 t' B' where 1: "user_trap sample_platform TIMER_CAUSE 0 (solo_machine idle_regs) = Some (U_mode, m1)"
    "machine_step host_task1 {#} (solo_machine idle_regs) t' B' m1"
    by (rule timer_trap [OF solo_idle timer_cause])
  have "regs m1 = regs (solo_machine idle_regs) \<and> pc m1 = pc (solo_machine idle_regs)"
    using preemption_transparent [OF solo_idle sample_platform_ok timer_cause 1(1) others_run.others_refl]
      solo_running [OF 1(2)] host_ids(1) by simp
  then show ?thesis using 1(1) by (simp add: solo_machine_def)
qed

text \<open>
  C15. A task that calls \<open>yield\<close> continues behind the call when it runs again, with all its
  registers (\<open>a0\<close> included: the call has no result) and its memory as they were.
\<close>

theorem yield_resumes:
  assumes "machine_ok m t B" "platform_ok e" "match_cause cause = UserEnvironmentCall" "regs m ! 17 = SYSCALL_YIELD"
    "user_trap e cause stval m = Some (md1, m1)"
    "others_run e (task_id t) (md1, m1) (md, m2)" "running_id m2 = task_id t"
  shows "md = U_mode \<and> regs m2 = regs m \<and> pc m2 = pc m + 4 \<and> (\<forall>va. user_load (kern m2) va = user_load (kern m) va)"
proof (rule yield_trap [OF assms(1,3,4), of e stval], goal_cases)
  case (1 m' t' B' k t1)
  then have eq: "md1 = U_mode" "m1 = m'" using assms(5) by simp_all
  have b: "\<forall>p a. stack_page (vm_space t) p \<longrightarrow> PPN (drop_bit 12 a) \<noteq> p \<longrightarrow>
      phys (mm k) a = phys (mm (trapped cause stval m)) a" using 1(8) by blast
  note A = away_and_back [OF assms(1,2) 1(5,7) b 1(2-4) assms(6) [unfolded eq] assms(7)]
  note M = machine_okD(6,7) [OF assms(1)]
  have w: "of_nat n \<notin> {33 :: usize}" if "n < 32" for n
    using that by (auto simp: unat_of_nat dest: arg_cong [of _ _ unat])
  have "regs m2 = regs m"
  proof (rule nth_equalityI)
    show "regs m2 ! n = regs m ! n" if "n < length (regs m2)" for n
      using that A(2) [of n] w [of n] A(5,6) M by (cases "n = 0") auto
  qed (simp add: A(5) M)
  then show ?thesis using A(1,3,4) 1(6) by simp
qed

definition yield_regs :: "usize list" where "yield_regs = (replicate 32 0)[17 := 124]"

theorem yield_resumes_witness:
  "\<exists>m1. user_trap sample_platform 8 0 (solo_machine yield_regs) = Some (U_mode, m1) \<and>
     regs m1 = yield_regs \<and> pc m1 = 0x10004"
proof -
  have ok: "machine_ok (solo_machine yield_regs) host_task1 {#}" by (rule solo_machine_ok) (simp_all add: yield_regs_def)
  have c: "match_cause 8 = UserEnvironmentCall"
    by (simp add: match_cause_def is_interrupt_def match_exception_cause_def INTERRUPT_BIT_def)
  have i: "regs (solo_machine yield_regs) ! 17 = SYSCALL_YIELD"
    by (simp add: solo_machine_def yield_regs_def SYSCALL_YIELD_def)
  show ?thesis
  proof (rule yield_trap [OF ok c i, of sample_platform 0], goal_cases)
    case (1 m1 t' B' k t1)
    have "regs m1 = regs (solo_machine yield_regs) \<and> pc m1 = pc (solo_machine yield_regs) + 4"
      using yield_resumes [OF ok sample_platform_ok c i 1(1) others_run.others_refl]
        solo_running [OF 1(2)] host_ids(1) by simp
    then show ?case using 1(1) by (simp add: solo_machine_def)
  qed
qed

subsection \<open>What stops the kernel\<close>

text \<open>
  The traps that the kernel is built to survive: timer interrupts, page faults on user addresses,
  illegal instructions, fetches from unmapped pages, and the system calls other than \<open>write\<close>
  (which aborts on text that is not UTF-8 and on buffers larger than the kernel heap).
\<close>

definition survivable :: "usize \<Rightarrow> usize \<Rightarrow> machine \<Rightarrow> bool" where
  "survivable cause stval m \<longleftrightarrow>
     match_cause cause \<in> {SupervisorTimerInterrupt, IllegalInstruction, InstructionPageFault} \<or>
     match_cause cause \<in> {LoadPageFault, StoreOrAmoPageFault} \<and> check_u_va stval \<or>
     match_cause cause = UserEnvironmentCall \<and>
       regs m ! 17 \<in> {SYSCALL_MMAP, SYSCALL_MUNMAP, SYSCALL_EXIT, SYSCALL_YIELD, SYSCALL_TASK_INFO}"

lemma trapped_call: "machine_ok m t B \<Longrightarrow> ctx_word (tp (trapped cause stval m)) 17 (phys (mm (trapped cause stval m))) = regs m ! 17"
  using trapped_spec(1) [where cause = cause and stval = stval, of m t B]
    trapped_spec(7) [where cause = cause and stval = stval and n = 17, of m t B] by (simp add: runs_def)

lemma survivable_no_panic:
  assumes "machine_ok m t B" "survivable cause stval m"
  shows "\<not> trap_may_panic (trapped cause stval m)"
  using assms(2) trapped_spec(3,4) [where cause = cause and stval = stval, OF assms(1)] trapped_call [OF assms(1), of cause stval]
  by (auto simp: survivable_def trap_may_panic_def KNOWN_CALLS_def Let_def call_numbers)

lemma shutdown_ends:
  assumes m: "machine_ok m t B" and s: "survivable cause stval m"
    and e: "ends_task (trap_cause (trapped cause stval m)) (stval_read (csrs (trapped cause stval m)))
      (ctx_word (tp (trapped cause stval m)) 17 (phys (mm (trapped cause stval m))))
      (user_mem (vm_space t) (mm (trapped cause stval m))) (mm (trapped cause stval m))"
  shows "ends_task (match_cause cause) stval (regs m ! 17) (user_mem (vm_space t) (mm (kern m))) (mm (kern m))"
proof -
  note T = trapped_spec(3,4) [where cause = cause and stval = stval, OF m] and M = trapped_mem [OF m, of cause stval]
  have "user_mem (vm_space t) (mm (trapped cause stval m)) stval = user_mem (vm_space t) (mm (kern m)) stval"
    if "match_cause cause \<in> {LoadPageFault, StoreOrAmoPageFault}"
  proof -
    have "check_u_va stval" using s that by (auto simp: survivable_def)
    then have "unat stval < 2 ^ 38" by (simp add: check_u_va_def kconst word_less_nat_alt)
    then show ?thesis using M(1) by (simp add: same_user_def)
  qed
  then show ?thesis using e by (simp add: T trapped_call [OF m] ends_task_def M(2) split: Cause.splits)
qed

text \<open>
  C4. No such trap makes the kernel panic or loop.  It ends with some task back in user mode, the
  invariant intact; or the machine is shut down, and that only if no other task is ready and the
  trap was one that ends the running task: an illegal instruction, a fetch from an unmapped page,
  its exit, or a page fault at an address that its memory does not let it access or with fewer
  than four pages left.  In particular a single task keeps running through timer interrupts,
  yields, mappings and page faults that its memory grants.  The hardware reports page faults only
  for accesses that the page table refuses.
\<close>

theorem kernel_survives:
  assumes "machine_ok m t B" "platform_ok e" "fault_guard cause stval (kern m)" "survivable cause stval m"
  shows "(\<exists>m' t' B'. user_trap e cause stval m = Some (U_mode, m') \<and> machine_ok m' t' B') \<or>
    (\<forall>u \<in># B. tstate u \<noteq> Ready) \<and>
    ends_task (match_cause cause) stval (regs m ! 17) (user_mem (vm_space t) (mm (kern m))) (mm (kern m)) \<and>
    (\<exists>k'. u_trap_handler e (tp (trapped cause stval m)) (trapped cause stval m) = Some (Left Shutdown, k'))"
proof -
  let ?k = "trapped cause stval m"
  have T: "runs ?k t B" by (rule trapped_spec(1) [OF assms(1)])
  show ?thesis
  proof (rule u_trap_handler_spec [OF T assms(2) fault_guard_trapped [OF assms(1,3)]])
    assume "trap_may_panic ?k"
    then show ?thesis using survivable_no_panic [OF assms(1,4)] by blast
  next
    fix r k' assume r: "u_trap_handler e (tp ?k) ?k = Some (r, k')" "handled t B ?k r k'"
    show ?thesis
    proof (cases "r = Left Shutdown")
      case True
      then show ?thesis using r shutdown_ends [OF assms(1,4)] by (auto simp: handled_def left_for_def)
    next
      case False
      then have c: "user_trap e cause stval m = Some (resume k')" using r(1)
        by (cases r) (auto simp: user_trap_code split: outcome.split)
      have "\<exists>m' t' B'. user_trap e cause stval m = Some (U_mode, m') \<and> machine_ok m' t' B'"
        by (rule user_trap_spec [OF assms(1,2,3) c]) (use c in \<open>auto simp: machine_step_def\<close>)
      then show ?thesis ..
    qed
  qed
qed

theorem kernel_survives_witness:
  "(\<exists>m' t' B'. user_trap sample_platform 2 0 (host_machine idle_regs) = Some (U_mode, m') \<and> machine_ok m' t' B') \<and>
   (\<exists>m' t' B'. user_trap sample_platform 0x8000000000000005 0 (solo_machine idle_regs) = Some (U_mode, m') \<and> machine_ok m' t' B')"
proof -
  have c: "match_cause 2 = IllegalInstruction" "match_cause 0x8000000000000005 = SupervisorTimerInterrupt"
    by (simp_all add: match_cause_def is_interrupt_def match_exception_cause_def match_interrupt_cause_def INTERRUPT_BIT_def)
  then have g: "fault_guard 2 0 k" "fault_guard 0x8000000000000005 0 k" "survivable 2 0 m" "survivable 0x8000000000000005 0 m" for k m
    by (simp_all add: fault_guard_def survivable_def)
  have ready: "tstate host_task2 = Ready" by (simp add: host_task2_def host_tcb_def)
  have "machine_ok (solo_machine idle_regs) host_task1 {#}" by (rule solo_machine_ok) (simp_all add: idle_regs_def)
  then show ?thesis
    using kernel_survives [OF idle_machine sample_platform_ok g(1,3)] kernel_survives [OF _ sample_platform_ok g(2,4)] ready
    by (auto simp: ends_task_def c)
qed

text \<open>
  C14. The other traps stop the whole system: a user program that makes an unknown system call,
  touches an address of the kernel half, or raises any other exception (a breakpoint, a
  misaligned or faulting access) makes the kernel panic.
\<close>

theorem kernel_panics:
  assumes "machine_ok m t B"
    "match_cause cause = UserEnvironmentCall \<and> regs m ! 17 \<notin> KNOWN_CALLS \<or>
     match_cause cause \<in> {LoadPageFault, StoreOrAmoPageFault} \<and> \<not> check_u_va stval \<or>
     match_cause cause \<in> {Breakpoint, InstructionAddressMisaligned, InstructionAccessFault, LoadAddressMisaligned,
       LoadAccessFault, StoreOrAmoAddressMisaligned, StoreOrAmoAccessFault, SupervisorSoftwareInterrupt,
       SupervisorExternalInterrupt, CounterOverflowInterrupt, SoftwareCheck, HardwareError, Unknown}"
  shows "user_trap e cause stval m = None"
proof -
  let ?k = "trapped cause stval m"
  have T: "runs ?k t B" "scause_read (csrs ?k) = cause" "stval_read (csrs ?k) = stval"
    by (rule trapped_spec [OF assms(1)])+
  have "u_trap_handler e (tp ?k) ?k = None"
  proof (cases "match_cause cause = UserEnvironmentCall")
    case True
    then have c: "trap_cause ?k = UserEnvironmentCall" using T(2) by simp
    have "ctx_word (tp ?k) 17 (phys (mm ?k)) \<notin> KNOWN_CALLS" using assms(2) True trapped_call [OF assms(1)] by auto
    then have none: "syscall_handler e (ctx_word (tp ?k) 17 (phys (mm ?k))) a b d j = None" for a b d j
      by (simp add: syscall_handler_def KNOWN_CALLS_def)
    show ?thesis
    proof (rule call_entry [OF T(1) c, of e], goal_cases)
      case (1 t1 k1)
      from 1(8) show ?case by (simp add: none)
    qed
  next
    case False
    then show ?thesis using assms(2) T(2,3) current_task(1) [OF T(1)] by (auto simp: u_trap_handler_def Let_def)
  qed
  then show ?thesis by (simp add: user_trap_code)
qed

theorem kernel_panics_witness: "user_trap sample_platform 3 0 (host_machine idle_regs) = None"
  by (rule kernel_panics [OF idle_machine])
    (simp add: match_cause_def is_interrupt_def match_exception_cause_def INTERRUPT_BIT_def)

end
