(* ===== verification/Call_Props.thy ===== *)
theory Call_Props
  imports Demand_Paging Sample_Machine
begin

text \<open>
  The properties of system calls and of the accesses to user memory they rest on.
\<close>

subsection \<open>Memory of a program\<close>

text \<open>
  C5. Demand paging is invisible: when a program touches a page that has no frame yet, the fault
  handler leaves the program's memory (permissions and contents of every user address, where a
  reserved page without a frame reads as zeros) exactly as it was, whether it succeeds or not.
\<close>

theorem page_fault_invisible:
  assumes "space_ok v s" "unat va < 2 ^ 38" "lookup (root_pgt v) s (va_vpn va) = None"
  shows "\<exists>r v' s'. map_fault_page v va pm s = Some (r, v', s') \<and> space_ok v' s' \<and>
    same_user (user_mem v' s') (user_mem v s)"
proof -
  note w = va_vpn_user [OF assms(2)]
  have code: "map_fault_page v va pm s = VMSpace_map v (va_vpn va) pm s"
    by (simp add: map_fault_page_def VPN_from_user_va [OF assms(2)])
  obtain r v' s' where m: "VMSpace_map v (va_vpn va) pm s = Some (r, v', s')" "space_ok v' s'"
    by (rule VMSpace_map_cases [OF assms(1) w assms(3), of pm]) auto
  with map_fault_mem [OF assms(1) w assms(3) m(1)] show ?thesis by (simp add: code)
qed

theorem page_fault_invisible_witness:
  "\<exists>r v' s'. map_fault_page (sample_space sample_root) 0x11008 PERMISSION_W sample_state = Some (r, v', s') \<and>
     same_user (user_mem v' s') (user_mem (sample_space sample_root) sample_state)"
proof -
  have va: "unat (0x11008 :: usize) < 2 ^ 38" by simp
  have "lookup (root_pgt (sample_space sample_root)) sample_state (va_vpn 0x11008) = None"
    using sample_lookup [OF sample_roots_in(1) va_vpn_user [OF va]] by (simp add: sample_space_def)
  from page_fault_invisible [OF sample_space_ok [OF sample_roots_in(1)] va this, of PERMISSION_W] show ?thesis by blast
qed

text \<open>
  C16. A page fault at an address that the program may access is repaired: when at least four pages
  are free, the trap comes back to the same instruction of the same task with all registers as they
  were, the access now translates to a page, the byte behind it is the one the memory of the
  program has there, and this memory is unchanged; no other task is affected.
\<close>

theorem page_fault_repaired:
  assumes "machine_ok m t B" "match_cause cause = (case acc of Load \<Rightarrow> LoadPageFault | Store \<Rightarrow> StoreOrAmoPageFault)"
    "check_u_va va" "mmu U_mode acc va (kern m) = None" "allows acc (user_mem (vm_space t) (mm (kern m)) va)"
    "4 \<le> card (mfree (mm (kern m)))"
  shows "\<exists>m' t' pa. user_trap e cause va m = Some (U_mode, m') \<and> machine_step t B m t' B m' \<and>
    pc m' = pc m \<and> regs m' = regs m \<and> mmu U_mode acc va (kern m') = Some pa \<and>
    map_option snd (user_mem (vm_space t) (mm (kern m)) va) = Some (phys (mm (kern m')) pa) \<and>
    same_user (user_mem (vm_space t') (mm (kern m'))) (user_mem (vm_space t) (mm (kern m)))"
proof -
  have "3 < card (mfree (mm (kern m)))" using assms(6) by simp
  then obtain m' t' pa where r: "user_trap e cause va m = Some (U_mode, m')" "machine_step t B m t' B m'"
    "pc m' = pc m" "regs m' = regs m" "mmu U_mode acc va (kern m') = Some pa"
    "same_user (user_mem (vm_space t') (mm (kern m'))) (user_mem (vm_space t) (mm (kern m)))"
    by (rule user_fault_repaired [OF assms(1-5)])
  have low: "unat va < 2 ^ 38" using assms(3) by (simp add: check_u_va_def kconst word_less_nat_alt)
  have "machine_ok m' t' B" using r(2) by (simp add: machine_step_def)
  note H = hostedD [OF machine_okD(1) [OF this]]
  obtain pm where "user_mem (vm_space t') (mm (kern m')) va = Some (pm, phys (mm (kern m')) pa)"
    using load_mem [OF H(5) low, of U_mode "sum_bit (kern m')" acc pa] r(5) by (auto simp: mmu_def csrr_def H(4))
  then have "map_option snd (user_mem (vm_space t) (mm (kern m)) va) = Some (phys (mm (kern m')) pa)"
    using r(6) low by (simp add: same_user_def)
  with r show ?thesis by blast
qed

text \<open>The program of the sample machine may read and write its first 16 pages, which are all zeros.\<close>

lemma host_mem:
  assumes "0x10000 \<le> unat va" "unat va < 0x20000"
  shows "user_mem (vm_space host_task1) host_state va = Some (22, 0)"
    "lookup (root_pgt (vm_space host_task1)) host_state (va_vpn va) = None"
proof -
  have w: "user_vpn (va_vpn va)" using assms(2) by (intro va_vpn_user) simp
  have r: "root_pgt (vm_space host_task1) = sample_pgt sample_root" by (simp add: host_task1_def host_tcb_def host_space_def)
  show l: "lookup (root_pgt (vm_space host_task1)) host_state (va_vpn va) = None"
    unfolding r host_pgt(2) [OF sample_roots_in(1)] by (rule sample_lookup [OF sample_roots_in(1) w])
  have "contain_vpn sample_area (va_vpn va)"
    using assms by (simp add: contain_vpn_def sample_area_def VMArea_new_def page_order va_vpn_def word_le_nat_alt
        word_less_nat_alt bits_nat) linarith
  then have "reserved (vm_space host_task1) (va_vpn va) = Some (Anonymous, 22)"
    by (simp add: reserved_def host_task1_def host_tcb_def host_space_def)
      (simp add: sample_area_def VMArea_new_def PERMISSION_R_def PERMISSION_W_def PERMISSION_U_def flag_vals)
  then show "user_mem (vm_space host_task1) host_state va = Some (22, 0)" by (simp add: user_mem_def backing_def l)
qed

lemma host_allows: "0x10000 \<le> unat va \<Longrightarrow> unat va < 0x20000 \<Longrightarrow> allows acc (user_mem (vm_space host_task1) host_state va)"
  by (simp add: host_mem allows_def bit_numeral_word_iff)

lemma host_pages: "4 \<le> card (mfree host_state)"
proof -
  have "PPN ` {0x80080, 0x80081, 0x80082, 0x80083} \<subseteq> mfree host_state"
    by (auto simp: host_state_def sample_state_def free_pages_def page_order)
  from card_mono [OF finite_ppns this] show ?thesis by (simp add: card_image inj_on_def)
qed

theorem page_fault_repaired_witness:
  "\<exists>m' pa. user_trap sample_platform 15 0x11008 (host_machine (replicate 32 0)) = Some (U_mode, m') \<and>
     pc m' = 0x10000 \<and> mmu U_mode Store 0x11008 (kern m') = Some pa \<and> phys (mm (kern m')) pa = 0"
proof -
  let ?m = "host_machine (replicate 32 0)"
  have k: "mm (kern ?m) = host_state" "pc ?m = 0x10000" by (simp_all add: host_machine_def host_kernel_def)
  have m: "machine_ok ?m host_task1 {#host_task2#}" by (rule host_machine_ok) simp_all
  note H = hostedD [OF machine_okD(1) [OF m], unfolded k]
  have c: "match_cause 15 = (case Store of Load \<Rightarrow> LoadPageFault | Store \<Rightarrow> StoreOrAmoPageFault)"
    by (simp add: match_cause_def is_interrupt_def match_exception_cause_def INTERRUPT_BIT_def)
  have va: "check_u_va 0x11008" by (simp add: check_u_va_def kconst)
  have un: "mmu U_mode Store 0x11008 (kern ?m) = None"
    using translate_user [OF H(5), of "0x11008" U_mode] host_mem(2) [of "0x11008"] by (simp add: mmu_def csrr_def H(4) k)
  show ?thesis
    using page_fault_repaired [OF m c va un, of sample_platform] host_allows [of "0x11008"] host_mem(1) [of "0x11008"]
      host_pages by (auto simp: k)
qed

text \<open>
  C7. \<open>mmap\<close> on a page-rounded user range with valid protection bits that meets no area reserves
  exactly that range, with the permissions asked for and all zeros; any other request is refused
  with -1 and changes nothing.  No other task is affected.
\<close>

theorem mmap_refines:
  assumes "runs k t B"
  shows "if mmap_accepts t addr len prot
     then \<exists>t' k'. mmap addr len prot k = Some (Returns 0, k') \<and> runs k' t' B \<and> step_for t B k t' k' \<and>
       (\<forall>va. in_pages (page_lo addr) (page_hi addr len) va \<longrightarrow> user_mem (vm_space t) (mm k) va = None) \<and>
       same_user (user_mem (vm_space t') (mm k'))
         (spec_reserve (page_lo addr) (page_hi addr len) (spec_prot prot) (user_mem (vm_space t) (mm k)))
     else mmap addr len prot k = Some (Returns (-1), k)"
proof (rule mmap_spec [OF assms, of addr len prot], goal_cases no yes)
  case no
  then show ?case by simp
next
  case (yes t' k')
  note ok = hostedD(5) [OF runsD(1) [OF assms]] and ok' = hostedD(5) [OF runsD(1) [OF yes(3)], unfolded yes(5)]
  have free: "\<forall>a \<in> set (areas (vm_space t)). end_vpn a \<le> page_lo addr \<or> page_hi addr len \<le> start_vpn a"
    using yes(2) by (simp add: mmap_accepts_def)
  note M = mmap_mem [OF ok ok' yes(8,9) free]
  show ?case using yes(1-5) M by auto
qed

theorem mmap_refines_witness:
  "\<exists>t' k'. mmap 0x40000 0x1800 3 host_kernel = Some (Returns 0, k') \<and> runs k' t' {#host_task2#}"
proof -
  have "areas (vm_space host_task1) = [sample_area, stack_area sample_stack]"
    by (simp add: host_task1_def host_tcb_def host_space_def)
  then have "mmap_accepts host_task1 0x40000 0x1800 3"
    by (simp add: mmap_accepts_def check_u_va_range_iff kconst
        page_lo_def page_hi_def va_vpn_def page_order sample_area_def stack_area_def VMArea_new_def)
  then show ?thesis using mmap_refines [OF host_runs, of "0x40000" "0x1800" 3] by auto
qed

text \<open>
  C6. \<open>munmap\<close> releases exactly the pages of its range, whatever areas they belong to: they are no
  longer part of the program's memory, all other addresses keep permissions and contents, every
  frame behind them goes back to the allocator, and no other task is affected.  A range outside
  user space is refused with -1, an empty one is ignored.
\<close>

theorem munmap_refines:
  assumes "runs k t B"
  shows "if \<not> check_u_va_range addr len then munmap addr len k = Some (Returns (-1), k)
     else if len = 0 then munmap addr len k = Some (Returns 0, k)
     else \<exists>t' k'. munmap addr len k = Some (Returns 0, k') \<and> runs k' t' B \<and> step_for t B k t' k' \<and>
       same_user (user_mem (vm_space t') (mm k'))
         (spec_release (page_lo addr) (page_hi addr len) (user_mem (vm_space t) (mm k))) \<and>
       own (vm_space t') \<union> mfree (mm k') = own (vm_space t) \<union> mfree (mm k)"
proof (rule munmap_spec [OF assms, of addr len], goal_cases no empty yes)
  case (yes t' k')
  note ok = hostedD(5) [OF runsD(1) [OF assms]] and ok' = hostedD(5) [OF runsD(1) [OF yes(4)]]
  have "same_user (user_mem (vm_space t') (mm k'))
      (spec_release (page_lo addr) (page_hi addr len) (user_mem (vm_space t) (mm k)))"
    by (rule munmap_mem [OF ok ok' yes(8,9,11)])
  then show ?case using yes(1-5,10) by auto
qed simp_all

theorem munmap_refines_witness:
  "\<exists>t' k'. munmap 0x11000 0x2000 host_kernel = Some (Returns 0, k') \<and> runs k' t' {#host_task2#}"
proof -
  have "check_u_va_range 0x11000 0x2000" by (simp add: check_u_va_range_iff kconst)
  then show ?thesis using munmap_refines [OF host_runs, of "0x11000" "0x2000"] by auto
qed

subsection \<open>Copies between kernel and user memory\<close>

text \<open>
  C8. \<open>copy_from_user\<close> on a user range returns, reports how many bytes it could not copy, and the
  bytes before that are those of the program's memory before the call, in place in the buffer;
  nothing else of the buffer and nothing of the program's memory changes.  Reserved pages that have
  no frame yet are paged in on the way: the copy stops early only at an address whose permissions
  do not let the program read it, or when the page allocator is down to its last page.  Afterwards
  supervisor access to user pages is off again and no other task has noticed.
\<close>

theorem copy_from_user_correct:
  assumes "runs k t B" "labels_ok y" "check_u_va_range src len"
  shows "\<exists>n t' k' buf'. copy_from_user y src dst len k buf = Some (len - of_nat n, k', buf') \<and> n \<le> unat len \<and>
    (\<forall>i < n. user_byte k' (src + of_nat i) = Some (buf' (dst + of_nat i))) \<and>
    (\<forall>a. (\<forall>i < n. a \<noteq> dst + of_nat i) \<longrightarrow> buf' a = buf a) \<and>
    (n < unat len \<longrightarrow> user_byte k' (src + of_nat n) = None) \<and>
    (\<forall>i < n. \<exists>pm. user_mem (vm_space t) (mm k) (src + of_nat i) = Some (pm, buf' (dst + of_nat i))) \<and>
    same_user (user_mem (vm_space t') (mm k')) (user_mem (vm_space t) (mm k)) \<and>
    (n < unat len \<longrightarrow> card (mfree (mm k')) \<le> 1 \<or> \<not> allows Load (user_mem (vm_space t) (mm k) (src + of_nat n))) \<and>
    \<not> sum_bit k' \<and> runs k' t' B \<and> step_for t B k t' k'"
proof (rule copy_from_user_spec [OF assms, of dst buf], goal_cases)
  case (1 n t' k' buf')
  have k': "runs k' t' B" "step_for t B k t' k'" "\<not> sum_bit k'" using 1(3) by (simp_all add: copy_done_def)
  have "\<exists>pm. user_mem (vm_space t) (mm k) (src + of_nat i) = Some (pm, buf' (dst + of_nat i))" if "i < n" for i
  proof -
    have r: "unat (src + of_nat i) < 2 ^ 38" using user_range [OF assms(3)] that 1(2) by simp
    from user_byte_mem [OF runsD(1) [OF k'(1)] r 1(4) [OF that]] r 1(8) show ?thesis by (simp add: same_user_def)
  qed
  then show ?case
    by (intro exI [of _ n] exI [of _ t'] exI [of _ k'] exI [of _ buf'] conjI allI impI)
      (use 1(1,2) 1(4,6,7,8,9) k' in simp_all)
qed

lemma sample_labels: "labels_ok (syms sample_platform)"
  using sample_platform_ok by (simp add: platform_ok_def)

theorem copy_from_user_correct_witness:
  "\<exists>n k' buf'. copy_from_user (syms sample_platform) 0x11000 0x100 16 host_kernel (\<lambda>_. 7) = Some (16 - of_nat n, k', buf') \<and>
     n \<le> 16 \<and> \<not> sum_bit k' \<and> (\<forall>i < n. buf' (0x100 + of_nat i) = 0) \<and> (n < 16 \<longrightarrow> card (mfree (mm k')) \<le> 1)"
proof -
  have r: "check_u_va_range 0x11000 16" by (simp add: check_u_va_range_iff kconst)
  have k: "mm host_kernel = host_state" by (simp add: host_kernel_def)
  from copy_from_user_correct [OF host_runs sample_labels r, of "0x100" "\<lambda>_. 7"]
  obtain n k' buf' where c: "copy_from_user (syms sample_platform) 0x11000 0x100 16 host_kernel (\<lambda>_. 7) = Some (16 - of_nat n, k', buf')"
    "n \<le> 16" "\<not> sum_bit k'"
    "\<forall>i < n. \<exists>pm. user_mem (vm_space host_task1) host_state (0x11000 + of_nat i) = Some (pm, buf' (0x100 + of_nat i))"
    "n < 16 \<longrightarrow> card (mfree (mm k')) \<le> 1 \<or> \<not> allows Load (user_mem (vm_space host_task1) host_state (0x11000 + of_nat n))"
    unfolding k by auto
  have u: "unat (0x11000 + of_nat i :: usize) = 0x11000 + i" if "i < 16" for i
    using that by (simp add: unat_word_ariths unat_of_nat)
  have "buf' (0x100 + of_nat i) = 0" if "i < n" for i
    using c(2,4) that host_mem(1) [of "0x11000 + of_nat i"] u [of i] by auto
  moreover have "card (mfree (mm k')) \<le> 1" if "n < 16" using c(5) that host_allows [of "0x11000 + of_nat n" Load] u [of n] by auto
  ultimately show ?thesis using c(1-3) by blast
qed

text \<open>
  C9. \<open>copy_to_user\<close> on a user range returns, reports how many bytes it could not copy, and the
  bytes before that are in the program's memory; of this memory, permissions and contents, nothing
  else changes.  Reserved pages that have no frame yet are paged in on the way: the copy stops early
  only at an address whose permissions do not let the program write it, or when the page allocator
  is down to its last page.
\<close>

theorem copy_to_user_correct:
  assumes "runs k t B" "labels_ok y" "check_u_va_range dst len" "sint src + int (unat len) < 2 ^ 63"
  shows "\<exists>n t' k'. copy_to_user y buf src dst len k = Some (len - of_nat n, k') \<and> n \<le> unat len \<and>
    (\<forall>i < n. user_byte k' (dst + of_nat i) = Some (buf (src + of_nat i))) \<and>
    (\<forall>a b. unat a < 2 ^ 38 \<longrightarrow> (\<forall>i < n. a \<noteq> dst + of_nat i) \<longrightarrow> user_byte k a = Some b \<longrightarrow> user_byte k' a = Some b) \<and>
    (n < unat len \<longrightarrow> \<not> user_writable k' (dst + of_nat n)) \<and>
    same_user (user_mem (vm_space t') (mm k'))
      (spec_write dst (map (\<lambda>i. buf (src + of_nat i)) [0..<n]) (user_mem (vm_space t) (mm k))) \<and>
    (n < unat len \<longrightarrow> card (mfree (mm k')) \<le> 1 \<or> \<not> allows Store (user_mem (vm_space t) (mm k) (dst + of_nat n))) \<and>
    \<not> sum_bit k' \<and> runs k' t' B \<and> step_for t B k t' k'"
proof (rule copy_to_user_spec [OF assms, of buf], goal_cases)
  case (1 n t' k')
  have k': "runs k' t' B" "step_for t B k t' k'" "\<not> sum_bit k'" using 1(3) by (simp_all add: copy_done_def)
  then show ?case
    by (intro exI [of _ n] exI [of _ t'] exI [of _ k'] conjI allI impI) (use 1(1,2) 1(4-8) in simp_all)
qed

theorem copy_to_user_correct_witness:
  "\<exists>n k'. copy_to_user (syms sample_platform) (\<lambda>_. 7) 0x100 0x11000 16 host_kernel = Some (16 - of_nat n, k') \<and>
     n \<le> 16 \<and> \<not> sum_bit k' \<and> (n < 16 \<longrightarrow> card (mfree (mm k')) \<le> 1)"
proof -
  have r: "check_u_va_range 0x11000 16" by (simp add: check_u_va_range_iff kconst)
  have k: "mm host_kernel = host_state" by (simp add: host_kernel_def)
  from copy_to_user_correct [OF host_runs sample_labels r, of "0x100" "\<lambda>_. 7"]
  obtain n k' where c: "copy_to_user (syms sample_platform) (\<lambda>_. 7) 0x100 0x11000 16 host_kernel = Some (16 - of_nat n, k')"
    "n \<le> 16" "\<not> sum_bit k'"
    "n < 16 \<longrightarrow> card (mfree (mm k')) \<le> 1 \<or> \<not> allows Store (user_mem (vm_space host_task1) host_state (0x11000 + of_nat n))"
    unfolding k by auto
  have "card (mfree (mm k')) \<le> 1" if "n < 16"
    using c(4) that host_allows [of "0x11000 + of_nat n" Store] by (auto simp: unat_word_ariths unat_of_nat)
  then show ?thesis using c(1-3) by blast
qed

text \<open>
  C10. The copy loop of \<open>uaccess.S\<close>, which compares addresses as signed numbers, is the plain loop
  over \<open>len\<close> bytes whenever the source range does not cross the middle of the address space; in
  particular it counts the bytes that are left correctly.
\<close>

theorem uaccess_equals_copy_n:
  assumes "sint src + int (unat len) < 2 ^ 63"
  shows "uaccess lb sb src dst len s =
    map_option (\<lambda>(r, s). (of_nat r, s)) (copy_n lb sb (unat len) src dst (src + len) s)"
  by (rule uaccess_copy_n [OF assms])

theorem uaccess_equals_copy_n_witness:
  "uaccess (kernel_lb (\<lambda>a. ucast a)) (\<lambda>a0 a1 t5 b k. Some (True, k)) 0x7ffffffffffffff0 0 4 host_kernel =
     map_option (\<lambda>(r, s). (of_nat r, s))
       (copy_n (kernel_lb (\<lambda>a. ucast a)) (\<lambda>a0 a1 t5 b k. Some (True, k)) 4 0x7ffffffffffffff0 0 0x7ffffffffffffff4 host_kernel)"
  using uaccess_equals_copy_n [of "0x7ffffffffffffff0" 4] by simp

lemma uaccess_loop_ends:
  assumes "\<And>a0 a1 t5 s. lb a0 a1 t5 s \<noteq> None" "\<And>a0 a1 t5 b s. sb a0 a1 t5 b s \<noteq> None"
  shows "nat (sint t5 - sint a0) = n \<Longrightarrow> \<exists>r s'. uaccess_loop lb sb a0 a1 t5 s = Some (r, s')"
proof (induction n arbitrary: a0 a1 s)
  case 0
  then have "sint t5 \<le> sint a0" by simp
  then show ?case by (subst uaccess_loop.simps) simp
next
  case (Suc n)
  have lt: "sint a0 < sint t5" using Suc.prems by simp
  have "sint t5 < 2 ^ 63" using sint_lt [of t5] by simp
  then have "sint (a0 + 1) = sint a0 + 1" using sint_add_nat [of a0 1] lt by simp
  then have "nat (sint t5 - sint (a0 + 1)) = n" using Suc.prems by simp
  note IH = Suc.IH [OF this]
  obtain c s1 where c: "lb a0 a1 t5 s = Some (c, s1)" using assms(1) [of a0 a1 t5 s] by auto
  show ?case
  proof (cases c)
    case None
    then show ?thesis using lt c by (subst uaccess_loop.simps) simp
  next
    case (Some b)
    obtain w s2 where "sb a0 a1 t5 b s1 = Some (w, s2)" using assms(2) [of a0 a1 t5 b s1] by auto
    then show ?thesis using lt c Some IH [of "a1 + 1" s2] by (subst uaccess_loop.simps) simp
  qed
qed

text \<open>
  C11. The copy loop ends for every content of its registers, also where the range wraps around or
  the end lies before the start, as long as its load and store instructions do.
\<close>

theorem uaccess_terminates:
  assumes "\<forall>a0 a1 t5 s. lb a0 a1 t5 s \<noteq> None" "\<forall>a0 a1 t5 b s. sb a0 a1 t5 b s \<noteq> None"
  shows "\<exists>r s'. uaccess lb sb src dst len s = Some (r, s')"
  unfolding uaccess_def using uaccess_loop_ends [of lb sb "src + len" src] assms by blast

theorem uaccess_terminates_witness:
  "\<exists>r s'. uaccess (kernel_lb (\<lambda>a. ucast a)) (\<lambda>a0 a1 t5 b k. Some (True, k)) 0x7ffffffffffffff0 0 0x100 host_kernel = Some (r, s')"
  by (rule uaccess_terminates) (simp_all add: kernel_lb_def)

subsection \<open>write and task_info\<close>

text \<open>
  C12. \<open>sys_write\<close> refuses another descriptor and a range outside user space with -1, aborts the
  kernel when the heap cannot hold the buffer, returns -1 without output when some byte of the
  range could not be read, because its permissions forbid it or pages have run out, aborts the
  kernel on text that is not UTF-8, and otherwise appends exactly the characters whose encoding the
  program's memory has in the range to the console and returns its length.  The program's memory
  stays the same.
\<close>

theorem sys_write_outcomes:
  assumes "runs k t B" "platform_ok e"
  shows "if fd \<noteq> FD_STDOUT \<or> \<not> check_u_va_range buf cnt then sys_write e fd buf cnt k = Some (Returns (-1), k)
     else if heap_alloc e cnt = None then sys_write e fd buf cnt k = None
     else \<exists>t' k'. runs k' t' B \<and> step_for t B k t' k' \<and> \<not> sum_bit k' \<and> console k' = console k \<and>
       same_user (user_mem (vm_space t') (mm k')) (user_mem (vm_space t) (mm k)) \<and>
       (if \<exists>n < unat cnt. user_byte k' (buf + of_nat n) = None
        then sys_write e fd buf cnt k = Some (Returns (-1), k') \<and>
          (card (mfree (mm k')) \<le> 1 \<or> (\<exists>n < unat cnt. \<not> allows Load (user_mem (vm_space t) (mm k) (buf + of_nat n))))
        else (\<forall>n < unat cnt. \<exists>pm. user_mem (vm_space t) (mm k) (buf + of_nat n) = Some (pm, user_bytes k' buf (unat cnt) ! n)) \<and>
          sys_write e fd buf cnt k = (case from_utf8 (user_bytes k' buf (unat cnt)) of
            None \<Rightarrow> None | Some str \<Rightarrow> Some (Returns cnt, print_chars str k')))"
proof (rule sys_write_spec [OF assms, of fd buf cnt], goal_cases refused heap fault copied)
  case refused
  then show ?case by auto
next
  case heap
  then show ?case by simp
next
  case (fault t' k' n)
  have "heap_alloc e cnt \<noteq> None" using fault(1-3) by (cases "heap_alloc e cnt") (simp_all add: sys_write_def)
  then have no: "\<not> (fd \<noteq> FD_STDOUT \<or> \<not> check_u_va_range buf cnt)" "heap_alloc e cnt \<noteq> None" using fault(2,3) by auto
  have "\<exists>n < unat cnt. user_byte k' (buf + of_nat n) = None" using fault(5,6) by blast
  moreover have "card (mfree (mm k')) \<le> 1 \<or> (\<exists>n < unat cnt. \<not> allows Load (user_mem (vm_space t) (mm k) (buf + of_nat n)))"
    using fault(5,9) by blast
  ultimately show ?case unfolding if_not_P [OF no(1)] if_not_P [OF no(2)]
    by (intro exI [of _ t'] exI [of _ k']) (use fault(1,4,8) in \<open>simp add: copy_done_def\<close>)
next
  case (copied t' k')
  have c: "runs k' t' B \<and> step_for t B k t' k' \<and> \<not> sum_bit k' \<and> console k' = console k" using copied(1) by (simp add: copy_done_def)
  have n: "\<not> (\<exists>n < unat cnt. user_byte k' (buf + of_nat n) = None)" using copied(4) by blast
  have h': "hosted k' t' B" using c by (simp add: runs_def)
  have mem: "\<exists>pm. user_mem (vm_space t) (mm k) (buf + of_nat i) = Some (pm, user_bytes k' buf (unat cnt) ! i)" if i: "i < unat cnt" for i
  proof -
    note r = user_range [OF copied(3) i]
    obtain b where b: "user_byte k' (buf + of_nat i) = Some b" using copied(4) [OF i] by blast
    then have "user_bytes k' buf (unat cnt) ! i = b" using i by (simp add: user_bytes_def)
    then show ?thesis using user_byte_mem [OF h' r b] copied(7) r by (simp add: same_user_def)
  qed
  show ?case
  proof (cases "heap_alloc e cnt")
    case None
    then show ?thesis using copied(2,3) by (simp add: sys_write_def)
  next
    case (Some dst)
    then have no: "\<not> (fd \<noteq> FD_STDOUT \<or> \<not> check_u_va_range buf cnt)" "heap_alloc e cnt \<noteq> None" using copied(2,3) by auto
    show ?thesis unfolding if_not_P [OF no(1)] if_not_P [OF no(2)]
      by (rule exI [of _ t'], rule exI [of _ k'], unfold if_not_P [OF n]) (use c copied(5,7) mem in blast)
  qed
qed

theorem sys_write_outcomes_witness:
  "sys_write sample_platform 2 0x11000 5 host_kernel = Some (Returns (-1), host_kernel) \<and>
   sys_write sample_platform 1 0x11000 0x10000 host_kernel = None"
proof -
  have "check_u_va_range 0x11000 0x10000" by (simp add: check_u_va_range_iff kconst)
  moreover have "heap_alloc sample_platform 0x10000 = None" by (simp add: sample_platform_def)
  ultimately show ?thesis
    using sys_write_outcomes [OF host_runs sample_platform_ok, of 2 "0x11000" 5]
      sys_write_outcomes [OF host_runs sample_platform_ok, of 1 "0x11000" "0x10000"]
    by (simp add: FD_STDOUT_def)
qed




end
