(* ===== verification/Spin.thy ===== *)
theory Spin
  imports Prelude
begin

text \<open>
  The spin lock of \<open>os/src/sync/spin.rs\<close>: its operations, and threads that use it to update the
  protected data in every interleaving of their atomic steps.  The rest of the development
  treats each critical section of the kernel as one step on the protected state; the main
  result here is what justifies that.
\<close>

subsection \<open>The lock\<close>

record 'd SpinLock =
  locked :: bool
  data :: 'd

definition SpinLock_new :: "'d \<Rightarrow> 'd SpinLock" where
  "SpinLock_new d = \<lparr>locked = False, data = d\<rparr>"

text \<open>
  \<open>compare_exchange_weak(false, true)\<close>: it may fail although the flag is clear, which \<open>spurious\<close>
  says.
\<close>

definition compare_exchange_weak :: "bool \<Rightarrow> 'd SpinLock \<Rightarrow> (bool + bool) \<times> 'd SpinLock" where
  "compare_exchange_weak spurious l =
     (if locked l \<or> spurious then (Inl (locked l), l) else (Inr (locked l), l\<lparr>locked := True\<rparr>))"

text \<open>
  \<open>SpinLock::lock\<close>: the loop over the attempts of one caller while nobody else acts, with what
  the hardware does at each of them; \<open>None\<close> is a loop that is still spinning at the end.
\<close>

fun SpinLock_lock :: "bool list \<Rightarrow> 'd SpinLock \<Rightarrow> 'd SpinLock option" where
  "SpinLock_lock [] l = None"
| "SpinLock_lock (spurious # attempts) l =
     (case compare_exchange_weak spurious l of
        (Inl _, l) \<Rightarrow> SpinLock_lock attempts l
      | (Inr _, l) \<Rightarrow> Some l)"

definition SpinLock_unlock :: "'d SpinLock \<Rightarrow> 'd SpinLock" where
  "SpinLock_unlock l = l\<lparr>locked := False\<rparr>"

text \<open>\<open>deref\<close>, \<open>deref_mut\<close> and \<open>drop\<close> of the guard.\<close>

definition SpinGuard_deref :: "'d SpinLock \<Rightarrow> 'd" where
  "SpinGuard_deref l = data l"

definition SpinGuard_deref_mut :: "'d \<Rightarrow> 'd SpinLock \<Rightarrow> 'd SpinLock" where
  "SpinGuard_deref_mut d l = l\<lparr>data := d\<rparr>"

definition SpinGuard_drop :: "'d SpinLock \<Rightarrow> 'd SpinLock" where
  "SpinGuard_drop l = SpinLock_unlock l"

subsection \<open>Threads\<close>

text \<open>
  A thread takes the lock, reads the data, writes what its update \<open>f\<close> makes of the value it read,
  and drops the guard.  Each of these is one step, and the steps of different threads interleave
  in any way.  The history records whose writes happened, latest first.
\<close>

datatype 'd phase = Outside | Spinning | Entered | Loaded 'd | Stored

record ('t, 'd) world =
  lk :: "'d SpinLock"
  phase :: "'t \<Rightarrow> 'd phase"
  history :: "'t list"

inductive spin_step :: "('t \<Rightarrow> 'd \<Rightarrow> 'd) \<Rightarrow> ('t, 'd) world \<Rightarrow> ('t, 'd) world \<Rightarrow> bool" for f where
  call: "phase w t = Outside \<Longrightarrow> spin_step f w (w\<lparr>phase := (phase w)(t := Spinning)\<rparr>)"
| spin: "phase w t = Spinning \<Longrightarrow> compare_exchange_weak b (lk w) = (Inl x, l) \<Longrightarrow> spin_step f w (w\<lparr>lk := l\<rparr>)"
| acquire: "phase w t = Spinning \<Longrightarrow> compare_exchange_weak b (lk w) = (Inr x, l) \<Longrightarrow>
    spin_step f w (w\<lparr>lk := l, phase := (phase w)(t := Entered)\<rparr>)"
| fetch: "phase w t = Entered \<Longrightarrow> spin_step f w (w\<lparr>phase := (phase w)(t := Loaded (SpinGuard_deref (lk w)))\<rparr>)"
| store: "phase w t = Loaded x \<Longrightarrow>
    spin_step f w (w\<lparr>lk := SpinGuard_deref_mut (f t x) (lk w), phase := (phase w)(t := Stored), history := t # history w\<rparr>)"
| release: "phase w t = Stored \<Longrightarrow> spin_step f w (w\<lparr>lk := SpinGuard_drop (lk w), phase := (phase w)(t := Outside)\<rparr>)"

inductive_cases spin_stepE: "spin_step f w w'"

inductive spin_reachable :: "('t \<Rightarrow> 'd \<Rightarrow> 'd) \<Rightarrow> 'd \<Rightarrow> ('t, 'd) world \<Rightarrow> bool" for f d where
  start: "spin_reachable f d \<lparr>lk = SpinLock_new d, phase = (\<lambda>_. Outside), history = []\<rparr>"
| further: "spin_reachable f d w \<Longrightarrow> spin_step f w w' \<Longrightarrow> spin_reachable f d w'"

definition inside :: "'d phase \<Rightarrow> bool" where
  "inside p \<longleftrightarrow> p \<noteq> Outside \<and> p \<noteq> Spinning"

lemma inside_simps [simp]:
  "\<not> inside Outside" "\<not> inside Spinning" "inside Entered" "inside (Loaded x)" "inside Stored"
  by (simp_all add: inside_def)

lemma compare_exchange_weak_cases:
  "compare_exchange_weak b l = (Inl x, l') \<Longrightarrow> l' = l"
  "compare_exchange_weak b l = (Inr x, l') \<Longrightarrow> \<not> locked l \<and> l' = l\<lparr>locked := True\<rparr>"
  by (auto simp: compare_exchange_weak_def split: if_splits)

subsection \<open>The invariant\<close>

text \<open>The data as if the updates had run one after the other.\<close>

definition serial :: "('t \<Rightarrow> 'd \<Rightarrow> 'd) \<Rightarrow> 'd \<Rightarrow> 't list \<Rightarrow> 'd" where
  "serial f d ts = foldr (\<lambda>t x. f t x) ts d"

definition spin_inv :: "('t \<Rightarrow> 'd \<Rightarrow> 'd) \<Rightarrow> 'd \<Rightarrow> ('t, 'd) world \<Rightarrow> bool" where
  "spin_inv f d w \<longleftrightarrow> (locked (lk w) \<longleftrightarrow> (\<exists>t. inside (phase w t))) \<and>
     (\<forall>t u. inside (phase w t) \<longrightarrow> inside (phase w u) \<longrightarrow> t = u) \<and>
     (\<forall>t x. phase w t = Loaded x \<longrightarrow> x = data (lk w)) \<and>
     data (lk w) = serial f d (history w)"

lemma spin_step_inv:
  assumes st: "spin_step f w w'" and i: "spin_inv f d w"
  shows "spin_inv f d w'"
  using st
proof cases
  case (call t)
  have e: "inside (phase w' u) = inside (phase w u)" "phase w' u = Loaded x \<longleftrightarrow> phase w u = Loaded x"
    "lk w' = lk w" "history w' = history w" for u x
    using call by simp_all
  show ?thesis using i unfolding spin_inv_def e .
next
  case (spin t b x l)
  then show ?thesis using i compare_exchange_weak_cases(1) [OF spin(3)] by simp
next
  case (acquire t b x l)
  have l: "\<not> locked (lk w)" "l = (lk w)\<lparr>locked := True\<rparr>" using compare_exchange_weak_cases(2) [OF acquire(3)] by simp_all
  then have "\<not> inside (phase w u)" for u using i by (auto simp: spin_inv_def)
  then have "phase w u \<noteq> Loaded y" for u y by (metis inside_simps(4))
  then show ?thesis using i acquire l \<open>\<And>u. \<not> inside (phase w u)\<close> by (auto simp: spin_inv_def)
next
  case (fetch t)
  then have t: "inside (phase w t)" by simp
  have "locked (lk w)" "\<And>u. inside (phase w u) \<Longrightarrow> u = t" using i t by (auto simp: spin_inv_def)
  then show ?thesis using i fetch by (auto simp: spin_inv_def SpinGuard_deref_def)
next
  case (store t x)
  then have t: "inside (phase w t)" by simp
  have o: "locked (lk w)" "\<And>u. inside (phase w u) \<Longrightarrow> u = t" using i t by (auto simp: spin_inv_def)
  then have "\<And>u y. phase w u = Loaded y \<Longrightarrow> u = t" by (metis inside_simps(4))
  then show ?thesis using i store o by (auto simp: spin_inv_def SpinGuard_deref_mut_def serial_def)
next
  case (release t)
  then have t: "inside (phase w t)" by simp
  have "locked (lk w)" "\<And>u. inside (phase w u) \<Longrightarrow> u = t" using i t by (auto simp: spin_inv_def)
  then show ?thesis using i release by (auto simp: spin_inv_def SpinGuard_drop_def SpinLock_unlock_def)
qed

lemma spin_reachable_inv: "spin_reachable f d w \<Longrightarrow> spin_inv f d w"
proof (induction rule: spin_reachable.induct)
  case start
  show ?case by (simp add: spin_inv_def SpinLock_new_def serial_def)
next
  case (further w w')
  then show ?case by (blast intro: spin_step_inv)
qed

subsection \<open>Properties\<close>

text \<open>
  C37. In every interleaving at most one thread is inside a critical section, and the protected
  data is what the updates give when they are applied one after the other in the order of their
  writes: no update is lost or torn.
\<close>

theorem spin_lock_serialises:
  assumes "spin_reachable f d w"
  shows "(\<forall>t u. inside (phase w t) \<longrightarrow> inside (phase w u) \<longrightarrow> t = u) \<and>
    data (lk w) = foldr f (history w) d"
  using spin_reachable_inv [OF assms] by (auto simp: spin_inv_def serial_def)

text \<open>Two threads that count, one of them already waiting for the other.\<close>

definition two_counters :: "(bool, nat) world" where
  "two_counters = \<lparr>lk = \<lparr>locked = True, data = 0\<rparr>, phase = (\<lambda>_. Spinning)(True := Entered), history = []\<rparr>"

lemma two_counters_reachable: "spin_reachable (\<lambda>_. Suc) 0 two_counters"
proof -
  let ?w0 = "\<lparr>lk = SpinLock_new 0, phase = (\<lambda>_ :: bool. Outside), history = []\<rparr> :: (bool, nat) world"
  let ?w1 = "?w0\<lparr>phase := (\<lambda>_. Outside)(True := Spinning)\<rparr>"
  let ?w2 = "?w1\<lparr>phase := (\<lambda>_. Spinning)\<rparr>"
  have 0: "spin_step (\<lambda>_. Suc) ?w0 ?w1" using spin_step.call [of ?w0 True] by simp
  have 1: "spin_step (\<lambda>_. Suc) ?w1 ?w2"
  proof -
    have "((\<lambda>_. Outside)(True := Spinning))(False := Spinning) = (\<lambda>_. Spinning :: nat phase)"
    proof
      show "(((\<lambda>_. Outside)(True := Spinning))(False := Spinning)) b = (Spinning :: nat phase)" for b by (cases b) simp_all
    qed
    then show ?thesis using spin_step.call [of ?w1 False "\<lambda>_. Suc"] by simp
  qed
  have 2: "spin_step (\<lambda>_. Suc) ?w2 two_counters"
    using spin_step.acquire [of ?w2 True False False "\<lparr>locked = True, data = 0\<rparr>" "\<lambda>_. Suc"]
    by (simp add: compare_exchange_weak_def SpinLock_new_def two_counters_def)
  show ?thesis
    by (rule spin_reachable.further [OF spin_reachable.further [OF spin_reachable.further [OF spin_reachable.start 0] 1] 2])
qed

theorem spin_lock_serialises_witness: "data (lk two_counters) = foldr (\<lambda>_. Suc) (history two_counters) (0 :: nat)"
  using spin_lock_serialises [OF two_counters_reachable] by blast

text \<open>The steps a thread inside still takes.\<close>

definition steps_left :: "'d phase \<Rightarrow> nat" where
  "steps_left p = (case p of Entered \<Rightarrow> 3 | Loaded _ \<Rightarrow> 2 | Stored \<Rightarrow> 1 | _ \<Rightarrow> 0)"

text \<open>
  C38. The lock never blocks the system: whenever a thread waits for it, either the lock is free and
  the thread itself can take it, or there is a thread inside that can go on, and after at most
  three of its steps the lock is free.
\<close>

theorem spin_lock_progress:
  assumes "spin_reachable f d w" "phase w t = Spinning"
  shows "if locked (lk w)
    then \<exists>u w'. inside (phase w u) \<and> spin_step f w w' \<and> steps_left (phase w' u) < steps_left (phase w u) \<and>
      (locked (lk w') \<longleftrightarrow> 0 < steps_left (phase w' u)) \<and> steps_left (phase w u) \<le> 3
    else \<exists>w'. spin_step f w w' \<and> phase w' t = Entered"
proof (cases "locked (lk w)")
  case True
  then obtain u where u: "inside (phase w u)" using spin_reachable_inv [OF assms(1)] by (auto simp: spin_inv_def)
  have "\<exists>w'. spin_step f w w' \<and> steps_left (phase w' u) < steps_left (phase w u) \<and>
      (locked (lk w') \<longleftrightarrow> 0 < steps_left (phase w' u)) \<and> steps_left (phase w u) \<le> 3"
  proof (cases "phase w u")
    case Entered
    then show ?thesis using True spin_step.fetch [OF Entered] by (intro exI conjI) (auto simp: steps_left_def)
  next
    case (Loaded x)
    then show ?thesis using True spin_step.store [OF Loaded, of f]
      by (intro exI conjI) (auto simp: steps_left_def SpinGuard_deref_mut_def)
  next
    case Stored
    then show ?thesis using spin_step.release [OF Stored]
      by (intro exI conjI) (auto simp: steps_left_def SpinGuard_drop_def SpinLock_unlock_def)
  qed (use u in simp_all)
  then obtain w' where "spin_step f w w' \<and> steps_left (phase w' u) < steps_left (phase w u) \<and>
      (locked (lk w') \<longleftrightarrow> 0 < steps_left (phase w' u)) \<and> steps_left (phase w u) \<le> 3" ..
  then show ?thesis unfolding if_P [OF True] by (intro exI [of _ u] exI [of _ w'] conjI [OF u])
next
  case False
  then have "compare_exchange_weak False (lk w) = (Inr False, (lk w)\<lparr>locked := True\<rparr>)"
    by (simp add: compare_exchange_weak_def)
  from spin_step.acquire [OF assms(2) this, of f] False show ?thesis by fastforce
qed

theorem spin_lock_progress_witness:
  "\<exists>u w'. inside (phase two_counters u) \<and> spin_step (\<lambda>_. Suc) two_counters w'"
  using spin_lock_progress [OF two_counters_reachable, of False] by (auto simp: two_counters_def)

text \<open>
  C39. \<open>lock\<close> on a free lock returns at the first attempt that the hardware does not refuse
  spuriously, with the lock held and the data as it was; a caller that already holds the lock
  spins for ever.
\<close>

theorem SpinLock_lock_returns:
  "SpinLock_lock attempts l =
     (if \<not> locked l \<and> False \<in> set attempts then Some (l\<lparr>locked := True\<rparr>) else None)"
  by (induction attempts) (auto simp: compare_exchange_weak_def)

end
