(* ===== verification/Apps.thy ===== *)
theory Apps
  imports Syscall "HOL-Library.List_Lexorder"
begin

text \<open>
  The applications embedded in the kernel: the build script \<open>os/build.rs\<close> that writes the assembly
  file with the table of applications, and \<open>os/src/task/apps.rs\<close>, which reads the table.  A Rust
  string is the list of its UTF-8 bytes here, and the list of its characters where it is a
  \<open>&str\<close> that the kernel prints.
\<close>

subsection \<open>The build script\<close>



definition ascii :: "string \<Rightarrow> u8 list" where
  "ascii s = map of_char s"

definition ELF_DIR :: "u8 list" where
  "ELF_DIR = ascii ''../user/target/riscv64gc-unknown-none-elf/release''"










subsection \<open>The table in the kernel\<close>










subsection \<open>What an assembler and a linker do\<close>

text \<open>
  The documented meaning of the directives: labels name the location, data directives put bytes
  at the location of the current section and advance it.  \<open>files\<close> is what \<open>incbin\<close> finds on the
  disk, \<open>adr\<close> the final addresses, \<open>m\<close> the final memory.  A location is that of the data section
  once \<open>Section_data\<close> has been seen, and unknown before.  A text between quotes stands for itself when
  it is \<open>plain\<close>, that is without quotes, backslashes and line breaks.
\<close>

definition plain :: "u8 list \<Rightarrow> bool" where
  "plain bs \<longleftrightarrow> (\<forall>b \<in> set bs. b \<notin> {10, 34, 92})"

definition bytes_at :: "phys_mem \<Rightarrow> usize \<Rightarrow> u8 list \<Rightarrow> bool" where
  "bytes_at m a bs \<longleftrightarrow> (\<forall>i < length bs. m (a + of_nat i) = bs ! i)"












subsection \<open>From the build to the kernel\<close>








lemma bytes_at_Cons [simp]: "bytes_at m a (b # bs) \<longleftrightarrow> m a = b \<and> bytes_at m (a + 1) bs"
  by (auto simp: bytes_at_def nth_Cons algebra_simps split: nat.splits)

lemma bytes_at_Nil [simp]: "bytes_at m a []"
  by (simp add: bytes_at_def)

lemma plain_append [simp]: "plain (a @ b) \<longleftrightarrow> plain a \<and> plain b"
  by (auto simp: plain_def)

lemma plain_ELF_DIR [simp]: "plain ELF_DIR"
  by code_simp




end
