(* ===== verification/Load_Root.thy ===== *)
theory Load_Root
  imports Mmu
begin

text \<open>
  The page table a new user space starts with: a copy of the root table of the kernel.  It
  shares all tables of the kernel half and maps nothing in the user half.
\<close>

subsection \<open>The kernel's table\<close>

text \<open>
  What a new space relies on: \<open>KERNEL_SATP\<close> names a well-formed table whose pages belong to
  nobody else, with an empty user half and nothing for user mode in the other half.
\<close>

definition kernel_map :: "PPN \<Rightarrow> mm_state \<Rightarrow> bool" where
  "kernel_map r s \<longleftrightarrow> KERNEL_SATP s = satp_compute_value (get_raw r) Sv39 \<and>
     pgt_wf (mtab s) r \<and> table_pages (mtab s) r \<subseteq> mheld s \<and>
     (\<forall>i \<in> user_half. \<not> PTE_is_valid (mtab s r i)) \<and> sentinel (mtab s) r \<and>
     upper_private \<lparr>root_ppn = r, root_pages = []\<rparr> s"

lemma kernel_mapD:
  assumes "kernel_map r s"
  shows "KERNEL_SATP s = satp_compute_value (get_raw r) Sv39" "pgt_wf (mtab s) r"
    "table_pages (mtab s) r \<subseteq> mheld s" "\<And>i. i \<in> user_half \<Longrightarrow> \<not> PTE_is_valid (mtab s r i)"
    "sentinel (mtab s) r" "upper_private \<lparr>root_ppn = r, root_pages = []\<rparr> s" "reachable_ppn r"
proof -
  show "reachable_ppn r" using assms table_pages_intros(1) [of r "mtab s"] by (auto simp: kernel_map_def dest: pgt_wfD(1))
qed (use assms in \<open>simp_all add: kernel_map_def\<close>)

lemma kernel_satp_root:
  assumes "kernel_map r s"
  shows "satp_root (satp_compute_value (get_raw r) Sv39) = r"
  using satp_root_get_satp [of "\<lparr>root_ppn = r, root_pages = []\<rparr>"] kernel_mapD(7) [OF assms]
  by (simp add: RootPgt_get_satp_def reachable_ppn_def)

lemma get_kernel_satp_ppn_map:
  assumes "kernel_map r s"
  shows "get_kernel_satp_ppn s = Some r"
proof -
  have r: "unat (get_raw r) < 2 ^ 44" using kernel_mapD(7) [OF assms] by (simp add: reachable_ppn_def)
  have "satp_root (KERNEL_SATP s) = r"
    using kernel_satp_root [OF assms] kernel_mapD(1) [OF assms] by simp
  then have "KERNEL_SATP s AND 0xfffffffffff = get_raw r" by (auto simp: satp_root_def and_low_mask)
  then show ?thesis using PPN_from_get_pa [OF r] by (simp add: get_kernel_satp_ppn_def get_pa_def)
qed

lemma kernel_walk_low:
  assumes k: "kernel_map r s" and va: "unat va < 2 ^ 38"
  shows "sv39_walk (phys s) r va = None"
proof -
  define i where "i = take_bit 9 (drop_bit 30 va)"
  have i: "i < 512" "i \<in> user_half"
    using va by (simp_all add: i_def word_less_nat_alt bits_nat)
  then have "hw_bad (hw_entry (phys s) r i)"
    using kernel_mapD(4) [OF k i(2)] hw_entry_tab [OF kernel_mapD(7) [OF k] i(1)] by (simp add: hw_bad_def)
  then show ?thesis by (simp add: sv39_walk_def Let_def i_def)
qed

lemma kernel_map_frame:
  assumes k: "kernel_map r s" and inv: "mm_inv s'" and satp: "KERNEL_SATP s' = KERNEL_SATP s"
    and held: "table_pages (mtab s) r \<subseteq> mheld s'"
    and mem: "\<And>a. PPN (drop_bit 12 a) \<in> table_pages (mtab s) r \<Longrightarrow> phys s' a = phys s a"
    and inv0: "mm_inv s"
  shows "kernel_map r s'" "table_pages (mtab s') r = table_pages (mtab s) r"
proof -
  note K = kernel_mapD [OF k]
  have same: "mtab s' p = mtab s p" if "p \<in> table_pages (mtab s) r" for p
    by (rule tab_page_cong) (use mem that in simp)
  note t = tree_cong [of "mtab s" r "mtab s'", OF fun_cong [OF same]]
  let ?t = "\<lparr>root_ppn = r, root_pages = []\<rparr> :: RootPgt"
  have "pgt_ok ?t s" using K(2,3) inv0 by (simp add: pgt_ok_def)
  then have "upper_private ?t s'"
    by (rule upper_private_kept [OF K(6)]) (use same [OF table_pages_intros(1)] mem in simp_all)
  moreover have "sentinel (mtab s') r" using K(5) by (simp add: sentinel_def t(2))
  ultimately show "kernel_map r s'"
    using K(1,2,4) satp held same [OF table_pages_intros(1)] by (simp add: kernel_map_def t)
  show "table_pages (mtab s') r = table_pages (mtab s) r" by (rule t(4))
qed

subsection \<open>Copying the root\<close>

lemma copy_ptes_spec:
  assumes r: "reachable_ppn src" "reachable_ppn dst" "src \<noteq> dst" and i: "\<forall>i \<in> set is. i < 512"
  obtains m' where "copy_ptes (table_ptr src) (table_ptr dst) is m = Some m'"
    "tab m' = (tab m)(dst := \<lambda>i. if i \<in> set is then tab m src i else tab m dst i)"
    "\<And>a. PPN (drop_bit 12 a) \<noteq> dst \<Longrightarrow> m' a = m a"
proof -
  have "\<exists>m'. copy_ptes (table_ptr src) (table_ptr dst) is m = Some m' \<and>
      tab m' = (tab m)(dst := \<lambda>i. if i \<in> set is then tab m src i else tab m dst i) \<and>
      (\<forall>a. PPN (drop_bit 12 a) \<noteq> dst \<longrightarrow> m' a = m a)"
    using i
  proof (induction "is" arbitrary: m)
    case (Cons j js)
    have j: "j < 512" "\<forall>i \<in> set js. i < 512" using Cons.prems by simp_all
    let ?m = "store_u64 m (get_pa dst + 8 * j) (pte_bits (tab m src j))"
    have T: "tab ?m = upd (tab m) dst j (tab m src j)" using tab_store [OF r(2) j(1)] by simp
    obtain m' where m': "copy_ptes (table_ptr src) (table_ptr dst) js ?m = Some m'"
      "tab m' = (tab ?m)(dst := \<lambda>i. if i \<in> set js then tab ?m src i else tab ?m dst i)"
      "\<forall>a. PPN (drop_bit 12 a) \<noteq> dst \<longrightarrow> m' a = ?m a"
      using Cons.IH [OF j(2), of ?m] by blast
    have "copy_ptes (table_ptr src) (table_ptr dst) (j # js) m = Some m'"
      using m'(1) r(1,2) j(1) by (simp add: pte_load_ptr pte_store_ptr)
    moreover have "tab m' = (tab m)(dst := \<lambda>i. if i \<in> set (j # js) then tab m src i else tab m dst i)"
      unfolding m'(2) T using r(3) by (auto simp: fun_eq_iff upd_apply)
    moreover have "m' a = m a" if "PPN (drop_bit 12 a) \<noteq> dst" for a
      using m'(3) that store_outside [OF r(2) j(1), of a m] by (cases dst) auto
    ultimately show ?case by blast
  qed (auto simp: fun_eq_iff)
  with that show ?thesis by blast
qed

lemma RootPgt_new_copy_cases:
  assumes inv: "mm_inv s" and k: "kernel_map r s"
  obtains (full) "RootPgt_new_copy (table_ptr r) s = Some (Inl AcquirePageFailed, s)" "mfree s = {}"
  | (made) p s' where "RootPgt_new_copy (table_ptr r) s = Some (Inr \<lparr>root_ppn = get_ppn p, root_pages = [p]\<rparr>, s')"
      "took_page p s s'" "mtab s' = (mtab s)(get_ppn p := mtab s r)" "get_ppn p \<notin> table_pages (mtab s) r"
proof -
  obtain x t where xt: "alloc_page s = (x, t)" by (cases "alloc_page s")
  note A = alloc_page_cases [OF inv xt]
  show ?thesis
  proof (cases x)
    case None
    then show ?thesis using A xt by (intro full) (simp_all add: RootPgt_new_copy_def)
  next
    case (Some p)
    let ?n = "get_ppn p"
    have free: "?n \<in> mfree s" using A Some by simp
    have n: "reachable_ppn ?n" using free_ppn_small [OF inv free] by (simp add: reachable_ppn_def)
    have fresh: "?n \<notin> table_pages (mtab s) r"
      using kernel_mapD(3) [OF k] free pool.free_held inv by (auto simp: mm_inv_def)
    then have ne: "r \<noteq> ?n" using table_pages_intros(1) by metis
    have all: "\<forall>i \<in> set (range_usize 0 PTES_PER_TABLE). i < 512" by (simp add: PTES_PER_TABLE_def)
    obtain m where m: "copy_ptes (table_ptr r) (table_ptr ?n) (range_usize 0 PTES_PER_TABLE) (phys t) = Some m"
      "tab m = (tab (phys t))(?n := \<lambda>i. if i \<in> set (range_usize 0 PTES_PER_TABLE) then tab (phys t) r i else tab (phys t) ?n i)"
      "\<And>a. PPN (drop_bit 12 a) \<noteq> ?n \<Longrightarrow> m a = phys t a"
      by (rule copy_ptes_spec [OF kernel_mapD(7) [OF k] n ne all, of "phys t"]) (rule that)
    have ptr: "get_pa_mut_ptr (get_pa ?n) = Some (table_ptr ?n)" using get_ptes_mut_reachable [OF n] by (simp add: get_ptes_mut_def)
    have code: "RootPgt_new_copy (table_ptr r) s = Some (Inr \<lparr>root_ppn = ?n, root_pages = [p]\<rparr>, t\<lparr>phys := m\<rparr>)"
      using xt Some ptr m(1) by (simp add: RootPgt_new_copy_def)
    have ph: "phys t = phys s" using A by blast
    have "tab m = (mtab s)(?n := mtab s r)"
      unfolding m(2) ph by (auto simp: fun_eq_iff PTES_PER_TABLE_def tab_def)
    moreover have "took_page p s (t\<lparr>phys := m\<rparr>)" using A Some m(3) by (simp add: took_page_def mm_inv_def)
    ultimately show ?thesis using fresh by (intro made [OF code]) simp_all
  qed
qed

subsection \<open>The copy as a user table\<close>

lemma copy_tree:
  assumes T': "T' = T(n := T r)" and n: "n \<notin> table_pages T r" and wf: "pgt_wf T r"
  shows "table1 T' n = table1 T r" "table0 T' n = table0 T r" "walk T' n = walk T r"
    "table_pages T' n = insert n (table_pages T r - {r})"
proof -
  show t1: "table1 T' n = table1 T r" by (simp add: fun_eq_iff table1_def subtable_def T')
  have ne: "table1 T r i = Some q \<Longrightarrow> q \<noteq> n" "table0 T r i j = Some q \<Longrightarrow> q \<noteq> n" for q i j
    using n table_pages_intros(2,3) by metis+
  have "table0 T' n i j = table0 T r i j" for i j
    using ne(1) [of i] by (cases "table1 T r i") (simp_all only: table0_def t1 option.case subtable_def, simp add: T')
  then show t0: "table0 T' n = table0 T r" by (simp add: fun_eq_iff)
  have "walk T' n i j k = walk T r i j k" for i j k
    using ne(2) [of i j] by (cases "table0 T r i j") (simp_all only: walk_def t0 option.case, simp add: T')
  then show "walk T' n = walk T r" by (simp add: fun_eq_iff)
  have "table_pages T r - {r} = {p. \<exists>i. table1 T r i = Some p} \<union> {p. \<exists>i j. table0 T r i j = Some p}"
    unfolding table_pages_def using pgt_wfD(2,4) [OF wf] by blast
  then show "table_pages T' n = insert n (table_pages T r - {r})"
    unfolding table_pages_def [of T'] t1 t0 by blast
qed

lemma copy_walk:
  assumes wf: "pgt_wf (tab m) r" and n: "n \<notin> table_pages (tab m) r" "reachable_ppn n"
    and T': "tab m' = (tab m)(n := tab m r)"
  shows "sv39_walk m' n va = sv39_walk m r va"
proof -
  define i j k where "i = take_bit 9 (drop_bit 30 va)" and "j = take_bit 9 (drop_bit 21 va)"
    and "k = take_bit 9 (drop_bit 12 va)"
  have b: "i < 512" "j < 512" "k < 512" by (simp_all add: i_def j_def k_def word_less_nat_alt bits_nat)
  have e2: "hw_entry m' n i = tab m r i" "hw_entry m r i = tab m r i"
    using hw_entry_tab [OF n(2) b(1), of m'] hw_entry_tab [OF pgt_wfD(1) [OF wf table_pages_intros(1)] b(1)] T' by simp_all
  have out: "hw_entry m q l = tab m q l" "hw_entry m' q l = tab m q l" if q: "q \<in> table_pages (tab m) r" "l < 512" for q l
  proof -
    have "q \<noteq> n" using q(1) n(1) by blast
    then show "hw_entry m q l = tab m q l" "hw_entry m' q l = tab m q l"
      using hw_entry_tab [OF pgt_wfD(1) [OF wf q(1)] q(2)] T' by simp_all
  qed
  show ?thesis
  proof (cases "hw_bad (tab m r i) \<or> PTE_hw_leaf (tab m r i)")
    case True
    then show ?thesis by (auto simp: sv39_walk_def Let_def i_def [symmetric] e2)
  next
    case False
    define q where "q = pte_ppn (tab m r i)"
    have q: "table1 (tab m) r i = Some q" using False by (auto simp: table1_def subtable_def q_def hw_bad_def)
    note e1 = out [OF table_pages_intros(2) [OF q] b(2)]
    show ?thesis
    proof (cases "hw_bad (tab m q j) \<or> PTE_hw_leaf (tab m q j)")
      case True
      then show ?thesis using False
        by (auto simp: sv39_walk_def Let_def i_def [symmetric] j_def [symmetric] e2 q_def [symmetric] e1)
    next
      case f1: False
      define c where "c = pte_ppn (tab m q j)"
      have c: "table0 (tab m) r i j = Some c" using f1 q by (auto simp: table0_def subtable_def c_def hw_bad_def)
      note e0 = out [OF table_pages_intros(3) [OF c] b(3)]
      show ?thesis using False f1
        by (simp add: sv39_walk_def Let_def i_def [symmetric] j_def [symmetric] k_def [symmetric]
            e2 q_def [symmetric] e1 c_def [symmetric] e0)
    qed
  qed
qed

text \<open>The space before anything is mapped, and the space that owns nothing at all.\<close>

definition no_space :: VMSpace where
  "no_space = \<lparr>root_pgt = \<lparr>root_ppn = PPN 0, root_pages = []\<rparr>, areas = [], entry_addr = 0, u_stack_end = 0, k_stack_end = 0\<rparr>"

lemma own_no_space [simp]: "own no_space = {}"
  by (simp add: own_def no_space_def)

lemma empty_space:
  assumes inv: "mm_inv s" and k: "kernel_map r s" and tk: "took_page p s s'"
    and T: "mtab s' = (mtab s)(get_ppn p := mtab s r)" and n: "get_ppn p \<notin> table_pages (mtab s) r"
  defines "t \<equiv> \<lparr>root_ppn = get_ppn p, root_pages = [p]\<rparr>"
  assumes v: "root_pgt v = t" "areas v = []"
  shows "space_ok v s'" "vm_frame no_space s v s'" "upper_private t s'"
    "table_pages (mtab s') (get_ppn p) \<subseteq> own v \<union> table_pages (mtab s) r"
    "\<And>w. user_vpn w \<Longrightarrow> lookup t s' w = None"
proof -
  let ?n = "get_ppn p"
  note K = kernel_mapD [OF k] and C = copy_tree [OF T n kernel_mapD(2) [OF k]]
  from tk have tk': "?n \<in> mfree s" "mm_inv s'" "mheld s' = insert ?n (mheld s)" "mfree s' = mfree s - {?n}"
    "KERNEL_SATP s' = KERNEL_SATP s" "\<And>a. PPN (drop_bit 12 a) \<noteq> ?n \<Longrightarrow> phys s' a = phys s a"
    by (simp_all add: took_page_def)
  have nh: "?n \<in> mheld s'" using tk'(3) by simp
  have nr: "reachable_ppn ?n" using held_ppn_small [OF tk'(2) nh] by (simp add: reachable_ppn_def)
  have wf: "pgt_wf (mtab s') ?n"
    unfolding pgt_wf_def C(1,2,4)
  proof (intro conjI)
    show "\<forall>q \<in> insert ?n (table_pages (mtab s) r - {r}). reachable_ppn q" using pgt_wfD(1) [OF K(2)] nr by blast
    show "\<forall>i q. table1 (mtab s) r i = Some q \<longrightarrow> q \<noteq> ?n" using n table_pages_intros(2) by metis
    show "\<forall>i j q. table0 (mtab s) r i j = Some q \<longrightarrow> q \<noteq> ?n \<and> (\<forall>k. table1 (mtab s) r k \<noteq> Some q)"
      using n table_pages_intros(3) pgt_wfD(5) [OF K(2)] by metis
  qed (use pgt_wfD(3,6) [OF K(2)] in blast)+
  have pok: "pgt_ok t s'" using wf C(4) K(3) tk'(2,3) by (auto simp: pgt_ok_def t_def)
  have none: "table1 (mtab s) r i = None" if "i \<in> user_half" for i using K(4) [OF that] by (simp add: table1_def subtable_def)
  then have none0: "table0 (mtab s) r i j = None" if "i \<in> user_half" for i j using that by (simp add: table0_def)
  have und: "under (mtab s') ?n user_half = {?n}" unfolding under_def C(1,2) using none none0 by auto
  have "no_user_large (mtab s') ?n"
    unfolding no_user_large_def C(1) using none K(4) by (auto simp: T PTE_hw_leaf_def)
  then have pu: "pgt_user t s'" using pok und K(5) C(2) by (simp add: pgt_user_def t_def sentinel_def)
  show lk: "lookup t s' w = None" if "user_vpn w" for w
    using none0 user_vpn_index [OF that] by (simp add: lookup_def Let_def t_def C(3) walk_def)
  have ow: "own v = {?n}" by (simp add: own_def v t_def)
  show "space_ok v s'"
    using pu lk by (simp add: space_ok_def v maps_to_def areas_apart_def single_owner_def)
  have "mfree s \<inter> mheld s = {}" using inv pool.free_held by (simp add: mm_inv_def)
  then have "mheld s' - {?n} = mheld s" "insert ?n (mfree s') = mfree s" using tk'(1,3,4) by auto
  moreover have "phys s' a = phys s a" if "PPN (drop_bit 12 a) \<notin> mfree s" for a
    by (rule tk'(6)) (use that tk'(1) in metis)
  ultimately show "vm_frame no_space s v s'" using tk'(5) by (simp add: vm_frame_def ow)
  show "table_pages (mtab s') ?n \<subseteq> own v \<union> table_pages (mtab s) r" by (auto simp: ow C(4))
  show "upper_private t s'"
    using K(6) copy_walk [OF K(2) n nr T] by (simp add: upper_private_def t_def)
qed

end
