(* ===== verification/Load_Page.thy ===== *)
theory Load_Page
  imports Load_Root Demand_Paging
begin

text \<open>
  One page of a program: it is allocated, filled with bytes of the file and mapped, and the area
  that is being built grows by it.  On the abstract memory of the space this adds one page.
\<close>

subsection \<open>Filling a page\<close>

lemma copy_data_spec:
  assumes p: "reachable_ppn p" and d: "length data \<le> 4096"
  obtains m' where "copy_data (get_pa p) data m = Some m'"
    "\<And>i. i < 4096 \<Longrightarrow> m' (get_pa p + of_nat i) = (if i < length data then data ! i else m (get_pa p + of_nat i))"
    "\<And>a. PPN (drop_bit 12 a) \<noteq> p \<Longrightarrow> m' a = m a"
proof -
  have small: "unat (get_raw p) < 2 ^ 52" using p by (simp add: reachable_ppn_def)
  let ?f = "\<lambda>m i. m(get_pa p + of_nat i := data ! i)"
  have inj: "(of_nat i :: usize) = of_nat j \<longleftrightarrow> i = j" if "i < 4096" "j < 4096" for i j
    using that by (simp add: word_unat_eq_iff unat_of_nat)
  have run: "foldl ?f m [0..<n] (get_pa p + of_nat i) = (if i < n then data ! i else m (get_pa p + of_nat i))"
    if "n \<le> 4096" "i < 4096" for n i
    using that(1)
  proof (induction n)
    case (Suc n)
    then show ?case using inj [OF that(2), of n] by (auto simp: less_Suc_eq)
  qed simp
  have out: "foldl ?f m [0..<n] a = m a" if "n \<le> 4096" "PPN (drop_bit 12 a) \<noteq> p" for n a
    using that(1)
  proof (induction n)
    case (Suc n)
    have "unat (of_nat n :: usize) < 4096" using Suc.prems by (simp add: unat_of_nat)
    then have "drop_bit 12 (get_pa p + of_nat n) = get_raw p" using drop_bit_get_pa_add(1) [OF small] by simp
    then have "a \<noteq> get_pa p + of_nat n" using that(2) by (cases p) auto
    with Suc show ?case by simp
  qed simp
  have n: "min (length data) (unat PAGE_SIZE_BYTES) = length data" using d by (simp add: kconst)
  have "copy_data (get_pa p) data m = Some (foldl ?f m [0..<length data])"
    using get_ptes_mut_reachable [OF p] unfolding copy_data_def n
    by (simp add: get_ptes_mut_def table_ptr_def)
  then show ?thesis by (rule that) (use run [OF d] out [OF d] in simp_all)
qed

subsection \<open>Growing an area\<close>

abbreviation with_area :: "VMSpace \<Rightarrow> VMArea \<Rightarrow> VMSpace" where
  "with_area v a \<equiv> v\<lparr>areas := areas v @ [a]\<rparr>"

text \<open>Every page of an area is mapped, as it is for the segments of a program.\<close>

definition full_area :: "VMArea \<Rightarrow> bool" where
  "full_area a \<longleftrightarrow> (\<forall>w. contain_vpn a w \<longrightarrow> map_of (pages a) w \<noteq> None)"

lemma VPN_less_Suc:
  assumes "unat n < 2 ^ 26"
  shows "w < VPN (n + 1) \<longleftrightarrow> w < VPN n \<or> w = VPN n"
proof -
  have "unat (n + 1) = Suc (unat n)" using assms by (simp add: unat_word_ariths)
  then show ?thesis by (cases w) (auto simp: page_order word_less_nat_alt word_unat_eq_iff)
qed

lemma grow_area:
  assumes ok: "space_ok (with_area v a) s" and a: "map_type a = Anonymous" "end_vpn a = VPN n" "start_vpn a \<le> VPN n"
    and n: "unat n < 2 ^ 26" and others: "\<forall>b \<in> set (areas v). \<not> contain_vpn b (VPN n)"
  shows "space_ok (with_area v (a\<lparr>end_vpn := VPN (n + 1)\<rparr>)) s"
    "\<And>w. contain_vpn (a\<lparr>end_vpn := VPN (n + 1)\<rparr>) w \<longleftrightarrow> contain_vpn a w \<or> w = VPN n"
proof -
  let ?a = "a\<lparr>end_vpn := VPN (n + 1)\<rparr>" and ?v = "with_area v a"
  note D = space_okD [OF ok]
  show c: "contain_vpn ?a w \<longleftrightarrow> contain_vpn a w \<or> w = VPN n" for w
    using a(2,3) by (auto simp: contain_vpn_def VPN_less_Suc [OF n])
  have oka: "area_ok a" using D(2) by simp
  have "unat (n + 1) \<le> 2 ^ 26" using n by (simp add: unat_word_ariths)
  then have "area_ok ?a" using oka a(1) c by (auto simp: area_ok_def)
  moreover have "areas_apart (add_mset ?a (mset (areas v)))"
    unfolding areas_apart_def
  proof
    fix w
    have h: "holders (add_mset a (mset (areas v))) w \<le> 1" using D(3) by (simp add: areas_apart_def)
    have "holders (mset (areas v)) (VPN n) = 0" using others by (simp add: holders_def filter_mset_eq_conv)
    then show "holders (add_mset ?a (mset (areas v))) w \<le> 1" using h c by (cases "w = VPN n") auto
  qed
  moreover have bag: "area_bag ?a = area_bag a" by (simp add: area_bag_def)
  moreover have "maps_to (add_mset ?a A) w e \<longleftrightarrow> maps_to (add_mset a A) w e" for A w e
    by (simp add: maps_to_add leaf_of_def)
  ultimately show "space_ok (with_area v ?a) s" using ok by (simp add: space_ok_def)
qed

text \<open>The abstract memory with the page \<open>w\<close> added or replaced.\<close>

definition spec_page :: "VPN \<Rightarrow> usize \<Rightarrow> (nat \<Rightarrow> u8) \<Rightarrow> user_memory \<Rightarrow> user_memory" where
  "spec_page w pm c M = (\<lambda>va. if va_vpn va = w then Some (pm, c (unat (take_bit 12 va))) else M va)"

text \<open>The page \<open>p\<close> with the bytes \<open>c\<close> goes to \<open>VPN n\<close>, the end of the area \<open>a\<close>.\<close>

lemma load_page:
  assumes ok: "space_ok (with_area v a) s" and up: "upper_private (root_pgt v) s"
    and a: "map_type a = Anonymous" "end_vpn a = VPN n" "start_vpn a \<le> VPN n" "to_pte_flags (permissions a) = Inr f"
    and n: "unat n < 2 ^ 26" and full: "\<forall>b \<in> set (areas v). full_area b"
    and tk: "took_page p s s1" and c: "\<And>i. i < 4096 \<Longrightarrow> phys s1 (get_pa (get_ppn p) + of_nat i) = c i"
  defines "a' \<equiv> a\<lparr>end_vpn := VPN (n + 1), pages := snd (btm_insert (VPN n) p (pages a))\<rparr>"
  obtains (failed) err t' s2 where "map_create (VPN n) (get_ppn p) f (root_pgt v) s1 = Some (Inl err, t', s2)"
      "space_ok (with_area (v\<lparr>root_pgt := t'\<rparr>) a) (drop_page p s2)"
      "vm_frame (with_area v a) s (with_area (v\<lparr>root_pgt := t'\<rparr>) a) (drop_page p s2)"
  | (mapped) t' s2 where "map_create (VPN n) (get_ppn p) f (root_pgt v) s1 = Some (Inr (), t', s2)"
      "space_ok (with_area (v\<lparr>root_pgt := t'\<rparr>) a') s2" "vm_frame (with_area v a) s (with_area (v\<lparr>root_pgt := t'\<rparr>) a') s2"
      "upper_private t' s2" "map_of (pages a) (VPN n) = None" "fst (btm_insert (VPN n) p (pages a)) = None"
      "same_user (user_mem (with_area (v\<lparr>root_pgt := t'\<rparr>) a') s2) (spec_page (VPN n) (permissions a) c (user_mem (with_area v a) s))"
      "table_pages (mtab s2) (root_ppn t') \<subseteq>
         table_pages (mtab s) (root_ppn (root_pgt v)) \<union> own (with_area (v\<lparr>root_pgt := t'\<rparr>) a')"
      "own (with_area v a) \<subseteq> own (with_area (v\<lparr>root_pgt := t'\<rparr>) a')"
proof -
  let ?v = "with_area v a"
  have vpn: "user_vpn (VPN n)" using n by (simp add: user_vpn_def)
  show ?thesis
  proof (rule map_fresh_page [OF ok tk vpn, of f], goal_cases bad good)
    case (bad err t' s2 ps)
    have sw: "?v\<lparr>root_pgt := t'\<rparr> = with_area (v\<lparr>root_pgt := t'\<rparr>) a" by (cases v) simp
    note put = put_back_page [OF ok tk bad(2,3) fun_cong [OF bad(4)], unfolded sw]
    then show ?thesis using bad(1) by (intro failed [of err t' s2]) simp_all
  next
    case (good e t' s2 ps)
    let ?a1 = "a\<lparr>end_vpn := VPN (n + 1)\<rparr>"
    let ?v1 = "with_area v ?a1" and ?v' = "with_area (v\<lparr>root_pgt := t'\<rparr>) a'"
    note D = space_okD [OF ok]
    have none: "\<not> maps_to (marea ?v) (VPN n) x" for x using good(3) D(7) [OF vpn] by simp
    have others: "\<forall>b \<in> set (areas v). \<not> contain_vpn b (VPN n)"
    proof
      fix b assume b: "b \<in> set (areas v)"
      have "map_of (pages b) (VPN n) = None"
      proof (rule ccontr)
        assume "map_of (pages b) (VPN n) \<noteq> None"
        then obtain q where "map_of (pages b) (VPN n) = Some q" by blast
        moreover have "b \<in># marea ?v" using b by simp
        ultimately have "maps_to (marea ?v) (VPN n) (leaf_of b q)" unfolding maps_to_def by blast
        with none show False by blast
      qed
      then show "\<not> contain_vpn b (VPN n)" using full b unfolding full_area_def by (metis option.distinct(1))
    qed
    note G = grow_area [OF ok a(1,2,3) n others]
    note ok1 = G(1) and D1 = space_okD [OF G(1)]
    have oka: "area_ok ?a1" using D1(2) by simp
    have con: "contain_vpn ?a1 (VPN n)" using G(2) by simp
    have np: "map_of (pages ?a1) (VPN n) = None"
    proof (rule ccontr)
      assume "map_of (pages ?a1) (VPN n) \<noteq> None"
      then obtain q where "map_of (pages a) (VPN n) = Some q" by auto
      moreover have "a \<in># marea ?v" by simp
      ultimately have "maps_to (marea ?v) (VPN n) (leaf_of a q)" unfolding maps_to_def by blast
      with none show False by blast
    qed
    have fl: "to_pte_flags (permissions ?a1) = Inr f" using a(4) by simp
    have e: "e = leaf_of ?a1 p" by (rule PTE_new_leaf_of [OF oka fl good(2)])
    have m1: "marea ?v1 = add_mset ?a1 (mset (areas v))" by simp
    have a'_eq: "a' = ?a1\<lparr>pages := snd (btm_insert (VPN n) p (pages ?a1))\<rparr>" by (simp add: a'_def)
    have mv: "marea ?v' = add_mset (?a1\<lparr>pages := snd (btm_insert (VPN n) p (pages ?a1))\<rparr>) (mset (areas v))"
      by (simp add: a'_def)
    have g4: "pgt_user t' s2" and g5: "pgt_grows user_half (root_pgt ?v1) s1 t' s2 ps" using good(4,5) by simp_all
    have g6: "lookup t' s2 w = ((lookup (root_pgt ?v1) s)(VPN n \<mapsto> leaf_of ?a1 p)) w" if "user_vpn w" for w
      using good(6) [OF that] e by simp
    have rv: "root_pgt ?v' = t'" by simp
    note kp = keep_page [OF ok1 tk g4 g5 _ m1 con np PTE_new_sound [OF good(2), unfolded e] rv mv]
    have keep: "space_ok ?v' s2" "vm_frame ?v1 s ?v' s2" "\<And>x. PPN (drop_bit 12 x) = get_ppn p \<Longrightarrow> phys s2 x = phys s1 x"
      by (rule kp(1) kp(2) kp(3); simp only: g6)+
    have own1: "own ?v1 = own ?v" by (simp add: own_def area_bag_def)
    have fr: "vm_frame ?v s ?v' s2" using keep(2) unfolding vm_frame_def own1 .
    have kept: "body_kept ?v1 s ?v' s2"
      using data_bytes_kept [OF ok1 tk g5] g5 took_page_space(3) [OF ok1 tk] upper_root_kept [OF ok1 tk g5] a(1)
      by (auto simp: body_kept_def pgt_grows_def a'_def)
    have up': "upper_private t' s2" using upper_private_framed [OF _ ok1 keep(2) kept] up by simp
    have mem: "same_user (user_mem ?v' s2) (spec_page (VPN n) (permissions a) c (user_mem ?v s))"
      unfolding same_user_def
    proof (intro allI impI)
      fix va :: usize assume va: "unat va < 2 ^ 38"
      note w = va_vpn_user [OF va]
      note D' = space_okD [OF keep(1)]
      show "user_mem ?v' s2 va = spec_page (VPN n) (permissions a) c (user_mem ?v s) va"
      proof (cases "va_vpn va = VPN n")
        case True
        have lk: "lookup (root_pgt ?v') s2 (va_vpn va) = Some (leaf_of ?a1 p)" using g6 [OF w] True by simp
        have "get_ppn p \<in> mheld s1" "mm_inv s1" using tk by (simp_all add: took_page_def)
        then have "unat (get_raw (get_ppn p)) < 2 ^ 44" using held_ppn_small by fastforce
        then have pp: "pte_ppn (leaf_of ?a1 p) = get_ppn p" using oka by (simp add: leaf_of_fields)
        have off: "unat (take_bit 12 va) < 4096" by (simp add: bits_nat)
        have "phys s2 (get_pa (get_ppn p) + take_bit 12 va) = phys s1 (get_pa (get_ppn p) + take_bit 12 va)"
          by (rule keep(3), rule leaf_byte [OF keep(1) w lk, unfolded pp])
        also have "\<dots> = c (unat (take_bit 12 va))" using c [of "unat (take_bit 12 va)"] off by (simp only: of_nat_unat ucast_id)
        finally have "backing ?v' s2 va = c (unat (take_bit 12 va))" using lk pp by (simp add: backing_def)
        moreover have "reserved ?v' (va_vpn va) = Some (Anonymous, permissions a)"
          unfolding reserved_region [OF D'(3)] True using con a(1)
          by (simp add: a'_def contain_vpn_def)
        ultimately show ?thesis using True by (simp add: user_mem_def spec_page_def)
      next
        case False
        have "reserved ?v' (va_vpn va) = reserved ?v (va_vpn va)"
          by (rule reserved_eqI [OF D(3) D'(3)]) (use False G(2) [of "va_vpn va"] in \<open>auto simp: a'_def contain_vpn_def\<close>)
        moreover have "backing ?v' s2 va = backing ?v s va"
        proof (rule backing_kept [OF ok keep(1) va])
          show "lookup (root_pgt ?v') s2 (va_vpn va) = lookup (root_pgt ?v) s (va_vpn va)" using g6 [OF w] False by simp
          show "phys s2 x = phys s x" if "PPN (drop_bit 12 x) \<in> data_pages ?v \<inter> data_pages ?v'" for x
            using data_bytes_kept [OF ok tk good(5)] that by blast
        qed
        ultimately show ?thesis using False by (simp add: user_mem_def spec_page_def)
      qed
    qed
    have rp: "root_ppn t' = root_ppn (root_pgt v)" "set (root_pages (root_pgt v)) \<subseteq> set (root_pages t')"
      "table_pages (mtab s2) (root_ppn (root_pgt v)) \<subseteq>
         table_pages (mtab s) (root_ppn (root_pgt v)) \<union> get_ppn ` set (root_pages t')"
      using body_keptD(1,3,4) [OF kept] by simp_all
    have "data_bag (marea ?v') = add_mset (get_ppn p) (data_bag (marea ?v))"
      using insert_page(2) [OF oka con np, of p] by (simp add: mv area_bag_def a'_def)
    then have "own ?v \<subseteq> own ?v'" "get_ppn ` set (root_pages t') \<subseteq> own ?v'"
      using rp(2) unfolding own_def by auto
    then have "own ?v \<subseteq> own ?v'" "table_pages (mtab s2) (root_ppn t') \<subseteq> table_pages (mtab s) (root_ppn (root_pgt v)) \<union> own ?v'"
      using rp(1) subset_trans [OF rp(3) Un_mono [OF subset_refl]] by simp_all
    then show ?thesis using good(1) keep(1) fr up' np insert_page(4) [OF oka con np, of p] mem
      by (intro mapped [of t' s2]) simp_all
  qed
qed

end
