(* ===== verification/Load_Segment.thy ===== *)
theory Load_Segment
  imports Load_Page
begin

text \<open>
  The segments of a program: the loop over the pages of a segment, and the loop over the program
  headers.  On success the abstract memory of the space is overlaid with the segments; on
  failure everything that was taken can be given back.
\<close>

subsection \<open>Owning pages\<close>

text \<open>A space whose pages can be dropped; after a failure its areas and its table need not agree.\<close>

definition owns :: "VMSpace \<Rightarrow> mm_state \<Rightarrow> bool" where
  "owns v s \<longleftrightarrow> mm_inv s \<and> distinct (map get_ppn (space_pages v)) \<and> own v \<subseteq> mheld s"

lemma own_space_pages: "get_ppn ` set (space_pages v) = own v"
  using arg_cong [OF space_pages_bag [of v], of set_mset] by (simp add: own_def)

lemma space_ok_owns: "space_ok v s \<Longrightarrow> owns v s"
  using space_pages_distinct(1) space_okD(8,11) by (simp add: owns_def)

lemma drop_area_owns:
  assumes ok: "space_ok (with_area v a) s" and p: "pages a' = pages a"
  shows "owns v (drop_VMArea a' s)" "vm_frame (with_area v a) s v (drop_VMArea a' s)"
proof -
  let ?P = "btm_values (pages a)" and ?s = "drop_VMArea a' s"
  have sp: "space_pages (with_area v a) = space_pages v @ ?P" by (simp add: space_pages_def)
  have d: "distinct (map get_ppn (space_pages v))" "distinct (map get_ppn ?P)"
    "get_ppn ` set (space_pages v) \<inter> get_ppn ` set ?P = {}"
    using space_pages_distinct(1) [OF ok] by (simp_all add: sp)
  have o: "own (with_area v a) = own v \<union> get_ppn ` set ?P"
    unfolding own_space_pages [symmetric] sp by (simp add: image_Un)
  have dj: "own v \<inter> get_ppn ` set ?P = {}" using d(3) by (simp add: own_space_pages)
  note D = space_okD [OF ok]
  have h: "get_ppn ` set ?P \<subseteq> mheld s" using D(11) o by blast
  have s': "?s = drop_pages ?P s" by (simp add: drop_VMArea_def p)
  note dr = drop_pages_spec [OF D(8) d(2) h, folded s']
  show "owns v ?s" using dr(1,3) d(1) D(11) dj unfolding owns_def o by auto
  have "mheld ?s - own v = mheld s - (own v \<union> get_ppn ` set ?P)" using dr(3) by auto
  moreover have "own v \<union> mfree ?s = own v \<union> get_ppn ` set ?P \<union> mfree s" using dr(2) by auto
  ultimately show "vm_frame (with_area v a) s v ?s" unfolding vm_frame_def o by (simp add: s')
qed

text \<open>Dropping everything restores the allocator; only memory that was free may have changed.\<close>

lemma owns_drop:
  assumes o: "owns v s" and f: "vm_frame no_space s0 v s" and inv: "mm_inv s0"
  shows "mm_inv (drop_VMSpace v s)" "vm_frame no_space s0 no_space (drop_VMSpace v s)"
proof -
  have h: "get_ppn ` set (space_pages v) \<subseteq> mheld s" using o by (simp add: owns_def own_space_pages)
  note dr = drop_pages_spec [of s "space_pages v", folded drop_VMSpace_pages, unfolded own_space_pages]
  have d: "mm_inv (drop_VMSpace v s)" "mfree (drop_VMSpace v s) = own v \<union> mfree s" "mheld (drop_VMSpace v s) = mheld s - own v"
    using dr o by (simp_all add: owns_def)
  then show "mm_inv (drop_VMSpace v s)" by blast
  show "vm_frame no_space s0 no_space (drop_VMSpace v s)"
    using f d by (simp add: vm_frame_def drop_VMSpace_pages)
qed

subsection \<open>The invariant of loading\<close>

text \<open>
  \<open>K\<close> are the tables of the kernel and \<open>s0\<close> is the state before the space was created.  Until the
  stack is added all areas are segments with all pages mapped, below \<open>hi\<close>.
\<close>

definition load_inv :: "PPN set \<Rightarrow> mm_state \<Rightarrow> VMSpace \<Rightarrow> mm_state \<Rightarrow> bool" where
  "load_inv K s0 v s \<longleftrightarrow> space_ok v s \<and> vm_frame no_space s0 v s \<and> upper_private (root_pgt v) s \<and>
     table_pages (mtab s) (root_ppn (root_pgt v)) \<subseteq> own v \<union> K \<and>
     (\<forall>b \<in> set (areas v). full_area b \<and> map_type b = Anonymous)"

lemma load_invD:
  assumes "load_inv K s0 v s"
  shows "space_ok v s" "vm_frame no_space s0 v s" "upper_private (root_pgt v) s"
    "table_pages (mtab s) (root_ppn (root_pgt v)) \<subseteq> own v \<union> K" "\<forall>b \<in> set (areas v). full_area b"
    "\<forall>b \<in> set (areas v). map_type b = Anonymous" "owns v s"
  using assms space_ok_owns by (simp_all add: load_inv_def)

definition undone :: "mm_state \<Rightarrow> VMSpace \<Rightarrow> mm_state \<Rightarrow> bool" where
  "undone s0 v s \<longleftrightarrow> owns v s \<and> vm_frame no_space s0 v s"

lemma load_inv_undone: "load_inv K s0 v s \<Longrightarrow> undone s0 v s"
  by (simp add: undone_def load_invD)

lemma find_snoc: "\<not> P x \<Longrightarrow> find P (l @ [x]) = find P l"
  by (induction l) simp_all

text \<open>A segment starts as an empty area.\<close>

lemma empty_area:
  assumes inv: "load_inv K s0 v s" and a: "map_type a = Anonymous" "pages a = []" "end_vpn a = start_vpn a"
    "unat (vpn_raw (start_vpn a)) \<le> 2 ^ 26" "permissions a AND NOT ALL_PERMISSION_FLAGS = 0"
  shows "load_inv K s0 (with_area v a) s" "user_mem (with_area v a) s = user_mem v s"
proof -
  note L = load_invD [OF inv] and D = space_okD [OF load_invD(1) [OF inv]]
  have none: "\<not> contain_vpn a w" for w using a(3) by (auto simp: contain_vpn_def)
  have bag: "area_bag a = {#}" by (simp add: area_bag_def a(2) btm_values_def)
  have oka: "area_ok a" using a by (simp add: area_ok_def)
  have mt: "maps_to (add_mset a (marea v)) w e \<longleftrightarrow> maps_to (marea v) w e" for w e by (simp add: maps_to_add a(2))
  have "areas_apart (add_mset a (marea v))" using D(3) none by (simp add: areas_apart_def)
  then have "space_ok (with_area v a) s" using L(1) oka by (simp add: space_ok_def bag mt)
  moreover have "own (with_area v a) = own v" by (simp add: own_def bag)
  moreover have "full_area a" using none by (simp add: full_area_def)
  ultimately show "load_inv K s0 (with_area v a) s"
    using L a(1) by (simp add: load_inv_def) (simp add: vm_frame_def)
  have "reserved (with_area v a) w = reserved v w" for w using none by (simp add: reserved_def find_snoc)
  then show "user_mem (with_area v a) s = user_mem v s" by (simp add: fun_eq_iff user_mem_def backing_def)
qed

lemma load_page_inv:
  assumes inv: "load_inv K s0 (with_area v a) s"
    and a: "end_vpn a = VPN n" "start_vpn a \<le> VPN n" "to_pte_flags (permissions a) = Inr f"
    and n: "unat n < 2 ^ 26" and tk: "took_page p s s1"
    and c: "\<And>i. i < 4096 \<Longrightarrow> phys s1 (get_pa (get_ppn p) + of_nat i) = c i"
  defines "a' \<equiv> a\<lparr>end_vpn := VPN (n + 1), pages := snd (btm_insert (VPN n) p (pages a))\<rparr>"
  obtains (failed) err t' s2 where "map_create (VPN n) (get_ppn p) f (root_pgt v) s1 = Some (Inl err, t', s2)"
      "space_ok (with_area (v\<lparr>root_pgt := t'\<rparr>) a) (drop_page p s2)"
      "vm_frame no_space s0 (with_area (v\<lparr>root_pgt := t'\<rparr>) a) (drop_page p s2)"
  | (mapped) t' s2 where "map_create (VPN n) (get_ppn p) f (root_pgt v) s1 = Some (Inr (), t', s2)"
      "load_inv K s0 (with_area (v\<lparr>root_pgt := t'\<rparr>) a') s2" "fst (btm_insert (VPN n) p (pages a)) = None"
      "same_user (user_mem (with_area (v\<lparr>root_pgt := t'\<rparr>) a') s2) (spec_page (VPN n) (permissions a) c (user_mem (with_area v a) s))"
proof -
  note L = load_invD [OF inv]
  have up: "upper_private (root_pgt v) s" and anon: "map_type a = Anonymous" and full: "\<forall>b \<in> set (areas v). full_area b"
    using L(3,5,6) by simp_all
  show ?thesis
  proof (rule load_page [OF L(1) up anon a n full tk c, folded a'_def], goal_cases c bad good)
    case (c i)
    then show ?case .
  next
    case (bad err t' s2)
    then show ?thesis by (intro failed [of err t' s2] vm_frame_trans [OF L(2)])
  next
    case (good t' s2)
    have "full_area a'"
      unfolding full_area_def
    proof (intro allI impI)
      fix w assume "contain_vpn a' w"
      then have "contain_vpn a w \<or> w = VPN n" using a(1,2) by (auto simp: a'_def contain_vpn_def VPN_less_Suc [OF n])
      moreover have "btm_inv (pages a)" using space_okD(2) [OF L(1)] by (simp add: area_ok_def)
      ultimately show "map_of (pages a') w \<noteq> None" using L(5) by (auto simp: a'_def btm.get_ins full_area_def)
    qed
    then have "load_inv K s0 (with_area (v\<lparr>root_pgt := t'\<rparr>) a') s2"
      using good(2,4,8,9) L(4-6) vm_frame_trans [OF L(2) good(3)] by (auto simp: load_inv_def a'_def)
    then show ?thesis using good(1,6,7) by (intro mapped [of t' s2])
  qed
qed

subsection \<open>The pages of a segment\<close>

text \<open>
  The content of a segment: \<open>fs\<close> bytes of the file from \<open>off\<close> on, then zeros; \<open>spec_load\<close> overlays
  the pages from \<open>n\<close> up to \<open>hi\<close> with a content that starts at page \<open>lo\<close>.
\<close>

definition image_byte :: "u8 list \<Rightarrow> nat \<Rightarrow> nat \<Rightarrow> nat \<Rightarrow> u8" where
  "image_byte bytes off fs i = (if i < fs then bytes ! (off + i) else 0)"

definition spec_load :: "usize \<Rightarrow> VPN \<Rightarrow> VPN \<Rightarrow> usize \<Rightarrow> (nat \<Rightarrow> u8) \<Rightarrow> user_memory \<Rightarrow> user_memory" where
  "spec_load lo n hi pm c M =
     (\<lambda>va. if in_pages n hi va then Some (pm, c (unat va - 4096 * unat lo)) else M va)"

lemma same_user_load: "same_user M N \<Longrightarrow> same_user (spec_load lo n hi pm c M) (spec_load lo n hi pm c N)"
  by (simp add: same_user_def spec_load_def)

lemma va_split: "unat va = 4096 * unat (drop_bit 12 va) + unat (take_bit 12 (va :: usize))"
  unfolding bits_nat by simp

lemma spec_load_step:
  assumes n: "unat n < 2 ^ 26" "VPN n < hi" "unat lo \<le> unat n"
  shows "spec_load lo (VPN (n + 1)) hi pm c (spec_page (VPN n) pm (\<lambda>i. c (4096 * (unat n - unat lo) + i)) M) =
    spec_load lo (VPN n) hi pm c M"
proof
  fix va :: usize
  have "in_pages (VPN n) hi va \<longleftrightarrow> in_pages (VPN (n + 1)) hi va \<or> va_vpn va = VPN n"
    using VPN_less_Suc [OF n(1), of "va_vpn va"] n(2) by (auto simp: in_pages_def not_less [symmetric])
  moreover have "\<not> in_pages (VPN (n + 1)) hi va" if "va_vpn va = VPN n"
    using VPN_less_Suc [OF n(1), of "va_vpn va"] that by (auto simp: in_pages_def not_less [symmetric])
  moreover have "unat va - 4096 * unat lo = 4096 * (unat n - unat lo) + unat (take_bit 12 va)" if "va_vpn va = VPN n"
  proof -
    have "drop_bit 12 va = n" using that by (simp add: va_vpn_def)
    then have "unat va = 4096 * unat n + unat (take_bit 12 va)" using va_split [of va] by (simp only:)
    with n(3) show ?thesis by (simp add: diff_mult_distrib2)
  qed
  ultimately show "spec_load lo (VPN (n + 1)) hi pm c (spec_page (VPN n) pm (\<lambda>i. c (4096 * (unat n - unat lo) + i)) M) va =
      spec_load lo (VPN n) hi pm c M va"
    by (auto simp: spec_load_def spec_page_def)
qed

text \<open>Where the loop stands in the file after \<open>k\<close> pages: at the next page, or behind the end.\<close>

definition file_pos :: "nat \<Rightarrow> nat \<Rightarrow> nat \<Rightarrow> usize \<Rightarrow> bool" where
  "file_pos off fs k fp \<longleftrightarrow> unat fp = off + 4096 * k \<or> off + fs \<le> unat fp \<and> fs \<le> 4096 * k"

text \<open>Taking and filling one page.\<close>

definition fill_page :: "u8 list \<Rightarrow> usize \<Rightarrow> usize \<Rightarrow> Page \<Rightarrow> mm_state \<Rightarrow> (usize \<times> mm_state) option" where
  "fill_page bytes pos_data end_data page s =
     (if pos_data < end_data then do {
        data \<leftarrow> slice bytes pos_data (min (pos_data + PAGE_SIZE_BYTES) end_data);
        m \<leftarrow> copy_data (get_pa (get_ppn page)) data (phys s);
        Some (pos_data + PAGE_SIZE_BYTES, s\<lparr>phys := m\<rparr>)
      }
      else Some (pos_data, s))"

lemma fill_page_spec:
  assumes fp: "file_pos off fs k fp" and e: "unat e = off + fs" "off + fs \<le> length bytes" "length bytes < 2 ^ 63"
    and tk: "took_page p s s1" and z: "\<And>a. PPN (drop_bit 12 a) = get_ppn p \<Longrightarrow> phys s1 a = 0"
  obtains fp' s2 where "fill_page bytes fp e p s1 = Some (fp', s2)" "file_pos off fs (Suc k) fp'"
    "took_page p s s2" "\<And>i. i < 4096 \<Longrightarrow> phys s2 (get_pa (get_ppn p) + of_nat i) = image_byte bytes off fs (4096 * k + i)"
proof -
  have tk': "get_ppn p \<in> mheld s1" "mm_inv s1" using tk by (simp_all add: took_page_def)
  then have r: "reachable_ppn (get_ppn p)" using held_ppn_small by (simp add: reachable_ppn_def)
  have zero: "phys s1 (get_pa (get_ppn p) + of_nat i) = 0" if "i < 4096" for i
    by (rule z) (use drop_bit_get_pa_add(1) [of "get_ppn p" "of_nat i"] r that in \<open>simp add: reachable_ppn_def unat_of_nat\<close>)
  show ?thesis
  proof (cases "fp < e")
    case False
    then have "fs \<le> 4096 * k" "off + fs \<le> unat fp" using fp e(1) by (auto simp: file_pos_def word_less_nat_alt)
    then show ?thesis using False tk zero by (intro that [of fp s1]) (auto simp: fill_page_def file_pos_def image_byte_def)
  next
    case True
    then have u: "unat fp = off + 4096 * k" "4096 * k < fs" using fp e(1) by (auto simp: file_pos_def word_less_nat_alt)
    have up: "unat (fp + PAGE_SIZE_BYTES) = unat fp + 4096"
      using u e by (simp add: kconst unat_word_ariths)
    have um: "unat (min (fp + PAGE_SIZE_BYTES) e) = min (unat fp + 4096) (off + fs)"
      using up e(1) by (simp add: min_def word_le_nat_alt)
    define data where "data = take (min (unat fp + 4096) (off + fs) - unat fp) (drop (unat fp) bytes)"
    have sl: "slice bytes fp (min (fp + PAGE_SIZE_BYTES) e) = Some data"
      using um e(2) u by (auto simp: slice_def data_def word_le_nat_alt)
    have len: "length data = min 4096 (fs - 4096 * k)" using u e(2) by (auto simp: data_def)
    have nth: "data ! i = bytes ! (off + 4096 * k + i)" if "i < length data" for i
      using that u e(2) by (simp add: data_def)
    obtain m where m: "copy_data (get_pa (get_ppn p)) data (phys s1) = Some m"
      "\<And>i. i < 4096 \<Longrightarrow> m (get_pa (get_ppn p) + of_nat i) = (if i < length data then data ! i else phys s1 (get_pa (get_ppn p) + of_nat i))"
      "\<And>a. PPN (drop_bit 12 a) \<noteq> get_ppn p \<Longrightarrow> m a = phys s1 a"
      by (rule copy_data_spec [OF r, of data "phys s1"]) (use len in simp, rule that)
    have "fill_page bytes fp e p s1 = Some (fp + PAGE_SIZE_BYTES, s1\<lparr>phys := m\<rparr>)" using True sl m(1) by (simp add: fill_page_def)
    moreover have "file_pos off fs (Suc k) (fp + PAGE_SIZE_BYTES)" using up u by (simp add: file_pos_def)
    moreover have "took_page p s (s1\<lparr>phys := m\<rparr>)" using tk m(3) by (simp add: took_page_def mm_inv_def)
    moreover have "phys (s1\<lparr>phys := m\<rparr>) (get_pa (get_ppn p) + of_nat i) = image_byte bytes off fs (4096 * k + i)" if "i < 4096" for i
      using m(2) [OF that] nth [of i] zero [OF that] len that by (auto simp: image_byte_def add.assoc)
    ultimately show ?thesis by (rule that)
  qed
qed

lemma map_segment_pages_Cons:
  "map_segment_pages bytes f e (n # ns) fp area v s = do {
     (p, s) \<leftarrow> alloc_zeroed_page s;
     case p of
       None \<Rightarrow> Some (Inl VM_AcquirePageFailed, v, drop_VMArea area s)
     | Some page \<Rightarrow> do {
         (fp, s) \<leftarrow> fill_page bytes fp e page s;
         (r, v, s) \<leftarrow> VMSpace_map_create (VPN n) (get_ppn page) f v s;
         case r of
           Inl err \<Rightarrow> Some (Inl err, v, drop_VMArea area (drop_page page s))
         | Inr _ \<Rightarrow>
             (let (old, pgs) = btm_insert (VPN n) page (pages area) in
              map_segment_pages bytes f e ns fp (area\<lparr>pages := pgs\<rparr>) v (drop_page_opt old s))
       }
   }"
  by (simp only: map_segment_pages.simps fill_page_def Let_def)

definition seg_result ::
  "PPN set \<Rightarrow> mm_state \<Rightarrow> VMSpace \<Rightarrow> usize \<Rightarrow> VPN \<Rightarrow> user_memory \<Rightarrow> (VMError + unit) \<times> VMSpace \<times> mm_state \<Rightarrow> bool" where
  "seg_result K s0 v lo hi M x \<longleftrightarrow>
     (case x of
        (Inl _, v', s') \<Rightarrow> undone s0 v' s'
      | (Inr _, v', s') \<Rightarrow> load_inv K s0 v' s' \<and> same_user (user_mem v' s') M \<and>
          (\<exists>a'. areas v' = areas v @ [a'] \<and> start_vpn a' = VPN lo \<and> end_vpn a' = hi))"

lemma map_segment_pages_spec:
  assumes "load_inv K s0 (with_area v a) s"
    and "end_vpn a = VPN n" "start_vpn a = VPN lo" "unat lo \<le> unat n" "to_pte_flags (permissions a) = Inr f"
    and "unat n \<le> unat hi" "file_pos off fs (unat n - unat lo) fp"
    and hi: "unat hi \<le> 2 ^ 26" and e: "unat e = off + fs" "off + fs \<le> length bytes" "length bytes < 2 ^ 63"
  shows "\<exists>x. map_segment_pages bytes f e (range_usize n hi) fp (a\<lparr>end_vpn := VPN hi\<rparr>) v s = Some x \<and>
    seg_result K s0 v lo (VPN hi)
      (spec_load lo (VPN n) (VPN hi) (permissions a) (image_byte bytes off fs) (user_mem (with_area v a) s)) x"
  using assms(1-7)
proof (induction "unat hi - unat n" arbitrary: n fp a v s)
  case 0
  then have n: "n = hi" by (simp add: word_unat_eq_iff)
  have ar: "a\<lparr>end_vpn := VPN hi\<rparr> = a" using 0(3) by (cases a) (simp add: n)
  have "spec_load lo (VPN hi) (VPN hi) pm c M = M" for pm c M by (auto simp: spec_load_def in_pages_def fun_eq_iff)
  then show ?case using 0 unfolding n ar by (simp add: seg_result_def same_user_def vec_push_def)
next
  case (Suc d)
  let ?ar = "a\<lparr>end_vpn := VPN hi\<rparr>" and ?c = "image_byte bytes off fs" and ?k = "unat n - unat lo"
  have lt: "unat n < unat hi" "unat n < 2 ^ 26" using Suc.hyps(2) hi by linarith+
  have n1: "unat (n + 1) = Suc (unat n)" using lt(2) by (simp add: unat_word_ariths)
  have rng: "range_usize n hi = n # range_usize (n + 1) hi" by (rule range_usize_Cons) (simp add: word_less_nat_alt lt)
  note L = load_invD [OF Suc.prems(1)] and code = map_segment_pages_Cons [of bytes f e n "range_usize (n + 1) hi" fp ?ar v s, folded rng]
  have ar: "pages ?ar = pages a" by simp
  show ?case
  proof (rule alloc_zeroed_took [OF space_okD(8) [OF L(1)]])
    assume al: "alloc_zeroed_page s = Some (None, s)"
    note dr = drop_area_owns [OF L(1) ar]
    have "undone s0 v (drop_VMArea ?ar s)" using dr(1) vm_frame_trans [OF L(2) dr(2)] by (simp add: undone_def)
    then show ?case unfolding code using al by (simp add: seg_result_def)
  next
    fix p s1 assume al: "alloc_zeroed_page s = Some (Some p, s1)" "took_page p s s1"
      and z: "\<And>a. PPN (drop_bit 12 a) = get_ppn p \<Longrightarrow> phys s1 a = 0"
    obtain fp' s2 where fill: "fill_page bytes fp e p s1 = Some (fp', s2)" "file_pos off fs (Suc ?k) fp'"
      "took_page p s s2" "\<And>i. i < 4096 \<Longrightarrow> phys s2 (get_pa (get_ppn p) + of_nat i) = ?c (4096 * ?k + i)"
      by (rule fill_page_spec [OF Suc.prems(7) e al(2) z]) (assumption, rule that)
    have le: "start_vpn a \<le> VPN n" using Suc.prems(3,4) by (simp add: page_order word_le_nat_alt)
    show ?case
    proof (rule load_page_inv [OF Suc.prems(1,2) le Suc.prems(5) lt(2) fill(3,4)], goal_cases c bad good)
      case (bad err t' s3)
      note dr = drop_area_owns [OF bad(2) ar]
      have "undone s0 (v\<lparr>root_pgt := t'\<rparr>) (drop_VMArea ?ar (drop_page p s3))"
        using dr(1) vm_frame_trans [OF bad(3) dr(2)] by (simp add: undone_def)
      then show ?thesis unfolding code using al(1) fill(1) bad(1) by (simp add: seg_result_def VMSpace_map_create_def)
    next
      case (good t' s3)
      let ?v = "v\<lparr>root_pgt := t'\<rparr>" and ?a = "a\<lparr>end_vpn := VPN (n + 1), pages := snd (btm_insert (VPN n) p (pages a))\<rparr>"
      have fp1: "file_pos off fs (unat (n + 1) - unat lo) fp'" using fill(2) n1 Suc.prems(4) by (simp add: Suc_diff_le)
      have "\<exists>x. map_segment_pages bytes f e (range_usize (n + 1) hi) fp' (?a\<lparr>end_vpn := VPN hi\<rparr>) ?v s3 = Some x \<and>
        seg_result K s0 ?v lo (VPN hi) (spec_load lo (VPN (n + 1)) (VPN hi) (permissions ?a) ?c (user_mem (with_area ?v ?a) s3)) x"
        by (rule Suc.hyps(1)) (use Suc.hyps(2) Suc.prems(3-5) lt n1 good(2) fp1 in simp_all)
      then obtain x where x: "map_segment_pages bytes f e (range_usize (n + 1) hi) fp' (?a\<lparr>end_vpn := VPN hi\<rparr>) ?v s3 = Some x"
        "seg_result K s0 ?v lo (VPN hi) (spec_load lo (VPN (n + 1)) (VPN hi) (permissions ?a) ?c (user_mem (with_area ?v ?a) s3)) x"
        by blast
      have "?ar\<lparr>pages := snd (btm_insert (VPN n) p (pages a))\<rparr> = ?a\<lparr>end_vpn := VPN hi\<rparr>" by (cases a) simp
      note x1 = x(1) [folded this]
      have run: "map_segment_pages bytes f e (range_usize n hi) fp ?ar v s = Some x"
        unfolding code using al(1) fill(1) good(1,3) x1
        by (simp add: VMSpace_map_create_def drop_page_opt_def case_prod_beta Let_def)
      have "VPN n < VPN hi" using lt(1) by (simp add: page_order word_less_nat_alt)
      note st = spec_load_step [OF lt(2) this Suc.prems(4)]
      have "same_user (spec_load lo (VPN (n + 1)) (VPN hi) (permissions ?a) ?c (user_mem (with_area ?v ?a) s3))
          (spec_load lo (VPN n) (VPN hi) (permissions a) ?c (user_mem (with_area v a) s))"
        using same_user_load [OF good(4), of lo "VPN (n + 1)" "VPN hi" "permissions a" ?c] by (simp only: st) simp
      then have "seg_result K s0 v lo (VPN hi) (spec_load lo (VPN n) (VPN hi) (permissions a) ?c (user_mem (with_area v a) s)) x"
        using x(2) same_user_trans by (auto simp: seg_result_def split: sum.splits)
      with run show ?thesis by blast
    qed
  qed
qed

subsection \<open>Segments and headers\<close>

text \<open>
  A segment of the file, placed in whole pages, and what a file must satisfy: an alignment that is
  not 0 (else the kernel divides by it), an address range below the stack, and file bytes that
  exist.  Segments that share a page are refused by the page table and need not be excluded.
\<close>

definition ph_lo :: "ProgramHeader \<Rightarrow> usize" where
  "ph_lo ph = drop_bit 12 (ph_virtual_addr ph)"

definition ph_hi :: "ProgramHeader \<Rightarrow> usize" where
  "ph_hi ph = drop_bit 12 (ph_virtual_addr ph + ph_mem_size ph + PAGE_SIZE_BYTES - 1)"

definition spec_segment :: "u8 list \<Rightarrow> ProgramHeader \<Rightarrow> user_memory \<Rightarrow> user_memory" where
  "spec_segment bytes ph = spec_load (ph_lo ph) (VPN (ph_lo ph)) (VPN (ph_hi ph)) (get_permissions_from_ph_flags ph)
     (image_byte bytes (unat (ph_offset ph)) (unat (ph_file_size ph)))"

definition STACK_START :: usize where
  "STACK_START = USER_SPACE_END - USER_STACK_MAX_SIZE_BYTES"

definition segment_fits :: "u8 list \<Rightarrow> ProgramHeader \<Rightarrow> bool" where
  "segment_fits bytes ph \<longleftrightarrow> ph_align ph \<noteq> 0 \<and>
     unat (ph_virtual_addr ph) + unat (ph_mem_size ph) \<le> unat STACK_START \<and>
     unat (ph_offset ph) + unat (ph_file_size ph) \<le> length bytes"

definition program_fits :: "u8 list \<Rightarrow> ElfFile \<Rightarrow> bool" where
  "program_fits bytes elf \<longleftrightarrow> length bytes < 2 ^ 63 \<and>
     (\<forall>ph \<in> set (program_iter elf). ph_is_load ph = Inr True \<longrightarrow> segment_fits bytes ph)"

lemma STACK_START_val [kconst]: "STACK_START = 0x3fff7ff000"
  by (simp add: STACK_START_def kconst)

lemma segment_area:
  assumes "segment_fits bytes ph"
  shows "create_area_from_ph ph = Some (VMArea_new (VPN (ph_lo ph)) (VPN (ph_hi ph)) Anonymous (get_permissions_from_ph_flags ph))"
    "unat (ph_lo ph) \<le> unat (ph_hi ph)" "unat (ph_hi ph) \<le> unat (drop_bit 12 STACK_START)"
proof -
  let ?e = "ph_virtual_addr ph + ph_mem_size ph + PAGE_SIZE_BYTES - 1"
  have sum: "unat (ph_virtual_addr ph) + unat (ph_mem_size ph) \<le> 0x3fff7ff000"
    using assms by (simp add: segment_fits_def kconst)
  have e': "?e = ph_virtual_addr ph + ph_mem_size ph + 0xfff" by (simp add: kconst)
  have e: "unat ?e = unat (ph_virtual_addr ph) + unat (ph_mem_size ph) + 4095"
    unfolding e' using sum by (simp add: unat_word_ariths)
  have v: "VPN_from_va (ph_virtual_addr ph) = Some (VPN (ph_lo ph))" "VPN_from_va ?e = Some (VPN (ph_hi ph))"
    using sum e by (simp_all add: VPN_from_user_va va_vpn_def ph_lo_def ph_hi_def)
  then show "create_area_from_ph ph = Some (VMArea_new (VPN (ph_lo ph)) (VPN (ph_hi ph)) Anonymous (get_permissions_from_ph_flags ph))"
    by (simp add: create_area_from_ph_def)
  have "unat (ph_hi ph) = unat ?e div 4096" "unat (ph_lo ph) = unat (ph_virtual_addr ph) div 4096"
    unfolding ph_hi_def ph_lo_def bits_nat by simp_all
  then show "unat (ph_lo ph) \<le> unat (ph_hi ph)" "unat (ph_hi ph) \<le> unat (drop_bit 12 STACK_START)"
    using e sum by (simp_all add: div_le_mono kconst)
qed

lemma ph_permissions: "get_permissions_from_ph_flags ph AND NOT ALL_PERMISSION_FLAGS = 0"
  by (simp add: get_permissions_from_ph_flags_def Let_def ALL_PERMISSION_FLAGS_def PERMISSION_R_def
      PERMISSION_W_def PERMISSION_X_def PERMISSION_U_def flag_vals)

definition load_result ::
  "PPN set \<Rightarrow> mm_state \<Rightarrow> user_memory \<Rightarrow> (VMError + unit) \<times> VMSpace \<times> mm_state \<Rightarrow> bool" where
  "load_result K s0 M x \<longleftrightarrow>
     (case x of
        (Inl _, v', s') \<Rightarrow> undone s0 v' s'
      | (Inr _, v', s') \<Rightarrow> load_inv K s0 v' s' \<and> same_user (user_mem v' s') M \<and>
          (\<forall>a \<in> set (areas v'). end_vpn a \<le> VPN (drop_bit 12 STACK_START)))"

lemma map_user_elf_segment_spec:
  assumes inv: "load_inv K s0 v s" and low: "\<forall>a \<in> set (areas v). end_vpn a \<le> VPN (drop_bit 12 STACK_START)"
    and fits: "segment_fits bytes ph" and len: "length bytes < 2 ^ 63"
  shows "\<exists>x. map_user_elf_segment bytes ph v s = Some x \<and> load_result K s0 (spec_segment bytes ph (user_mem v s)) x"
proof (cases "PAGE_SIZE_BYTES mod ph_align ph = 0")
  case False
  moreover have "ph_align ph \<noteq> 0" using fits by (simp add: segment_fits_def)
  ultimately show ?thesis using load_inv_undone [OF inv] by (simp add: map_user_elf_segment_def load_result_def)
next
  case True
  let ?pm = "get_permissions_from_ph_flags ph" and ?lo = "ph_lo ph" and ?hi = "ph_hi ph"
  let ?a = "VMArea_new (VPN ?lo) (VPN ?lo) Anonymous ?pm"
  let ?e = "ph_offset ph + ph_file_size ph"
  note A = segment_area [OF fits]
  have fit: "unat (ph_offset ph) + unat (ph_file_size ph) \<le> length bytes" "ph_align ph \<noteq> 0" using fits by (simp_all add: segment_fits_def)
  obtain f where f: "to_pte_flags ?pm = Inr f" using ph_permissions [of ph] by (simp add: to_pte_flags_def)
  have hi: "unat ?hi \<le> 2 ^ 26" using A(3) by (simp add: kconst)
  have area: "VMArea_new (VPN ?lo) (VPN ?hi) Anonymous ?pm = ?a\<lparr>end_vpn := VPN ?hi\<rparr>" by (simp add: VMArea_new_def)
  have lo26: "unat ?lo \<le> 2 ^ 26" using hi A(2) by linarith
  have a0: "load_inv K s0 (with_area v ?a) s" "user_mem (with_area v ?a) s = user_mem v s"
    by (rule empty_area [OF inv]; use lo26 ph_permissions in \<open>simp add: VMArea_new_def\<close>)+
  have e: "unat ?e = unat (ph_offset ph) + unat (ph_file_size ph)" using fit(1) len by (simp add: unat_word_ariths)
  have fp: "file_pos (unat (ph_offset ph)) (unat (ph_file_size ph)) (unat ?lo - unat ?lo) (ph_offset ph)" by (simp add: file_pos_def)
  have av: "end_vpn ?a = VPN ?lo" "start_vpn ?a = VPN ?lo" "permissions ?a = ?pm" by (simp_all add: VMArea_new_def)
  have fa: "to_pte_flags (permissions ?a) = Inr f" unfolding av(3) by (rule f)
  obtain x where x: "map_segment_pages bytes f ?e (range_usize ?lo ?hi) (ph_offset ph) (?a\<lparr>end_vpn := VPN ?hi\<rparr>) v s = Some x"
    "seg_result K s0 v ?lo (VPN ?hi) (spec_segment bytes ph (user_mem v s)) x"
    using map_segment_pages_spec [OF a0(1) av(1,2) le_refl fa A(2) fp hi e fit(1) len] unfolding a0(2) av(3) spec_segment_def by blast
  have "map_user_elf_segment bytes ph v s = Some x"
    using True fit(2) A(1) f x(1) area by (simp add: map_user_elf_segment_def) (simp add: VMArea_new_def)
  moreover have "VPN ?hi \<le> VPN (drop_bit 12 STACK_START)" using A(3) by (simp add: page_order word_le_nat_alt)
  then have "load_result K s0 (spec_segment bytes ph (user_mem v s)) x"
    using x(2) low by (auto simp: seg_result_def load_result_def split: sum.splits)
  ultimately show ?thesis by blast
qed

text \<open>The headers that are segments, in their order.\<close>

definition spec_program :: "u8 list \<Rightarrow> ProgramHeader list \<Rightarrow> user_memory \<Rightarrow> user_memory" where
  "spec_program bytes phs = fold (spec_segment bytes) (filter (\<lambda>ph. ph_is_load ph = Inr True) phs)"

lemma same_user_program:
  assumes "same_user M N"
  shows "same_user (spec_program bytes phs M) (spec_program bytes phs N)"
proof -
  have "same_user (fold (spec_segment bytes) l M) (fold (spec_segment bytes) l N)" if "same_user M N" for l M N
    using that by (induction l arbitrary: M N) (simp_all add: same_user_load spec_segment_def)
  with assms show ?thesis by (simp add: spec_program_def)
qed

definition segments_low :: "VMSpace \<Rightarrow> bool" where
  "segments_low v \<longleftrightarrow> (\<forall>a \<in> set (areas v). end_vpn a \<le> VPN (drop_bit 12 STACK_START))"

lemma map_user_elf_headers_spec:
  assumes "load_inv K s0 v s" "segments_low v" and len: "length bytes < 2 ^ 63"
    and "\<forall>ph \<in> set phs. ph_is_load ph = Inr True \<longrightarrow> segment_fits bytes ph"
  shows "\<exists>x. map_user_elf_headers bytes phs v s = Some x \<and> load_result K s0 (spec_program bytes phs (user_mem v s)) x"
  using assms(1,2,4)
proof (induction phs arbitrary: v s)
  case Nil
  then show ?case by (simp add: load_result_def spec_program_def same_user_def segments_low_def)
next
  case (Cons ph phs)
  have rest: "\<forall>ph \<in> set phs. ph_is_load ph = Inr True \<longrightarrow> segment_fits bytes ph" using Cons.prems(3) by simp
  show ?case
  proof (cases "ph_is_load ph")
    case (Inl msg)
    then show ?thesis using load_inv_undone [OF Cons.prems(1)] by (simp add: load_result_def)
  next
    case (Inr load)
    show ?thesis
    proof (cases load)
      case False
      then have "spec_program bytes (ph # phs) = spec_program bytes phs" using Inr by (simp add: spec_program_def)
      then show ?thesis using Inr False Cons.IH [OF Cons.prems(1,2) rest] by simp
    next
      case True
      then have fits: "segment_fits bytes ph" using Inr Cons.prems(3) by simp
      obtain r v1 s1 where seg: "map_user_elf_segment bytes ph v s = Some (r, v1, s1)"
        "load_result K s0 (spec_segment bytes ph (user_mem v s)) (r, v1, s1)"
        using map_user_elf_segment_spec [OF Cons.prems(1) _ fits len] Cons.prems(2) by (auto simp: segments_low_def)
      show ?thesis
      proof (cases r)
        case (Inl err)
        then show ?thesis using seg Inr True by (simp add: load_result_def)
      next
        case r: (Inr u)
        then have ok: "load_inv K s0 v1 s1" "segments_low v1" "same_user (user_mem v1 s1) (spec_segment bytes ph (user_mem v s))"
          using seg(2) by (simp_all add: load_result_def segments_low_def)
        obtain x where x: "map_user_elf_headers bytes phs v1 s1 = Some x"
          "load_result K s0 (spec_program bytes phs (user_mem v1 s1)) x"
          using Cons.IH [OF ok(1,2) rest] by blast
        have "spec_program bytes (ph # phs) (user_mem v s) = spec_program bytes phs (spec_segment bytes ph (user_mem v s))"
          using Inr True by (simp add: spec_program_def)
        then have "load_result K s0 (spec_program bytes (ph # phs) (user_mem v s)) x"
          using x(2) same_user_trans same_user_program [OF ok(3), of bytes phs]
          by (auto simp: load_result_def split: sum.splits)
        with x(1) seg(1) Inr True r show ?thesis by simp
      qed
    qed
  qed
qed

end
