(* ===== verification/Load_Space.thy ===== *)
theory Load_Space
  imports Load_Segment
begin

text \<open>
  The construction of a user space as a whole: the program, the user stack and the kernel stack
  on top of a copy of the kernel's root table.
\<close>

subsection \<open>The program\<close>

lemma space_fields [simp]:
  "space_ok (v\<lparr>entry_addr := x\<rparr>) s \<longleftrightarrow> space_ok v s" "own (v\<lparr>entry_addr := x\<rparr>) = own v"
  "space_ok (v\<lparr>u_stack_end := x\<rparr>) s \<longleftrightarrow> space_ok v s" "own (v\<lparr>u_stack_end := x\<rparr>) = own v"
  "space_ok (v\<lparr>k_stack_end := x\<rparr>) s \<longleftrightarrow> space_ok v s" "own (v\<lparr>k_stack_end := x\<rparr>) = own v"
  "vm_frame w s0 (v\<lparr>entry_addr := x\<rparr>) s \<longleftrightarrow> vm_frame w s0 v s"
  "vm_frame w s0 (v\<lparr>u_stack_end := x\<rparr>) s \<longleftrightarrow> vm_frame w s0 v s"
  "vm_frame w s0 (v\<lparr>k_stack_end := x\<rparr>) s \<longleftrightarrow> vm_frame w s0 v s"
  by (simp_all add: space_ok_def own_def vm_frame_def)

lemma user_mem_fields [simp]:
  "user_mem (v\<lparr>entry_addr := x\<rparr>) s = user_mem v s" "user_mem (v\<lparr>u_stack_end := x\<rparr>) s = user_mem v s"
  "user_mem (v\<lparr>k_stack_end := x\<rparr>) s = user_mem v s"
  by (simp_all add: fun_eq_iff user_mem_def reserved_def backing_def)

lemma map_user_elf_spec:
  assumes inv: "load_inv K s0 v s" and low: "segments_low v"
    and fits: "\<And>elf. ElfFile_new bytes = Inr elf \<Longrightarrow> program_fits bytes elf"
  obtains (failed) err v' s' where "map_user_elf ElfFile_new bytes v s = Some (Inl err, v', s')" "undone s0 v' s'"
  | (loaded) elf v' s' where "map_user_elf ElfFile_new bytes v s = Some (Inr (), v', s')" "ElfFile_new bytes = Inr elf"
      "load_inv K s0 v' s'" "segments_low v'" "entry_addr v' = entry_point elf"
      "same_user (user_mem v' s') (spec_program bytes (program_iter elf) (user_mem v s))"
proof (cases "ElfFile_new bytes")
  case (Inl msg)
  then show ?thesis using load_inv_undone [OF inv] by (intro failed) (simp add: map_user_elf_def)
next
  case (Inr elf)
  have f: "length bytes < 2 ^ 63" "\<forall>ph \<in> set (program_iter elf). ph_is_load ph = Inr True \<longrightarrow> segment_fits bytes ph"
    using fits [OF Inr] by (simp_all add: program_fits_def)
  obtain r v1 s1 where run: "map_user_elf_headers bytes (program_iter elf) v s = Some (r, v1, s1)"
    "load_result K s0 (spec_program bytes (program_iter elf) (user_mem v s)) (r, v1, s1)"
    using map_user_elf_headers_spec [OF inv low f] by auto
  show ?thesis
  proof (cases r)
    case (Inl err)
    then show ?thesis using run Inr by (intro failed) (simp_all add: map_user_elf_def load_result_def)
  next
    case r: (Inr u)
    then show ?thesis using run Inr
      by (intro loaded [of "v1\<lparr>entry_addr := entry_point elf\<rparr>" s1 elf])
        (simp_all add: map_user_elf_def load_result_def load_inv_def segments_low_def)
  qed
qed

subsection \<open>The user stack\<close>

definition STACK_LO :: VPN where "STACK_LO = VPN (drop_bit 12 STACK_START)"
definition STACK_TOP :: usize where "STACK_TOP = drop_bit 12 (USER_SPACE_END - PAGE_SIZE_BYTES)"
definition STACK_HI :: VPN where "STACK_HI = VPN (drop_bit 12 USER_SPACE_END)"
definition STACK_PERMS :: usize where "STACK_PERMS = PERMISSION_R OR PERMISSION_W OR PERMISSION_U"

lemma stack_vals [kconst]:
  "STACK_LO = VPN 0x3fff7ff" "STACK_TOP = 0x3fffffe" "STACK_HI = VPN 0x3ffffff" "STACK_PERMS = 0x16"
  by (simp_all add: STACK_LO_def STACK_TOP_def STACK_HI_def STACK_PERMS_def STACK_START_val mm_const_vals
      drop_bit_eq_div PERMISSION_R_def PERMISSION_W_def PERMISSION_U_def flag_vals)

lemma stack_vpns:
  "VPN_from_va (USER_SPACE_END - PAGE_SIZE_BYTES) = Some (VPN STACK_TOP)"
  "VPN_from_va USER_SPACE_END = Some STACK_HI"
  "VPN_from_va (USER_SPACE_END - USER_STACK_MAX_SIZE_BYTES) = Some STACK_LO"
  unfolding STACK_TOP_def STACK_HI_def STACK_LO_def STACK_START_def
  by (subst VPN_from_user_va; simp add: mm_const_vals va_vpn_def)+

text \<open>The program with its stack: the last 8 MiB of user space, zeroed.\<close>

definition spec_stack :: "user_memory \<Rightarrow> user_memory" where
  "spec_stack = spec_reserve STACK_LO STACK_HI STACK_PERMS"

lemma spec_stack_top:
  "spec_page (VPN STACK_TOP) STACK_PERMS (\<lambda>_. 0) (spec_reserve STACK_LO (VPN STACK_TOP) STACK_PERMS M) = spec_stack M"
proof
  fix va
  have "STACK_HI = VPN (STACK_TOP + 1)" "unat STACK_TOP < 2 ^ 26" by (simp_all add: kconst)
  note * = VPN_less_Suc [OF this(2), of "va_vpn va", folded this(1)]
  have "STACK_LO \<le> VPN STACK_TOP" by (simp add: kconst page_order)
  then show "spec_page (VPN STACK_TOP) STACK_PERMS (\<lambda>_. 0) (spec_reserve STACK_LO (VPN STACK_TOP) STACK_PERMS M) va = spec_stack M va"
    using * by (auto simp: spec_page_def spec_stack_def spec_reserve_def in_pages_def)
qed

text \<open>
  After the stack: everything but the kernel stack.
\<close>

definition user_built :: "PPN set \<Rightarrow> mm_state \<Rightarrow> VMSpace \<Rightarrow> mm_state \<Rightarrow> bool" where
  "user_built K s0 v s \<longleftrightarrow> space_ok v s \<and> vm_frame no_space s0 v s \<and> upper_private (root_pgt v) s \<and>
     table_pages (mtab s) (root_ppn (root_pgt v)) \<subseteq> own v \<union> K \<and> (\<forall>b \<in> set (areas v). map_type b = Anonymous)"

lemma add_user_stack_area_spec:
  assumes inv: "load_inv K s0 v s" and low: "segments_low v"
  obtains (failed) err v' s' where "add_user_stack_area v s = Some (Inl err, v', s')" "undone s0 v' s'"
  | (added) v' s' where "add_user_stack_area v s = Some (Inr (), v', s')" "user_built K s0 v' s'"
      "entry_addr v' = entry_addr v" "u_stack_end v' = USER_SPACE_END"
      "same_user (user_mem v' s') (spec_stack (user_mem v s))"
proof -
  let ?a = "VMArea_new STACK_LO (VPN STACK_TOP) Anonymous STACK_PERMS" and ?pm = "PERMISSION_R OR PERMISSION_W OR PERMISSION_U"
  note L = load_invD [OF inv]
  have pm: "?pm = STACK_PERMS" by (simp add: STACK_PERMS_def)
  have valid: "STACK_PERMS AND NOT ALL_PERMISSION_FLAGS = 0"
    by (simp add: STACK_PERMS_def ALL_PERMISSION_FLAGS_def PERMISSION_R_def PERMISSION_W_def PERMISSION_X_def PERMISSION_U_def flag_vals)
  obtain f where f: "to_pte_flags STACK_PERMS = Inr f" using valid by (simp add: to_pte_flags_def)
  have free: "\<forall>b \<in> set (areas v). end_vpn b \<le> STACK_LO \<or> VPN STACK_TOP \<le> start_vpn b"
    using low by (simp add: segments_low_def STACK_LO_def)
  have new: "add_new_area v STACK_LO (VPN STACK_TOP) Anonymous STACK_PERMS = (Inr (), with_area v ?a)"
    using free valid by (auto simp: add_new_area_def list_all_iff vec_push_def page_order kconst)
  have side: "unat (vpn_raw (VPN STACK_TOP)) \<le> 2 ^ 26" by (simp add: kconst)
  have A: "space_ok (with_area v ?a) s" "own (with_area v ?a) = own v"
    using add_new_area_ok [OF L(1) new] side by simp_all
  have mem: "same_user (user_mem (with_area v ?a) s) (spec_reserve STACK_LO (VPN STACK_TOP) STACK_PERMS (user_mem v s))"
    by (rule mmap_mem(1) [OF L(1) A(1) _ _ free]) simp_all
  have giveback: "undone s0 w t" if "space_ok (with_area w ?a) t" "vm_frame (with_area v ?a) s (with_area w ?a) t" for w t
  proof -
    have dr0: "drop_VMArea ?a t = t" by (simp add: drop_VMArea_def drop_pages_def VMArea_new_def btm_values_def)
    note dr = drop_area_owns [OF that(1) refl, unfolded dr0]
    have "vm_frame v s (with_area w ?a) t" using that(2) by (simp add: vm_frame_def A(2))
    with dr show ?thesis using vm_frame_trans [OF vm_frame_trans [OF L(2)] dr(2)] by (simp add: undone_def)
  qed
  show ?thesis
  proof (rule alloc_zeroed_took [OF space_okD(8) [OF L(1)]])
    assume "alloc_zeroed_page s = Some (None, s)"
    then show ?thesis using f load_inv_undone [OF inv] by (intro failed) (simp_all add: add_user_stack_area_def pm)
  next
    fix p s1 assume al: "alloc_zeroed_page s = Some (Some p, s1)" "took_page p s s1"
      and z: "\<And>a. PPN (drop_bit 12 a) = get_ppn p \<Longrightarrow> phys s1 a = 0"
    have tk': "get_ppn p \<in> mheld s1" "mm_inv s1" using al(2) by (simp_all add: took_page_def)
    have r: "unat (get_raw (get_ppn p)) < 2 ^ 52" using held_ppn_small [OF tk'(2,1)] by simp
    have zero: "phys s1 (get_pa (get_ppn p) + of_nat i) = 0" if "i < 4096" for i
      by (rule z) (use drop_bit_get_pa_add(1) [OF r, of "of_nat i"] that in \<open>simp add: unat_of_nat\<close>)
    have a: "map_type ?a = Anonymous" "end_vpn ?a = VPN STACK_TOP" "start_vpn ?a \<le> VPN STACK_TOP"
      "to_pte_flags (permissions ?a) = Inr f" "unat STACK_TOP < 2 ^ 26" "permissions ?a = STACK_PERMS"
      using f by (simp_all add: VMArea_new_def) (simp_all add: kconst page_order)
    note code = add_user_stack_area_def [of v s, unfolded pm Let_def stack_vpns f sum.case al(1) Option.bind.bind_lunit prod.case option.case]
    show ?thesis
    proof (rule load_page [OF A(1) L(3) a(1-5) L(5) al(2) zero], goal_cases c bad good)
      case (bad err t' s2)
      then show ?thesis using giveback [OF bad(2,3)]
        by (intro failed [of _ "v\<lparr>root_pgt := t'\<rparr>" "drop_page p s2"]) (simp_all add: code VMSpace_map_create_def)
    next
      case (good t' s2)
      let ?b = "?a\<lparr>end_vpn := VPN (STACK_TOP + 1), pages := snd (btm_insert (VPN STACK_TOP) p (pages ?a))\<rparr>"
      let ?v = "with_area (v\<lparr>root_pgt := t'\<rparr>) ?b"
      have b: "VMArea_new STACK_LO STACK_HI Anonymous STACK_PERMS\<lparr>pages := snd (btm_insert (VPN STACK_TOP) p [])\<rparr> = ?b"
        by (simp add: VMArea_new_def kconst)
      have run: "add_user_stack_area v s = Some (Inr (), ?v\<lparr>u_stack_end := USER_SPACE_END\<rparr>, s2)"
        unfolding b [symmetric] using good(1) by (simp add: code VMSpace_map_create_def vec_push_def VMArea_new_def)
      have fr: "vm_frame no_space s0 ?v s2" using vm_frame_trans [OF L(2), of "with_area v ?a" s] good(3) A(2)
        by (intro vm_frame_trans [OF _ good(3)]) (use L(2) A(2) in \<open>simp add: vm_frame_def\<close>)
      have "table_pages (mtab s2) (root_ppn t') \<subseteq> own ?v \<union> K"
        using good(8) good(9) L(4) A(2) by auto
      then have "user_built K s0 ?v s2" using good(2,4) fr L(6) by (simp add: user_built_def VMArea_new_def)
      moreover have "same_user (user_mem ?v s2) (spec_stack (user_mem v s))"
        using same_user_trans [OF good(7), of "spec_stack (user_mem v s)"] mem
        unfolding spec_stack_top [symmetric] a(6) by (simp add: same_user_def spec_page_def)
      ultimately show ?thesis using run by (intro added [of "?v\<lparr>u_stack_end := USER_SPACE_END\<rparr>" s2]) (simp_all add: user_built_def)
    qed
  qed
qed

subsection \<open>The kernel stack\<close>

text \<open>
  The page number behind a page in the linear map.  The page at the very top of the map has no
  successor there, so memory must end before it.
\<close>

definition room :: "mm_state \<Rightarrow> bool" where
  "room s \<longleftrightarrow> (\<forall>p \<in> mfree s. unat (get_raw p) < 2 ^ 26 - 1)"

lemma kernel_vpn:
  assumes "unat (get_raw p) < 2 ^ 26 - 1"
  defines "w \<equiv> drop_bit 12 (get_pa p + KERNEL_VA_OFFSET)"
  shows "VPN_from_va (get_pa p + KERNEL_VA_OFFSET) = Some (VPN w)"
    "VPN_from_va (get_pa p + KERNEL_VA_OFFSET + PAGE_SIZE_BYTES) = Some (VPN (w + 1))"
    "get_va (VPN (w + 1)) = get_pa p + KERNEL_VA_OFFSET + PAGE_SIZE_BYTES"
    "2 ^ 26 \<le> unat w" "unat w < 2 ^ 52 - 1"
proof -
  let ?va = "get_pa p + KERNEL_VA_OFFSET"
  have pa: "unat (get_pa p) = unat (get_raw p) * 4096" using assms(1) by (simp add: unat_get_pa)
  have va: "unat ?va = unat (get_raw p) * 4096 + (2 ^ 64 - 2 ^ 38)"
    using assms(1) by (simp add: kconst unat_word_ariths pa)
  have va': "unat (?va + PAGE_SIZE_BYTES) = unat (get_raw p) * 4096 + (2 ^ 64 - 2 ^ 38) + 4096"
    using assms(1) by (simp add: kconst unat_word_ariths pa)
  have w: "unat w = unat (get_raw p) + (2 ^ 52 - 2 ^ 26)" unfolding w_def bits_nat va by simp
  then show "2 ^ 26 \<le> unat w" "unat w < 2 ^ 52 - 1" using assms(1) by simp_all
  have w1: "unat (w + 1) = unat w + 1" using w assms(1) by (simp add: unat_word_ariths)
  have d: "drop_bit 12 (?va + PAGE_SIZE_BYTES) = w + 1"
    unfolding word_unat_eq_iff bits_nat va' w1 w by simp
  show "VPN_from_va ?va = Some (VPN w)" using va by (simp add: VPN_from_va_Some is_valid_va_iff w_def)
  show "VPN_from_va (?va + PAGE_SIZE_BYTES) = Some (VPN (w + 1))"
    using va' d by (simp add: VPN_from_va_Some is_valid_va_iff)
  have "take_bit 12 (?va + PAGE_SIZE_BYTES) = 0" unfolding word_unat_eq_iff bits_nat va' by simp
  then show "get_va (VPN (w + 1)) = ?va + PAGE_SIZE_BYTES"
    using push_drop_take_bit [of 12 "?va + PAGE_SIZE_BYTES"] unfolding d by (simp add: get_va_def kconst)
qed

definition space_built :: "PPN set \<Rightarrow> mm_state \<Rightarrow> VMSpace \<Rightarrow> mm_state \<Rightarrow> bool" where
  "space_built K s0 v s \<longleftrightarrow> space_ok v s \<and> vm_frame no_space s0 v s \<and> upper_private (root_pgt v) s \<and>
     table_pages (mtab s) (root_ppn (root_pgt v)) \<subseteq> own v \<union> K \<and> (\<exists>p. stack_page v p)"

lemma add_kernel_stack_area_spec:
  assumes b: "user_built K s0 v s" and room: "room s0"
  obtains (failed) err where "add_kernel_stack_area v s = Some (Inl err, v, s)" "undone s0 v s" "mfree s = {}"
  | (added) v' s' where "add_kernel_stack_area v s = Some (Inr (), v', s')" "space_built K s0 v' s'"
      "entry_addr v' = entry_addr v" "u_stack_end v' = u_stack_end v" "same_user (user_mem v' s') (user_mem v s)"
proof -
  have B: "space_ok v s" "vm_frame no_space s0 v s" "upper_private (root_pgt v) s"
    "table_pages (mtab s) (root_ppn (root_pgt v)) \<subseteq> own v \<union> K" "\<forall>b \<in> set (areas v). map_type b = Anonymous"
    using b by (simp_all add: user_built_def)
  note D = space_okD [OF B(1)]
  obtain x s' where al: "alloc_page s = (x, s')" by (cases "alloc_page s")
  note A = alloc_page_cases [OF D(8) al]
  show ?thesis
  proof (cases x)
    case None
    then show ?thesis using A al B(1,2) by (intro failed) (simp_all add: add_kernel_stack_area_def undone_def space_ok_owns)
  next
    case (Some p)
    let ?n = "get_ppn p" and ?pm = "PERMISSION_R OR PERMISSION_W"
    have tk: "took_page p s s'" and ph: "phys s' = phys s" using A Some by (simp_all add: took_page_def)
    have "?n \<in> mfree s" using A Some by simp
    then have "?n \<in> mfree s0" using B(2) by (auto simp: vm_frame_def)
    then have n: "unat (get_raw ?n) < 2 ^ 26 - 1" using room by (auto simp: room_def)
    define w where "w = drop_bit 12 (get_pa ?n + KERNEL_VA_OFFSET)"
    note W = kernel_vpn [OF n, folded w_def]
    let ?a = "(VMArea_new (VPN w) (VPN (w + 1)) KernelVaOffset ?pm)\<lparr>pages := [(VPN w, p)]\<rparr>"
    let ?v = "with_area v ?a\<lparr>k_stack_end := get_pa ?n + KERNEL_VA_OFFSET + PAGE_SIZE_BYTES\<rparr>"
    have run: "add_kernel_stack_area v s = Some (Inr (), ?v, s')"
      using al Some W(1,2,3) by (simp add: add_kernel_stack_area_def Let_def vec_push_def VMArea_new_def)
    have con: "contain_vpn ?a u \<longleftrightarrow> u = VPN w" for u
    proof -
      have "unat (w + 1) = unat w + 1" using W(5) by (simp add: unat_word_ariths)
      then show ?thesis by (cases u) (auto simp: contain_vpn_def VMArea_new_def page_order word_less_nat_alt word_le_nat_alt word_unat_eq_iff)
    qed
    have nu: "\<not> user_vpn (VPN w)" using W(4) by (simp add: user_vpn_def)
    have "?pm AND NOT ALL_PERMISSION_FLAGS = 0"
      by (simp add: ALL_PERMISSION_FLAGS_def PERMISSION_R_def PERMISSION_W_def PERMISSION_X_def PERMISSION_U_def flag_vals)
    moreover have "contain_vpn ?a (VPN w)" by (simp only: con)
    ultimately have oka: "area_ok ?a" using W(4) by (simp add: area_ok_def btm_inv_def) (simp add: VMArea_new_def)
    have other: "\<not> contain_vpn b (VPN w)" if "b \<in># marea v" for b
    proof -
      have "area_ok b" "map_type b = Anonymous" using D(2) B(5) that by auto
      then show ?thesis using W(4) by (auto simp: area_ok_def contain_vpn_def page_order word_less_nat_alt)
    qed
    then have "holders (marea v) (VPN w) = 0" by (simp add: holders_def filter_mset_eq_conv)
    then have ap: "areas_apart (add_mset ?a (marea v))" using D(3) con by (auto simp: areas_apart_def)
    have bag: "area_bag ?a = {#?n#}" by (simp add: area_bag_def btm_values_def)
    have mt: "maps_to (add_mset ?a (marea v)) u e \<longleftrightarrow> maps_to (marea v) u e" if "user_vpn u" for u e
      using nu that by (auto simp: maps_to_add)
    note T = took_page_space [OF B(1) tk]
    have held: "mheld s' = insert ?n (mheld s)" using tk by (simp add: took_page_def)
    have ok: "space_ok (with_area v ?a) s'"
      unfolding space_ok_def
      using T(1,4,6) oka D(2,4,5,6,12) ap held D(7) mt T(2,3) by (simp add: bag single_owner_add) blast
    have ow: "own (with_area v ?a) = insert ?n (own v)" by (auto simp: own_def bag)
    have fh: "mfree s \<inter> mheld s = {}" by (rule D(10))
    have fr: "vm_frame v s (with_area v ?a) s'" using tk ph fh unfolding vm_frame_def ow took_page_def by auto
    have up: "upper_private (root_pgt v) s'" by (rule upper_private_same [OF B(3,1)]) (simp add: ph)
    have "table_pages (mtab s') (root_ppn (root_pgt v)) \<subseteq> own (with_area v ?a) \<union> K"
      using B(4) T(3) ow by auto
    moreover have "stack_page ?v ?n"
      unfolding stack_page_def by (intro exI [of _ ?a] exI [of _ "VPN w"] exI [of _ p]) (simp add: VMArea_new_def)
    ultimately have built: "space_built K s0 ?v s'" using ok up vm_frame_trans [OF B(2) fr] by (auto simp: space_built_def)
    have "same_user (user_mem (with_area v ?a) s') (user_mem v s)"
      unfolding same_user_def
    proof (intro allI impI)
      fix va :: usize assume va: "unat va < 2 ^ 38"
      have "va_vpn va \<noteq> VPN w" using va_vpn_user [OF va] nu by metis
      then have "\<not> contain_vpn ?a (va_vpn va)" by (simp only: con not_False_eq_True)
      then have "reserved (with_area v ?a) (va_vpn va) = reserved v (va_vpn va)"
        by (simp add: reserved_def find_snoc del: contain_vpn_simps)
      moreover have "backing (with_area v ?a) s' va = backing v s va" by (simp add: backing_def ph T(2) split: option.split)
      ultimately show "user_mem (with_area v ?a) s' va = user_mem v s va" by (simp add: user_mem_def)
    qed
    then show ?thesis using run built by (intro added [of ?v s']) simp_all
  qed
qed

subsection \<open>The whole space\<close>

text \<open>What a program sees when it starts: its segments and its stack.\<close>

definition initial_memory :: "u8 list \<Rightarrow> ElfFile \<Rightarrow> user_memory" where
  "initial_memory bytes elf = spec_stack (spec_program bytes (program_iter elf) (\<lambda>_. None))"

lemma same_user_stack: "same_user M N \<Longrightarrow> same_user (spec_stack M) (spec_stack N)"
  by (simp add: same_user_def spec_stack_def spec_reserve_def)

lemma new_user_spec:
  assumes inv: "mm_inv s" and k: "kernel_map r s" and room: "room s"
    and fits: "\<And>elf. ElfFile_new bytes = Inr elf \<Longrightarrow> program_fits bytes elf"
  obtains (failed) err s' where "new_user ElfFile_new bytes s = Some (Inl err, s')" "mm_inv s'" "vm_frame no_space s no_space s'"
  | (made) v s' elf where "new_user ElfFile_new bytes s = Some (Inr v, s')" "ElfFile_new bytes = Inr elf"
      "space_built (table_pages (mtab s) r) s v s'" "entry_addr v = entry_point elf" "u_stack_end v = USER_SPACE_END"
      "same_user (user_mem v s') (initial_memory bytes elf)"
proof -
  let ?K = "table_pages (mtab s) r"
  have ptr: "get_ptes_mut r = Some (table_ptr r)" by (rule get_ptes_mut_reachable [OF kernel_mapD(7) [OF k]])
  have satp: "get_kernel_satp_ppn s = Some r" by (rule get_kernel_satp_ppn_map [OF k])
  have undo: thesis if "new_user ElfFile_new bytes s = Some (Inl err, drop_VMSpace v t)" "undone s v t" for err v t
    using failed [OF that(1)] owns_drop [OF _ _ inv] that(2) by (simp add: undone_def)
  show thesis
  proof (rule RootPgt_new_copy_cases [OF inv k])
    assume "RootPgt_new_copy (table_ptr r) s = Some (Inl AcquirePageFailed, s)"
    then show thesis using ptr satp inv by (intro failed [OF _ inv vm_frame_refl]) (simp add: new_user_def)
  next
    fix p s1
    assume c: "RootPgt_new_copy (table_ptr r) s = Some (Inr \<lparr>root_ppn = get_ppn p, root_pages = [p]\<rparr>, s1)"
      "took_page p s s1" "mtab s1 = (mtab s)(get_ppn p := mtab s r)" "get_ppn p \<notin> table_pages (mtab s) r"
    let ?v0 = "\<lparr>root_pgt = \<lparr>root_ppn = get_ppn p, root_pages = [p]\<rparr>, areas = [], entry_addr = 0, u_stack_end = 0, k_stack_end = 0\<rparr>"
    have rv: "root_pgt ?v0 = \<lparr>root_ppn = get_ppn p, root_pages = [p]\<rparr>" "areas ?v0 = []" by simp_all
    note e = empty_space [OF inv k c(2-4) rv]
    have inv0: "load_inv ?K s ?v0 s1" using e(1-4) by (simp add: load_inv_def)
    have low0: "segments_low ?v0" by (simp add: segments_low_def)
    have mem0: "user_mem ?v0 s1 = (\<lambda>_. None)" by (simp add: fun_eq_iff user_mem_def reserved_def)
    note code = new_user_def [of ElfFile_new bytes s, unfolded satp ptr c(1) Option.bind.bind_lunit prod.case sum.case Let_def]
    show thesis
    proof (rule map_user_elf_spec [where ElfFile_new = ElfFile_new and bytes = bytes, OF inv0 low0], goal_cases fit bad elf)
      case (fit f)
      then show ?case by (rule fits)
    next
      case (bad err v1 s2)
      then show thesis by (intro undo [of err v1 s2]) (simp_all add: code)
    next
      case (elf f v1 s2)
      show thesis
      proof (rule add_user_stack_area_spec [OF elf(3,4)], goal_cases bad stack)
        case (bad err v2 s3)
        then show thesis using elf(1) by (intro undo [of err v2 s3]) (simp_all add: code)
      next
        case (stack v2 s3)
        show thesis
        proof (rule add_kernel_stack_area_spec [OF stack(2) room], goal_cases bad kstack)
          case (bad err)
          then show thesis using elf(1) stack(1) by (intro undo [of err v2 s3]) (simp_all add: code)
        next
          case (kstack v3 s4)
          have "same_user (user_mem v2 s3) (initial_memory bytes f)"
            using same_user_trans [OF stack(5) same_user_stack [OF elf(6)]] by (simp add: initial_memory_def mem0)
          then have "same_user (user_mem v3 s4) (initial_memory bytes f)" by (rule same_user_trans [OF kstack(5)])
          then show thesis using elf(1,2,5) stack(1,3,4) kstack(1-4)
            by (intro made [of v3 s4 f]) (simp_all add: code)
        qed
      qed
    qed
  qed
qed

text \<open>
  Enough free pages are enough: the stack takes its page and at most two tables, so a program
  without segments needs five pages in all, root table and kernel stack included.
\<close>

lemma add_user_stack_area_pages:
  assumes ok: "space_ok v s" and lk: "lookup (root_pgt v) s (VPN STACK_TOP) = None" and n: "3 < card (mfree s)"
  obtains v' s' where "add_user_stack_area v s = Some (Inr (), v', s')" "mfree s' \<noteq> {}"
proof -
  show ?thesis
  proof (rule alloc_zeroed_took [OF space_okD(8) [OF ok]], goal_cases ex pg)
    case ex
    then show ?thesis using n by simp
  next
    case (pg p s1)
    have pm: "PERMISSION_R OR PERMISSION_W OR PERMISSION_U = STACK_PERMS" by (simp add: STACK_PERMS_def)
    have f: "to_pte_flags STACK_PERMS = Inr 23" "is_valid_flags 23"
      by (simp_all add: to_pte_flags_def kconst ALL_PERMISSION_FLAGS_def PERMISSION_R_def PERMISSION_W_def PERMISSION_X_def
          PERMISSION_U_def flag_vals is_valid_flags_bits bit_numeral_word_iff)
    have vpn: "user_vpn (VPN STACK_TOP)" by (simp add: user_vpn_def kconst)
    note code = add_user_stack_area_def [of v s, unfolded pm Let_def stack_vpns f sum.case pg(1) Option.bind.bind_lunit prod.case option.case]
    have left: "mfree s2 \<noteq> {}"
      if "map_create (VPN STACK_TOP) (get_ppn p) 23 (root_pgt v) s1 = Some (r, t', s2)" "pgt_user t' s2"
        "pgt_grows user_half (root_pgt v) s1 t' s2 ps" for r t' s2 ps
      using failed_for_pages [OF pg(2) that(3,1)] that(2) n by (auto simp: pgt_user_def pgt_ok_def)
    show ?thesis
    proof (rule map_fresh_page [OF ok pg(2) vpn, of 23], goal_cases bad good)
      case (bad err t' s2 ps)
      then show ?thesis using left [OF bad(1-3)] f(2) lk by blast
    next
      case (good e t' s2 ps)
      then show ?thesis using left [OF good(1,4,5)] by (intro that) (simp_all add: code VMSpace_map_create_def)
    qed
  qed
qed

lemma new_user_empty:
  assumes inv: "mm_inv s" and k: "kernel_map r s" and room: "room s"
    and elf: "ElfFile_new bytes = Inr elf" "program_iter elf = []" and n: "4 < card (mfree s)"
  shows "\<exists>v s'. new_user ElfFile_new bytes s = Some (Inr v, s')"
proof -
  let ?K = "table_pages (mtab s) r"
  have ptr: "get_ptes_mut r = Some (table_ptr r)" by (rule get_ptes_mut_reachable [OF kernel_mapD(7) [OF k]])
  have satp: "get_kernel_satp_ppn s = Some r" by (rule get_kernel_satp_ppn_map [OF k])
  show ?thesis
  proof (rule RootPgt_new_copy_cases [OF inv k], goal_cases full copied)
    case full
    then show ?case using n by simp
  next
    case (copied p s1)
    let ?v = "\<lparr>root_pgt = \<lparr>root_ppn = get_ppn p, root_pages = [p]\<rparr>, areas = [], entry_addr = 0, u_stack_end = 0, k_stack_end = 0\<rparr>"
    let ?w = "?v\<lparr>entry_addr := entry_point elf\<rparr>"
    have rv: "root_pgt ?w = \<lparr>root_ppn = get_ppn p, root_pages = [p]\<rparr>" "areas ?w = []" by simp_all
    note e = empty_space [OF inv k copied(2-4) rv]
    have inv0: "load_inv ?K s ?w s1" using e(1-4) by (simp add: load_inv_def)
    have low0: "segments_low ?w" by (simp add: segments_low_def)
    have "mfree s1 = mfree s - {get_ppn p}" "get_ppn p \<in> mfree s" using copied(2) by (simp_all add: took_page_def)
    then have n1: "3 < card (mfree s1)" using n by simp
    have lk: "lookup (root_pgt ?w) s1 (VPN STACK_TOP) = None" unfolding rv by (rule e(5)) (simp add: user_vpn_def kconst)
    obtain v2 s2 where run: "add_user_stack_area ?w s1 = Some (Inr (), v2, s2)" "mfree s2 \<noteq> {}"
      by (rule add_user_stack_area_pages [OF e(1) lk n1])
    have built: "user_built ?K s v2 s2"
      by (rule add_user_stack_area_spec [OF inv0 low0]) (use run in simp_all)
    obtain v3 s3 where last: "add_kernel_stack_area v2 s2 = Some (Inr (), v3, s3)"
      by (rule add_kernel_stack_area_spec [OF built room]) (use run(2) in simp_all)
    have "map_user_elf ElfFile_new bytes ?v s1 = Some (Inr (), ?w, s1)" using elf by (simp add: map_user_elf_def)
    then show ?case using run(1) last by (simp add: new_user_def satp ptr copied(1))
  qed
qed

end
