(* ===== verification/Boot.thy ===== *)
theory Boot
  imports Load_Space System
begin

text \<open>
  Starting the tasks: \<open>add_task\<close> builds a space and puts the initial trap context on its kernel
  stack, \<open>start\<close> does so for every application and switches to the first task.  This is how the
  invariant from which the runs of the machine start comes about.
\<close>

subsection \<open>The start of the tasks\<close>

text \<open>
  Nothing sets \<open>tp\<close> before the first switch: \<open>entry.S\<close> leaves it as the firmware does, and
  \<open>run_next_task\<close> asks for the current task, whose id it loads from the context \<open>tp\<close> points to
  unless \<open>tp\<close> is 0.  While a task runs the load is from its kernel stack, at the start it need not
  be mapped.  A refused load traps into \<open>k_trap_handler\<close>, which panics as the fault is not one of a
  user access.
\<close>

definition tp_readable :: "kernel \<Rightarrow> bool" where
  "tp_readable k \<longleftrightarrow> tp k = 0 \<or> list_all (\<lambda>i. mmu S_mode Load (tp k + 8 * 34 + i) k \<noteq> None) [0, 1, 2, 3, 4, 5, 6, 7]"

definition task_start ::
  "(u8 list \<Rightarrow> string + ElfFile) \<Rightarrow> usize \<Rightarrow> u8 list list \<Rightarrow> kernel \<Rightarrow> (outcome \<times> kernel) option" where
  "task_start ElfFile_new ra apps k = do {
     k \<leftarrow> add_tasks ElfFile_new ra apps k;
     if tp_readable k then run_next_task k else None
   }"

subsection \<open>The initial trap context\<close>

lemma write_words:
  fixes m :: phys_mem
  assumes p: "reachable_ppn p" and len: "j + length ws \<le> 35"
  defines "m' \<equiv> foldl (\<lambda>m (i, w). store_u64 m (kptr_pa (stack_ctx p + 8 * of_nat i)) w) m (enumerate j ws)"
  shows "n < 35 \<Longrightarrow> tab m' p (477 + of_nat n) =
      (if j \<le> n \<and> n < j + length ws then PTE (ws ! (n - j)) else tab m p (477 + of_nat n))"
    "PPN (drop_bit 12 a) \<noteq> p \<Longrightarrow> m' a = m a"
proof -
  let ?f = "\<lambda>m (i, w). store_u64 m (kptr_pa (stack_ctx p + 8 * of_nat i)) w"
  have lt: "477 + of_nat n < (512 :: usize)" if "n < 35" for n
    using that by (simp add: word_less_nat_alt unat_word_ariths unat_of_nat)
  have inj: "477 + (of_nat n :: usize) = 477 + of_nat i \<longleftrightarrow> n = i" if "n < 35" "i < 35" for n i
    unfolding add_left_cancel using that by (simp add: word_unat_eq_iff unat_of_nat)
  have main: "(\<forall>n < 35. tab (foldl ?f m (enumerate j ws)) p (477 + of_nat n) =
        (if j \<le> n \<and> n < j + length ws then PTE (ws ! (n - j)) else tab m p (477 + of_nat n))) \<and>
      (\<forall>a. PPN (drop_bit 12 a) \<noteq> p \<longrightarrow> foldl ?f m (enumerate j ws) a = m a)" if "j + length ws \<le> 35" for j ws m
    using that
  proof (induction ws arbitrary: j m)
    case (Cons w ws)
    have j: "j < 35" "Suc j + length ws \<le> 35" using Cons.prems by simp_all
    let ?m = "store_u64 m (get_pa p + 8 * (477 + of_nat j)) w"
    note IH = Cons.IH [OF j(2), of ?m]
    have T: "tab ?m = upd (tab m) p (477 + of_nat j) (PTE w)" by (rule tab_store [OF p lt [OF j(1)]])
    have "foldl ?f m (enumerate j (w # ws)) = foldl ?f ?m (enumerate (Suc j) ws)" by (simp add: stack_ctx_addr)
    moreover have "tab (foldl ?f ?m (enumerate (Suc j) ws)) p (477 + of_nat n) =
        (if j \<le> n \<and> n < j + length (w # ws) then PTE ((w # ws) ! (n - j)) else tab m p (477 + of_nat n))" if n: "n < 35" for n
    proof -
      have "tab ?m p (477 + of_nat n) = (if n = j then PTE w else tab m p (477 + of_nat n))"
        unfolding T upd_apply using inj [OF n j(1)] by simp
      then show ?thesis using IH n by (cases "n = j") (auto simp: nth_Cons' le_Suc_eq not_le)
    qed
    moreover have "foldl ?f ?m (enumerate (Suc j) ws) a = m a" if a: "PPN (drop_bit 12 a) \<noteq> p" for a
      using IH a store_outside [OF p lt [OF j(1)], of a m w] by (cases p) auto
    ultimately show ?case by simp
  qed auto
  from main [OF len, of m] show "n < 35 \<Longrightarrow> tab m' p (477 + of_nat n) =
      (if j \<le> n \<and> n < j + length ws then PTE (ws ! (n - j)) else tab m p (477 + of_nat n))"
    "PPN (drop_bit 12 a) \<noteq> p \<Longrightarrow> m' a = m a" unfolding m'_def by blast+
qed

lemma write_trap_context_spec:
  assumes p: "reachable_ppn p" and len: "length (xs c) = 32"
  shows "n < 35 \<Longrightarrow> ctx_word (stack_ctx p) (of_nat n) (write_trap_context (stack_ctx p) c m) =
      (xs c @ [sstatus c, sepc c, ctx_task_id c]) ! n"
    "PPN (drop_bit 12 a) \<noteq> p \<Longrightarrow> write_trap_context (stack_ctx p) c m a = m a"
proof -
  have l: "0 + length (xs c @ [sstatus c, sepc c, ctx_task_id c]) \<le> 35" using len by simp
  note W = write_words [OF p l, of _ m, folded write_trap_context_def]
  show "PPN (drop_bit 12 a) \<noteq> p \<Longrightarrow> write_trap_context (stack_ctx p) c m a = m a" by (rule W(2))
  show "ctx_word (stack_ctx p) (of_nat n) (write_trap_context (stack_ctx p) c m) = (xs c @ [sstatus c, sepc c, ctx_task_id c]) ! n"
    if "n < 35"
  proof -
    have "(of_nat n :: usize) < 35" using that by (simp add: word_less_nat_alt unat_of_nat)
    then show ?thesis using ctx_word_tab [OF p] W(1) [OF that] that len by simp
  qed
qed

text \<open>Writing to the stack page is invisible to the program and to the table.\<close>

lemma stack_write:
  assumes b: "space_built K s0 v s" and p: "stack_page v p"
    and m: "\<And>a. PPN (drop_bit 12 a) \<noteq> p \<Longrightarrow> m a = phys s a"
  shows "space_built K s0 v (s\<lparr>phys := m\<rparr>)" "same_user (user_mem v (s\<lparr>phys := m\<rparr>)) (user_mem v s)"
proof -
  let ?s = "s\<lparr>phys := m\<rparr>"
  have B: "space_ok v s" "vm_frame no_space s0 v s" "upper_private (root_pgt v) s"
    "table_pages (mtab s) (root_ppn (root_pgt v)) \<subseteq> own v \<union> K"
    using b by (simp_all add: space_built_def)
  note D = space_okD [OF B(1)]
  have d: "p \<in> data_pages v" by (rule stack_page_data [OF p])
  have m': "m a = phys s a" if "PPN (drop_bit 12 a) \<notin> data_pages v" for a by (rule m) (use that d in metis)
  note W = page_write [OF B(1) m']
  have "upper_private (root_pgt v) ?s" by (rule upper_private_same [OF B(3,1)]) (use m' D(6) in auto)
  then show "space_built K s0 v ?s" using W B(4) p vm_frame_trans [OF B(2) W(4)] by (auto simp: space_built_def)
  show "same_user (user_mem v ?s) (user_mem v s)"
    unfolding same_user_def
  proof (intro allI impI)
    fix va :: usize assume va: "unat va < 2 ^ 38"
    note w = va_vpn_user [OF va]
    have "backing v ?s va = backing v s va"
    proof (cases "lookup (root_pgt v) s (va_vpn va)")
      case (Some e)
      obtain a q where a: "a \<in># marea v" "map_of (pages a) (va_vpn va) = Some q" "map_type a = Anonymous" "pte_ppn e = get_ppn q"
        by (rule space_leaf [OF B(1) w Some]) (simp add: leaf_of_fields)
      have "pte_ppn e \<noteq> p" using anonymous_not_stack [OF B(1) a(1-3) p] a(4) by simp
      then have "m (get_pa (pte_ppn e) + take_bit 12 va) = phys s (get_pa (pte_ppn e) + take_bit 12 va)"
        using leaf_byte [OF B(1) w Some, of va] by (intro m) simp
      then show ?thesis by (simp add: backing_def W(2) Some)
    qed (simp add: backing_def W(2))
    then show "user_mem v ?s va = user_mem v s va" by (simp add: user_mem_def)
  qed
qed

subsection \<open>A task as it is created\<close>

text \<open>
  The saved context of a fresh task: it starts at the entry point of its program, with an empty
  stack, all other registers 0 and in user mode; its memory is the image of its program.
\<close>

definition fresh_task :: "u8 list \<Rightarrow> ElfFile \<Rightarrow> TaskControlBlock \<Rightarrow> mm_state \<Rightarrow> bool" where
  "fresh_task bytes elf t s \<longleftrightarrow>
     (let c = ctx_tp (tcontext t) in
      ctx_word c 33 (phys s) = entry_point elf \<and>
      (\<forall>n < 32. ctx_word c (of_nat n) (phys s) = (if n = 2 then USER_SPACE_END else 0))) \<and>
     saved_user t s \<and> same_user (user_mem (vm_space t) s) (initial_memory bytes elf)"

lemma same_view_mem:
  assumes ok: "space_ok v s" and v: "same_view v s s'"
  shows "same_user (user_mem v s') (user_mem v s)"
proof -
  have "backing v s' va = backing v s va" if va: "unat va < 2 ^ 38" for va
  proof (cases "lookup (root_pgt v) s (va_vpn va)")
    case (Some e)
    note w = va_vpn_user [OF va]
    have "pte_ppn e \<in> own v" by (rule space_leaf [OF ok w Some]) (simp add: leaf_of_fields own_def)
    then show ?thesis using v leaf_byte [OF ok w Some, of va] by (simp add: same_view_def backing_def Some)
  qed (use v in \<open>simp add: same_view_def backing_def\<close>)
  then show ?thesis by (simp add: same_user_def user_mem_def)
qed

lemma fresh_task_kept:
  assumes f: "fresh_task bytes elf t s" and t: "task_ok t s" and v: "same_view (vm_space t) s s'"
  shows "fresh_task bytes elf t s'"
proof -
  have ck: "ctx_kept {} t s s'" by (rule same_view_ctx [OF t v])
  have w: "ctx_word (ctx_tp (tcontext t)) (of_nat n) (phys s') = ctx_word (ctx_tp (tcontext t)) (of_nat n) (phys s)" if "n < 35" for n
    using ck that by (simp add: ctx_kept_def word_less_nat_alt unat_of_nat)
  have "same_user (user_mem (vm_space t) s') (initial_memory bytes elf)"
    using same_user_trans [OF same_view_mem [OF _ v]] f t by (simp add: fresh_task_def task_ok_def)
  then show ?thesis using f w [of 33] w w [of 32] by (simp add: fresh_task_def Let_def saved_user_def)
qed

subsection \<open>Adding tasks\<close>

text \<open>The kernel while it adds tasks: all are ready, fresh ids are not in use, and the tables of the kernel belong to none.\<close>

definition boot_ok :: "PPN \<Rightarrow> kernel \<Rightarrow> bool" where
  "boot_ok r k \<longleftrightarrow> tasks_ok (mset (ALL_TASKS k)) (mm k) \<and> kernel_map r (mm k) \<and> room (mm k) \<and>
     (\<forall>t \<in> set (ALL_TASKS k). own (vm_space t) \<inter> table_pages (mtab (mm k)) r = {} \<and> tstate t = Ready \<and>
        saved_user t (mm k) \<and> task_id t < NEXT_TASK_ID k)"

lemma spaces_apart_no_space: "spaces_apart no_space w s"
  by (simp add: spaces_apart_def)

lemma room_frame: "room s \<Longrightarrow> vm_frame no_space s v s' \<Longrightarrow> room s'"
  by (auto simp: room_def vm_frame_def)

text \<open>The table the hart uses and what it translates, which adding tasks leaves alone.\<close>

definition same_kernel_view :: "PPN \<Rightarrow> kernel \<Rightarrow> kernel \<Rightarrow> bool" where
  "same_kernel_view r k k' \<longleftrightarrow> csrr SATP_CSR_NO (csrs k') = csrr SATP_CSR_NO (csrs k) \<and>
     (\<forall>va. sv39_walk (phys (mm k')) r va = sv39_walk (phys (mm k)) r va)"

lemma frame_kernel_map:
  assumes k: "kernel_map r s" "mm_inv s" and v: "space_ok v s'" "vm_frame no_space s v s'"
  shows "kernel_map r s'" "table_pages (mtab s') r = table_pages (mtab s) r" "own v \<inter> table_pages (mtab s) r = {}"
    "sv39_walk (phys s') r va = sv39_walk (phys s) r va"
proof -
  note K = kernel_mapD(3) [OF k(1)]
  have fh: "mfree s \<inter> mheld s = {}" using k(2) pool.free_held by (simp add: mm_inv_def)
  from v(2) have F: "own v \<union> mfree s' = mfree s" "mheld s' - own v = mheld s" "KERNEL_SATP s' = KERNEL_SATP s"
    "\<And>a. PPN (drop_bit 12 a) \<notin> mfree s \<Longrightarrow> phys s' a = phys s a"
    by (auto simp: vm_frame_def)
  show "own v \<inter> table_pages (mtab s) r = {}" using K F(1) fh by auto
  have held: "table_pages (mtab s) r \<subseteq> mheld s'" using K F(2) by auto
  have mem: "phys s' a = phys s a" if "PPN (drop_bit 12 a) \<in> table_pages (mtab s) r" for a
    by (rule F(4)) (use that K fh in auto)
  note * = kernel_map_frame [OF k(1) space_okD(8) [OF v(1)] F(3) held mem k(2)]
  show "kernel_map r s'" by (rule *(1))
  show "table_pages (mtab s') r = table_pages (mtab s) r" by (rule *(2))
  let ?t = "\<lparr>root_ppn = r, root_pages = []\<rparr> :: RootPgt"
  show "sv39_walk (phys s') r va = sv39_walk (phys s) r va"
  proof (cases "unat va < 2 ^ 38")
    case True
    then show ?thesis using kernel_walk_low [OF k(1)] kernel_walk_low [OF *(1)] by simp
  next
    case False
    have ok: "pgt_ok ?t s" using kernel_mapD(2,3) [OF k(1)] k(2) by (simp add: pgt_ok_def)
    have root: "mtab s' r = mtab s r" by (rule tab_page_cong) (rule mem, use table_pages_intros(1) in metis)
    show ?thesis using upper_walk_kept [OF ok False, of s', unfolded RootPgt.select_convs root, OF refl mem] .
  qed
qed

lemma add_task_spec:
  assumes b: "boot_ok r k" and room_id: "unat (NEXT_TASK_ID k) + 1 < 2 ^ 64"
    and fits: "\<And>elf. ElfFile_new bytes = Inr elf \<Longrightarrow> program_fits bytes elf"
  obtains (failed) err s' where "add_task ElfFile_new ra bytes k = None" "new_user ElfFile_new bytes (mm k) = Some (Inl err, s')"
  | (added) t k' elf where "add_task ElfFile_new ra bytes k = Some k'" "boot_ok r k'" "ALL_TASKS k' = ALL_TASKS k @ [t]"
      "NEXT_TASK_ID k' = NEXT_TASK_ID k + 1" "tp k' = tp k" "ElfFile_new bytes = Inr elf" "fresh_task bytes elf t (mm k')"
      "\<And>u. u \<in> set (ALL_TASKS k) \<Longrightarrow> same_view (vm_space u) (mm k) (mm k')" "same_kernel_view r k k'"
proof -
  let ?s = "mm k" and ?K = "table_pages (mtab (mm k)) r"
  have B: "tasks_ok (mset (ALL_TASKS k)) ?s" "kernel_map r ?s" "room ?s"
    "\<And>u. u \<in> set (ALL_TASKS k) \<Longrightarrow> own (vm_space u) \<inter> ?K = {} \<and> tstate u = Ready \<and> saved_user u ?s \<and> task_id u < NEXT_TASK_ID k"
    using b by (simp_all add: boot_ok_def)
  have inv: "mm_inv ?s" using B(1) by (simp add: tasks_ok_def)
  show ?thesis
  proof (rule new_user_spec [where ElfFile_new = ElfFile_new and bytes = bytes, OF inv B(2,3)], goal_cases fit bad good)
    case (fit elf)
    then show ?case by (rule fits)
  next
    case (bad err s')
    then show ?thesis by (intro failed) (simp_all add: add_task_def)
  next
    case (good v s1 elf)
    obtain p where p: "stack_page v p" using good(3) by (auto simp: space_built_def)
    have ok1: "space_ok v s1" using good(3) by (simp add: space_built_def)
    have pd: "p \<in> data_pages v" by (rule stack_page_data [OF p])
    have rp: "reachable_ppn p" by (rule data_page_reachable [OF ok1 pd])
    define c where "c = fst (TrapContext_new_initial (entry_addr v) (u_stack_end v) (NEXT_TASK_ID k) (csrs k))"
    define cs where "cs = snd (TrapContext_new_initial (entry_addr v) (u_stack_end v) (NEXT_TASK_ID k) (csrs k))"
    define m where "m = write_trap_context (stack_ctx p) c (phys s1)"
    define s2 where "s2 = s1\<lparr>phys := m\<rparr>"
    define t where "t = fst (new_ready v ra (stack_ctx p) (stack_ctx p) (VMSpace_get_satp v) (NEXT_TASK_ID k))"
    define k' where "k' = k\<lparr>mm := s2, NEXT_TASK_ID := NEXT_TASK_ID k + 1, csrs := cs, ALL_TASKS := ALL_TASKS k @ [t]\<rparr>"
    have t: "task_id t = NEXT_TASK_ID k" "vm_space t = v" "tstate t = Ready" "ctx_tp (tcontext t) = stack_ctx p"
      "ctx_satp (tcontext t) = RootPgt_get_satp (root_pgt v)"
      by (simp_all add: t_def new_ready_def TaskContext_new_initial_def VMSpace_get_satp_def)
    have run: "add_task ElfFile_new ra bytes k = Some k'"
      using good(1) unfolding add_task_def
      by (simp add: stack_page_ctx [OF p] new_ready_def Let_def case_prod_beta k'_def s2_def m_def c_def cs_def t_def vec_push_def)
    have xs: "xs c = (replicate 32 0)[2 := USER_SPACE_END]" "sepc c = entry_point elf" "ctx_task_id c = NEXT_TASK_ID k"
      "sstatus c AND SPP_BIT = 0"
    proof -
      have z: "(x AND NOT SPP_BIT) AND SPP_BIT = 0" for x by (rule bit_eqI) (auto simp: bit_and_iff bit_not_iff)
      show "xs c = (replicate 32 0)[2 := USER_SPACE_END]" "sepc c = entry_point elf" "ctx_task_id c = NEXT_TASK_ID k"
        "sstatus c AND SPP_BIT = 0"
        using good(4,5) by (simp_all add: c_def TrapContext_new_initial_def set_spp_user_def Let_def case_prod_beta z)
    qed
    have len: "length (xs c) = 32" by (simp add: xs)
    have W: "\<And>n. n < 35 \<Longrightarrow> ctx_word (stack_ctx p) (of_nat n) (phys s2) = (xs c @ [sstatus c, sepc c, ctx_task_id c]) ! n"
      "\<And>a. PPN (drop_bit 12 a) \<noteq> p \<Longrightarrow> m a = phys s1 a"
      using write_trap_context_spec [where c = c and m = "phys s1", OF rp len] by (simp_all add: s2_def m_def)
    have S: "space_built ?K ?s v s2" "same_user (user_mem v s2) (user_mem v s1)"
      using stack_write [OF good(3) p W(2)] unfolding s2_def by blast+
    have V: "space_ok v s2" "vm_frame no_space ?s v s2" "upper_private (root_pgt v) s2"
      "table_pages (mtab s2) (root_ppn (root_pgt v)) \<subseteq> own v \<union> ?K"
      using S(1) by (simp_all add: space_built_def)
    have w: "ctx_word (stack_ctx p) 32 (phys s2) = sstatus c" "ctx_word (stack_ctx p) 33 (phys s2) = entry_point elf"
      "ctx_word (stack_ctx p) 34 (phys s2) = NEXT_TASK_ID k"
      using W(1) [of 32] W(1) [of 33] W(1) [of 34] by (simp_all add: nth_append xs)
    have su: "saved_user t s2" using w(1) xs(4) by (simp add: saved_user_def t)
    have fresh: "fresh_task bytes elf t s2"
      unfolding fresh_task_def Let_def t
    proof (intro conjI su [unfolded t] allI impI)
      show "ctx_word (stack_ctx p) 33 (phys s2) = entry_point elf" by (rule w(2))
      show "same_user (user_mem v s2) (initial_memory bytes elf)" by (rule same_user_trans [OF S(2) good(6)])
      fix n :: nat assume "n < 32"
      then show "ctx_word (stack_ctx p) (of_nat n) (phys s2) = (if n = 2 then USER_SPACE_END else 0)"
        using W(1) [of n] by (simp add: nth_append xs nth_list_update)
    qed
    have idw: "pte_bits (tab (phys s2) p 511) = task_id t"
      using w(3) ctx_word_tab [OF rp, of 34 "phys s2"] by (simp add: t)
    have tok: "task_ok t s2" by (rule task_okI [of _ _ p]) (use V p idw in \<open>simp_all add: t\<close>)
    have T: "task_ok u ?s" if "u \<in> set (ALL_TASKS k)" for u using B(1) that by (simp add: tasks_ok_def)
    note F = task_ok_frame [OF T V(1,2) spaces_apart_no_space]
    note KM = frame_kernel_map [OF B(2) inv V(1,2)]
    have view: "same_view (vm_space u) ?s s2" if "u \<in> set (ALL_TASKS k)" for u by (rule F(3) [OF that])
    have tabs: "table_pages (mtab s2) (root_ppn (root_pgt (vm_space u))) = table_pages (mtab ?s) (root_ppn (root_pgt (vm_space u)))"
      if "u \<in> set (ALL_TASKS k)" for u
      by (rule frame_isolates(5) [OF V(1,2) _ spaces_apart_no_space]) (use T [OF that] in \<open>simp add: task_ok_def\<close>)
    have fh: "mfree ?s \<inter> mheld ?s = {}" using inv pool.free_held by (simp add: mm_inv_def)
    have "own v \<subseteq> mfree ?s" using V(2) by (auto simp: vm_frame_def)
    moreover have "own (vm_space u) \<subseteq> mheld ?s" if "u \<in> set (ALL_TASKS k)" for u
      using T [OF that] space_okD(11) by (auto simp: task_ok_def)
    ultimately have dj: "own (vm_space u) \<inter> own v = {}" if "u \<in> set (ALL_TASKS k)" for u using that fh by blast
    have apart2: "spaces_apart (vm_space u) v s2" if u: "u \<in> set (ALL_TASKS k)" for u
      using dj [OF u] B(4) [OF u] V(4) by (auto simp: spaces_apart_def)
    have mutual: "spaces_apart (vm_space u) (vm_space u') s2"
      if "u \<in> set (ALL_TASKS k)" "u' \<in> set (ALL_TASKS k)" "task_id u \<noteq> task_id u'" for u u'
      using B(1) that tabs [OF that(2)] by (simp add: tasks_ok_def spaces_apart_def)
    have less: "task_id u < NEXT_TASK_ID k" if "u \<in> set (ALL_TASKS k)" for u using B(4) [OF that] by blast
    have "task_id t \<notin> task_id ` set (ALL_TASKS k)"
    proof
      assume "task_id t \<in> task_id ` set (ALL_TASKS k)"
      then obtain u where "u \<in> set (ALL_TASKS k)" "task_id u = NEXT_TASK_ID k" by (auto simp: t)
      then show False using less by fastforce
    qed
    then have ids: "ids_distinct (mset (ALL_TASKS k @ [t]))" using B(1) by (simp add: tasks_ok_def ids_distinct_add)
    have tasks: "tasks_ok (mset (ALL_TASKS k @ [t])) s2"
      unfolding tasks_ok_def
    proof (intro conjI ballI impI ids space_okD(8) [OF V(1)])
      fix u assume "u \<in># mset (ALL_TASKS k @ [t])"
      then show "task_ok u s2" using tok F(1) by auto
    next
      fix u u' assume "u \<in># mset (ALL_TASKS k @ [t])" "u' \<in># mset (ALL_TASKS k @ [t])" "task_id u \<noteq> task_id u'"
      then show "spaces_apart (vm_space u) (vm_space u') s2" using mutual apart2 F(2) by (auto simp: t)
    qed
    have n1: "x < NEXT_TASK_ID k + 1 \<longleftrightarrow> x \<le> NEXT_TASK_ID k" for x
      using room_id by (simp add: word_less_nat_alt word_le_nat_alt unat_word_ariths less_Suc_eq_le)
    have "boot_ok r k'"
      unfolding boot_ok_def
    proof (intro conjI ballI)
      show "tasks_ok (mset (ALL_TASKS k')) (mm k')" using tasks by (simp add: k'_def)
      show "kernel_map r (mm k')" using KM(1) by (simp add: k'_def)
      show "room (mm k')" using room_frame [OF B(3) V(2)] by (simp add: k'_def)
      fix u assume "u \<in> set (ALL_TASKS k')"
      then consider (old) "u \<in> set (ALL_TASKS k)" | (new) "u = t" by (auto simp: k'_def)
      then have "own (vm_space u) \<inter> ?K = {} \<and> tstate u = Ready \<and> saved_user u s2 \<and> task_id u \<le> NEXT_TASK_ID k"
      proof cases
        case old
        then have "ctx_kept {} u ?s s2" by (intro same_view_ctx [OF T view])
        then show ?thesis using B(4) [OF old] by (simp add: saved_user_def ctx_kept_def less_imp_le)
      next
        case new
        then show ?thesis using KM(3) su by (simp add: t)
      qed
      then show "own (vm_space u) \<inter> table_pages (mtab (mm k')) r = {}" "tstate u = Ready" "saved_user u (mm k')"
        "task_id u < NEXT_TASK_ID k'"
        by (simp_all add: k'_def KM(2) n1)
    qed
    moreover have "csrr SATP_CSR_NO cs = csrr SATP_CSR_NO (csrs k)"
      by (simp add: cs_def TrapContext_new_initial_def set_spp_user_def csrrc_def csrr_def csrw_def csr_numbers Let_def case_prod_beta)
    then have "same_kernel_view r k k'" using KM(4) by (simp add: same_kernel_view_def k'_def)
    ultimately show ?thesis using run fresh view good(2) by (intro added [of k' t elf]) (simp_all add: k'_def)
  qed
qed

subsection \<open>Starting\<close>

text \<open>Some application cannot be loaded once those before it are.\<close>

definition load_fails :: "(u8 list \<Rightarrow> string + ElfFile) \<Rightarrow> usize \<Rightarrow> u8 list list \<Rightarrow> kernel \<Rightarrow> bool" where
  "load_fails ElfFile_new ra apps k \<longleftrightarrow>
     (\<exists>pre bytes post k1 err s'. apps = pre @ bytes # post \<and> add_tasks ElfFile_new ra pre k = Some k1 \<and>
        new_user ElfFile_new bytes (mm k1) = Some (Inl err, s'))"

lemma load_failsI:
  "apps = pre @ bytes # post \<Longrightarrow> add_tasks ElfFile_new ra pre k = Some k1 \<Longrightarrow>
   new_user ElfFile_new bytes (mm k1) = Some (Inl err, s') \<Longrightarrow> load_fails ElfFile_new ra apps k"
  unfolding load_fails_def by blast

lemma load_fails_Cons:
  assumes "add_task ElfFile_new ra bytes k = Some k1" "load_fails ElfFile_new ra apps k1"
  shows "load_fails ElfFile_new ra (bytes # apps) k"
proof -
  obtain pre b post k2 err s' where "apps = pre @ b # post" "add_tasks ElfFile_new ra pre k1 = Some k2"
    "new_user ElfFile_new b (mm k2) = Some (Inl err, s')" using assms(2) by (auto simp: load_fails_def)
  then show ?thesis using assms(1) by (intro load_failsI [of _ "bytes # pre" b post _ _ _ k2 err s']) simp_all
qed

text \<open>
  All applications: the tasks come in their order, each fresh, or one of them cannot be loaded.
\<close>

lemma add_tasks_spec:
  assumes "boot_ok r k" and ids: "unat (NEXT_TASK_ID k) + length apps < 2 ^ 64"
    and fits: "\<And>bytes elf. bytes \<in> set apps \<Longrightarrow> ElfFile_new bytes = Inr elf \<Longrightarrow> program_fits bytes elf"
  obtains (failed) "add_tasks ElfFile_new ra apps k = None" "load_fails ElfFile_new ra apps k"
  | (added) ts k' where "add_tasks ElfFile_new ra apps k = Some k'" "boot_ok r k'" "ALL_TASKS k' = ALL_TASKS k @ ts" "tp k' = tp k"
      "list_all2 (\<lambda>bytes t. \<exists>elf. ElfFile_new bytes = Inr elf \<and> fresh_task bytes elf t (mm k')) apps ts"
      "\<And>u. u \<in> set (ALL_TASKS k) \<Longrightarrow> same_view (vm_space u) (mm k) (mm k')" "same_kernel_view r k k'"
proof -
  have fits': "\<forall>bytes \<in> set apps. \<forall>elf. ElfFile_new bytes = Inr elf \<longrightarrow> program_fits bytes elf" using fits by blast
  have "(add_tasks ElfFile_new ra apps k = None \<and> load_fails ElfFile_new ra apps k) \<or>
    (\<exists>ts k'. add_tasks ElfFile_new ra apps k = Some k' \<and> boot_ok r k' \<and> ALL_TASKS k' = ALL_TASKS k @ ts \<and> tp k' = tp k \<and>
      list_all2 (\<lambda>bytes t. \<exists>elf. ElfFile_new bytes = Inr elf \<and> fresh_task bytes elf t (mm k')) apps ts \<and>
      (\<forall>u \<in> set (ALL_TASKS k). same_view (vm_space u) (mm k) (mm k')) \<and> same_kernel_view r k k')"
    using assms(1) ids fits'
  proof (induction apps arbitrary: k)
    case Nil
    then show ?case by (simp add: same_view_refl same_kernel_view_def)
  next
    case (Cons bytes apps)
    have id1: "unat (NEXT_TASK_ID k) + 1 < 2 ^ 64" using Cons.prems(2) by simp
    show ?case
    proof (rule add_task_spec [where ElfFile_new = ElfFile_new and bytes = bytes and ra = ra, OF Cons.prems(1) id1], goal_cases fit bad good)
      case (fit elf)
      then show ?case using Cons.prems(3) by simp
    next
      case (bad err s')
      then have "add_tasks ElfFile_new ra (bytes # apps) k = None" by simp
      moreover have "load_fails ElfFile_new ra (bytes # apps) k" by (rule load_failsI [of _ "[]"]) (use bad(2) in simp_all)
      ultimately show ?case by blast
    next
      case (good t k1 elf)
      have id2: "unat (NEXT_TASK_ID k1) + length apps < 2 ^ 64"
        using Cons.prems(2) good(4) by (simp add: unat_word_ariths)
      have fit2: "\<forall>bytes \<in> set apps. \<forall>elf. ElfFile_new bytes = Inr elf \<longrightarrow> program_fits bytes elf"
        using Cons.prems(3) by simp
      have code: "add_tasks ElfFile_new ra (bytes # apps) k = add_tasks ElfFile_new ra apps k1" using good(1) by simp
      show ?case using Cons.IH [OF good(2) id2 fit2]
      proof (elim disjE exE conjE, goal_cases a b)
        case a
        then show ?thesis unfolding code using load_fails_Cons [OF good(1)] by blast
      next
        case b: (b ts k')
        have "task_ok t (mm k1)" using good(2,3) by (simp add: boot_ok_def tasks_ok_def)
        then have "fresh_task bytes elf t (mm k')" using b(6) good(3) by (intro fresh_task_kept [OF good(7)]) simp_all
        moreover have "\<forall>u \<in> set (ALL_TASKS k). same_view (vm_space u) (mm k) (mm k')"
          using b(6) good(3,8) same_view_trans by fastforce
        moreover have "same_kernel_view r k k'" using b(7) good(9) by (simp add: same_kernel_view_def)
        ultimately show ?thesis unfolding code using b(1-5) good(3,5,6)
          by (intro disjI2 exI [of _ "t # ts"] exI [of _ k']) auto
      qed
    qed
  qed
  then show ?thesis using that by blast
qed

text \<open>The bytes of the word at an address.\<close>

definition word_at :: "usize \<Rightarrow> usize set" where
  "word_at a = (\<lambda>i. a + i) ` {0, 1, 2, 3, 4, 5, 6, 7}"

lemma tp_readable_word: "tp_readable k \<longleftrightarrow> tp k = 0 \<or> (\<forall>va \<in> word_at (tp k + 272). mmu S_mode Load va k \<noteq> None)"
  by (simp add: tp_readable_def word_at_def)

text \<open>The first task, in user mode.\<close>

lemma first_task:
  assumes b: "boot_ok r k" and good: "list_all2 (\<lambda>bytes t. \<exists>elf. ElfFile_new bytes = Inr elf \<and> fresh_task bytes elf t (mm k)) apps (ALL_TASKS k)"
  obtains (idle) k' where "run_next_task k = Some (Shutdown, k')" "apps = []"
  | (started) c k' m t B ts bytes elf where "run_next_task k = Some (Switched c, k')"
      "resume k' = (U_mode, m)" "machine_ok m t B" "mset (ALL_TASKS (kern m)) = add_mset t B"
      "list_all2 (\<lambda>bytes t. \<exists>elf. ElfFile_new bytes = Inr elf \<and> fresh_task bytes elf t (mm (kern m))) apps ts"
      "image_mset task_id (mset ts) = image_mset task_id (add_mset t B)"
      "bytes \<in> set apps" "ElfFile_new bytes = Inr elf" "pc m = entry_point elf"
      "regs m = (replicate 32 0)[2 := USER_SPACE_END]"
      "same_user (user_mem (vm_space t) (mm (kern m))) (initial_memory bytes elf)"
proof -
  define ts where "ts = ALL_TASKS k"
  have ok: "tasks_ok (mset (ALL_TASKS k)) (mm k)" and ready: "\<forall>t \<in> set ts. tstate t = Ready \<and> saved_user t (mm k)"
    using b by (simp_all add: boot_ok_def ts_def)
  have nr: "none_running (mset (ALL_TASKS k))" using ready by (auto simp: none_running_def ts_def)
  show ?thesis
  proof (rule schedule [OF ok nr], goal_cases sd sw)
    case (sd k')
    then have "ts = []" using ready by (cases ts) (auto simp: ts_def)
    then show ?thesis using good sd(1) by (intro idle) (simp_all add: ts_def)
  next
    case (sw k' t u A gone)
    have "gone = None"
    proof (cases gone)
      case (Some g)
      then have "g \<in># mset ts" using sw(5) by (simp add: ts_def)
      then show ?thesis using sw(6) [OF Some] ready by fastforce
    qed simp
    then have all: "mset ts = add_mset t A" using sw(5) by (simp add: ts_def)
    then have tin: "t \<in> set ts" by (metis set_mset_mset union_single_eq_member)
    have view: "same_view (vm_space w) (mm k) (mm k')" if "w \<in> set ts" for w
      using sw(7) [of w] that all by (simp add: untouched_def) (metis set_mset_mset add_mset_commute insert_iff set_mset_add_mset_insert)
    have tok: "task_ok w (mm k)" if "w \<in> set ts" for w using ok that by (simp add: tasks_ok_def ts_def)
    have su: "saved_user w (mm k')" if "w \<in> set ts" for w
      using same_view_ctx [OF tok [OF that] view [OF that], of "{}"] ready that by (simp add: saved_user_def ctx_kept_def)
    have sub: "w \<in> set ts" if "w \<in># A" for w using all that by (metis insert_iff set_mset_add_mset_insert set_mset_mset)
    have su': "saved_user u (mm k')" "\<forall>w \<in># A. saved_user w (mm k')"
      using su [OF tin] su sub sw(3) by (auto simp: same_block_def saved_user_def)
    obtain m where m: "resume k' = (U_mode, m)" "machine_ok m u A" "mm (kern m) = mm k'"
      "pc m = ctx_word (ctx_tp (tcontext u)) 33 (phys (mm k'))"
      "\<And>n. 0 < n \<Longrightarrow> n < 32 \<Longrightarrow> regs m ! n = ctx_word (ctx_tp (tcontext u)) (of_nat n) (phys (mm k'))"
      using resume_spec [OF sw(2) su'] by metis
    have fresh: "list_all2 (\<lambda>bytes t. \<exists>elf. ElfFile_new bytes = Inr elf \<and> fresh_task bytes elf t (mm k')) apps ts"
      using good unfolding ts_def [symmetric] by (rule list.rel_mono_strong) (use fresh_task_kept [OF _ tok view] in blast)
    obtain i where i: "i < length ts" "t = ts ! i" using tin by (auto simp: in_set_conv_nth)
    obtain bytes elf where be: "bytes \<in> set apps" "ElfFile_new bytes = Inr elf" "fresh_task bytes elf t (mm k')"
      using list_all2_nthD2 [OF fresh i(1)] list_all2_lengthD [OF fresh] i by (metis nth_mem)
    have tu: "tcontext u = tcontext t" "vm_space u = vm_space t" "task_id u = task_id t" using sw(3) by (simp_all add: same_block_def)
    have len: "length (regs m) = 32" "regs m ! 0 = 0" "mset (ALL_TASKS (kern m)) = add_mset u A"
      using m(2) by (simp_all add: machine_ok_def user_kernel_def hosted_def)
    have "regs m ! n = (replicate 32 0)[2 := USER_SPACE_END] ! n" if "n < 32" for n
      using m(5) [of n] len(2) be(3) that by (cases "n = 0") (auto simp: fresh_task_def Let_def tu nth_list_update)
    then have "regs m = (replicate 32 0)[2 := USER_SPACE_END]" using len(1) by (intro nth_equalityI) simp_all
    moreover have "image_mset task_id (mset ts) = image_mset task_id (add_mset u A)" using all tu(3) by simp
    ultimately show ?thesis using m(1,2,4) len(3) fresh be sw(1) m(3)
      by (intro started [of "tcontext u" k' m u A ts bytes elf]) (simp_all add: fresh_task_def Let_def tu)
  qed
qed

lemma task_start_spec:
  assumes k: "mm_inv (mm k)" "kernel_map r (mm k)" "room (mm k)" "ALL_TASKS k = []" "satp_root (csrr SATP_CSR_NO (csrs k)) = r"
    and ids: "unat (NEXT_TASK_ID k) + length apps < 2 ^ 64"
    and fits: "\<And>bytes elf. bytes \<in> set apps \<Longrightarrow> ElfFile_new bytes = Inr elf \<Longrightarrow> program_fits bytes elf"
  obtains (failed) "task_start ElfFile_new ra apps k = None" "load_fails ElfFile_new ra apps k"
  | (stray) va where "task_start ElfFile_new ra apps k = None" "tp k \<noteq> 0" "va \<in> word_at (tp k + 272)"
      "case sv39_walk (phys (mm k)) r va of None \<Rightarrow> True | Some (e, pa) \<Rightarrow> pte_bits e AND FLAG_U \<noteq> 0 \<or> pte_bits e AND FLAG_R = 0"
  | (idle) k' where "task_start ElfFile_new ra apps k = Some (Shutdown, k')" "apps = []"
  | (started) c k' m t B ts bytes elf where "task_start ElfFile_new ra apps k = Some (Switched c, k')"
      "resume k' = (U_mode, m)" "machine_ok m t B" "mset (ALL_TASKS (kern m)) = add_mset t B"
      "list_all2 (\<lambda>bytes t. \<exists>elf. ElfFile_new bytes = Inr elf \<and> fresh_task bytes elf t (mm (kern m))) apps ts"
      "image_mset task_id (mset ts) = image_mset task_id (add_mset t B)"
      "bytes \<in> set apps" "ElfFile_new bytes = Inr elf" "pc m = entry_point elf"
      "regs m = (replicate 32 0)[2 := USER_SPACE_END]"
      "same_user (user_mem (vm_space t) (mm (kern m))) (initial_memory bytes elf)"
proof -
  have b0: "boot_ok r k" using k by (simp add: boot_ok_def tasks_ok_def ids_distinct_def single_owner_def)
  show ?thesis
  proof (rule add_tasks_spec [where ElfFile_new = ElfFile_new and ra = ra, OF b0 ids], goal_cases fit bad good)
    case (fit bytes elf)
    then show ?case by (rule fits)
  next
    case bad
    then show ?thesis by (intro failed) (simp_all add: task_start_def)
  next
    case (good ts k1)
    have satp: "satp_root (csrr SATP_CSR_NO (csrs k1)) = r" "sv39_walk (phys (mm k1)) r = sv39_walk (phys (mm k)) r"
      using good(7) k(5) by (simp_all add: same_kernel_view_def fun_eq_iff)
    show ?thesis
    proof (cases "tp_readable k1")
      case False
      then obtain va where "tp k1 \<noteq> 0" "va \<in> word_at (tp k1 + 272)" "mmu S_mode Load va k1 = None"
        by (auto simp: tp_readable_word)
      then show ?thesis using good(1,4) False satp
        by (intro stray [of va]) (auto simp: task_start_def mmu_def translate_def hw_allows_def split: option.splits if_splits)
    next
      case True
      then have code: "task_start ElfFile_new ra apps k = run_next_task k1" using good(1) by (simp add: task_start_def)
      have ts: "ALL_TASKS k1 = ts" using good(3) k(4) by simp
      show ?thesis by (rule first_task [OF good(2) good(5) [folded ts]]) (rule idle [unfolded code] started [unfolded code], assumption+)+
    qed
  qed
qed

end
