(* ===== verification/Kernel_Map.thy ===== *)
theory Kernel_Map
  imports Load_Root
begin

text \<open>
  What \<open>map_create\<close> and \<open>map_create_large\<close> do to the kernel's own table, in terms of the translation
  the hardware makes with it: the flags and the physical address for each virtual address.
\<close>

subsection \<open>The translation of a kernel table\<close>

type_synonym kernel_memory = "usize \<Rightarrow> (usize \<times> usize) option"

definition translation :: "phys_mem \<Rightarrow> PPN \<Rightarrow> kernel_memory" where
  "translation m r va = map_option (\<lambda>(e, pa). (take_bit 10 (pte_bits e), pa)) (sv39_walk m r va)"

text \<open>The large page at two indices of a tree.\<close>

definition large_leaf :: "tables \<Rightarrow> PPN \<Rightarrow> usize \<Rightarrow> usize \<Rightarrow> PTE option" where
  "large_leaf T r i j =
     (case table1 T r i of None \<Rightarrow> None | Some q \<Rightarrow> if PTE_hw_leaf (T q j) then Some (T q j) else None)"

text \<open>No entry of the root is a leaf, and every leaf below is one the hardware accepts.\<close>

definition kernel_table :: "tables \<Rightarrow> PPN \<Rightarrow> bool" where
  "kernel_table T r \<longleftrightarrow>
     (\<forall>i. \<not> PTE_hw_leaf (T r i)) \<and>
     (\<forall>i j e. large_leaf T r i j = Some e \<longrightarrow> PTE_is_leaf e \<and> \<not> hw_bad e \<and> take_bit 9 (get_raw (pte_ppn e)) = 0) \<and>
     (\<forall>i j k e. walk T r i j k = Some e \<longrightarrow> PTE_hw_leaf e \<and> \<not> hw_bad e)"

lemma kernel_tableD:
  assumes "kernel_table T r"
  shows "\<not> PTE_hw_leaf (T r i)"
    "large_leaf T r i j = Some e \<Longrightarrow> PTE_is_leaf e \<and> \<not> hw_bad e \<and> take_bit 9 (get_raw (pte_ppn e)) = 0"
    "walk T r i j k = Some e \<Longrightarrow> PTE_hw_leaf e \<and> \<not> hw_bad e"
  using assms unfolding kernel_table_def by blast+

definition va_i :: "usize \<Rightarrow> usize" where "va_i va = take_bit 9 (drop_bit 30 va)"
definition va_j :: "usize \<Rightarrow> usize" where "va_j va = take_bit 9 (drop_bit 21 va)"
definition va_k :: "usize \<Rightarrow> usize" where "va_k va = take_bit 9 (drop_bit 12 va)"

lemmas va_ix = va_i_def va_j_def va_k_def

lemma va_ix_bound: "va_i va < 512" "va_j va < 512" "va_k va < 512"
  by (simp_all add: va_ix word_less_nat_alt bits_nat)

definition leaf_target :: "PTE \<Rightarrow> nat \<Rightarrow> usize \<Rightarrow> usize \<times> usize" where
  "leaf_target e n va = (take_bit 10 (pte_bits e), get_pa (pte_ppn e) + take_bit n va)"

lemma translation_tree:
  assumes ok: "pgt_ok t s" and r: "r = root_ppn t" and k: "kernel_table (mtab s) r" and va: "is_valid_va va"
  shows "translation (phys s) r va =
    (case large_leaf (mtab s) r (va_i va) (va_j va) of
       Some e \<Rightarrow> Some (leaf_target e 21 va)
     | None \<Rightarrow> map_option (\<lambda>e. leaf_target e 12 va) (walk (mtab s) r (va_i va) (va_j va) (va_k va)))"
proof -
  let ?T = "mtab s" and ?i = "va_i va" and ?j = "va_j va" and ?k = "va_k va"
  note R = pgt_okD(5) [OF ok, folded r] and K = kernel_tableD [OF k] and ix = va_ix [symmetric]
  have e2: "hw_entry (phys s) r ?i = ?T r ?i" by (rule hw_entry_tab [OF R [OF table_pages_intros(1)] va_ix_bound(1)])
  show ?thesis
  proof (cases "table1 ?T r ?i")
    case None
    then have "hw_bad (?T r ?i)" using K(1) [of ?i] by (auto simp: table1_def subtable_def hw_bad_def split: if_splits)
    then show ?thesis using None by (simp add: translation_def sv39_walk_def Let_def ix e2 large_leaf_def walk_def table0_def)
  next
    case (Some q)
    then have q: "pte_ppn (?T r ?i) = q" "\<not> hw_bad (?T r ?i)"
      using K(1) [of ?i] by (auto simp: table1_def subtable_def not_hw_leaf_bad split: if_splits)
    have e1: "hw_entry (phys s) q ?j = ?T q ?j"
      by (rule hw_entry_tab [OF R [OF table_pages_intros(2) [OF Some]] va_ix_bound(2)])
    show ?thesis
    proof (cases "PTE_hw_leaf (?T q ?j)")
      case True
      then have "large_leaf ?T r ?i ?j = Some (?T q ?j)" using Some by (simp add: large_leaf_def)
      then show ?thesis using K(2) [of ?i ?j] True q K(1) [of ?i] va
        by (simp add: translation_def sv39_walk_def Let_def ix e2 e1 leaf_target_def)
    next
      case nl: False
      then have ll: "large_leaf ?T r ?i ?j = None" using Some by (simp add: large_leaf_def)
      show ?thesis
      proof (cases "table0 ?T r ?i ?j")
        case None
        then have "hw_bad (?T q ?j)" using nl Some by (simp add: table0_def subtable_def hw_bad_def split: if_splits)
        then show ?thesis using None ll q K(1) [of ?i]
          by (simp add: translation_def sv39_walk_def Let_def ix e2 e1 walk_def)
      next
        case c: (Some c)
        then have cq: "pte_ppn (?T q ?j) = c" "\<not> hw_bad (?T q ?j)"
          using nl Some by (auto simp: table0_def subtable_def not_hw_leaf_bad split: if_splits)
        have e0: "hw_entry (phys s) c ?k = ?T c ?k"
          by (rule hw_entry_tab [OF R [OF table_pages_intros(3) [OF c]] va_ix_bound(3)])
        show ?thesis
        proof (cases "PTE_is_valid (?T c ?k)")
          case True
          then have "walk ?T r ?i ?j ?k = Some (?T c ?k)" by (simp add: walk_def c)
          then show ?thesis using K(3) [of ?i ?j ?k] ll nl q cq K(1) [of ?i] va
            by (simp add: translation_def sv39_walk_def Let_def ix e2 e1 e0 leaf_target_def)
        next
          case False
          then have "walk ?T r ?i ?j ?k = None" "hw_bad (?T c ?k)" by (simp_all add: walk_def c hw_bad_def)
          then show ?thesis using ll nl q cq K(1) [of ?i]
            by (simp add: translation_def sv39_walk_def Let_def ix e2 e1 e0)
        qed
      qed
    qed
  qed
qed

lemma translation_invalid: "\<not> is_valid_va va \<Longrightarrow> translation m r va = None"
  by (simp add: translation_def sv39_walk_def)

subsection \<open>Addresses\<close>

text \<open>On valid addresses the indices determine the page.\<close>

lemma sign_extended:
  fixes p q N B :: nat
  assumes "p < N \<or> B * (2 * N) + N \<le> p \<and> p < B * (2 * N) + 2 * N"
    "q < N \<or> B * (2 * N) + N \<le> q \<and> q < B * (2 * N) + 2 * N" "p mod (2 * N) = q mod (2 * N)"
  shows "p = q"
proof -
  have m: "x mod (2 * N) = (if x < N then x else x - B * (2 * N))"
    if "x < N \<or> B * (2 * N) + N \<le> x \<and> x < B * (2 * N) + 2 * N" for x
  proof (cases "x < N")
    case False
    then have "B * (2 * N) \<le> x" "x - B * (2 * N) < 2 * N" using that by auto
    then show ?thesis using False mod_mult_self1 [of "x - B * (2 * N)" B "2 * N"] by (simp add: mult.commute)
  qed simp
  from m [OF assms(1)] m [OF assms(2)] assms show ?thesis by (auto split: if_splits)
qed

lemma same_indices:
  assumes va: "is_valid_va va" and a: "is_valid_va a"
  shows "va_i va = va_i a \<and> va_j va = va_j a \<longleftrightarrow> drop_bit 21 va = drop_bit 21 a"
    "va_i va = va_i a \<and> va_j va = va_j a \<and> va_k va = va_k a \<longleftrightarrow> drop_bit 12 va = drop_bit 12 a"
proof -
  have range: "x div 2 ^ 21 < 2 ^ 17 \<or> 33554431 * (2 * 2 ^ 17) + 2 ^ 17 \<le> x div 2 ^ 21 \<and> x div 2 ^ 21 < 33554431 * (2 * 2 ^ 17) + 2 * 2 ^ 17"
    "x div 2 ^ 12 < 2 ^ 26 \<or> 33554431 * (2 * 2 ^ 26) + 2 ^ 26 \<le> x div 2 ^ 12 \<and> x div 2 ^ 12 < 33554431 * (2 * 2 ^ 26) + 2 * 2 ^ 26"
    if "x < 2 ^ 38 \<or> 2 ^ 64 - 2 ^ 38 \<le> x" "x < 2 ^ 64" for x :: nat
    using that by auto
  note v = va [unfolded is_valid_va_iff] and b = a [unfolded is_valid_va_iff]
  note rv = range [OF v unat_lt_usize] and rb = range [OF b unat_lt_usize]
  have two: "y mod (512 * 512) = y div 512 mod 512 * 512 + y mod 512" for y :: nat
    by (simp only: mod_mult2_eq mult.commute)
  have ij: "x div 2 ^ 21 mod (2 * 2 ^ 17) = x div 2 ^ 30 mod 2 ^ 9 * 512 + x div 2 ^ 21 mod 2 ^ 9" for x :: nat
  proof -
    have "(2 :: nat) * 2 ^ 17 = 512 * 512" "x div 2 ^ 21 div 512 = x div 2 ^ 30" by (simp_all add: div_mult2_eq [symmetric])
    with two [of "x div 2 ^ 21"] show ?thesis by simp
  qed
  have ijk: "x div 2 ^ 12 mod (2 * 2 ^ 26) = (x div 2 ^ 30 mod 2 ^ 9 * 512 + x div 2 ^ 21 mod 2 ^ 9) * 512 + x div 2 ^ 12 mod 2 ^ 9"
    for x :: nat
  proof -
    have "y mod (512 * (2 * 2 ^ 17)) = y div 512 mod (2 * 2 ^ 17) * 512 + y mod 512" for y :: nat
      by (simp only: mod_mult2_eq mult.commute)
    moreover have "(2 :: nat) * 2 ^ 26 = 512 * (2 * 2 ^ 17)" "x div 2 ^ 12 div 512 = x div 2 ^ 21"
      by (simp_all add: div_mult2_eq [symmetric])
    ultimately show ?thesis unfolding ij [symmetric] by simp
  qed
  have u: "unat (va_i w) = unat w div 2 ^ 30 mod 2 ^ 9" "unat (va_j w) = unat w div 2 ^ 21 mod 2 ^ 9"
    "unat (va_k w) = unat w div 2 ^ 12 mod 2 ^ 9" for w by (simp_all add: va_ix bits_nat)
  show "va_i va = va_i a \<and> va_j va = va_j a \<longleftrightarrow> drop_bit 21 va = drop_bit 21 a"
  proof
    assume "va_i va = va_i a \<and> va_j va = va_j a"
    then have "unat va div 2 ^ 21 mod (2 * 2 ^ 17) = unat a div 2 ^ 21 mod (2 * 2 ^ 17)"
      unfolding ij u [symmetric] by simp
    from sign_extended [OF rv(1) rb(1) this] show "drop_bit 21 va = drop_bit 21 a" by (simp only: word_unat_eq_iff bits_nat)
  next
    assume d: "drop_bit 21 va = drop_bit 21 a"
    have e: "drop_bit 30 w = drop_bit 9 (drop_bit 21 w)" for w :: usize by (simp add: drop_bit_drop_bit)
    show "va_i va = va_i a \<and> va_j va = va_j a" by (simp only: va_ix e d simp_thms)
  qed
  show "va_i va = va_i a \<and> va_j va = va_j a \<and> va_k va = va_k a \<longleftrightarrow> drop_bit 12 va = drop_bit 12 a"
  proof
    assume "va_i va = va_i a \<and> va_j va = va_j a \<and> va_k va = va_k a"
    then have "unat va div 2 ^ 12 mod (2 * 2 ^ 26) = unat a div 2 ^ 12 mod (2 * 2 ^ 26)"
      unfolding ijk u [symmetric] by simp
    from sign_extended [OF rv(2) rb(2) this] show "drop_bit 12 va = drop_bit 12 a" by (simp only: word_unat_eq_iff bits_nat)
  next
    assume d: "drop_bit 12 va = drop_bit 12 a"
    have e: "drop_bit 30 w = drop_bit 18 (drop_bit 12 w)" "drop_bit 21 w = drop_bit 9 (drop_bit 12 w)" for w :: usize
      by (simp_all add: drop_bit_drop_bit)
    show "va_i va = va_i a \<and> va_j va = va_j a \<and> va_k va = va_k a" by (simp only: va_ix e d simp_thms)
  qed
qed

subsection \<open>The table under construction\<close>

definition kernel_root :: "RootPgt \<Rightarrow> mm_state \<Rightarrow> bool" where
  "kernel_root t s \<longleftrightarrow> pgt_ok t s \<and> kernel_table (mtab s) (root_ppn t) \<and>
     (\<forall>i \<in> user_half. \<not> PTE_is_valid (mtab s (root_ppn t) i))"

text \<open>
  The places of tables and large pages in a tree.  They bound the number of pages the table takes:
  a page it takes is behind a new place, and a large page that hides a table takes its place.
\<close>

definition slots :: "tables \<Rightarrow> PPN \<Rightarrow> (usize + usize \<times> usize) set" where
  "slots T r = {Inl i |i. table1 T r i \<noteq> None} \<union> {Inr (i, j) |i j. table0 T r i j \<noteq> None \<or> large_leaf T r i j \<noteq> None}"

lemma slots_iff [simp]:
  "Inl i \<in> slots T r \<longleftrightarrow> table1 T r i \<noteq> None"
  "Inr (i, j) \<in> slots T r \<longleftrightarrow> table0 T r i j \<noteq> None \<or> large_leaf T r i j \<noteq> None"
  by (auto simp: slots_def)

lemma slots_mono:
  assumes "\<And>i. table1 T r i \<noteq> None \<Longrightarrow> table1 T' r i \<noteq> None"
    "\<And>i j. table0 T r i j \<noteq> None \<or> large_leaf T r i j \<noteq> None \<Longrightarrow> table0 T' r i j \<noteq> None \<or> large_leaf T' r i j \<noteq> None"
  shows "slots T r \<subseteq> slots T' r"
proof
  fix x assume x: "x \<in> slots T r"
  show "x \<in> slots T' r"
  proof (cases x)
    case (Inl i)
    then show ?thesis using x assms(1) [of i] by simp
  next
    case (Inr ij)
    show ?thesis
    proof (cases ij)
      case (Pair i j)
      then show ?thesis using x Inr assms(2) [of i j] by (simp only: slots_iff)
    qed
  qed
qed

abbreviation taken :: "RootPgt \<Rightarrow> PPN set" where
  "taken t \<equiv> get_ppn ` set (root_pages t)"

definition kernel_index :: "usize set" where
  "kernel_index = {256, 257, 258}"

definition kernel_step :: "RootPgt \<Rightarrow> mm_state \<Rightarrow> RootPgt \<Rightarrow> mm_state \<Rightarrow> bool" where
  "kernel_step t s t' s' \<longleftrightarrow> kernel_root t' s' \<and> root_ppn t' = root_ppn t \<and>
     mfree s' \<subseteq> mfree s \<and> mheld s \<subseteq> mheld s' \<and> KERNEL_SATP s' = KERNEL_SATP s \<and>
     table_pages (mtab s') (root_ppn t) \<subseteq> table_pages (mtab s) (root_ppn t) \<union> mfree s \<and>
     (sentinel (mtab s) (root_ppn t) \<longrightarrow> sentinel (mtab s') (root_ppn t)) \<and>
     (\<forall>a. PPN (drop_bit 12 a) \<notin> table_pages (mtab s) (root_ppn t) \<union> mfree s \<longrightarrow> phys s' a = phys s a) \<and>
     taken t' = taken t \<union> (mfree s - mfree s') \<and>
     card (taken t') + card (slots (mtab s) (root_ppn t)) \<le> card (taken t) + card (slots (mtab s') (root_ppn t)) \<and>
     (\<forall>i. table1 (mtab s') (root_ppn t) i \<noteq> None \<longrightarrow> table1 (mtab s) (root_ppn t) i \<noteq> None \<or> i \<in> kernel_index)"

lemma kernel_step_refl: "kernel_root t s \<Longrightarrow> kernel_step t s t s"
  unfolding kernel_step_def by simp

lemma kernel_stepD:
  assumes "kernel_step t s t' s'"
  shows "kernel_root t' s'" "root_ppn t' = root_ppn t" "mfree s' \<subseteq> mfree s" "mheld s \<subseteq> mheld s'"
    "KERNEL_SATP s' = KERNEL_SATP s"
    "table_pages (mtab s') (root_ppn t) \<subseteq> table_pages (mtab s) (root_ppn t) \<union> mfree s"
    "sentinel (mtab s) (root_ppn t) \<Longrightarrow> sentinel (mtab s') (root_ppn t)"
    "PPN (drop_bit 12 a) \<notin> table_pages (mtab s) (root_ppn t) \<union> mfree s \<Longrightarrow> phys s' a = phys s a"
    "taken t' = taken t \<union> (mfree s - mfree s')"
    "card (taken t') + card (slots (mtab s) (root_ppn t)) \<le> card (taken t) + card (slots (mtab s') (root_ppn t))"
    "table1 (mtab s') (root_ppn t) i \<noteq> None \<Longrightarrow> table1 (mtab s) (root_ppn t) i \<noteq> None \<or> i \<in> kernel_index"
  using assms unfolding kernel_step_def by blast+

lemma kernel_step_trans:
  assumes "kernel_step t s t' s'" "kernel_step t' s' t'' s''"
  shows "kernel_step t s t'' s''"
proof -
  note A = kernel_stepD [OF assms(1)] and B = kernel_stepD [OF assms(2), unfolded A(2)]
  have "phys s'' a = phys s a" if a: "PPN (drop_bit 12 a) \<notin> table_pages (mtab s) (root_ppn t) \<union> mfree s" for a
  proof -
    have "PPN (drop_bit 12 a) \<notin> table_pages (mtab s') (root_ppn t) \<union> mfree s'" using a A(3,6) by blast
    from B(8) [OF this] A(8) [OF a] show ?thesis by simp
  qed
  moreover have "table_pages (mtab s'') (root_ppn t) \<subseteq> table_pages (mtab s) (root_ppn t) \<union> mfree s"
    using A(3,6) B(6) by blast
  moreover have "mfree s'' \<subseteq> mfree s" "mheld s \<subseteq> mheld s''" using A(3,4) B(3,4) by blast+
  moreover have "taken t'' = taken t \<union> (mfree s - mfree s'')" unfolding B(9) A(9) using A(3) B(3) by blast
  moreover have "card (taken t'') + card (slots (mtab s) (root_ppn t)) \<le> card (taken t) + card (slots (mtab s'') (root_ppn t))"
    using A(10) B(10) by linarith
  moreover have "table1 (mtab s) (root_ppn t) i \<noteq> None \<or> i \<in> kernel_index" if "table1 (mtab s'') (root_ppn t) i \<noteq> None" for i
    using A(11) B(11) [OF that] by blast
  ultimately show ?thesis unfolding kernel_step_def using A(2,5,7) B(1,2,5,7) by simp
qed

lemma large_leaf_Some: "large_leaf T r i j = Some e \<longleftrightarrow> (\<exists>q. table1 T r i = Some q \<and> PTE_hw_leaf (T q j) \<and> e = T q j)"
  by (auto simp: large_leaf_def split: option.splits)

lemma large_leaf_kept:
  assumes "tree_kept I T T' r"
  shows "large_leaf T' r = large_leaf T r"
proof -
  note K = tree_keptD [OF assms]
  have "large_leaf T' r i j = Some e \<longleftrightarrow> large_leaf T r i j = Some e" for i j e
    unfolding large_leaf_Some using K(1) [of i] K(5) [of i _ j] K(6) [of i _ j] by metis
  then show ?thesis by (intro ext option.expand) (metis option.collapse option.discI)+
qed

lemma new_slots:
  assumes k: "kernel_root t s" and g: "pgt_grows I t s t' s' ps"
  shows "card (taken t') + card (slots (mtab s) (root_ppn t)) \<le> card (taken t) + card (slots (mtab s') (root_ppn t))"
proof -
  let ?r = "root_ppn t" and ?T = "mtab s" and ?T' = "mtab s'"
  have G: "root_pages t' = root_pages t @ ps" "get_ppn ` set ps \<subseteq> mfree s"
    "table_pages ?T' ?r = table_pages ?T ?r \<union> get_ppn ` set ps" "tree_kept I ?T ?T' ?r"
    using g by (simp_all add: pgt_grows_def)
  note K = tree_keptD [OF G(4)]
  have L: "large_leaf ?T' ?r = large_leaf ?T ?r" by (rule large_leaf_kept [OF G(4)])
  have ok: "pgt_ok t s" and kt: "kernel_table ?T ?r" using k by (simp_all add: kernel_root_def)
  have sub: "slots ?T ?r \<subseteq> slots ?T' ?r" by (rule slots_mono) (use K(1,2) in \<open>auto simp: L\<close>)
  define page where "page x = (case x of Inl i \<Rightarrow> the (table1 ?T' ?r i) | Inr (i, j) \<Rightarrow> the (table0 ?T' ?r i j))" for x
  have "get_ppn ` set ps \<subseteq> page ` (slots ?T' ?r - slots ?T ?r)"
  proof
    fix p assume p: "p \<in> get_ppn ` set ps"
    then have "p \<notin> table_pages ?T ?r" "p \<in> table_pages ?T' ?r" using G(2,3) pgt_okD(4) [OF ok] by blast+
    then consider i where "table1 ?T' ?r i = Some p" | i j where "table0 ?T' ?r i j = Some p"
      by (auto simp: table_pages_def)
    then show "p \<in> page ` (slots ?T' ?r - slots ?T ?r)"
    proof cases
      case (1 i)
      have "table1 ?T ?r i = None"
        using K(1) [of i] 1 \<open>p \<notin> table_pages ?T ?r\<close> table_pages_intros(2) by (metis not_Some_eq option.inject)
      then have "Inl i \<in> slots ?T' ?r - slots ?T ?r" using 1 by (auto simp: slots_def)
      moreover have "p = page (Inl i)" using 1 by (simp add: page_def)
      ultimately show ?thesis by blast
    next
      case (2 i j)
      have n: "table0 ?T ?r i j = None"
        using K(2) [of i j] 2 \<open>p \<notin> table_pages ?T ?r\<close> table_pages_intros(3) by (metis not_Some_eq option.inject)
      have "large_leaf ?T ?r i j = None"
      proof (rule ccontr)
        assume "large_leaf ?T ?r i j \<noteq> None"
        then obtain e q where e: "large_leaf ?T ?r i j = Some e" "table1 ?T ?r i = Some q" "PTE_hw_leaf (?T q j)" "e = ?T q j"
          by (metis large_leaf_Some not_Some_eq)
        then have "?T' q j = e" "PTE_is_leaf e" using K(5) [OF e(2,3)] kernel_tableD(2) [OF kt e(1)] by simp_all
        then show False using 2 K(1) [OF e(2)] by (simp add: table0_def subtable_def)
      qed
      then have "Inr (i, j) \<in> slots ?T' ?r - slots ?T ?r" using 2 n by (auto simp: slots_def)
      moreover have "p = page (Inr (i, j))" using 2 by (simp add: page_def)
      ultimately show ?thesis by blast
    qed
  qed
  then have "card (get_ppn ` set ps) \<le> card (slots ?T' ?r - slots ?T ?r)"
    by (meson card_image_le card_mono finite finite_imageI le_trans)
  also have "\<dots> = card (slots ?T' ?r) - card (slots ?T ?r)" by (rule card_Diff_subset [OF finite sub])
  finally have "card (get_ppn ` set ps) \<le> card (slots ?T' ?r) - card (slots ?T ?r)" .
  moreover have "card (slots ?T ?r) \<le> card (slots ?T' ?r)" by (rule card_mono [OF finite sub])
  moreover have "card (taken t') \<le> card (taken t) + card (get_ppn ` set ps)" by (simp add: G(1) image_Un card_Un_le)
  ultimately show ?thesis by linarith
qed

lemma grown_step:
  assumes k: "kernel_root t s" and ok: "pgt_ok t' s'" and g: "pgt_grows {i} t s t' s' ps" and i: "i \<in> kernel_index"
    and w: "\<And>a b c e. walk (mtab s') (root_ppn t) a b c = Some e \<Longrightarrow> PTE_hw_leaf e \<and> \<not> hw_bad e"
  shows "kernel_step t s t' s'" "kernel_table (mtab s') (root_ppn t)" "large_leaf (mtab s') (root_ppn t) = large_leaf (mtab s) (root_ppn t)"
proof -
  have iu: "i \<notin> user_half" using i by (auto simp: kernel_index_def)
  have G: "root_ppn t' = root_ppn t" "get_ppn ` set ps \<subseteq> mfree s" "mfree s' = mfree s - get_ppn ` set ps"
    "mheld s' = mheld s \<union> get_ppn ` set ps" "table_pages (mtab s') (root_ppn t) = table_pages (mtab s) (root_ppn t) \<union> get_ppn ` set ps"
    "KERNEL_SATP s' = KERNEL_SATP s" "tree_kept {i} (mtab s) (mtab s') (root_ppn t)"
    "\<And>a. PPN (drop_bit 12 a) \<notin> under (mtab s') (root_ppn t) {i} \<Longrightarrow> phys s' a = phys s a"
    using g by (simp_all add: pgt_grows_def)
  note K = tree_keptD [OF G(7)]
  show L: "large_leaf (mtab s') (root_ppn t) = large_leaf (mtab s) (root_ppn t)" by (rule large_leaf_kept [OF G(7)])
  have old: "kernel_table (mtab s) (root_ppn t)" using k by (simp add: kernel_root_def)
  show kt: "kernel_table (mtab s') (root_ppn t)"
    unfolding kernel_table_def L using kernel_tableD(2) [OF old] w K(4) kernel_tableD(1) [OF old] by metis
  have "\<not> PTE_is_valid (mtab s' (root_ppn t) n)" if "n \<in> user_half" for n
    using K(3) [of n] that iu k by (auto simp: kernel_root_def)
  then have "kernel_root t' s'" using ok kt by (simp add: kernel_root_def G(1))
  moreover have "phys s' a = phys s a" if "PPN (drop_bit 12 a) \<notin> table_pages (mtab s) (root_ppn t) \<union> mfree s" for a
    by (rule G(8)) (use that under_table_pages [of "mtab s'" "root_ppn t" "{i}"] G(2,5) in auto)
  moreover have "sentinel (mtab s) (root_ppn t) \<Longrightarrow> sentinel (mtab s') (root_ppn t)"
    using K(2) by (auto simp: sentinel_def)
  moreover have "taken t' = taken t \<union> (mfree s - mfree s')" using g G(2,3) by (auto simp: pgt_grows_def)
  moreover have "table1 (mtab s) (root_ppn t) n \<noteq> None \<or> n \<in> kernel_index" if "table1 (mtab s') (root_ppn t) n \<noteq> None" for n
  proof (cases "n = i")
    case False
    then have "table1 (mtab s') (root_ppn t) n = table1 (mtab s) (root_ppn t) n" using K(3) [of n] by (simp add: table1_def subtable_def)
    then show ?thesis using that by simp
  qed (use i in simp)
  moreover note new_slots [OF k g]
  ultimately show "kernel_step t s t' s'" using G unfolding kernel_step_def by auto
qed

subsection \<open>Kernel addresses\<close>

lemma kernel_va:
  assumes "KERNEL_VA_OFFSET \<le> a"
  shows "is_valid_va a" "get_pa_from_va a = Some (a - KERNEL_VA_OFFSET)" "unat (a - KERNEL_VA_OFFSET) < 2 ^ 38"
    "PPN_from_pa (a - KERNEL_VA_OFFSET) = Some (PPN (drop_bit 12 (a - KERNEL_VA_OFFSET)))"
    "unat (drop_bit 12 (a - KERNEL_VA_OFFSET)) < 2 ^ 44" "va_i a \<notin> user_half"
proof -
  have l: "2 ^ 64 - 2 ^ 38 \<le> unat a" using assms by (simp add: word_le_nat_alt kconst)
  then show "is_valid_va a" by (simp add: is_valid_va_iff)
  show u: "unat (a - KERNEL_VA_OFFSET) < 2 ^ 38"
    using assms unat_lt_usize [of a] by (simp add: unat_sub kconst)
  show "get_pa_from_va a = Some (a - KERNEL_VA_OFFSET)" using assms by (simp add: get_pa_from_va_def checked_sub_def)
  then show "PPN_from_pa (a - KERNEL_VA_OFFSET) = Some (PPN (drop_bit 12 (a - KERNEL_VA_OFFSET)))"
    using u by (simp add: PPN_from_pa_def is_valid_pa_def MAX_PA_def word_less_nat_alt kconst)
  show "unat (drop_bit 12 (a - KERNEL_VA_OFFSET)) < 2 ^ 44" using u by (simp add: bits_nat)
  have "256 \<le> unat a div 2 ^ 30 mod 512"
  proof -
    have "17179868928 \<le> unat a div 2 ^ 30" "unat a div 2 ^ 30 < 17179869184" using l unat_lt_usize [of a] by auto
    moreover have "256 \<le> x mod 512" if "17179868928 \<le> x" "x < 17179869184" for x :: nat
    proof -
      have "x = 256 + (x - 17179868928) + 512 * 33554431" "256 + (x - 17179868928) < 512" using that by auto
      then show ?thesis by (metis mod_mult_self2 mod_less le_add1)
    qed
    ultimately show ?thesis by blast
  qed
  then show "va_i a \<notin> user_half" by (simp add: va_ix word_less_nat_alt bits_nat)
qed

lemma kernel_va_index:
  assumes "KERNEL_VA_OFFSET \<le> a" "a < 0xffffffc0c0000000"
  shows "va_i a \<in> kernel_index"
proof -
  have "18446743798831644672 \<le> unat a" "unat a < 18446743802052870144"
    using assms by (simp_all add: word_le_nat_alt word_less_nat_alt kconst)
  then have "17179868928 \<le> unat a div 2 ^ 30" "unat a div 2 ^ 30 < 17179868931" by auto
  then consider "unat a div 2 ^ 30 = 17179868928" | "unat a div 2 ^ 30 = 17179868929" | "unat a div 2 ^ 30 = 17179868930" by linarith
  moreover have "unat (va_i a) = unat a div 2 ^ 30 mod 2 ^ 9" by (simp add: va_ix bits_nat)
  ultimately have "unat (va_i a) \<in> {256, 257, 258}" by cases auto
  then show ?thesis by (auto simp: kernel_index_def word_unat_eq_iff)
qed

lemma aligned_parts:
  assumes "take_bit n a = 0" "drop_bit n va = drop_bit n (a :: usize)"
  shows "a + take_bit n va = va"
proof -
  have "push_bit n (drop_bit n a) = a" using push_drop_take_bit [of n a] assms(1) by simp
  then show ?thesis using push_drop_take_bit [of n va] assms(2) by simp
qed

lemma aligned_offset:
  assumes "take_bit n a = 0" "n \<le> 38"
  shows "take_bit n (a - KERNEL_VA_OFFSET) = 0"
proof -
  have "KERNEL_VA_OFFSET = push_bit 38 (mask 26)" by (simp add: kconst mask_eq_exp_minus_1)
  moreover have "take_bit n (push_bit 38 (mask 26)) = (0 :: usize)"
    using assms(2) by (intro bit_eqI) (auto simp: bit_simps)
  ultimately have "push_bit n (drop_bit n KERNEL_VA_OFFSET) = KERNEL_VA_OFFSET"
    using push_drop_take_bit [of n KERNEL_VA_OFFSET] by simp
  moreover have "push_bit n (drop_bit n a) = a" using push_drop_take_bit [of n a] assms(1) by simp
  ultimately have "a - KERNEL_VA_OFFSET = push_bit n (drop_bit n a - drop_bit n KERNEL_VA_OFFSET)"
    by (simp add: push_bit_eq_mult left_diff_distrib)
  then show ?thesis by (simp add: take_bit_push_bit)
qed

lemma linear_target:
  assumes e: "PTE_new (PPN (drop_bit 12 (a - KERNEL_VA_OFFSET))) f = Inr e" and a: "KERNEL_VA_OFFSET \<le> a"
    and n: "take_bit n a = 0" "12 \<le> n" "n \<le> 38" and va: "drop_bit n va = drop_bit n a"
  shows "leaf_target e n va = (f, va - KERNEL_VA_OFFSET)"
proof -
  have "unat (get_raw (PPN (drop_bit 12 (a - KERNEL_VA_OFFSET)))) < 2 ^ 44" using kernel_va(5) [OF a] by simp
  note P = PTE_new_fields [OF e this]
  have "take_bit 12 (a - KERNEL_VA_OFFSET) = take_bit 12 (take_bit n (a - KERNEL_VA_OFFSET))" using n(2) by simp
  also have "\<dots> = 0" using aligned_offset [OF n(1,3)] by simp
  finally have "get_pa (pte_ppn e) = a - KERNEL_VA_OFFSET"
    using push_drop_take_bit [of 12 "a - KERNEL_VA_OFFSET"] by (simp add: P get_pa_def kconst)
  then show ?thesis using P aligned_parts [OF n(1) va] by (simp add: leaf_target_def diff_add_eq)
qed

subsection \<open>Mapping a page\<close>

lemma kernel_leaf:
  assumes "PTE_new p f = Inr e" "bit f 1" "unat (get_raw p) < 2 ^ 44"
  shows "PTE_hw_leaf e" "\<not> hw_bad e" "bit f 2 \<or> bit f 3 \<Longrightarrow> PTE_is_leaf e"
proof -
  note P = PTE_new_fields [OF assms(1,3)]
  have b: "bit (pte_bits e) n \<longleftrightarrow> bit f n" if "n < 10" for n using P(2) that by (metis bit_take_bit_iff)
  show "PTE_hw_leaf e" using PTE_new_leaf [OF assms(1,3)] assms(2) by simp
  have "bit (pte_bits e) 1" using b [of 1] assms(2) by simp
  then have "pte_bits e AND FLAG_R \<noteq> 0" by (simp add: FLAG_R_def del: push_bit_of_1 push_bit_Suc)
  then show "\<not> hw_bad e" using P(3) by (simp add: hw_bad_def)
  show "PTE_is_leaf e" if "bit f 2 \<or> bit f 3" using that b [of 2] b [of 3] P(3) by (auto simp: PTE_bits_iff)
qed

definition map_translation :: "nat \<Rightarrow> usize \<Rightarrow> usize \<Rightarrow> kernel_memory \<Rightarrow> kernel_memory" where
  "map_translation n a f M =
     (\<lambda>va. if drop_bit n va = drop_bit n a then Some (f, va - KERNEL_VA_OFFSET) else M va)"

lemma aligned_valid:
  assumes "KERNEL_VA_OFFSET \<le> a" "take_bit n a = 0" "n \<le> 38" "drop_bit n va = drop_bit n a"
  shows "KERNEL_VA_OFFSET \<le> va"
proof -
  have "unat a div 2 ^ n * 2 ^ n = unat a" using assms(2) push_drop_take_bit [of n a] unat_push_drop_bit [of n a] by simp
  moreover have "unat va div 2 ^ n = unat a div 2 ^ n" using arg_cong [OF assms(4), of unat] by (simp only: bits_nat)
  ultimately have "unat a \<le> unat va" by (metis div_times_less_eq_dividend)
  then show ?thesis using assms(1) by (simp add: word_le_nat_alt)
qed

lemma map_create_kernel:
  assumes k: "kernel_root t s" and f: "is_valid_flags f" "bit f 1" and a: "KERNEL_VA_OFFSET \<le> a" "take_bit 12 a = 0"
    and top: "a < 0xffffffc0c0000000"
    and free: "translation (phys s) (root_ppn t) a = None"
  defines "vpn \<equiv> VPN (drop_bit 12 a)" and "ppn \<equiv> PPN (drop_bit 12 (a - KERNEL_VA_OFFSET))"
  obtains (full) t' s' where "map_create vpn ppn f t s = Some (Inl AcquirePageFailed, t', s')" "kernel_step t s t' s'" "mfree s' = {}"
  | (mapped) t' s' where "map_create vpn ppn f t s = Some (Inr (), t', s')" "kernel_step t s t' s'"
      "translation (phys s') (root_ppn t) = map_translation 12 a f (translation (phys s) (root_ppn t))"
      "table0 (mtab s') (root_ppn t) (va_i a) (va_j a) \<noteq> None"
proof -
  let ?r = "root_ppn t"
  have ok: "pgt_ok t s" and kt: "kernel_table (mtab s) ?r" using k by (simp_all add: kernel_root_def)
  note A = kernel_va [OF a(1)] and T = kernel_tableD [OF kt] and ki = kernel_va_index [OF a(1) top]
  have ix: "va_i a = parse_vpn vpn ! 2" "va_j a = parse_vpn vpn ! 1" "va_k a = parse_vpn vpn ! 0"
    using va_vpn_index [of a] by (simp_all add: va_ix vpn_def va_vpn_def)
  have tr: "translation (phys s) ?r va = (case large_leaf (mtab s) ?r (va_i va) (va_j va) of
       Some e \<Rightarrow> Some (leaf_target e 21 va)
     | None \<Rightarrow> map_option (\<lambda>e. leaf_target e 12 va) (walk (mtab s) ?r (va_i va) (va_j va) (va_k va)))" if "is_valid_va va" for va
    by (rule translation_tree [OF ok refl kt that])
  have nc: "\<not> covered (mtab s) ?r (va_i a) (va_j a) (va_k a)"
  proof
    assume "covered (mtab s) ?r (va_i a) (va_j a) (va_k a)"
    then consider q where "table1 (mtab s) ?r (va_i a) = Some q" "PTE_is_leaf (mtab s q (va_j a))"
      | "walk (mtab s) ?r (va_i a) (va_j a) (va_k a) \<noteq> None"
      using T(1) [of "va_i a"] by (auto simp: covered_def)
    then show False
    proof cases
      case (1 q)
      then have "PTE_hw_leaf (mtab s q (va_j a))" using PTE_leaf_hw by blast
      then have "large_leaf (mtab s) ?r (va_i a) (va_j a) = Some (mtab s q (va_j a))" using 1 by (simp add: large_leaf_def)
      then show False using free tr [OF A(1)] by simp
    next
      case 2
      then show False using free tr [OF A(1)] by (auto split: option.splits)
    qed
  qed
  then have nl: "large_leaf (mtab s) ?r (va_i a) (va_j a) = None"
    using T(2) [of "va_i a" "va_j a"] by (auto simp: covered_def large_leaf_def split: option.splits if_splits)
  show ?thesis
  proof (rule map_create_cases [OF ok refl ix, where f = f and ppn = ppn], goal_cases fl cv fu ma)
    case (fu t' s' ps)
    have "kernel_step t s t' s'" by (rule grown_step(1) [OF k fu(5,6) ki]) (use T(3) fu(7) in simp)
    then show ?case using fu(3,4) by (intro full)
  next
    case (ma e t' s' ps)
    have raw: "unat (get_raw ppn) < 2 ^ 44" using A(5) by (simp add: ppn_def)
    note E = kernel_leaf [OF ma(1) f(2) raw]
    have w: "PTE_hw_leaf e' \<and> \<not> hw_bad e'" if "walk (mtab s') ?r x y z = Some e'" for x y z e'
      using that T(3) E(1,2) by (auto simp: ma(7) split: if_splits)
    note G = grown_step [OF k ma(5,6) ki w]
    have r': "root_ppn t' = ?r" by (rule kernel_stepD(2) [OF G(1)])
    have "translation (phys s') ?r va = map_translation 12 a f (translation (phys s) ?r) va" for va
    proof (cases "is_valid_va va")
      case True
      have t': "translation (phys s') ?r va = (case large_leaf (mtab s) ?r (va_i va) (va_j va) of
          Some e \<Rightarrow> Some (leaf_target e 21 va)
        | None \<Rightarrow> map_option (\<lambda>e. leaf_target e 12 va) (walk (mtab s') ?r (va_i va) (va_j va) (va_k va)))"
        using translation_tree [OF ma(5) r' [symmetric] G(2) True] by (simp add: G(3))
      show ?thesis
      proof (cases "drop_bit 12 va = drop_bit 12 a")
        case same: True
        then have "va_i va = va_i a" "va_j va = va_j a" "va_k va = va_k a" using same_indices(2) [OF True A(1)] by blast+
        then show ?thesis using same linear_target [OF ma(1) [unfolded ppn_def] a(1,2) _ _ same]
          by (simp add: t' nl ma(7) map_translation_def)
      next
        case False
        then have "\<not> (va_i va = va_i a \<and> va_j va = va_j a \<and> va_k va = va_k a)" using same_indices(2) [OF True A(1)] by blast
        then have "walk (mtab s') ?r (va_i va) (va_j va) (va_k va) = walk (mtab s) ?r (va_i va) (va_j va) (va_k va)" by (simp only: ma(7) if_False)
        then show ?thesis using False by (simp add: t' tr [OF True] map_translation_def split: option.split)
      qed
    next
      case False
      then have "drop_bit 12 va \<noteq> drop_bit 12 a" using aligned_valid [OF a, of va] kernel_va(1) by auto
      then show ?thesis using False by (simp add: translation_invalid map_translation_def)
    qed
    then have "translation (phys s') ?r = map_translation 12 a f (translation (phys s) ?r)" by blast
    moreover have "walk (mtab s') ?r (va_i a) (va_j a) (va_k a) = Some e" by (simp add: ma(7))
    then have "table0 (mtab s') ?r (va_i a) (va_j a) \<noteq> None" by (auto simp: walk_def split: option.splits)
    ultimately show ?case using ma(4) G(1) by (intro mapped)
  qed (use f nc in simp_all)
qed

subsection \<open>Mapping a large page\<close>

text \<open>A leaf in a level-1 table hides the table that was linked there.\<close>

lemma upd_large:
  assumes wf: "pgt_wf T r" and q: "table1 T r a = Some q" and e: "PTE_is_leaf e"
  shows "table1 (upd T q b e) r = table1 T r"
    "table0 (upd T q b e) r i j = (if i = a \<and> j = b then None else table0 T r i j)"
    "walk (upd T q b e) r i j k = (if i = a \<and> j = b then None else walk T r i j k)"
    "large_leaf (upd T q b e) r i j = (if i = a \<and> j = b then Some e else large_leaf T r i j)"
    "table_pages (upd T q b e) r \<subseteq> table_pages T r" "pgt_wf (upd T q b e) r" "upd T q b e r = T r"
proof -
  note wf' = pgt_wfD [OF wf]
  show t1: "table1 (upd T q b e) r = table1 T r"
    using wf'(2) [OF q] by (auto simp: fun_eq_iff table1_def subtable_upd)
  show t0: "table0 (upd T q b e) r i j = (if i = a \<and> j = b then None else table0 T r i j)" for i j
  proof (cases "table1 T r i")
    case (Some p)
    then have "p = q \<longleftrightarrow> i = a" using wf'(3) [OF q, of i] q by auto
    then show ?thesis using Some e q by (auto simp: table0_def t1 subtable_upd)
  qed (use q in \<open>auto simp: table0_def t1\<close>)
  show "walk (upd T q b e) r i j k = (if i = a \<and> j = b then None else walk T r i j k)"
  proof (cases "table0 T r i j")
    case (Some p)
    then have "p \<noteq> q" using wf'(5) [OF Some] q by blast
    then show ?thesis using Some by (simp add: walk_def t0 upd_apply)
  qed (simp add: walk_def t0)
  show "large_leaf (upd T q b e) r i j = (if i = a \<and> j = b then Some e else large_leaf T r i j)"
  proof (cases "table1 T r i")
    case (Some p)
    then have "p = q \<longleftrightarrow> i = a" using wf'(3) [OF q, of i] q by auto
    moreover have "PTE_hw_leaf e" using e PTE_leaf_hw by blast
    ultimately show ?thesis using Some q by (auto simp: large_leaf_def t1 upd_apply)
  qed (use q in \<open>auto simp: large_leaf_def t1\<close>)
  show sub: "table_pages (upd T q b e) r \<subseteq> table_pages T r" by (auto simp: table_pages_def t1 t0)
  show "pgt_wf (upd T q b e) r"
    unfolding pgt_wf_def t1 t0 using sub wf' by (auto split: if_splits)
  show "upd T q b e r = T r" using wf'(2) [OF q] by (auto simp: fun_eq_iff upd_apply)
qed

text \<open>Storing such a leaf.\<close>

lemma store_large:
  assumes k: "kernel_root t s" and r: "r = root_ppn t" and q: "table1 (mtab s) r a = Some q" and b: "b < 512"
    and e: "PTE_is_leaf e" "\<not> hw_bad e" "take_bit 9 (get_raw (pte_ppn e)) = 0" and st: "(a, b) \<noteq> (256, 0)"
    and s'_def: "s' = s\<lparr>phys := store_u64 (phys s) (get_pa q + 8 * b) (pte_bits e)\<rparr>"
  shows "kernel_step t s t s'"
    "large_leaf (mtab s') r i j = (if i = a \<and> j = b then Some e else large_leaf (mtab s) r i j)"
    "walk (mtab s') r i j l = (if i = a \<and> j = b then None else walk (mtab s) r i j l)"
proof -
  have ok: "pgt_ok t s" and kt: "kernel_table (mtab s) r" using k by (simp_all add: kernel_root_def r)
  note D = pgt_okD [OF ok, folded r] and T = kernel_tableD [OF kt]
  have qp: "q \<in> table_pages (mtab s) r" "reachable_ppn q" using q D(5) by (auto intro: table_pages_intros)
  have tab': "mtab s' = upd (mtab s) q b e"
    using tab_store [OF qp(2) b, of "phys s" "pte_bits e"] by (simp add: s'_def)
  note u = upd_large [OF D(2) q e(1), where b = b, folded tab']
  show L: "large_leaf (mtab s') r i j = (if i = a \<and> j = b then Some e else large_leaf (mtab s) r i j)" for i j by (rule u(4))
  show W: "walk (mtab s') r i j l = (if i = a \<and> j = b then None else walk (mtab s) r i j l)" for i j l by (rule u(3))
  have "pgt_ok t s'"
    using ok u(5,6) by (auto simp: pgt_ok_def r s'_def mm_inv_def)
  moreover have "kernel_table (mtab s') r"
    unfolding kernel_table_def using T e by (auto simp: u(7) L W split: if_splits)
  ultimately have "kernel_root t s'" using k by (simp add: kernel_root_def r [symmetric] u(7))
  moreover have "phys s' x = phys s x" if "PPN (drop_bit 12 x) \<notin> table_pages (mtab s) r \<union> mfree s" for x
  proof -
    have "drop_bit 12 x \<noteq> get_raw q" using that qp(1) by auto
    then show ?thesis by (simp add: s'_def store_outside [OF qp(2) b])
  qed
  moreover have "sentinel (mtab s') r" if "sentinel (mtab s) r" using that st u(2) [of 256 0] by (auto simp: sentinel_def)
  moreover have "slots (mtab s) r \<subseteq> slots (mtab s') r" by (rule slots_mono) (auto simp: u(1,2) L)
  then have "card (slots (mtab s) r) \<le> card (slots (mtab s') r)" by (rule card_mono [OF finite])
  moreover have "mfree s' = mfree s" "mheld s' = mheld s" "KERNEL_SATP s' = KERNEL_SATP s" by (simp_all add: s'_def)
  ultimately show "kernel_step t s t s'" using u(1,5) unfolding kernel_step_def r [symmetric] by auto
qed

lemma large_aligned:
  assumes a: "KERNEL_VA_OFFSET \<le> a" "take_bit 21 a = 0"
  shows "VPN_from_va (get_va (VPN (drop_bit 12 a)) AND NOT (LARGE_PAGE_SIZE_BYTES - 1)) = Some (VPN (drop_bit 12 a))"
    "PPN_from_pa (get_pa (PPN (drop_bit 12 (a - KERNEL_VA_OFFSET))) AND NOT (LARGE_PAGE_SIZE_BYTES - 1)) =
       Some (PPN (drop_bit 12 (a - KERNEL_VA_OFFSET)))"
    "take_bit 9 (drop_bit 12 (a - KERNEL_VA_OFFSET)) = 0" "take_bit 12 a = 0"
proof -
  have m: "x AND NOT (LARGE_PAGE_SIZE_BYTES - 1) = push_bit 21 (drop_bit 21 x)" for x :: usize
    using and_not_low_mask(2) [of x] by (simp add: kconst)
  have al: "push_bit 12 (drop_bit 12 x) AND NOT (LARGE_PAGE_SIZE_BYTES - 1) = x" "take_bit 9 (drop_bit 12 x) = 0" "take_bit 12 x = 0"
    if "take_bit 21 x = 0" for x :: usize
  proof -
    have bits: "21 \<le> n" if "bit x n" for n
      using that arg_cong [OF \<open>take_bit 21 x = 0\<close>, of "\<lambda>y. bit y n"] by (simp add: bit_take_bit_iff)
    have t12: "take_bit 12 x = 0" by (rule bit_eqI) (auto simp: bit_simps dest: bits)
    show "push_bit 12 (drop_bit 12 x) AND NOT (LARGE_PAGE_SIZE_BYTES - 1) = x"
      unfolding m using push_drop_take_bit [of 12 x] push_drop_take_bit [of 21 x] t12 that by simp
    show "take_bit 9 (drop_bit 12 x) = 0" "take_bit 12 x = 0"
      using t12 by (auto intro!: bit_eqI simp: bit_simps dest!: bits)
  qed
  note o = aligned_offset [OF a(2)]
  show "VPN_from_va (get_va (VPN (drop_bit 12 a)) AND NOT (LARGE_PAGE_SIZE_BYTES - 1)) = Some (VPN (drop_bit 12 a))"
    using al(1) [OF a(2)] kernel_va(1) [OF a(1)] by (simp add: get_va_def kconst VPN_from_va_Some)
  show "PPN_from_pa (get_pa (PPN (drop_bit 12 (a - KERNEL_VA_OFFSET))) AND NOT (LARGE_PAGE_SIZE_BYTES - 1)) =
       Some (PPN (drop_bit 12 (a - KERNEL_VA_OFFSET)))"
    using al(1) [OF o] kernel_va(4) [OF a(1)] by (simp add: get_pa_def kconst)
  show "take_bit 9 (drop_bit 12 (a - KERNEL_VA_OFFSET)) = 0" using al(2) [OF o] by simp
  show "take_bit 12 a = 0" by (rule al(3) [OF a(2)])
qed

lemma map_create_large_kernel:
  assumes k: "kernel_root t s" and f: "is_valid_flags f" "bit f 1" "bit f 2 \<or> bit f 3"
    and a: "KERNEL_VA_OFFSET \<le> a" "take_bit 21 a = 0" "a \<noteq> KERNEL_VA_OFFSET" and top: "a < 0xffffffc0c0000000"
    and free: "translation (phys s) (root_ppn t) a = None"
  defines "vpn \<equiv> VPN (drop_bit 12 a)" and "ppn \<equiv> PPN (drop_bit 12 (a - KERNEL_VA_OFFSET))"
  obtains (full) "map_create_large vpn ppn f t s = Some (Inl AcquirePageFailed, t, s)" "mfree s = {}"
  | (mapped) t' s' where "map_create_large vpn ppn f t s = Some (Inr (), t', s')" "kernel_step t s t' s'"
      "translation (phys s') (root_ppn t) = map_translation 21 a f (translation (phys s) (root_ppn t))"
proof -
  let ?r = "root_ppn t" and ?i = "va_i a" and ?j = "va_j a"
  have ok: "pgt_ok t s" and kt: "kernel_table (mtab s) ?r" using k by (simp_all add: kernel_root_def)
  note A = kernel_va [OF a(1)] and T = kernel_tableD [OF kt] and L = large_aligned [OF a(1,2), folded vpn_def ppn_def]
  have ix: "parse_vpn vpn ! 2 = ?i" "parse_vpn vpn ! 1 = ?j"
    using va_vpn_index [of a] by (simp_all add: va_ix vpn_def va_vpn_def)
  have raw: "unat (get_raw ppn) < 2 ^ 44" using A(5) by (simp add: ppn_def)
  obtain e where e: "PTE_new ppn f = Inr e" using f(1) by (simp add: PTE_new_def)
  note E = kernel_leaf [OF e f(2) raw] and P = PTE_new_fields [OF e raw]
  have leaf: "PTE_is_leaf e" "\<not> hw_bad e" "take_bit 9 (get_raw (pte_ppn e)) = 0"
    using E f(3) L(3) by (simp_all add: P(1)) (simp add: ppn_def)
  have st: "(?i, ?j) \<noteq> (256, 0)"
  proof
    assume eq: "(?i, ?j) = (256, 0)"
    have "va_i KERNEL_VA_OFFSET = 256" "va_j KERNEL_VA_OFFSET = 0"
      by (simp_all add: va_ix kconst drop_bit_eq_div take_bit_eq_mod)
    then have "drop_bit 21 a = drop_bit 21 KERNEL_VA_OFFSET"
      using same_indices(1) [OF A(1), of KERNEL_VA_OFFSET] kernel_va(1) [of KERNEL_VA_OFFSET] eq by simp
    moreover have "take_bit 21 KERNEL_VA_OFFSET = (0 :: usize)" by (simp add: kconst take_bit_eq_mod)
    ultimately show False using a(2,3) push_drop_take_bit [of 21 a] push_drop_take_bit [of 21 KERNEL_VA_OFFSET] by simp
  qed
  have tr: "translation (phys s) ?r va = (case large_leaf (mtab s) ?r (va_i va) (va_j va) of
       Some e \<Rightarrow> Some (leaf_target e 21 va)
     | None \<Rightarrow> map_option (\<lambda>e. leaf_target e 12 va) (walk (mtab s) ?r (va_i va) (va_j va) (va_k va)))" if "is_valid_va va" for va
    by (rule translation_tree [OF ok refl kt that])
  have nl: "large_leaf (mtab s) ?r ?i ?j = None" using free tr [OF A(1)] by (simp split: option.splits)
  have ptr: "get_ptes_mut ?r = Some (table_ptr ?r)"
    using pgt_okD(5) [OF ok] table_pages_intros(1) by (simp add: get_ptes_mut_reachable)
  have "map_create_large vpn ppn f t s = do {
      (r, t, s) \<leftarrow> descend vpn ppn (table_ptr ?r) ?i t s;
      case r of Inl err \<Rightarrow> Some (Inl err, t, s)
      | Inr level1_table \<Rightarrow> do {
          e' \<leftarrow> pte_load level1_table ?j (phys s);
          if PTE_is_leaf e' then Some (Inl (DoubleMapping vpn ppn), t, s)
          else do { m \<leftarrow> pte_store level1_table ?j e (phys s); Some (Inr (), t, s\<lparr>phys := m\<rparr>) }
        } }"
    unfolding map_create_large_def L(1,2) Option.bind.bind_lunit Let_def ix e sum.case ptr by (rule refl)
  note code = this
  have finish: thesis if d: "descend vpn ppn (table_ptr ?r) ?i t s = Some (Inr (table_ptr c), t1, s1)"
    and c: "table1 (mtab s1) ?r ?i = Some c" and s1: "kernel_step t s t1 s1" "\<not> PTE_is_leaf (mtab s1 c ?j)"
      "large_leaf (mtab s1) ?r = large_leaf (mtab s) ?r" "walk (mtab s1) ?r = walk (mtab s) ?r" for c t1 s1
  proof -
    note S = kernel_stepD [OF s1(1)]
    have c': "reachable_ppn c"
      using pgt_okD(5) [of t1 s1 c] S(1,2) table_pages_intros(2) [OF c] by (simp add: kernel_root_def)
    let ?s = "s1\<lparr>phys := store_u64 (phys s1) (get_pa c + 8 * ?j) (pte_bits e)\<rparr>"
    note W = store_large [OF S(1) S(2) [symmetric] c va_ix_bound(2) leaf st refl]
    have run: "map_create_large vpn ppn f t s = Some (Inr (), t1, ?s)"
      using d s1(2) by (simp add: code pte_load_ptr [OF c' va_ix_bound(2)] pte_store_ptr [OF c' va_ix_bound(2)])
    have step: "kernel_step t s t1 ?s" by (rule kernel_step_trans [OF s1(1) W(1)])
    have k': "pgt_ok t1 ?s" "kernel_table (mtab ?s) ?r"
      using kernel_stepD(1) [OF step] S(2) by (simp_all add: kernel_root_def)
    have "translation (phys ?s) ?r va = map_translation 21 a f (translation (phys s) ?r) va" for va
    proof (cases "is_valid_va va")
      case True
      note t' = translation_tree [OF k'(1) S(2) [symmetric] k'(2) True, unfolded W(2,3) s1(3,4)]
      show ?thesis
      proof (cases "drop_bit 21 va = drop_bit 21 a")
        case same: True
        then have "va_i va = ?i" "va_j va = ?j" using same_indices(1) [OF True A(1)] by blast+
        then show ?thesis unfolding t' using same linear_target [OF e [unfolded ppn_def] a(1,2) _ _ same]
          by (simp add: map_translation_def)
      next
        case False
        then have "\<not> (va_i va = ?i \<and> va_j va = ?j)" using same_indices(1) [OF True A(1)] by blast
        then show ?thesis unfolding t' using False by (simp only: if_False tr [OF True] map_translation_def)
      qed
    next
      case False
      then have "drop_bit 21 va \<noteq> drop_bit 21 a" using aligned_valid [OF a(1,2), of va] kernel_va(1) by auto
      then show ?thesis using False by (simp add: translation_invalid map_translation_def)
    qed
    then have "translation (phys ?s) ?r = map_translation 21 a f (translation (phys s) ?r)" by blast
    then show thesis by (rule mapped [OF run step])
  qed
  show ?thesis
  proof (rule descend_root [OF ok va_ix_bound(1) refl, of a vpn ppn], goal_cases lf fl old new)
    case lf
    then show ?case using T(1) [of ?i] PTE_leaf_hw by blast
  next
    case fl
    then show ?case by (intro full) (simp add: code)
  next
    case (old c)
    have "\<not> PTE_is_leaf (mtab s c ?j)" using nl old(2) PTE_leaf_hw by (auto simp: large_leaf_def split: if_splits)
    then show ?case using old k by (intro finish [of c t s]) (simp_all add: kernel_step_refl)
  next
    case (new c t1 s1 ps)
    have w: "PTE_hw_leaf e' \<and> \<not> hw_bad e'" if "walk (mtab s1) ?r x y z = Some e'" for x y z e'
      using that T(3) by (simp add: new(8))
    note G = grown_step [OF k new(6,7) kernel_va_index [OF a(1) top] w]
    have "\<not> PTE_is_leaf (mtab s1 c ?j)" by (simp add: new(5) PTE_is_leaf_def)
    then show ?case using new G by (intro finish [of c t1 s1]) simp_all
  qed
qed

end
