(* ===== verification/Kernel_Init.thy ===== *)
theory Kernel_Init
  imports Kernel_Map
begin

text \<open>
  The kernel's own mapping as a whole: the loops over pages and large pages, the sections of the
  kernel image, the device regions and the rest of physical memory.
\<close>

subsection \<open>The pages of a range\<close>

lemma step_range_pages:
  fixes lo hi hi' step :: usize
  assumes lo: "take_bit n lo = 0" and hi': "take_bit n hi' = 0" and le: "lo \<le> hi" "hi \<le> hi'"
    and up: "unat hi' < unat hi + 2 ^ n" and st: "unat step = 2 ^ n"
  obtains L K where "unat lo = L * 2 ^ n" "unat hi' = (L + K) * 2 ^ n"
    "step_range lo hi step = map (\<lambda>k. lo + of_nat k * step) [0..<K]"
    "\<And>k. k < K \<Longrightarrow> unat (lo + of_nat k * step) = (L + k) * 2 ^ n"
proof -
  let ?P = "2 ^ n :: nat"
  have al: "unat x = unat x div ?P * ?P" if "take_bit n x = 0" for x :: usize
    using unat_push_drop_bit [of n x] push_drop_take_bit [of n x] that by simp
  define L H where "L = unat lo div ?P" and "H = unat hi' div ?P"
  have l: "unat lo = L * ?P" "unat hi' = H * ?P" using al [OF lo] al [OF hi'] by (simp_all add: L_def H_def)
  have o: "L * ?P \<le> unat hi" "unat hi \<le> H * ?P" "H * ?P < unat hi + ?P"
    using le up l by (simp_all add: word_le_nat_alt)
  have "L * ?P \<le> H * ?P" using o by linarith
  then have LH: "L \<le> H" by simp
  have cnt: "(unat hi - L * ?P + ?P - 1) div ?P = H - L"
  proof -
    have "unat hi - L * ?P + ?P - 1 = (H - L) * ?P + (unat hi + ?P - 1 - H * ?P)"
      using o LH by (simp add: diff_mult_distrib)
    moreover have "unat hi + ?P - 1 - H * ?P < ?P" using o by linarith
    ultimately show ?thesis by (simp add: div_mult_self3)
  qed
  have elem: "unat (lo + of_nat k * step) = (L + k) * ?P" if "k < H - L" for k
  proof -
    have "(L + k) * ?P < H * ?P" using that by simp
    then have b: "(L + k) * ?P < 2 ^ 64" using unat_lt_usize [of hi'] l(2) by linarith
    then have kP: "k * ?P < 2 ^ 64" by (simp add: add_mult_distrib)
    have "k * 1 \<le> k * ?P" by (rule mult_le_mono2) simp
    then have "k < 2 ^ 64" using kP by linarith
    then have "unat (of_nat k * step) = k * ?P" using kP by (simp add: unat_word_ariths unat_of_nat st)
    then show ?thesis using b by (simp add: unat_word_ariths l(1) add_mult_distrib)
  qed
  have "step_range lo hi step = map (\<lambda>k. lo + of_nat k * step) [0..<H - L]"
  proof (cases "lo < hi")
    case True
    then show ?thesis using cnt by (simp add: step_range_def l(1) st)
  next
    case False
    then have "hi = lo" using le by simp
    then have "H * ?P < (L + 1) * ?P" using o l(1) by simp
    then have "H < L + 1" by (simp only: mult_less_cancel2)
    then show ?thesis using False LH by (simp add: step_range_def)
  qed
  then show ?thesis using that [of L "H - L"] l LH elem by simp
qed

lemma step_range_facts:
  fixes lo hi hi' step :: usize
  assumes "take_bit n lo = 0" "take_bit n hi' = 0" "lo \<le> hi" "hi \<le> hi'" "unat hi' < unat hi + 2 ^ n" "unat step = 2 ^ n"
  shows "a \<in> set (step_range lo hi step) \<Longrightarrow> lo \<le> a \<and> take_bit n a = 0 \<and> a < hi'"
    "distinct (step_range lo hi step)"
    "(\<exists>a \<in> set (step_range lo hi step). drop_bit n va = drop_bit n a) \<longleftrightarrow> lo \<le> va \<and> va < hi'"
proof -
  let ?P = "2 ^ n :: nat"
  obtain L K where R: "unat lo = L * ?P" "unat hi' = (L + K) * ?P"
    "step_range lo hi step = map (\<lambda>k. lo + of_nat k * step) [0..<K]"
    "\<And>k. k < K \<Longrightarrow> unat (lo + of_nat k * step) = (L + k) * ?P"
    by (rule step_range_pages [OF assms]) (rule that)
  show "distinct (step_range lo hi step)"
    unfolding R(3) distinct_map
  proof (intro conjI inj_onI)
    fix x y assume x: "x \<in> set [0..<K]" and y: "y \<in> set [0..<K]" and eq: "lo + of_nat x * step = lo + of_nat y * step"
    have "x < K" "y < K" using x y by simp_all
    from R(4) [OF this(1)] R(4) [OF this(2)] have "(L + x) * ?P = (L + y) * ?P" unfolding eq by (rule trans [OF sym])
    then show "x = y" by simp
  qed simp
  show "a \<in> set (step_range lo hi step) \<Longrightarrow> lo \<le> a \<and> take_bit n a = 0 \<and> a < hi'"
  proof -
    assume "a \<in> set (step_range lo hi step)"
    then obtain k where k: "k < K" "a = lo + of_nat k * step" by (auto simp: R(3))
    then have u: "unat a = (L + k) * ?P" using R(4) by simp
    have "unat (take_bit n a) = 0" by (simp add: unat_take_bit_usize u)
    moreover have "(L + k) * ?P < (L + K) * ?P" using k(1) by simp
    ultimately show ?thesis by (simp add: word_le_nat_alt word_less_nat_alt u R(1,2) unat_eq_0)
  qed
  have lt: "a div ?P < c \<longleftrightarrow> a < c * ?P" "c \<le> a div ?P \<longleftrightarrow> c * ?P \<le> a" for a c :: nat
    by (simp_all add: div_less_iff_less_mult less_eq_div_iff_mult_less_eq)
  have "(\<exists>a \<in> set (step_range lo hi step). drop_bit n va = drop_bit n a) \<longleftrightarrow> (\<exists>k<K. unat va div ?P = L + k)"
  proof -
    have "drop_bit n va = drop_bit n (lo + of_nat k * step) \<longleftrightarrow> unat va div ?P = L + k" if "k < K" for k
      by (simp only: word_unat_eq_iff bits_nat R(4) [OF that]) simp
    then show ?thesis by (auto simp: R(3))
  qed
  also have "\<dots> \<longleftrightarrow> L \<le> unat va div ?P \<and> unat va div ?P < L + K"
    by (auto simp: le_iff_add)
  also have "\<dots> \<longleftrightarrow> lo \<le> va \<and> va < hi'" unfolding lt by (simp add: word_le_nat_alt word_less_nat_alt R(1,2))
  finally show "(\<exists>a \<in> set (step_range lo hi step). drop_bit n va = drop_bit n a) \<longleftrightarrow> lo \<le> va \<and> va < hi'" .
qed

subsection \<open>Mapping ranges\<close>

text \<open>
  The outcome of mapping operations on the kernel's table: they do not panic, fail only for want
  of memory, and otherwise leave the translation \<open>M\<close>, with the sentinel in place if \<open>S\<close>.
\<close>

definition mapping_error :: "VMError \<Rightarrow> mm_state \<Rightarrow> bool" where
  "mapping_error err s \<longleftrightarrow> (\<exists>vpn. err = VM_PgtError vpn AcquirePageFailed) \<and> mfree s = {}"

definition mapping_result ::
  "RootPgt \<Rightarrow> mm_state \<Rightarrow> bool \<Rightarrow> kernel_memory \<Rightarrow> ((VMError + unit) \<times> RootPgt \<times> mm_state) option \<Rightarrow> bool" where
  "mapping_result t s S M x \<longleftrightarrow>
     (\<exists>r t' s'. x = Some (r, t', s') \<and> kernel_step t s t' s' \<and>
        (case r of Inl err \<Rightarrow> mapping_error err s'
         | Inr _ \<Rightarrow> translation (phys s') (root_ppn t) = M \<and> (S \<longrightarrow> sentinel (mtab s') (root_ppn t))))"

lemma mapping_done:
  "kernel_root t s \<Longrightarrow> translation (phys s) (root_ppn t) = M \<Longrightarrow> (S \<Longrightarrow> sentinel (mtab s) (root_ppn t)) \<Longrightarrow>
   mapping_result t s S M (Some (Inr (), t, s))"
  by (auto simp: mapping_result_def intro: kernel_step_refl)

lemma mapping_weaken:
  assumes "mapping_result t s S M x" "S' \<Longrightarrow> S"
  shows "mapping_result t s S' M x"
proof -
  obtain r t' s' where *: "x = Some (r, t', s')" "kernel_step t s t' s'"
    "case r of Inl err \<Rightarrow> mapping_error err s'
     | Inr _ \<Rightarrow> translation (phys s') (root_ppn t) = M \<and> (S \<longrightarrow> sentinel (mtab s') (root_ppn t))"
    using assms(1) unfolding mapping_result_def by blast
  then show ?thesis unfolding mapping_result_def
    by (intro exI [of _ r] exI [of _ t'] exI [of _ s']) (use assms(2) in \<open>auto split: sum.splits\<close>)
qed

lemma mapping_then:
  assumes x: "mapping_result t s S M x"
    and f: "\<And>t' s'. kernel_step t s t' s' \<Longrightarrow> translation (phys s') (root_ppn t') = M \<Longrightarrow> mapping_result t' s' S' M' (f t' s')"
  shows "mapping_result t s (S \<or> S') M' (then_map x f)"
proof -
  obtain r t1 s1 where 1: "x = Some (r, t1, s1)" "kernel_step t s t1 s1"
    "case r of Inl err \<Rightarrow> mapping_error err s1
     | Inr _ \<Rightarrow> translation (phys s1) (root_ppn t) = M \<and> (S \<longrightarrow> sentinel (mtab s1) (root_ppn t))"
    using x by (auto simp: mapping_result_def)
  note R = kernel_stepD(2) [OF 1(2)]
  show ?thesis
  proof (cases r)
    case (Inl err)
    then show ?thesis using 1 by (simp add: mapping_result_def then_map_def)
  next
    case (Inr u)
    then have M: "translation (phys s1) (root_ppn t1) = M" using 1(3) by (simp add: R)
    obtain r2 t2 s2 where 2: "f t1 s1 = Some (r2, t2, s2)" "kernel_step t1 s1 t2 s2"
      "case r2 of Inl err \<Rightarrow> mapping_error err s2
       | Inr _ \<Rightarrow> translation (phys s2) (root_ppn t1) = M' \<and> (S' \<longrightarrow> sentinel (mtab s2) (root_ppn t1))"
      using f [OF 1(2) M] by (auto simp: mapping_result_def)
    have "S \<longrightarrow> sentinel (mtab s2) (root_ppn t)" using 1(3) Inr kernel_stepD(7) [OF 2(2)] by (simp add: R)
    moreover have "then_map x f = Some (r2, t2, s2)" using 1(1) 2(1) Inr by (simp add: then_map_def)
    ultimately show ?thesis using 2(3) kernel_step_trans [OF 1(2) 2(2)]
      by (auto simp: mapping_result_def R split: sum.splits)
  qed
qed

text \<open>What the two mapping operations have in common.\<close>

locale page_mapper =
  fixes mk :: "VPN \<Rightarrow> PPN \<Rightarrow> usize \<Rightarrow> RootPgt \<Rightarrow> mm_state \<Rightarrow> ((PgtError + unit) \<times> RootPgt \<times> mm_state) option"
    and order :: nat and flags_ok :: "usize \<Rightarrow> bool" and addr_ok :: "usize \<Rightarrow> bool"
  assumes addr: "addr_ok a \<Longrightarrow> KERNEL_VA_OFFSET \<le> a \<and> take_bit order a = 0"
    and maps: "kernel_root t s \<Longrightarrow> flags_ok f \<Longrightarrow> addr_ok a \<Longrightarrow> translation (phys s) (root_ppn t) a = None \<Longrightarrow>
      \<exists>r t' s'. mk (VPN (drop_bit 12 a)) (PPN (drop_bit 12 (a - KERNEL_VA_OFFSET))) f t s = Some (r, t', s') \<and>
        kernel_step t s t' s' \<and>
        (case r of Inl err \<Rightarrow> err = AcquirePageFailed \<and> mfree s' = {}
         | Inr _ \<Rightarrow> translation (phys s') (root_ppn t) = map_translation order a f (translation (phys s) (root_ppn t)) \<and>
             (order = 12 \<longrightarrow> table0 (mtab s') (root_ppn t) (va_i a) (va_j a) \<noteq> None))"
begin

lemma map_pages_spec:
  assumes "kernel_root t s" "flags_ok f" "\<forall>a \<in> set vas. addr_ok a \<and> translation (phys s) (root_ppn t) a = None" "distinct vas"
  shows "mapping_result t s (order = 12 \<and> (\<exists>a \<in> set vas. va_i a = 256 \<and> va_j a = 0))
    (\<lambda>va. if \<exists>a \<in> set vas. drop_bit order va = drop_bit order a then Some (f, va - KERNEL_VA_OFFSET)
          else translation (phys s) (root_ppn t) va) (map_pages mk f vas t s)"
  using assms
proof (induction vas arbitrary: t s)
  case Nil
  then show ?case by (auto intro: mapping_done)
next
  case (Cons a vas)
  let ?r = "root_ppn t"
  have a: "addr_ok a" "translation (phys s) ?r a = None" using Cons.prems(3) by simp_all
  note A = addr [OF a(1)]
  note V = kernel_va [OF conjunct1 [OF A]]
  obtain r t1 s1 where 1: "mk (VPN (drop_bit 12 a)) (PPN (drop_bit 12 (a - KERNEL_VA_OFFSET))) f t s = Some (r, t1, s1)"
    "kernel_step t s t1 s1"
    "case r of Inl err \<Rightarrow> err = AcquirePageFailed \<and> mfree s1 = {}
     | Inr _ \<Rightarrow> translation (phys s1) ?r = map_translation order a f (translation (phys s) ?r) \<and>
         (order = 12 \<longrightarrow> table0 (mtab s1) ?r (va_i a) (va_j a) \<noteq> None)"
    using maps [OF Cons.prems(1,2) a] by blast
  note R = kernel_stepD [OF 1(2)]
  have code: "map_pages mk f (a # vas) t s =
      (case r of Inl err \<Rightarrow> Some (Inl (VM_PgtError (VPN (drop_bit 12 a)) err), t1, s1) | Inr _ \<Rightarrow> map_pages mk f vas t1 s1)"
    using V(1,2,4) 1(1) by (simp add: VPN_from_va_def kconst)
  show ?case
  proof (cases r)
    case (Inl err)
    then show ?thesis using 1(2,3) code by (simp add: mapping_result_def mapping_error_def)
  next
    case (Inr u)
    then have T: "translation (phys s1) ?r = map_translation order a f (translation (phys s) ?r)"
      and t0: "order = 12 \<longrightarrow> table0 (mtab s1) ?r (va_i a) (va_j a) \<noteq> None" using 1(3) by simp_all
    have "drop_bit order b \<noteq> drop_bit order a" if "b \<in> set vas" for b
      using that Cons.prems(3,4) addr [of b] A push_drop_take_bit [of order b] push_drop_take_bit [of order a]
      by (metis distinct.simps(2) list.set_intros(2))
    then have "\<forall>b \<in> set vas. addr_ok b \<and> translation (phys s1) (root_ppn t1) b = None"
      using Cons.prems(3) by (simp add: R(2) T map_translation_def)
    then have "\<forall>b \<in> set vas. addr_ok b \<and> translation (phys s1) ?r b = None" by (simp add: R(2))
    moreover have "distinct vas" using Cons.prems(4) by simp
    ultimately obtain r2 t2 s2 where 2: "map_pages mk f vas t1 s1 = Some (r2, t2, s2)" "kernel_step t1 s1 t2 s2"
      "case r2 of Inl err \<Rightarrow> mapping_error err s2
       | Inr _ \<Rightarrow> translation (phys s2) ?r = (\<lambda>va. if \<exists>a \<in> set vas. drop_bit order va = drop_bit order a
             then Some (f, va - KERNEL_VA_OFFSET) else translation (phys s1) ?r va) \<and>
           (order = 12 \<and> (\<exists>a \<in> set vas. va_i a = 256 \<and> va_j a = 0) \<longrightarrow> sentinel (mtab s2) ?r)"
      using Cons.IH [OF R(1) Cons.prems(2), unfolded mapping_result_def R(2)] by blast
    have sen: "order = 12 \<and> va_i a = 256 \<and> va_j a = 0 \<longrightarrow> sentinel (mtab s2) ?r"
      using t0 kernel_stepD(7) [OF 2(2)] by (auto simp: sentinel_def R(2))
    show ?thesis
    proof (cases r2)
      case (Inl err)
      then show ?thesis using code Inr 2 kernel_step_trans [OF 1(2) 2(2)] by (simp add: mapping_result_def)
    next
      case u2: (Inr u')
      then have "translation (phys s2) ?r = (\<lambda>va. if \<exists>b \<in> set (a # vas). drop_bit order va = drop_bit order b
          then Some (f, va - KERNEL_VA_OFFSET) else translation (phys s) ?r va)"
        using 2(3) by (auto simp: T map_translation_def fun_eq_iff)
      then show ?thesis using code Inr u2 2 sen kernel_step_trans [OF 1(2) 2(2)] by (auto simp: mapping_result_def)
    qed
  qed
qed

end

interpretation small: page_mapper map_create 12 "\<lambda>f. is_valid_flags f \<and> bit f 1"
  "\<lambda>a. KERNEL_VA_OFFSET \<le> a \<and> a < 0xffffffc0c0000000 \<and> take_bit 12 a = 0"
proof
  fix t s f a
  assume k: "kernel_root t s" and f: "is_valid_flags f \<and> bit f 1" and a: "KERNEL_VA_OFFSET \<le> a \<and> a < 0xffffffc0c0000000 \<and> take_bit 12 a = 0"
    and free: "translation (phys s) (root_ppn t) a = None"
  show "\<exists>r t' s'. map_create (VPN (drop_bit 12 a)) (PPN (drop_bit 12 (a - KERNEL_VA_OFFSET))) f t s = Some (r, t', s') \<and>
      kernel_step t s t' s' \<and>
      (case r of Inl err \<Rightarrow> err = AcquirePageFailed \<and> mfree s' = {}
       | Inr _ \<Rightarrow> translation (phys s') (root_ppn t) = map_translation 12 a f (translation (phys s) (root_ppn t)) \<and>
           ((12 :: nat) = 12 \<longrightarrow> table0 (mtab s') (root_ppn t) (va_i a) (va_j a) \<noteq> None))"
    by (rule map_create_kernel [OF k conjunct1 [OF f] conjunct2 [OF f] conjunct1 [OF a] _ _ free]) (use a in simp_all)
qed simp_all

interpretation large: page_mapper map_create_large 21 "\<lambda>f. is_valid_flags f \<and> bit f 1 \<and> (bit f 2 \<or> bit f 3)"
  "\<lambda>a. KERNEL_VA_OFFSET < a \<and> a < 0xffffffc0c0000000 \<and> take_bit 21 a = 0"
proof
  fix t s f a
  assume k: "kernel_root t s" and f: "is_valid_flags f \<and> bit f 1 \<and> (bit f 2 \<or> bit f 3)"
    and a: "KERNEL_VA_OFFSET < a \<and> a < 0xffffffc0c0000000 \<and> take_bit 21 a = 0" and free: "translation (phys s) (root_ppn t) a = None"
  have "is_valid_flags f" "bit f 1" "bit f 2 \<or> bit f 3" "KERNEL_VA_OFFSET \<le> a" "take_bit 21 a = 0" "a \<noteq> KERNEL_VA_OFFSET" "a < 0xffffffc0c0000000"
    using f a by auto
  then show "\<exists>r t' s'. map_create_large (VPN (drop_bit 12 a)) (PPN (drop_bit 12 (a - KERNEL_VA_OFFSET))) f t s = Some (r, t', s') \<and>
      kernel_step t s t' s' \<and>
      (case r of Inl err \<Rightarrow> err = AcquirePageFailed \<and> mfree s' = {}
       | Inr _ \<Rightarrow> translation (phys s') (root_ppn t) = map_translation 21 a f (translation (phys s) (root_ppn t)) \<and>
           ((21 :: nat) = 12 \<longrightarrow> table0 (mtab s') (root_ppn t) (va_i a) (va_j a) \<noteq> None))"
    by (rule map_create_large_kernel [OF k _ _ _ _ _ _ _ free]) (simp_all add: kernel_step_refl k)
qed (simp_all add: order_less_imp_le)

subsection \<open>Regions\<close>

text \<open>A region of the linear mapping: its bounds and permissions.\<close>

type_synonym region = "usize \<times> usize \<times> usize"

definition regions_memory :: "region list \<Rightarrow> kernel_memory" where
  "regions_memory R va =
     (case find (\<lambda>(lo, hi, p). lo \<le> va \<and> va < hi) R of
        None \<Rightarrow> None
      | Some (lo, hi, p) \<Rightarrow> Some (p OR FLAG_V, va - KERNEL_VA_OFFSET))"

definition below :: "usize \<Rightarrow> region list \<Rightarrow> bool" where
  "below b R \<longleftrightarrow> (\<forall>(lo, hi, p) \<in> set R. hi \<le> b)"

lemma find_append: "find P (l @ l') = (case find P l of None \<Rightarrow> find P l' | Some x \<Rightarrow> Some x)"
  by (induction l) simp_all

lemma find_in: "find P l = Some x \<Longrightarrow> x \<in> set l"
  by (induction l) (auto split: if_splits)

lemma regions_above:
  assumes "below b R" "b \<le> va"
  shows "regions_memory R va = None"
proof -
  have "\<not> va < hi" if "(lo, hi, p) \<in> set R" for lo hi p
    using assms that by (fastforce simp: below_def)
  then have "find (\<lambda>(lo, hi, p). lo \<le> va \<and> va < hi) R = None" by (auto simp: find_None_iff)
  then show ?thesis by (simp add: regions_memory_def)
qed

lemma regions_snoc:
  assumes "below b R" "b \<le> lo"
  shows "regions_memory (R @ [(lo, hi, p)]) =
    (\<lambda>va. if lo \<le> va \<and> va < hi then Some (p OR FLAG_V, va - KERNEL_VA_OFFSET) else regions_memory R va)"
proof
  fix va
  have "find (\<lambda>(lo, hi, p). lo \<le> va \<and> va < hi) R = None" if "lo \<le> va"
  proof -
    have "b \<le> va" using assms(2) that by (rule order_trans)
    from regions_above [OF assms(1) this] show ?thesis by (auto simp: regions_memory_def split: option.splits)
  qed
  then show "regions_memory (R @ [(lo, hi, p)]) va =
    (if lo \<le> va \<and> va < hi then Some (p OR FLAG_V, va - KERNEL_VA_OFFSET) else regions_memory R va)"
    by (auto simp: regions_memory_def find_append split: option.split)
qed

lemma below_snoc: "below b R \<Longrightarrow> b \<le> lo \<Longrightarrow> lo \<le> hi \<Longrightarrow> below hi (R @ [(lo, hi, p)])"
  by (force simp: below_def)

definition kernel_perms :: "usize set" where
  "kernel_perms = {PERMISSION_R, PERMISSION_R OR PERMISSION_W, PERMISSION_R OR PERMISSION_X}"

lemma kernel_perms_flags:
  assumes "p \<in> kernel_perms"
  shows "to_pte_flags p = Inr (p OR FLAG_V)" "is_valid_flags (p OR FLAG_V)" "bit (p OR FLAG_V) 1"
    "(p OR FLAG_V) AND FLAG_U = 0"
  using assms by (auto simp: kernel_perms_def to_pte_flags_def ALL_PERMISSION_FLAGS_def PERMISSION_R_def PERMISSION_W_def
      PERMISSION_X_def PERMISSION_U_def flag_vals is_valid_flags_def has_unknown_flags_set_def has_v_flag_clear_def
      is_reserved_xwr_encodings_def ALL_FLAGS_def bit_numeral_word_iff Let_def drop_bit_eq_div)

lemma map_kernel_range_spec:
  assumes k: "kernel_root t s" and M: "translation (phys s) (root_ppn t) = regions_memory R" "below b R" "b \<le> lo"
    and p: "p \<in> kernel_perms" and lo: "KERNEL_VA_OFFSET \<le> lo" "take_bit 12 lo = 0"
    and hi: "take_bit 12 hi' = 0" "lo \<le> hi" "hi \<le> hi'" "unat hi' < unat hi + 4096" "hi' \<le> 0xffffffc0c0000000"
    and S: "S \<Longrightarrow> lo < hi' \<and> va_i lo = 256 \<and> va_j lo = 0"
  shows "mapping_result t s S (regions_memory (R @ [(lo, hi', p)])) (map_kernel_range t lo hi p s)"
proof -
  have st: "unat PAGE_SIZE_BYTES = 2 ^ 12" "unat hi' < unat hi + 2 ^ 12" using hi(4) by (simp_all add: kconst)
  note R = step_range_facts [OF lo(2) hi(1,2,3) st(2,1)]
  let ?l = "step_range lo hi PAGE_SIZE_BYTES"
  have vas: "\<forall>a \<in> set ?l. (KERNEL_VA_OFFSET \<le> a \<and> a < 0xffffffc0c0000000 \<and> take_bit 12 a = 0) \<and> translation (phys s) (root_ppn t) a = None"
  proof
    fix a assume "a \<in> set ?l"
    then have a: "lo \<le> a" "take_bit 12 a = 0" "a < hi'" using R(1) by simp_all
    have "a < 0xffffffc0c0000000" using a(3) hi(5) by (rule less_le_trans)
    moreover have "b \<le> a" "KERNEL_VA_OFFSET \<le> a" using M(3) lo(1) a(1) by auto
    ultimately show "(KERNEL_VA_OFFSET \<le> a \<and> a < 0xffffffc0c0000000 \<and> take_bit 12 a = 0) \<and> translation (phys s) (root_ppn t) a = None"
      using a(2) regions_above [OF M(2)] by (simp add: M(1))
  qed
  note F = kernel_perms_flags [OF p]
  have fl: "is_valid_flags (p OR FLAG_V) \<and> bit (p OR FLAG_V) 1" using F by simp
  have "\<exists>a \<in> set ?l. va_i a = 256 \<and> va_j a = 0" if sen: S
  proof -
    obtain a where "a \<in> set ?l" "drop_bit 12 lo = drop_bit 12 a" using R(3) [of lo] S [OF sen] by auto
    moreover have "KERNEL_VA_OFFSET \<le> a" using calculation(1) vas by blast
    ultimately show ?thesis using same_indices(2) [OF kernel_va(1) [OF lo(1)] kernel_va(1), of a] S [OF sen] by metis
  qed
  moreover have code: "map_kernel_range t lo hi p s = map_pages map_create (p OR FLAG_V) ?l t s"
    by (simp add: map_kernel_range_def F(1))
  ultimately show ?thesis
    unfolding regions_snoc [OF M(2,3)] code
    by (intro mapping_weaken [OF small.map_pages_spec [OF k fl vas R(2), unfolded R(3) M(1)]]) simp
qed

lemma map_kernel_range_large_spec:
  assumes k: "kernel_root t s" and M: "translation (phys s) (root_ppn t) = regions_memory R" "below b R" "b \<le> lo"
    and p: "p \<in> kernel_perms" "p \<noteq> PERMISSION_R" and lo: "KERNEL_VA_OFFSET < lo" "take_bit 21 lo = 0"
    and hi: "take_bit 21 hi = 0" "lo \<le> hi" and top: "hi \<le> 0xffffffc0c0000000"
  shows "mapping_result t s False (regions_memory (R @ [(lo, hi, p)])) (map_kernel_range_large t lo hi p s)"
proof -
  have st: "unat LARGE_PAGE_SIZE_BYTES = 2 ^ 21" "unat hi < unat hi + 2 ^ 21" by (simp_all add: kconst)
  note R = step_range_facts [OF lo(2) hi order_refl st(2,1)]
  let ?l = "step_range lo hi LARGE_PAGE_SIZE_BYTES"
  have vas: "\<forall>a \<in> set ?l. (KERNEL_VA_OFFSET < a \<and> a < 0xffffffc0c0000000 \<and> take_bit 21 a = 0) \<and> translation (phys s) (root_ppn t) a = None"
  proof
    fix a assume "a \<in> set ?l"
    then have a: "lo \<le> a" "take_bit 21 a = 0" "a < hi" using R(1) by simp_all
    have "a < 0xffffffc0c0000000" using a(3) top by (rule less_le_trans)
    moreover have "b \<le> a" "KERNEL_VA_OFFSET < a" using M(3) lo(1) a(1) by auto
    ultimately show "(KERNEL_VA_OFFSET < a \<and> a < 0xffffffc0c0000000 \<and> take_bit 21 a = 0) \<and> translation (phys s) (root_ppn t) a = None"
      using a(2) regions_above [OF M(2)] by (simp add: M(1))
  qed
  note F = kernel_perms_flags [OF p(1)]
  have fl: "is_valid_flags (p OR FLAG_V) \<and> bit (p OR FLAG_V) 1 \<and> (bit (p OR FLAG_V) 2 \<or> bit (p OR FLAG_V) 3)"
    using F p by (auto simp: kernel_perms_def PERMISSION_W_def PERMISSION_X_def flag_vals bit_simps bit_numeral_word_iff)
  have al: "x AND (LARGE_PAGE_SIZE_BYTES - 1) = take_bit 21 x" for x :: usize
    by (simp add: kconst take_bit_eq_mask mask_eq_exp_minus_1)
  have code: "map_kernel_range_large t lo hi p s = map_pages map_create_large (p OR FLAG_V) ?l t s"
    by (simp add: map_kernel_range_large_def al lo(2) hi(1) F(1))
  show ?thesis
    unfolding regions_snoc [OF M(2,3)] code
    by (rule mapping_weaken [OF large.map_pages_spec [OF k fl vas R(2), unfolded R(3) M(1)]]) simp
qed

end
