(* ===== verification/Kernel_Layout.thy ===== *)
theory Kernel_Layout
  imports Kernel_Init
begin

text \<open>
  \<open>init_kernel_satp\<close>: the regions it maps, for an image laid out by \<open>os/src/linker.ld\<close>, and that
  the table it leaves in \<open>KERNEL_SATP\<close> is what user spaces rely on.
\<close>

subsection \<open>The layout of the image\<close>

text \<open>
  The linker script puts the sections behind each other from \<open>0x80200000\<close> of the linear mapping,
  all aligned to pages, and the image ends inside the memory of the machine.
\<close>

definition section_bounds :: "linker_syms \<Rightarrow> usize list" where
  "section_bounds k = [text_start k, text_end k, kernel_stack_start k, kernel_stack_end k, rodata_start k, rodata_end k,
     data_start k, data_end k, bss_start k, bss_end k, kernel_end k]"

definition linker_layout :: "linker_syms \<Rightarrow> bool" where
  "linker_layout k \<longleftrightarrow> (\<forall>x \<in> set (section_bounds k). take_bit 12 x = 0) \<and>
     sorted (0xffffffc080200000 # section_bounds k @ [0xffffffc088000000])"

definition DEVICES :: "region list" where
  "DEVICES = map (\<lambda>(lo, hi). (lo, hi, PERMISSION_R OR PERMISSION_W))
     [(0xffffffc000100000, 0xffffffc000101000), (0xffffffc000101000, 0xffffffc000102000),
      (0xffffffc002000000, 0xffffffc002010000), (0xffffffc00c000000, 0xffffffc00c600000),
      (0xffffffc010000000, 0xffffffc010001000), (0xffffffc010010000, 0xffffffc010011000)]"

definition kernel_regions :: "linker_syms \<Rightarrow> region list" where
  "kernel_regions k = DEVICES @
     [(text_start k, text_end k, PERMISSION_R OR PERMISSION_X),
      (kernel_stack_start k, kernel_stack_end k, PERMISSION_R OR PERMISSION_W),
      (rodata_start k, rodata_end k, PERMISSION_R),
      (data_start k, data_end k, PERMISSION_R OR PERMISSION_W),
      (bss_start k, bss_end k, PERMISSION_R OR PERMISSION_W),
      (kernel_end k, 0xffffffc088000000, PERMISSION_R OR PERMISSION_W)]"

subsection \<open>One region after another\<close>

lemma then_map_assoc: "then_map (then_map x f) g = then_map x (\<lambda>t s. then_map (f t s) g)"
  by (cases x) (auto simp: then_map_def split: sum.splits)

lemma then_map_return: "then_map x (\<lambda>t s. Some (Inr (), t, s)) = x"
  by (cases x) (auto simp: then_map_def split: sum.splits)

lemma then_region:
  assumes x: "mapping_result t s S (regions_memory R) x" and b: "below b R" "b \<le> lo" and p: "p \<in> kernel_perms"
    and lo: "KERNEL_VA_OFFSET \<le> lo" "take_bit 12 lo = 0"
    and hi: "take_bit 12 hi' = 0" "lo \<le> hi" "hi \<le> hi'" "unat hi' < unat hi + 4096" "hi' \<le> 0xffffffc0c0000000"
  shows "mapping_result t s S (regions_memory (R @ [(lo, hi', p)])) (then_map x (\<lambda>t s. map_kernel_range t lo hi p s))"
proof -
  have "mapping_result t s (S \<or> False) (regions_memory (R @ [(lo, hi', p)])) (then_map x (\<lambda>t s. map_kernel_range t lo hi p s))"
    by (rule mapping_then [OF x]) (rule map_kernel_range_spec [OF kernel_stepD(1) _ b p lo hi]; simp)
  then show ?thesis by simp
qed

subsection \<open>Device regions\<close>

definition device_range :: "usize \<Rightarrow> usize \<Rightarrow> RootPgt \<Rightarrow> mm_state \<Rightarrow> ((VMError + unit) \<times> RootPgt \<times> mm_state) option" where
  "device_range lo hi t s = map_kernel_range t lo hi (PERMISSION_R OR PERMISSION_W) s"

lemma map_virt_mmio_eq:
  "map_virt_mmio t s =
     then_map (then_map (then_map (then_map (then_map
       (device_range 0xffffffc000100000 0xffffffc000101000 t s)
       (device_range 0xffffffc000101000 0xffffffc000102000))
       (device_range 0xffffffc002000000 0xffffffc002010000))
       (device_range 0xffffffc00c000000 0xffffffc00c600000))
       (device_range 0xffffffc010000000 0xffffffc010000100))
       (device_range 0xffffffc010010000 0xffffffc010011000)"
proof -
  have va: "get_va_from_pa 0x100000 = Some 0xffffffc000100000" "get_va_from_pa 0x101000 = Some 0xffffffc000101000"
    "get_va_from_pa 0x102000 = Some 0xffffffc000102000" "get_va_from_pa 0x2000000 = Some 0xffffffc002000000"
    "get_va_from_pa 0x2010000 = Some 0xffffffc002010000" "get_va_from_pa 0xc000000 = Some 0xffffffc00c000000"
    "get_va_from_pa 0xc600000 = Some 0xffffffc00c600000" "get_va_from_pa 0x10000000 = Some 0xffffffc010000000"
    "get_va_from_pa 0x10000100 = Some 0xffffffc010000100" "get_va_from_pa 0x10010000 = Some 0xffffffc010010000"
    "get_va_from_pa 0x10011000 = Some 0xffffffc010011000"
    by (simp_all add: get_va_from_pa_def checked_add_def kconst)
  have step: "map_virt_mmio_regions ((pa, sz) # rs) = (\<lambda>t s. then_map (device_range lo hi t s) (map_virt_mmio_regions rs))"
    if "get_va_from_pa pa = Some lo" "get_va_from_pa (pa + sz) = Some hi" for pa sz rs lo hi
    using that by (simp add: fun_eq_iff device_range_def)
  have nil: "map_virt_mmio_regions [] = (\<lambda>t s. Some (Inr (), t, s))" by (simp add: fun_eq_iff)
  show ?thesis
    unfolding map_virt_mmio_def QEMU_VIRT_MMIO_def
    by (subst step, simp add: va, simp add: va)+ (simp only: nil then_map_return then_map_assoc)
qed

lemma map_virt_mmio_spec:
  assumes k: "kernel_root t s" and M: "translation (phys s) (root_ppn t) = (\<lambda>_. None)"
  shows "mapping_result t s True (regions_memory DEVICES) (map_virt_mmio t s)"
proof -
  let ?p = "PERMISSION_R OR PERMISSION_W"
  have p: "?p \<in> kernel_perms" by (simp add: kernel_perms_def)
  have M0: "translation (phys s) (root_ppn t) = regions_memory []" by (simp add: M regions_memory_def fun_eq_iff)
  have al: "take_bit 12 (0xffffffc000100000 :: usize) = 0" by (simp add: take_bit_eq_mod)
  note decide = below_def kconst take_bit_eq_mod word_le_nat_alt word_less_nat_alt
  let ?R1 = "[] @ [(0xffffffc000100000, 0xffffffc000101000, ?p)]"
  have 1: "mapping_result t s True (regions_memory ?R1) (device_range 0xffffffc000100000 0xffffffc000101000 t s)"
    unfolding device_range_def
    by (rule map_kernel_range_spec [OF k M0 _ _ p, where b = 0]) (simp_all add: va_ix drop_bit_eq_div decide)
  note then_range = then_region [OF _ _ _ p, folded device_range_def]
  let ?x1 = "(device_range 0xffffffc000100000 0xffffffc000101000 t s)" and ?R2 = "?R1 @ [(0xffffffc000101000, 0xffffffc000102000, ?p)]"
  have 2: "mapping_result t s True (regions_memory ?R2) (then_map ?x1 (device_range 0xffffffc000101000 0xffffffc000102000))"
    by (rule then_range [OF 1, where b = "0xffffffc000101000"]) (simp_all add: decide)
  let ?x2 = "then_map ?x1 (device_range 0xffffffc000101000 0xffffffc000102000)" and ?R3 = "?R2 @ [(0xffffffc002000000, 0xffffffc002010000, ?p)]"
  have 3: "mapping_result t s True (regions_memory ?R3) (then_map ?x2 (device_range 0xffffffc002000000 0xffffffc002010000))"
    by (rule then_range [OF 2, where b = "0xffffffc000102000"]) (simp_all add: decide)
  let ?x3 = "then_map ?x2 (device_range 0xffffffc002000000 0xffffffc002010000)" and ?R4 = "?R3 @ [(0xffffffc00c000000, 0xffffffc00c600000, ?p)]"
  have 4: "mapping_result t s True (regions_memory ?R4) (then_map ?x3 (device_range 0xffffffc00c000000 0xffffffc00c600000))"
    by (rule then_range [OF 3, where b = "0xffffffc002010000"]) (simp_all add: decide)
  let ?x4 = "then_map ?x3 (device_range 0xffffffc00c000000 0xffffffc00c600000)" and ?R5 = "?R4 @ [(0xffffffc010000000, 0xffffffc010001000, ?p)]"
  have 5: "mapping_result t s True (regions_memory ?R5) (then_map ?x4 (device_range 0xffffffc010000000 0xffffffc010000100))"
    by (rule then_range [OF 4, where b = "0xffffffc00c600000"]) (simp_all add: decide)
  let ?x5 = "then_map ?x4 (device_range 0xffffffc010000000 0xffffffc010000100)" and ?R6 = "?R5 @ [(0xffffffc010010000, 0xffffffc010011000, ?p)]"
  have 6: "mapping_result t s True (regions_memory ?R6) (then_map ?x5 (device_range 0xffffffc010010000 0xffffffc010011000))"
    by (rule then_range [OF 5, where b = "0xffffffc010001000"]) (simp_all add: decide)
  have "DEVICES = ?R6" by (simp add: DEVICES_def)
  then show ?thesis using 6 by (simp only: map_virt_mmio_eq)
qed

subsection \<open>Physical memory\<close>

lemma large_start:
  fixes e :: usize
  defines "l \<equiv> compute_phy_mem_large_page_start e"
  assumes e: "e \<le> 0xffffffc088000000"
  shows "take_bit 21 l = 0" "e \<le> l" "l \<le> 0xffffffc088000000"
proof -
  have al: "x AND (LARGE_PAGE_SIZE_BYTES - 1) = take_bit 21 x" for x :: usize
    by (simp add: kconst take_bit_eq_mask mask_eq_exp_minus_1)
  have "take_bit 21 l = 0 \<and> e \<le> l \<and> l \<le> 0xffffffc088000000"
  proof (cases "take_bit 21 e = 0")
    case True
    then show ?thesis using e by (simp add: l_def compute_phy_mem_large_page_start_def al)
  next
    case False
    define d where "d = unat e div 2 ^ 21"
    have x: "unat e \<le> 8796092892224 * 2 ^ 21" using e by (simp add: word_le_nat_alt)
    have "unat e mod 2 ^ 21 \<noteq> 0" using False by (simp add: word_unat_eq_iff bits_nat)
    then have "unat e \<noteq> 8796092892224 * 2 ^ 21" by (metis mod_mult_self2_is_0)
    with x have d: "d < 8796092892224" unfolding d_def by (simp add: div_less_iff_less_mult)
    have "e - take_bit 21 e = push_bit 21 (drop_bit 21 e)" using push_drop_take_bit [of 21 e] by (metis add_diff_cancel_right')
    then have l: "l = push_bit 21 (drop_bit 21 e) + 0x200000"
      using False by (simp add: l_def compute_phy_mem_large_page_start_def al) (simp add: kconst)
    have "unat (push_bit 21 (drop_bit 21 e)) = d * 2 ^ 21" by (simp only: unat_push_drop_bit d_def)
    then have u: "unat l = (d + 1) * 2 ^ 21" using d by (simp add: l unat_word_ariths)
    have "unat (take_bit 21 l) = 0" by (simp add: unat_take_bit_usize u)
    moreover have "unat e = d * 2 ^ 21 + unat e mod 2 ^ 21" "unat e mod 2 ^ 21 < 2 ^ 21" by (simp_all add: d_def)
    then have "unat e \<le> unat l" unfolding u by simp
    moreover have "unat l \<le> 8796092892224 * 2 ^ 21" unfolding u using d by (intro mult_le_mono1) simp
    ultimately show ?thesis by (simp add: word_le_nat_alt unat_eq_0)
  qed
  then show "take_bit 21 l = 0" "e \<le> l" "l \<le> 0xffffffc088000000" by blast+
qed

lemma regions_join:
  assumes "below b R" "b \<le> lo" "lo \<le> mid" "mid \<le> hi"
  shows "regions_memory ((R @ [(lo, mid, p)]) @ [(mid, hi, p)]) = regions_memory (R @ [(lo, hi, p)])"
  unfolding regions_snoc [OF below_snoc [OF assms(1-3)] order_refl] regions_snoc [OF assms(1,2)]
  using assms(3,4) by (auto simp: fun_eq_iff)

lemma take_bit_weaken: "take_bit 21 a = 0 \<Longrightarrow> take_bit 12 (a :: usize) = 0"
proof -
  assume "take_bit 21 a = 0"
  moreover have "take_bit 12 a = take_bit 12 (take_bit 21 a)" by simp
  ultimately show ?thesis by simp
qed

lemma map_phys_mem_spec:
  assumes k: "kernel_root t s" and M: "translation (phys s) (root_ppn t) = regions_memory R" "below (kernel_end l) R"
    and e: "take_bit 12 (kernel_end l) = 0" "0xffffffc080200000 \<le> kernel_end l" "kernel_end l \<le> 0xffffffc088000000"
  shows "mapping_result t s False
    (regions_memory (R @ [(kernel_end l, 0xffffffc088000000, PERMISSION_R OR PERMISSION_W)])) (map_phys_mem l t s)"
proof -
  let ?e = "kernel_end l" and ?E = "0xffffffc088000000 :: usize" and ?p = "PERMISSION_R OR PERMISSION_W"
  define m where "m = compute_phy_mem_large_page_start ?e"
  note L = large_start [OF e(3), folded m_def]
  have p: "?p \<in> kernel_perms" "?p \<noteq> PERMISSION_R"
    by (simp_all add: kernel_perms_def PERMISSION_R_def PERMISSION_W_def flag_vals)
  have al: "x AND (PAGE_SIZE_BYTES - 1) = take_bit 12 x" for x :: usize
    by (simp add: kconst take_bit_eq_mask mask_eq_exp_minus_1)
  have start: "compute_phy_mem_page_start ?e = ?e" by (simp add: compute_phy_mem_page_start_def al e(1))
  have stop: "get_va_from_pa (MEM_START_PA + MEM_SIZE_BYTES) = Some ?E" "compute_phy_mem_large_page_end ?E = ?E"
    by (simp_all add: get_va_from_pa_def checked_add_def compute_phy_mem_large_page_end_def kconst)
  have code: "map_phys_mem l t s = (if ?E \<le> m then map_kernel_range t ?e ?E ?p s
      else then_map (map_kernel_range t ?e m ?p s) (\<lambda>t s. then_map (map_kernel_range_large t m ?E ?p s) (\<lambda>t s.
        map_kernel_range t ?E ?E ?p s)))"
    by (simp add: map_phys_mem_def start stop m_def Let_def)
  have off: "KERNEL_VA_OFFSET \<le> ?e" "KERNEL_VA_OFFSET < m" "KERNEL_VA_OFFSET \<le> ?E"
    using e(2) L(2) by (simp_all add: kconst word_le_nat_alt word_less_nat_alt)
  have tops: "?E \<le> 0xffffffc0c0000000" "m \<le> 0xffffffc0c0000000"
    using order_trans [OF L(3), of "0xffffffc0c0000000"] by (simp_all add: word_le_nat_alt)
  have upE: "unat ?E < unat ?E + 4096" by simp
  have aE: "take_bit 12 ?E = 0" "take_bit 21 ?E = 0" by (simp_all add: take_bit_eq_mod)
  note am = take_bit_weaken [OF L(1)]
  show ?thesis
  proof (cases "?E \<le> m")
    case True
    then show ?thesis unfolding code
      by (simp only: if_True) (rule map_kernel_range_spec [OF k M order_refl p(1) off(1) e(1) aE(1) e(3)]; simp add: tops)
  next
    case False
    have 1: "mapping_result t s False (regions_memory (R @ [(?e, m, ?p)])) (map_kernel_range t ?e m ?p s)"
      by (rule map_kernel_range_spec [OF k M order_refl p(1) off(1) e(1) am L(2)]) (simp_all add: tops)
    have b1: "below m (R @ [(?e, m, ?p)])" by (rule below_snoc [OF M(2) order_refl L(2)])
    have b2: "below ?E ((R @ [(?e, m, ?p)]) @ [(m, ?E, ?p)])" by (rule below_snoc [OF b1 order_refl L(3)])
    have "mapping_result t s (False \<or> False) (regions_memory ((R @ [(?e, m, ?p)]) @ [(m, ?E, ?p)]))
        (then_map (map_kernel_range t ?e m ?p s) (\<lambda>t s. map_kernel_range_large t m ?E ?p s))"
      by (rule mapping_then [OF 1])
        (rule map_kernel_range_large_spec [OF kernel_stepD(1) _ b1 order_refl p off(2) L(1) aE(2) L(3) tops(1)])
    from then_region [OF this b2 order_refl p(1) off(3) aE(1) aE(1) order_refl order_refl upE tops(1)]
    have "mapping_result t s False (regions_memory (((R @ [(?e, m, ?p)]) @ [(m, ?E, ?p)]) @ [(?E, ?E, ?p)]))
        (then_map (then_map (map_kernel_range t ?e m ?p s) (\<lambda>t s. map_kernel_range_large t m ?E ?p s))
          (\<lambda>t s. map_kernel_range t ?E ?E ?p s))" by simp
    moreover have "regions_memory (((R @ [(?e, m, ?p)]) @ [(m, ?E, ?p)]) @ [(?E, ?E, ?p)]) = regions_memory (R @ [(?e, ?E, ?p)])"
      unfolding regions_join [OF b1 order_refl L(3) order_refl] by (rule regions_join [OF M(2) order_refl L(2,3)])
    ultimately show ?thesis unfolding code using False by (simp add: then_map_assoc)
  qed
qed

subsection \<open>The whole table\<close>

lemma layoutD:
  assumes "linker_layout k"
  shows "x \<in> set (section_bounds k) \<Longrightarrow> take_bit 12 x = 0"
    "0xffffffc080200000 \<le> text_start k" "text_start k \<le> text_end k" "text_end k \<le> kernel_stack_start k"
    "kernel_stack_start k \<le> kernel_stack_end k" "kernel_stack_end k \<le> rodata_start k" "rodata_start k \<le> rodata_end k"
    "rodata_end k \<le> data_start k" "data_start k \<le> data_end k" "data_end k \<le> bss_start k" "bss_start k \<le> bss_end k"
    "bss_end k \<le> kernel_end k" "kernel_end k \<le> 0xffffffc088000000"
proof -
  show "x \<in> set (section_bounds k) \<Longrightarrow> take_bit 12 x = 0" using assms unfolding linker_layout_def by blast
qed (use assms in \<open>simp_all add: linker_layout_def section_bounds_def\<close>)

definition map_kernel_all ::
  "linker_syms \<Rightarrow> RootPgt \<Rightarrow> mm_state \<Rightarrow> ((VMError + unit) \<times> RootPgt \<times> mm_state) option" where
  "map_kernel_all k t s =
     then_map (map_virt_mmio t s) (\<lambda>t s.
     then_map (map_kernel_text k t s) (\<lambda>t s.
     then_map (map_kernel_stack k t s) (\<lambda>t s.
     then_map (map_kernel_rodata k t s) (\<lambda>t s.
     then_map (map_kernel_data k t s) (\<lambda>t s.
     then_map (map_kernel_bss k t s) (\<lambda>t s.
     map_phys_mem k t s))))))"

lemma map_kernel_all_spec:
  assumes l: "linker_layout l" and k: "kernel_root t s" and M: "translation (phys s) (root_ppn t) = (\<lambda>_. None)"
  shows "mapping_result t s True (regions_memory (kernel_regions l)) (map_kernel_all l t s)"
proof -
  note L = layoutD [OF l]
  have al: "take_bit 12 (text_start l) = 0" "take_bit 12 (text_end l) = 0" "take_bit 12 (kernel_stack_start l) = 0"
    "take_bit 12 (kernel_stack_end l) = 0" "take_bit 12 (rodata_start l) = 0" "take_bit 12 (rodata_end l) = 0"
    "take_bit 12 (data_start l) = 0" "take_bit 12 (data_end l) = 0" "take_bit 12 (bss_start l) = 0"
    "take_bit 12 (bss_end l) = 0" "take_bit 12 (kernel_end l) = 0"
    using L(1) by (simp_all add: section_bounds_def)
  let ?rw = "PERMISSION_R OR PERMISSION_W"
  have p: "?rw \<in> kernel_perms" "PERMISSION_R \<in> kernel_perms" "PERMISSION_R OR PERMISSION_X \<in> kernel_perms"
    by (simp_all add: kernel_perms_def)
  have "KERNEL_VA_OFFSET \<le> 0xffffffc080200000" by (simp add: kconst)
  note o1 = order_trans [OF this L(2)]
  note o2 = order_trans [OF order_trans [OF o1 L(3)] L(4)]
  note o3 = order_trans [OF order_trans [OF o2 L(5)] L(6)]
  note o4 = order_trans [OF order_trans [OF o3 L(7)] L(8)]
  note o5 = order_trans [OF order_trans [OF o4 L(9)] L(10)]
  have up: "unat x < unat x + 4096" for x :: usize by simp
  have top: "text_end l \<le> 0xffffffc0c0000000" "kernel_stack_end l \<le> 0xffffffc0c0000000" "rodata_end l \<le> 0xffffffc0c0000000"
    "data_end l \<le> 0xffffffc0c0000000" "bss_end l \<le> 0xffffffc0c0000000"
  proof -
    have "kernel_end l \<le> 0xffffffc0c0000000" by (rule order_trans [OF L(13)]) simp
    note t5 = order_trans [OF L(12) this]
    note t4 = order_trans [OF L(10) order_trans [OF L(11) t5]]
    note t3 = order_trans [OF L(8) order_trans [OF L(9) t4]]
    note t2 = order_trans [OF L(6) order_trans [OF L(7) t3]]
    note t1 = order_trans [OF L(4) order_trans [OF L(5) t2]]
    show "text_end l \<le> 0xffffffc0c0000000" "kernel_stack_end l \<le> 0xffffffc0c0000000" "rodata_end l \<le> 0xffffffc0c0000000"
      "data_end l \<le> 0xffffffc0c0000000" "bss_end l \<le> 0xffffffc0c0000000" by (fact t1 t2 t3 t4 t5)+
  qed
  let ?x0 = "map_virt_mmio t s"
  note r0 = map_virt_mmio_spec [OF k M]
  have "below 0xffffffc080200000 DEVICES" by (simp add: below_def DEVICES_def)
  then have b0: "below (text_start l) DEVICES" using L(2) by (fastforce simp: below_def)
  note r1 = then_region [OF r0 b0 order_refl p(3) o1 al(1,2) L(3) order_refl up top(1)]
  note b1 = below_snoc [OF b0 order_refl L(3), of "PERMISSION_R OR PERMISSION_X"]
  note r2 = then_region [OF r1 b1 L(4) p(1) o2 al(3,4) L(5) order_refl up top(2)]
  note b2 = below_snoc [OF b1 L(4,5), of ?rw]
  note r3 = then_region [OF r2 b2 L(6) p(2) o3 al(5,6) L(7) order_refl up top(3)]
  note b3 = below_snoc [OF b2 L(6,7), of PERMISSION_R]
  note r4 = then_region [OF r3 b3 L(8) p(1) o4 al(7,8) L(9) order_refl up top(4)]
  note b4 = below_snoc [OF b3 L(8,9), of ?rw]
  note r5 = then_region [OF r4 b4 L(10) p(1) o5 al(9,10) L(11) order_refl up top(5)]
  note b5 = below_snoc [OF b4 L(10,11), of ?rw]
  have b6: "below (kernel_end l) R" if "below (bss_end l) R" for R
    using that L(12) by (fastforce simp: below_def)
  have e: "0xffffffc080200000 \<le> kernel_end l"
    using L(2-12) by (meson order_trans)
  have "mapping_result t s (True \<or> False) (regions_memory (((((((DEVICES @
      [(text_start l, text_end l, PERMISSION_R OR PERMISSION_X)]) @
      [(kernel_stack_start l, kernel_stack_end l, ?rw)]) @ [(rodata_start l, rodata_end l, PERMISSION_R)]) @
      [(data_start l, data_end l, ?rw)]) @ [(bss_start l, bss_end l, ?rw)]) @ [(kernel_end l, 0xffffffc088000000, ?rw)])))
    (then_map (then_map (then_map (then_map (then_map (then_map ?x0
      (\<lambda>t s. map_kernel_range t (text_start l) (text_end l) (PERMISSION_R OR PERMISSION_X) s))
      (\<lambda>t s. map_kernel_range t (kernel_stack_start l) (kernel_stack_end l) ?rw s))
      (\<lambda>t s. map_kernel_range t (rodata_start l) (rodata_end l) PERMISSION_R s))
      (\<lambda>t s. map_kernel_range t (data_start l) (data_end l) ?rw s))
      (\<lambda>t s. map_kernel_range t (bss_start l) (bss_end l) ?rw s)) (map_phys_mem l))"
    by (rule mapping_then [OF r5]) (rule map_phys_mem_spec [OF kernel_stepD(1) _ b6 [OF b5] al(11) e L(13)])
  then show ?thesis
    by (simp add: kernel_regions_def map_kernel_all_def then_map_assoc map_kernel_text_def map_kernel_stack_def
        map_kernel_rodata_def map_kernel_data_def map_kernel_bss_def)
qed

text \<open>A fresh root table translates nothing.\<close>

lemma fresh_root:
  assumes p: "get_ppn p \<in> mfree s" "mfree s' = mfree s - {get_ppn p}" "mheld s' = insert (get_ppn p) (mheld s)" "mm_inv s'"
    and z: "phys s' = (\<lambda>a. if drop_bit 12 a = get_raw (get_ppn p) then 0 else phys s a)"
  defines "t \<equiv> \<lparr>root_ppn = get_ppn p, root_pages = [p]\<rparr>"
  shows "kernel_root t s'" "translation (phys s') (root_ppn t) = (\<lambda>_. None)" "table_pages (mtab s') (root_ppn t) = {get_ppn p}"
    "slots (mtab s') (root_ppn t) = {}" "table1 (mtab s') (root_ppn t) i = None"
proof -
  let ?n = "get_ppn p"
  have "?n \<in> mheld s'" using p(3) by simp
  then have n: "reachable_ppn ?n" using held_ppn_small [OF p(4)] by (simp add: reachable_ppn_def)
  have T: "mtab s' ?n = (\<lambda>_. pte_null)" unfolding z tab_zeroed [OF n] by simp
  have t1: "table1 (mtab s') ?n i = None" for i by (simp add: table1_def subtable_def T)
  then have t0: "table0 (mtab s') ?n i j = None" for i j by (simp add: table0_def)
  show "slots (mtab s') (root_ppn t) = {}" "table1 (mtab s') (root_ppn t) i = None"
    by (simp_all add: slots_def large_leaf_def t1 t0 t_def)
  show tp: "table_pages (mtab s') (root_ppn t) = {?n}" by (simp add: table_pages_def t1 t0 t_def)
  have ok: "pgt_ok t s'" using n p(3,4) tp by (simp add: pgt_ok_def pgt_wf_def t1 t0 t_def)
  have kt: "kernel_table (mtab s') ?n"
    by (simp add: kernel_table_def T PTE_hw_leaf_def large_leaf_def walk_def t1 t0)
  then show "kernel_root t s'" using ok by (simp add: kernel_root_def T t_def)
  have "translation (phys s') ?n va = None" for va
  proof (cases "is_valid_va va")
    case True
    show ?thesis using translation_tree [OF ok refl _ True] kt by (simp add: t_def large_leaf_def walk_def t1 t0)
  qed (rule translation_invalid)
  then show "translation (phys s') (root_ppn t) = (\<lambda>_. None)" by (simp add: t_def fun_eq_iff)
qed

text \<open>The tables and large pages of the kernel's half gigabytes: at most 3 and 3 times 512.\<close>

lemma slots_bound:
  assumes "\<And>i. table1 (tab m) r i \<noteq> None \<Longrightarrow> i \<in> kernel_index"
  shows "card (slots (tab m) r) \<le> 1539"
proof -
  let ?J = "(Inl ` kernel_index \<union> Inr ` (kernel_index \<times> {..<512})) :: (usize + usize \<times> usize) set"
  have out: "\<not> PTE_is_valid (tab m q j)" if "\<not> j < 512" for q j using that by (simp add: tab_def)
  have j: "table0 (tab m) r i j \<noteq> None \<or> large_leaf (tab m) r i j \<noteq> None \<Longrightarrow> table1 (tab m) r i \<noteq> None \<and> j < 512" for i j
    using out by (auto simp: table0_def subtable_def large_leaf_def PTE_hw_leaf_def split: option.splits if_splits)
  have "slots (tab m) r \<subseteq> ?J"
  proof
    fix x assume x: "x \<in> slots (tab m) r"
    show "x \<in> ?J"
    proof (cases x)
      case (Inl i)
      then show ?thesis using x assms by simp
    next
      case (Inr ij)
      show ?thesis
      proof (cases ij)
        case (Pair i j)
        then have "table0 (tab m) r i j \<noteq> None \<or> large_leaf (tab m) r i j \<noteq> None" using x Inr by (simp only: slots_iff)
        from j [OF this] show ?thesis using Inr Pair assms by simp
      qed
    qed
  qed
  then have "card (slots (tab m) r) \<le> card ?J" by (rule card_mono [OF finite])
  also have "\<dots> \<le> card (Inl ` kernel_index :: (usize + usize \<times> usize) set) + card (Inr ` (kernel_index \<times> {..<512}) :: (usize + usize \<times> usize) set)"
    by (rule card_Un_le)
  also have "\<dots> = 3 + 3 * card {..<(512 :: usize)}"
    by (simp add: card_image card_cartesian_product kernel_index_def)
  also have "card {..<(512 :: usize)} \<le> 512"
  proof -
    have "{..<(512 :: usize)} \<subseteq> of_nat ` {..<512}"
    proof
      fix x :: usize assume "x \<in> {..<512}"
      then have "unat x \<in> {..<512}" "x = of_nat (unat x)" by (simp_all add: word_less_nat_alt)
      then show "x \<in> of_nat ` {..<512}" by blast
    qed
    then have "card {..<(512 :: usize)} \<le> card (of_nat ` {..<512} :: usize set)" by (intro card_mono) simp_all
    also have "\<dots> \<le> 512" using card_image_le [of "{..<512 :: nat}" of_nat] by simp
    finally show ?thesis .
  qed
  finally show ?thesis by simp
qed

end
