(* ===== verification/Kernel_Start.thy ===== *)
theory Kernel_Start
  imports Kernel_Layout Boot Trap
begin

text \<open>
  The start of the kernel, \<open>mm::init\<close> and \<open>rust_main\<close>, from the memory the boot loader leaves to the
  first instruction of the first program.
\<close>

subsection \<open>The kernel's satp\<close>

text \<open>Every region of the kernel can be read, and none is for user mode.\<close>

lemma regions_private:
  assumes t: "translation m r = regions_memory (kernel_regions l)" and w: "sv39_walk m r va = Some (e, pa)"
  shows "pte_bits e AND FLAG_U = 0" "pte_bits e AND FLAG_R \<noteq> 0"
proof -
  have "translation m r va = Some (take_bit 10 (pte_bits e), pa)" by (simp add: translation_def w)
  then obtain lo hi p where f: "find (\<lambda>(lo, hi, p). lo \<le> va \<and> va < hi) (kernel_regions l) = Some (lo, hi, p)"
    and b: "take_bit 10 (pte_bits e) = p OR FLAG_V"
    unfolding t by (auto simp: regions_memory_def split: option.splits)
  have "(lo, hi, p) \<in> set (kernel_regions l)" by (rule find_in [OF f])
  then have "p \<in> kernel_perms" by (auto simp: kernel_regions_def DEVICES_def kernel_perms_def)
  note P = kernel_perms_flags(3,4) [OF this]
  have "\<not> bit (take_bit 10 (pte_bits e)) 4" "bit (take_bit 10 (pte_bits e)) 1"
    using P b by (simp_all add: FLAG_U_def del: push_bit_of_1 push_bit_Suc)
  then show "pte_bits e AND FLAG_U = 0" "pte_bits e AND FLAG_R \<noteq> 0"
    by (simp_all add: FLAG_U_def FLAG_R_def bit_take_bit_iff del: push_bit_of_1 push_bit_Suc)
qed

text \<open>So what the table does not let the kernel load is outside every region.\<close>

lemma regions_load:
  assumes "translation m r = regions_memory (kernel_regions l)"
    and "case sv39_walk m r va of None \<Rightarrow> True | Some (e, pa) \<Rightarrow> pte_bits e AND FLAG_U \<noteq> 0 \<or> pte_bits e AND FLAG_R = 0"
  shows "regions_memory (kernel_regions l) va = None"
  using assms regions_private [OF assms(1), of va]
  by (cases "sv39_walk m r va") (auto simp: translation_def simp flip: assms(1))

lemma init_kernel_satp_spec:
  assumes inv: "mm_inv s" and l: "linker_layout l"
  obtains (failed) err s' where "init_kernel_satp l s = Some (Inl err, s')" "card (mfree s) \<le> 1540"
  | (ready) r s' where "init_kernel_satp l s = Some (Inr (), s')" "mm_inv s'" "kernel_map r s'"
      "translation (phys s') r = regions_memory (kernel_regions l)" "mfree s' \<subseteq> mfree s"
      "\<And>a. PPN (drop_bit 12 a) \<notin> mfree s \<Longrightarrow> phys s' a = phys s a" "card (mfree s) \<le> card (mfree s') + 1540"
proof (rule alloc_zeroed_page_cases [OF inv])
  assume "alloc_zeroed_page s = Some (None, s)" "mfree s = {}"
  then show thesis by (intro failed [of "CreateRootPgtFailed AcquirePageFailed" s])
    (simp_all add: init_kernel_satp_def RootPgt_new_def)
next
  fix p s0
  assume a: "alloc_zeroed_page s = Some (Some p, s0)" "get_ppn p \<in> mfree s" "mfree s0 = mfree s - {get_ppn p}"
    "mheld s0 = insert (get_ppn p) (mheld s)" "mm_inv s0" "KERNEL_SATP s0 = KERNEL_SATP s"
    "phys s0 = (\<lambda>a. if drop_bit 12 a = get_raw (get_ppn p) then 0 else phys s a)"
  let ?t = "\<lparr>root_ppn = get_ppn p, root_pages = [p]\<rparr>" and ?r = "get_ppn p"
  note F = fresh_root [OF a(2-5,7)]
  obtain x t' s' where run: "map_kernel_all l ?t s0 = Some (x, t', s')" "kernel_step ?t s0 t' s'"
    "case x of Inl err \<Rightarrow> mapping_error err s'
     | Inr _ \<Rightarrow> translation (phys s') (root_ppn ?t) = regions_memory (kernel_regions l) \<and>
         (True \<longrightarrow> sentinel (mtab s') (root_ppn ?t))"
    using map_kernel_all_spec [OF l F(1,2)] unfolding mapping_result_def by blast
  note K = kernel_stepD [OF run(2)]
  have code: "init_kernel_satp l s =
      (case x of Inl err \<Rightarrow> Some (Inl err, drop_RootPgt t' s') | Inr _ \<Rightarrow> Some (Inr (), s'\<lparr>KERNEL_SATP := RootPgt_get_satp t'\<rparr>))"
    using a(1) run(1) by (simp add: init_kernel_satp_def RootPgt_new_def map_kernel_all_def)
  have used: "card (mfree s) \<le> card (mfree s') + 1540"
  proof -
    have "card (slots (mtab s') ?r) \<le> 1539" by (rule slots_bound) (use K(11) F(5) in auto)
    then have "card (taken t') \<le> 1540" using K(10) by (simp add: F(4))
    moreover have "mfree s = taken t' \<union> mfree s'" using K(3,9) a(2,3) by auto
    then have "card (mfree s) \<le> card (taken t') + card (mfree s')" by (metis card_Un_le)
    ultimately show ?thesis by simp
  qed
  show thesis
  proof (cases x)
    case (Inl err)
    then have "mfree s' = {}" using run(3) by (simp add: mapping_error_def)
    then have "card (mfree s) \<le> 1540" using used by simp
    then show thesis using Inl code by (intro failed [of err "drop_RootPgt t' s'"]) simp_all
  next
    case (Inr u)
    then have T: "translation (phys s') ?r = regions_memory (kernel_regions l)" "sentinel (mtab s') ?r" using run(3) by simp_all
    let ?s = "s'\<lparr>KERNEL_SATP := RootPgt_get_satp t'\<rparr>"
    have root: "root_ppn t' = ?r" using K(2) by simp
    have ok: "pgt_ok t' s'" "\<forall>i \<in> user_half. \<not> PTE_is_valid (mtab s' ?r i)" using K(1) root by (simp_all add: kernel_root_def)
    have "upper_private \<lparr>root_ppn = ?r, root_pages = []\<rparr> ?s"
      using regions_private(1) [OF T(1)] by (simp add: upper_private_def)
    then have km: "kernel_map ?r ?s"
      using ok T(2) by (simp add: kernel_map_def pgt_ok_def root RootPgt_get_satp_def)
    have "phys ?s a = phys s a" if "PPN (drop_bit 12 a) \<notin> mfree s" for a
    proof -
      have "PPN (drop_bit 12 a) \<noteq> ?r" using that a(2) by metis
      moreover have "PPN (drop_bit 12 a) \<notin> table_pages (mtab s0) (root_ppn ?t) \<union> mfree s0" using calculation that F(3) a(3) by simp
      ultimately show ?thesis using K(8) [of a] a(7) by auto
    qed
    moreover have "mfree ?s \<subseteq> mfree s" using K(3) a(3) by auto
    moreover have "mm_inv ?s" using ok(1) by (simp add: pgt_ok_def mm_inv_def)
    ultimately show thesis using Inr code km T(1) used by (intro ready [of ?s ?r]) simp_all
  qed
qed

subsection \<open>Initialisation\<close>

text \<open>\<open>csrw satp\<close>; the flush of the TLB that follows has no effect in the model.\<close>

definition activate_kernel_space :: "mm_state \<Rightarrow> csr_file \<Rightarrow> csr_file" where
  "activate_kernel_space s c = csrw SATP_CSR_NO (KERNEL_SATP s) c"

text \<open>
  \<open>mm::init\<close>.  The page allocator is built at its first use, the allocation of the root table;
  \<open>KERNEL_SATP\<close> starts as 0.  The kernel heap is set up as well, see the parameter of the platform.
\<close>

definition mm_init :: "linker_syms \<Rightarrow> phys_mem \<Rightarrow> csr_file \<Rightarrow> (mm_state \<times> csr_file) option" where
  "mm_init k m c = do {
     let m = clear_bss k m;
     a \<leftarrow> init_PAGE_ALLOCATOR k;
     (r, s) \<leftarrow> init_kernel_satp k \<lparr>phys = m, PAGE_ALLOCATOR = a, KERNEL_SATP = 0\<rparr>;
     case r of
       Inl err \<Rightarrow> None
     | Inr _ \<Rightarrow> Some (s, activate_kernel_space s c)
   }"

text \<open>
  \<open>rust_main\<close>, without the log output: \<open>stvec\<close> is the address of \<open>__stvec\<close>, \<open>ra\<close> that of
  \<open>__restore_u_ctx\<close>, and \<open>apps\<close> are the embedded programs.
\<close>

definition rust_main ::
  "linker_syms \<Rightarrow> usize \<Rightarrow> (u8 list \<Rightarrow> string + ElfFile) \<Rightarrow> usize \<Rightarrow> u8 list list \<Rightarrow> kernel \<Rightarrow> (outcome \<times> kernel) option" where
  "rust_main l stvec ElfFile_new ra apps k = do {
     (s, c) \<leftarrow> mm_init l (phys (mm k)) (csrs k);
     c \<leftarrow> trap_init stvec c;
     task_start ElfFile_new ra apps (k\<lparr>mm := s, csrs := c\<rparr>)
   }"

lemma trap_init_satp:
  assumes "stvec AND MODE_BITS = 0"
  obtains c' where "trap_init stvec c = Some c'" "csrr SATP_CSR_NO c' = csrr SATP_CSR_NO c"
  using assms that
  by (simp add: trap_init_def stvec_install_def enable_timer_interrupts_def enable_interrupts_def set_sie_def sie_set_stie_def
      csrrs_def csrr_def csrw_def csr_numbers STVEC_CSR_NO_def SIE_CSR_NO_def)

lemma init_allocator:
  assumes l: "linker_layout l"
  obtains a where "init_PAGE_ALLOCATOR l = Some a" "mm_inv \<lparr>phys = m, PAGE_ALLOCATOR = a, KERNEL_SATP = 0\<rparr>"
    "\<And>p. p \<in> free_pages a \<Longrightarrow> unat (kernel_end l - KERNEL_VA_OFFSET) \<le> unat (get_raw p) * 4096 \<and> unat (get_raw p) < 0x88000"
    "kernel_end l \<le> 0xffffffc087000000 \<Longrightarrow> 4096 \<le> card (free_pages a)"
proof -
  note L = layoutD [OF l]
  let ?e = "kernel_end l - KERNEL_VA_OFFSET"
  have "0xffffffc080200000 \<le> kernel_end l" using L(2-12) by (meson order_trans)
  then have off: "KERNEL_VA_OFFSET \<le> kernel_end l" by (simp add: kconst word_le_nat_alt)
  note V = kernel_va(2) [OF off]
  have le: "unat ?e \<le> 0x88000000" using off L(13) by (simp add: unat_sub kconst word_le_nat_alt)
  have "kernel_end l \<in> set (section_bounds l)" by (simp add: section_bounds_def)
  then have "take_bit 12 ?e = 0" using L(1) by (intro aligned_offset) simp_all
  then have "unat ?e mod 2 ^ 12 = 0" using unat_take_bit_usize [of 12 ?e] by simp
  then obtain d where d: "unat ?e = 4096 * d" by (auto simp: mod_eq_0_iff_dvd elim: dvdE)
  have "unat ?e < 2 ^ 40" using le by simp
  then obtain q where q: "compute_first_unused_ppn l = Some q" "unat ?e \<le> unat (get_raw q) * 4096" "unat (get_raw q) * 4096 < unat ?e + 4096"
    using compute_first_unused_ppn_spec [OF V] by blast
  have "unat (get_raw q) \<le> 0x88000" using q(3) le unfolding d by linarith
  then have "q \<le> PPN 0x88000" by (simp add: page_order word_le_nat_alt)
  let ?a = "\<lparr>next_unused_ppn = q, max_ppn = PPN 0x88000, recycled_ppn = []\<rparr>"
  show thesis
  proof (rule that [of ?a])
    show "init_PAGE_ALLOCATOR l = Some ?a" using q(1) by (simp add: init_PAGE_ALLOCATOR_def compute_max_ppn_val)
    show "mm_inv \<lparr>phys = m, PAGE_ALLOCATOR = ?a, KERNEL_SATP = 0\<rparr>" using \<open>q \<le> PPN 0x88000\<close> by (simp add: mm_inv_def alloc_inv_def)
    fix p assume "p \<in> free_pages ?a"
    then have "unat (get_raw q) \<le> unat (get_raw p)" "unat (get_raw p) < 0x88000"
      by (simp_all add: free_pages_def page_order word_le_nat_alt word_less_nat_alt)
    then show "unat ?e \<le> unat (get_raw p) * 4096 \<and> unat (get_raw p) < 0x88000" using q(2) by simp
  next
    assume "kernel_end l \<le> 0xffffffc087000000"
    then have "unat ?e \<le> 0x87000000" using off by (simp add: unat_sub kconst word_le_nat_alt)
    then have q87: "unat (get_raw q) \<le> 0x87000" using q(3) unfolding d by linarith
    let ?f = "\<lambda>n. PPN (of_nat n :: usize)"
    have sub: "?f ` {0x87000..<0x88000} \<subseteq> free_pages ?a"
      using q87 by (auto simp: free_pages_def page_order word_le_nat_alt word_less_nat_alt unat_of_nat)
    have fin: "finite (free_pages ?a)" by (rule finite_subset [of _ "PPN ` UNIV"]) (auto intro: PPN.exhaust)
    have "inj_on ?f {0x87000..<0x88000}"
    proof (rule inj_onI)
      fix x y :: nat assume "x \<in> {0x87000..<0x88000}" "y \<in> {0x87000..<0x88000}" "?f x = ?f y"
      then have "unat (of_nat x :: usize) = unat (of_nat y :: usize)" "x < 2 ^ 64" "y < 2 ^ 64" by simp_all
      then show "x = y" by (simp add: unat_of_nat)
    qed
    then have "card (?f ` {0x87000..<0x88000}) = 4096" by (simp add: card_image)
    then show "4096 \<le> card (free_pages ?a)" using card_mono [OF fin sub] by simp
  qed
qed

lemma mm_init_spec:
  assumes l: "linker_layout l" "kernel_end l \<le> 0xffffffc087000000"
  obtains r s where "mm_init l m c = Some (s, csrw SATP_CSR_NO (satp_compute_value (get_raw r) Sv39) c)"
      "mm_inv s" "kernel_map r s" "room s" "translation (phys s) r = regions_memory (kernel_regions l)"
      "\<And>a. unat a < unat (kernel_end l - KERNEL_VA_OFFSET) \<Longrightarrow> phys s a = clear_bss l m a" "2556 \<le> card (mfree s)"
proof -
  obtain a where a: "init_PAGE_ALLOCATOR l = Some a" "mm_inv \<lparr>phys = clear_bss l m, PAGE_ALLOCATOR = a, KERNEL_SATP = 0\<rparr>"
    "\<And>p. p \<in> free_pages a \<Longrightarrow> unat (kernel_end l - KERNEL_VA_OFFSET) \<le> unat (get_raw p) * 4096 \<and> unat (get_raw p) < 0x88000"
    "4096 \<le> card (free_pages a)"
    by (rule init_allocator [OF l(1), of "clear_bss l m"]) (rule that, use l(2) in simp_all)
  let ?s = "\<lparr>phys = clear_bss l m, PAGE_ALLOCATOR = a, KERNEL_SATP = 0\<rparr>"
  show thesis
  proof (rule init_kernel_satp_spec [OF a(2) l(1)], goal_cases bad good)
    case (bad err s')
    then show ?thesis using a(4) by simp
  next
    case (good r s')
    have "mfree s' \<subseteq> free_pages a" using good(5) by simp
    then have "room s'" using a(3) by (force simp: room_def)
    moreover have "phys s' x = clear_bss l m x" if x: "unat x < unat (kernel_end l - KERNEL_VA_OFFSET)" for x
    proof -
      have "PPN (drop_bit 12 x) \<notin> free_pages a"
      proof
        assume "PPN (drop_bit 12 x) \<in> free_pages a"
        then have "unat (kernel_end l - KERNEL_VA_OFFSET) \<le> unat x div 2 ^ 12 * 4096" using a(3) by (force simp: bits_nat)
        moreover have "unat x div 2 ^ 12 * 4096 \<le> unat x" by simp
        ultimately show False using x by linarith
      qed
      then show ?thesis using good(6) [of x] by simp
    qed
    moreover have "2556 \<le> card (mfree s')" using good(7) a(4) by simp
    ultimately show ?thesis using good a(1) kernel_mapD(1) [OF good(3)]
      by (intro that [of s' r]) (simp_all add: mm_init_def activate_kernel_space_def)
  qed
qed

end
