(* ===== verification/Boot_Props.thy ===== *)
theory Boot_Props
  imports Kernel_Start Sample_Machine
begin

text \<open>
  The properties of the start: the kernel's own mapping, what \<open>VMSpace::new_user\<close> builds, and that
  \<open>rust_main\<close> establishes the invariant from which every run of the machine begins.
\<close>

subsection \<open>A kernel before its first task\<close>

text \<open>
  The sample memory with \<open>KERNEL_SATP\<close> naming the first of its root tables, and an ELF reader
  that finds an empty program in every file.
\<close>

definition boot_state :: mm_state where
  "boot_state = sample_state\<lparr>KERNEL_SATP := satp_compute_value (get_raw sample_root) Sv39\<rparr>"

definition boot_kernel :: kernel where
  "boot_kernel = \<lparr>mm = boot_state, ALL_TASKS = [], NEXT_TASK_ID = 1, tp = 0, csrs = (\<lambda>_. 0),
     clock = (\<lambda>n. of_nat (10 * n)), ticks = 0, mtimecmp = 0, console = []\<rparr>"

definition empty_elf :: "u8 list \<Rightarrow> string + ElfFile" where
  "empty_elf bytes = (if bytes = [] then Inl ''no header'' else Inr \<lparr>program_iter = [], entry_point = 0x10000\<rparr>)"

lemma boot_parts: "mtab boot_state = mtab sample_state" "PAGE_ALLOCATOR boot_state = PAGE_ALLOCATOR sample_state"
  by (simp_all add: boot_state_def)

lemma boot_inv: "mm_inv boot_state"
  using sample_pgt_ok [OF sample_roots_in(1)] by (simp add: mm_inv_def boot_parts pgt_ok_def)

lemma boot_kernel_map: "kernel_map sample_root boot_state"
proof -
  have ok: "pgt_wf (mtab sample_state) sample_root" "table_pages (mtab sample_state) sample_root \<subseteq> mheld sample_state"
    using sample_pgt_ok [OF sample_roots_in(1)] by (simp_all add: pgt_ok_def sample_pgt_def)
  have "\<not> PTE_is_valid (mtab sample_state sample_root i)" if "i \<in> user_half" for i
    using that by (auto simp: sample_tab PTE_is_valid_def pte_null_def)
  moreover have "sentinel (mtab sample_state) sample_root" by (simp add: sentinel_def sample_tree)
  moreover have "sv39_walk (phys boot_state) sample_root va = None" for va
    by (rule sample_walk [OF sample_roots_in(1)]) (simp add: boot_parts)
  ultimately show ?thesis
    using ok by (simp add: kernel_map_def boot_parts upper_private_def) (simp add: boot_state_def)
qed

lemma boot_room: "room boot_state"
proof -
  have "mfree sample_state \<subseteq> {p. p < PPN 0x88000}"
    by (auto simp: free_pages_def sample_state_def page_order)
  then show ?thesis by (auto simp: room_def boot_parts page_order word_less_nat_alt)
qed

lemma empty_elf_reads: "empty_elf [0x7f] = Inr \<lparr>program_iter = [], entry_point = 0x10000\<rparr>"
  by (simp add: empty_elf_def)

lemma empty_fits: "bytes \<in> {[], [0x7f]} \<Longrightarrow> empty_elf bytes = Inr elf \<Longrightarrow> program_fits bytes elf"
  by (auto simp: empty_elf_def program_fits_def)

subsection \<open>Building a user space\<close>

text \<open>
  C33. \<open>VMSpace::new_user\<close> always returns.  Either it fails, and then every page it took is back
  in the allocator, the rest of the memory is untouched and the allocator is in good standing;
  or the ELF file was read and the new space is well formed: its tables map exactly the pages of
  its areas and share only kernel tables, nothing in its kernel half is for user mode, it took
  only pages that were free, it has a kernel stack page, its entry address and stack pointer are
  those of the program and the top of the user half, and the program's memory is the specified
  image: every loadable segment's bytes from the file, zeros in the rest of its pages, with the
  segment's permissions, an empty stack of 8 MiB below the top, and nothing else.
\<close>

theorem new_user_builds:
  assumes "mm_inv s" "kernel_map r s" "room s" "\<forall>elf. ElfFile_new bytes = Inr elf \<longrightarrow> program_fits bytes elf"
  shows "(\<exists>err s'. new_user ElfFile_new bytes s = Some (Inl err, s') \<and> mm_inv s' \<and> vm_frame no_space s no_space s') \<or>
    (\<exists>v s' elf. new_user ElfFile_new bytes s = Some (Inr v, s') \<and> ElfFile_new bytes = Inr elf \<and>
       space_built (table_pages (mtab s) r) s v s' \<and> entry_addr v = entry_point elf \<and> u_stack_end v = USER_SPACE_END \<and>
       same_user (user_mem v s') (initial_memory bytes elf))"
proof (rule new_user_spec [where ElfFile_new = ElfFile_new and bytes = bytes, OF assms(1-3)], goal_cases fit bad good)
  case (fit elf)
  then show ?case using assms(4) by blast
qed blast+

lemma boot_free: "4 < card (mfree boot_state)"
proof -
  have sub: "{PPN 0x80080, PPN 0x80081, PPN 0x80082, PPN 0x80083, PPN 0x80084} \<subseteq> mfree boot_state"
    by (simp add: boot_parts sample_state_def free_pages_def page_order)
  show ?thesis using card_mono [OF finite_ppns sub] by simp
qed

theorem new_user_builds_witness:
  "(\<exists>err s'. new_user empty_elf [] boot_state = Some (Inl err, s') \<and> mm_inv s') \<and>
   (\<exists>v s'. new_user empty_elf [0x7f] boot_state = Some (Inr v, s') \<and> space_ok v s' \<and> entry_addr v = 0x10000)"
proof -
  have fits0: "\<forall>elf. empty_elf [] = Inr elf \<longrightarrow> program_fits [] elf" using empty_fits by simp
  have fits: "\<forall>elf. empty_elf [0x7f] = Inr elf \<longrightarrow> program_fits [0x7f] elf" using empty_fits by simp
  have "\<exists>v s'. new_user empty_elf [0x7f] boot_state = Some (Inr v, s')"
    by (rule new_user_empty [where ElfFile_new = empty_elf, OF boot_inv boot_kernel_map boot_room empty_elf_reads _ boot_free]) simp
  then have good: "\<exists>v s'. new_user empty_elf [0x7f] boot_state = Some (Inr v, s') \<and> space_ok v s' \<and> entry_addr v = 0x10000"
    using new_user_builds [where ElfFile_new = empty_elf and bytes = "[0x7f]", OF boot_inv boot_kernel_map boot_room fits]
    by (elim disjE exE conjE) (auto simp: space_built_def empty_elf_def)
  have "\<exists>err s'. new_user empty_elf [] boot_state = Some (Inl err, s') \<and> mm_inv s'"
    using new_user_builds [where ElfFile_new = empty_elf and bytes = "[]", OF boot_inv boot_kernel_map boot_room fits0]
    by (auto simp: empty_elf_def)
  then show ?thesis using good by blast
qed

subsection \<open>The kernel's mapping\<close>

text \<open>A layout as the linker script makes it.\<close>

definition sample_linker :: linker_syms where
  "sample_linker = \<lparr>kernel_start = 0xffffffc080200000, text_start = 0xffffffc080200000, text_end = 0xffffffc080210000,
     boot_pgt = 0xffffffc080210000, kernel_stack_start = 0xffffffc080211000, kernel_stack_end = 0xffffffc080215000,
     rodata_start = 0xffffffc080215000, rodata_end = 0xffffffc080220000, data_start = 0xffffffc080220000,
     data_end = 0xffffffc080230000, bss_start = 0xffffffc080230000, bss_end = 0xffffffc080640000,
     kernel_end = 0xffffffc080640000\<rparr>"

lemma sample_layout: "linker_layout sample_linker"
  by (simp add: linker_layout_def section_bounds_def sample_linker_def take_bit_eq_mod)

text \<open>
  C35. \<open>mm::init\<close> succeeds when the linker script's layout leaves 16 MiB of memory behind the image.
  The hart then translates with a well-formed table whose pages belong to nobody else, and what it
  translates is exactly the linear mapping: the devices, the sections of the image and the memory
  behind it are mapped to the address less the offset, with the permissions of their section, no
  page is both writable and executable, and nothing else is mapped, not even the boot table that
  is no longer used.  Memory below the end of the image is as it was, but for the zeroed .bss.
\<close>

theorem mm_init_maps_kernel:
  assumes "linker_layout l" "kernel_end l \<le> 0xffffffc087000000"
  shows "\<exists>s c' r. mm_init l m c = Some (s, c') \<and> satp_root (c' SATP_CSR_NO) = r \<and> mm_inv s \<and> kernel_map r s \<and>
    (\<forall>va. translation (phys s) r va = regions_memory (kernel_regions l) va) \<and>
    (\<forall>a. unat a < unat (kernel_end l - KERNEL_VA_OFFSET) \<longrightarrow> phys s a = clear_bss l m a)"
proof (rule mm_init_spec [OF assms, of m c], goal_cases good)
  case (good r s)
  show ?case using good kernel_satp_root [OF good(3)] by (simp add: csrw_def)
qed

theorem mm_init_maps_kernel_witness:
  "\<exists>s c'. mm_init sample_linker (\<lambda>_. 7) (\<lambda>_. 0) = Some (s, c') \<and>
     translation (phys s) (satp_root (c' SATP_CSR_NO)) 0xffffffc080215abc = Some (3, 0x80215abc) \<and>
     translation (phys s) (satp_root (c' SATP_CSR_NO)) 0xffffffc080210abc = None"
proof -
  have v: "regions_memory (kernel_regions sample_linker) 0xffffffc080215abc = Some (3, 0x80215abc)"
    "regions_memory (kernel_regions sample_linker) 0xffffffc080210abc = None"
    by (simp_all add: regions_memory_def kernel_regions_def DEVICES_def sample_linker_def PERMISSION_R_def flag_vals kconst)
  have e: "kernel_end sample_linker \<le> 0xffffffc087000000" by (simp add: sample_linker_def)
  show ?thesis
    using mm_init_maps_kernel [OF sample_layout e, of "\<lambda>_. 7" "\<lambda>_. 0"] v by auto
qed

subsection \<open>From power on to the first program\<close>

text \<open>The sample program can be loaded after \<open>mm::init\<close>: it needs five pages, and more than that are left.\<close>

lemma sample_loads:
  assumes "mm_init sample_linker m c = Some (s, c')" "mm k = s"
  shows "\<not> load_fails empty_elf ra [[0x7f]] k"
proof -
  have e: "kernel_end sample_linker \<le> 0xffffffc087000000" by (simp add: sample_linker_def)
  obtain r where r: "mm_inv s" "kernel_map r s" "room s" "2556 \<le> card (mfree s)"
    by (rule mm_init_spec [OF sample_layout e, of m c]) (use assms(1) in simp)
  have "\<exists>v s'. new_user empty_elf [0x7f] s = Some (Inr v, s')"
    by (rule new_user_empty [where ElfFile_new = empty_elf, OF r(1-3) empty_elf_reads]) (use r(4) in simp_all)
  then show ?thesis using assms(2) by (auto simp: load_fails_def Cons_eq_append_conv)
qed

text \<open>
  C34. \<open>rust_main\<close> establishes the invariant of the whole system.  It panics only if some
  application's space cannot be built after those before it were loaded, or if the firmware left
  an address in \<open>tp\<close> at whose task id field the kernel maps nothing, as nothing sets \<open>tp\<close> before
  the first switch and the scheduler asks for the current task; any other value of \<open>tp\<close> is
  harmless.  It shuts the machine down only if there is no application.  Otherwise it switches to
  a task whose return to user mode leaves a machine that meets \<open>machine_ok\<close>: every application has
  one task, each with the memory of its program, and the program that runs starts at its entry
  point, with an empty stack and all other registers 0.
\<close>

theorem rust_main_establishes:
  assumes "linker_layout l" "kernel_end l \<le> 0xffffffc087000000" "stvec AND MODE_BITS = 0" "ALL_TASKS k = []" "NEXT_TASK_ID k = 1"
    and "length apps < 2 ^ 63"
    and "\<forall>bytes \<in> set apps. \<forall>elf. ElfFile_new bytes = Inr elf \<longrightarrow> program_fits bytes elf"
  shows "case rust_main l stvec ElfFile_new ra apps k of
       None \<Rightarrow> (\<exists>s c c'. mm_init l (phys (mm k)) (csrs k) = Some (s, c) \<and> trap_init stvec c = Some c' \<and>
           load_fails ElfFile_new ra apps (k\<lparr>mm := s, csrs := c'\<rparr>)) \<or>
         tp k \<noteq> 0 \<and> (\<exists>va \<in> word_at (tp k + 272). regions_memory (kernel_regions l) va = None)
     | Some (Shutdown, k') \<Rightarrow> apps = []
     | Some (Switched c, k') \<Rightarrow>
         (\<exists>m t B ts bytes elf. resume k' = (U_mode, m) \<and> machine_ok m t B \<and> mset (ALL_TASKS (kern m)) = add_mset t B \<and>
            list_all2 (\<lambda>bytes t. \<exists>elf. ElfFile_new bytes = Inr elf \<and> fresh_task bytes elf t (mm (kern m))) apps ts \<and>
            image_mset task_id (mset ts) = image_mset task_id (add_mset t B) \<and>
            bytes \<in> set apps \<and> ElfFile_new bytes = Inr elf \<and> pc m = entry_point elf \<and>
            regs m = (replicate 32 0)[2 := USER_SPACE_END] \<and>
            same_user (user_mem (vm_space t) (mm (kern m))) (initial_memory bytes elf))"
proof (rule mm_init_spec [OF assms(1,2), of "phys (mm k)" "csrs k"], goal_cases good)
  case (good r s)
  define c where "c = csrw SATP_CSR_NO (satp_compute_value (get_raw r) Sv39) (csrs k)"
  obtain c' where c': "trap_init stvec c = Some c'" "csrr SATP_CSR_NO c' = satp_compute_value (get_raw r) Sv39"
    by (rule trap_init_satp [OF assms(3), of c]) (simp add: c_def csrr_def csrw_def)
  let ?k = "k\<lparr>mm := s, csrs := c'\<rparr>"
  have code: "rust_main l stvec ElfFile_new ra apps k = task_start ElfFile_new ra apps ?k"
    using good(1) c' by (simp add: rust_main_def c_def)
  have k: "mm_inv (mm ?k)" "kernel_map r (mm ?k)" "room (mm ?k)" "ALL_TASKS ?k = []" "satp_root (csrr SATP_CSR_NO (csrs ?k)) = r"
    "unat (NEXT_TASK_ID ?k) + length apps < 2 ^ 64"
    using good assms(4-6) kernel_satp_root [OF good(3)] c'(2) by simp_all
  show ?case
  proof (rule task_start_spec [where ElfFile_new = ElfFile_new and ra = ra, OF k], goal_cases fit failed stray idle on)
    case (fit bytes elf)
    then show ?case using assms(7) by blast
  next
    case failed
    then show ?case unfolding code using good(1) c' by (auto simp: c_def)
  next
    case (stray va)
    have "regions_memory (kernel_regions l) va = None" by (rule regions_load [OF good(5)]) (use stray(4) in simp)
    then show ?case unfolding code stray(1) option.case using stray(2,3) by auto
  next
    case (on c k' m t B ts bytes elf)
    show ?case unfolding code on(1) option.case prod.case outcome.case using on(2-) by blast
  next
    case (idle k')
    show ?case unfolding code idle(1) option.case prod.case outcome.case by (rule idle(2))
  qed
qed

theorem rust_main_establishes_witness:
  "(\<exists>c k' m t B. rust_main sample_linker 0xffffffc080200100 empty_elf 0xffffffc080200200 [[0x7f]] boot_kernel = Some (Switched c, k') \<and>
      resume k' = (U_mode, m) \<and> machine_ok m t B \<and> pc m = 0x10000) \<and>
   (\<exists>c k' m t B. rust_main sample_linker 0xffffffc080200100 empty_elf 0xffffffc080200200 [[0x7f]] (boot_kernel\<lparr>tp := 0xffffffc080215000\<rparr>)
        = Some (Switched c, k') \<and> resume k' = (U_mode, m) \<and> machine_ok m t B \<and> pc m = 0x10000)"
proof -
  have e: "kernel_end sample_linker \<le> 0xffffffc087000000" by (simp add: sample_linker_def)
  have tp0: "boot_kernel = boot_kernel\<lparr>tp := 0\<rparr>" by (simp add: boot_kernel_def)
  have runs: "\<exists>c k' m t B. rust_main sample_linker 0xffffffc080200100 empty_elf 0xffffffc080200200 [[0x7f]] (boot_kernel\<lparr>tp := x\<rparr>)
      = Some (Switched c, k') \<and> resume k' = (U_mode, m) \<and> machine_ok m t B \<and> pc m = 0x10000"
    if x: "x = 0 \<or> (\<forall>va \<in> word_at (x + 272). regions_memory (kernel_regions sample_linker) va \<noteq> None)" for x
  proof -
    let ?k = "boot_kernel\<lparr>tp := x\<rparr>" and ?ra = "0xffffffc080200200" and ?apps = "[[0x7f]]"
    let ?run = "rust_main sample_linker 0xffffffc080200100 empty_elf ?ra ?apps ?k"
    have k: "(0xffffffc080200100 :: usize) AND MODE_BITS = 0" "ALL_TASKS ?k = []" "NEXT_TASK_ID ?k = 1" "length [[0x7f :: u8]] < 2 ^ 63"
      "\<forall>bytes \<in> set [[0x7f]]. \<forall>elf. empty_elf bytes = Inr elf \<longrightarrow> program_fits bytes elf"
      using empty_fits by (simp_all add: boot_kernel_def MODE_BITS_def)
    note main = rust_main_establishes [where ElfFile_new = empty_elf and ra = ?ra, OF sample_layout e k]
    have "?run \<noteq> None"
    proof
      assume "?run = None"
      then show False using main x sample_loads by auto
    qed
    then obtain oc k' where run: "?run = Some (oc, k')" by auto
    show ?thesis
    proof (cases oc)
      case (Switched c)
      then have "\<exists>m t B bytes elf. resume k' = (U_mode, m) \<and> machine_ok m t B \<and> bytes \<in> set ?apps \<and> empty_elf bytes = Inr elf \<and> pc m = entry_point elf"
        using main [unfolded run option.case prod.case Switched outcome.case] by blast
      then show ?thesis using run Switched by (auto simp: empty_elf_def)
    next
      case Shutdown
      then show ?thesis using main [unfolded run option.case prod.case Shutdown outcome.case] by simp
    qed
  qed
  have "\<forall>va \<in> word_at (0xffffffc080215000 + 272). regions_memory (kernel_regions sample_linker) va \<noteq> None"
    by (simp add: word_at_def regions_memory_def kernel_regions_def DEVICES_def sample_linker_def kconst)
  then show ?thesis using runs [of 0, folded tp0] runs [of "0xffffffc080215000"] by blast
qed

end
