(* ===== verification/Log.thy ===== *)
theory Log
  imports Syscall
begin

text \<open>
  Log levels and the log macros of \<open>os/src/console/log.rs\<close>.  \<open>MAX_LEVEL_ORDINAL\<close> is passed
  explicitly, the compile-time variable \<open>LOG\<close> is a parameter, and a message is the text that
  formatting its arguments gives.
\<close>

subsection \<open>Text\<close>

definition text_chars :: "string \<Rightarrow> usize list" where
  "text_chars s = map of_char s"

text \<open>The decimal form of a number, and the comparison of texts without regard to ASCII case.\<close>

fun decimal :: "nat \<Rightarrow> string" where
  "decimal n = (if n < 10 then [char_of (48 + n)] else decimal (n div 10) @ [char_of (48 + n mod 10)])"

declare decimal.simps [simp del]



subsection \<open>Levels\<close>

datatype Level = NONE | ERROR | WARN | INFO | DEBUG | TRACE

primrec level_ordinal :: "Level \<Rightarrow> usize" where
  "level_ordinal NONE = 0"
| "level_ordinal ERROR = 1"
| "level_ordinal WARN = 2"
| "level_ordinal INFO = 3"
| "level_ordinal DEBUG = 4"
| "level_ordinal TRACE = 5"

primrec get_color_code :: "Level \<Rightarrow> usize" where
  "get_color_code INFO = 34"
| "get_color_code WARN = 93"
| "get_color_code ERROR = 31"
| "get_color_code DEBUG = 32"
| "get_color_code TRACE = 90"
| "get_color_code NONE = 0"

primrec get_prefix :: "Level \<Rightarrow> string" where
  "get_prefix INFO = ''[ INFO]''"
| "get_prefix WARN = ''[ WARN]''"
| "get_prefix ERROR = ''[ERROR]''"
| "get_prefix DEBUG = ''[DEBUG]''"
| "get_prefix TRACE = ''[TRACE]''"
| "get_prefix NONE = ''[ NONE]''"



definition should_log :: "usize \<Rightarrow> Level \<Rightarrow> bool" where
  "should_log max_level level = (if level = NONE then False else level_ordinal level \<le> max_level)"

definition log_macro :: "usize \<Rightarrow> Level \<Rightarrow> string \<Rightarrow> kernel \<Rightarrow> kernel" where
  "log_macro max_level level msg k =
     (if should_log max_level level
      then let color_code = get_color_code level; prefix = get_prefix level in
        print_chars (text_chars ([CHR 0x1B] @ ''['' @ decimal (unat color_code) @ ''m'' @ prefix @ '' '' @ msg @
          [CHR 0x1B] @ ''[0m'' @ [CHR 0x0A])) k
      else k)"

definition log_error :: "usize \<Rightarrow> string \<Rightarrow> kernel \<Rightarrow> kernel" where "log_error x = log_macro x ERROR"
definition log_warn :: "usize \<Rightarrow> string \<Rightarrow> kernel \<Rightarrow> kernel" where "log_warn x = log_macro x WARN"
definition log_info :: "usize \<Rightarrow> string \<Rightarrow> kernel \<Rightarrow> kernel" where "log_info x = log_macro x INFO"
definition log_debug :: "usize \<Rightarrow> string \<Rightarrow> kernel \<Rightarrow> kernel" where "log_debug x = log_macro x DEBUG"
definition log_trace :: "usize \<Rightarrow> string \<Rightarrow> kernel \<Rightarrow> kernel" where "log_trace x = log_macro x TRACE"

subsection \<open>Levels in order\<close>

instantiation Level :: linorder
begin

definition less_eq_Level :: "Level \<Rightarrow> Level \<Rightarrow> bool" where
  "less_eq_Level l l' \<longleftrightarrow> level_ordinal l \<le> level_ordinal l'"

definition less_Level :: "Level \<Rightarrow> Level \<Rightarrow> bool" where
  "less_Level l l' \<longleftrightarrow> level_ordinal l < level_ordinal l'"

instance
proof
  fix l l' :: Level
  show "l = l'" if "l \<le> l'" "l' \<le> l"
    using that by (cases l; cases l') (simp_all add: less_eq_Level_def word_le_nat_alt)
qed (auto simp: less_eq_Level_def less_Level_def)

end


subsection \<open>What is printed\<close>














end
