(* ===== verification/User_Lib.thy ===== *)
theory User_Lib
  imports System_Run Demand_Paging
begin

text \<open>
  The user library (\<open>user/src/lib.rs\<close>, \<open>user/src/syscall.rs\<close>): its calls as what a program does to the
  machine, from the registers that the \<open>ecall\<close> takes its arguments in to the result in \<open>a0\<close>.  The
  lemmas carry a call through the whole trap path and back.
\<close>

subsection \<open>Memory of the program across the trap path\<close>

lemma spec_cong:
  assumes "same_user M N"
  shows "same_user (spec_reserve lo hi pm M) (spec_reserve lo hi pm N)" "same_user (spec_release lo hi M) (spec_release lo hi N)"
  using assms by (simp_all add: same_user_def spec_reserve_def spec_release_def)

lemma console_kept:
  "console (trapped cause stval m) = console (kern m)" "console (kern (snd (resume k))) = console k"
proof -
  have "console (foldl (\<lambda>k n. set_ctx_word c (g n) (f n) k) k l) = console k" for c f g k and l :: "nat list"
    by (induction l arbitrary: k) simp_all
  then show "console (trapped cause stval m) = console (kern m)" by (simp add: trapped_def save_u_ctx_def Let_def)
  show "console (kern (snd (resume k))) = console k" by (simp add: resume_def restore_u_ctx_def Let_def)
qed

subsection \<open>A call that returns\<close>

text \<open>
  The kernel works on a call in a state \<open>k1\<close> that shows it the memory of the program as it was at
  the \<open>ecall\<close>; whatever the call then does for the caller is what the caller finds when it is back,
  behind the \<open>ecall\<close>, with the result in \<open>a0\<close> and all other registers as they were.
\<close>

lemma call_trap:
  assumes m: "machine_ok m t B" and c: "match_cause cause = UserEnvironmentCall"
  obtains t1 k1 where "runs k1 t1 B" "vm_space t1 = vm_space t" "console k1 = console (kern m)"
    "same_user (user_mem (vm_space t) (mm k1)) (user_mem (vm_space t) (mm (kern m)))"
    "\<And>va. user_load k1 va = user_load (kern m) va"
    "syscall_handler e (regs m ! 17) (regs m ! 10) (regs m ! 11) (regs m ! 12) k1 = None \<Longrightarrow> user_trap e cause stval m = None"
    "\<And>v t' k'. syscall_handler e (regs m ! 17) (regs m ! 10) (regs m ! 11) (regs m ! 12) k1 = Some (Returns v, k') \<Longrightarrow>
      runs k' t' B \<Longrightarrow> step_for t1 B k1 t' k' \<Longrightarrow>
      \<exists>m'. user_trap e cause stval m = Some (U_mode, m') \<and> machine_step t B m t' B m' \<and> pc m' = pc m + 4 \<and>
        regs m' = (regs m)[10 := v] \<and> console (kern m') = console k' \<and>
        same_user (user_mem (vm_space t') (mm (kern m'))) (user_mem (vm_space t') (mm k')) \<and> PAGE_ALLOCATOR (mm (kern m')) = PAGE_ALLOCATOR (mm k')"
proof -
  let ?k = "trapped cause stval m"
  note T = trapped_spec [where cause = cause and stval = stval, OF m]
    and L = trapped_user_load [where cause = cause and stval = stval, OF m]
  note h = runsD(1) [OF T(1)] and hm = machine_okD(1) [OF m]
  have cause: "trap_cause ?k = UserEnvironmentCall" using c T(3) by simp
  have tpk: "tp ?k = ctx_tp (tcontext t)" using T(1) by (simp add: runs_def)
  have w: "ctx_word (tp ?k) 10 (phys (mm ?k)) = regs m ! 10" "ctx_word (tp ?k) 11 (phys (mm ?k)) = regs m ! 11"
    "ctx_word (tp ?k) 12 (phys (mm ?k)) = regs m ! 12" "ctx_word (tp ?k) 17 (phys (mm ?k)) = regs m ! 17"
    using T(7) [of 10] T(7) [of 11] T(7) [of 12] T(7) [of 17] tpk by simp_all
  obtain p where p: "stack_page (vm_space t) p" by (rule task_okD [OF hostedD(3) [OF hm]])
  show ?thesis
  proof (rule call_entry [OF T(1) cause, of e], goal_cases)
    case (1 t1 k1)
    have v: "vm_space t1 = vm_space t" "tcontext t1 = tcontext t" using 1(1) by (simp_all add: same_block_def)
    have lk: "lookup (root_pgt (vm_space t)) (mm k1) = lookup (root_pgt (vm_space t)) (mm (kern m))" using 1(6) L(1) by simp
    have b: "phys (mm k1) a = phys (mm (kern m)) a" if "stack_page (vm_space t) q" "PPN (drop_bit 12 a) \<noteq> q" for q a
      using 1(7) L(2) that by simp
    note h1 = runsD(1) [OF 1(2)]
    show ?case
    proof (rule that [OF 1(2) v(1)])
      show "console k1 = console (kern m)" using 1(9) console_kept by simp
      show "same_user (user_mem (vm_space t) (mm k1)) (user_mem (vm_space t) (mm (kern m)))"
        by (rule stack_invisible [OF hostedD(5) [OF hm] p lk b [OF p]])
      show "user_load k1 va = user_load (kern m) va" for va by (rule user_load_pages [OF hm h1 v(1) lk b])
      show "user_trap e cause stval m = None"
        if "syscall_handler e (regs m ! 17) (regs m ! 10) (regs m ! 11) (regs m ! 12) k1 = None"
        using that 1(8) by (simp add: user_trap_code w)
    next
      fix r t' k'
      assume s: "syscall_handler e (regs m ! 17) (regs m ! 10) (regs m ! 11) (regs m ! 12) k1 = Some (Returns r, k')"
        and t': "runs k' t' B" "step_for t1 B k1 t' k'"
      note h' = runsD(1) [OF t'(1)]
      have cx: "ctx_tp (tcontext t') = tp ?k" using t'(2) v(2) tpk by (simp add: step_on_def)
      let ?k2 = "set_ctx_word (tp ?k) 10 r k'"
      note S = set_ctx_word_step [OF h', of 10 r, unfolded cx] and W = ctx_word_set [OF h', of 10 _ r, unfolded cx]
      have s2: "step_on {10} t' B k' t' ?k2" using S(1) by simp
      have r2: "runs ?k2 t' B" by (rule runs_step [OF t'(1) s2]) simp
      have st: "step_on {10, 33} t B ?k t' ?k2"
        using step_on_trans [OF 1(3) step_on_trans [OF t'(2) s2]] by simp
      obtain m' where m': "resume ?k2 = (U_mode, m')" "machine_step t B m t' B m'" "restored m' t'" "mm (kern m') = mm ?k2"
        by (rule resumed_step [OF m r2 st]) simp_all
      have ok': "machine_ok m' t' B" using m'(2) by (simp add: machine_step_def)
      have "user_trap e cause stval m = Some (U_mode, m')" using s 1(8) m'(1) by (simp add: user_trap_code w)
      moreover have pc': "pc m' = ctx_word (tp ?k) 33 (phys (mm ?k2))" and
        R: "0 < n \<Longrightarrow> n < 32 \<Longrightarrow> regs m' ! n = ctx_word (tp ?k) (of_nat n) (phys (mm ?k2))" for n
        using m'(3,4) by (simp_all add: restored_def cx)
      have "ctx_word (tp ?k) 33 (phys (mm k')) = ctx_word (tp ?k) 33 (phys (mm k1))"
        using t'(2) tpk v(2) by (simp add: step_on_def ctx_kept_def)
      then have "pc m' = pc m + 4" using pc' W [of 33] 1(5) T(8) tpk by simp
      moreover have "regs m' = (regs m)[10 := r]"
      proof (rule nth_equalityI)
        show "regs m' ! n = (regs m)[10 := r] ! n" if "n < length (regs m')" for n
        proof (cases "n = 0 \<or> n = 10")
          case True
          then show ?thesis using machine_okD(6,7) [OF ok'] machine_okD(6,7) [OF m] R [of 10] W [of 10] by auto
        next
          case False
          then have n: "0 < n" "n < 32" "n \<noteq> 10" using that machine_okD(6) [OF ok'] by simp_all
          have un: "unat (of_nat n :: usize) = n" using n(2) by (simp add: unat_of_nat)
          have ne: "(of_nat n :: usize) \<noteq> 10" "(of_nat n :: usize) \<noteq> 33" "(of_nat n :: usize) < 35"
            using un n(2,3) by (auto simp: word_less_nat_alt dest: arg_cong [of _ _ unat])
          have "regs m' ! n = ctx_word (tp ?k) (of_nat n) (phys (mm ?k))"
            using R [OF n(1,2)] st ne tpk by (simp add: step_on_def ctx_kept_def)
          then show ?thesis using T(7) [OF n(2)] tpk n by simp
        qed
      qed (simp add: machine_okD(6) [OF ok'] machine_okD(6) [OF m])
      moreover have "console (kern m') = console k'" using console_kept(2) [of ?k2] m'(1) by simp
      moreover obtain q where q: "stack_page (vm_space t') q" "tp ?k = stack_ctx q" "reachable_ppn q"
        using task_okD [OF hostedD(3) [OF h']] cx by metis
      have "same_user (user_mem (vm_space t') (mm ?k2)) (user_mem (vm_space t') (mm k'))"
        by (rule stack_invisible [OF hostedD(5) [OF h'] q(1)]) (simp_all add: S(2) [unfolded q(2)] q(2) set_ctx_word_outside [OF q(3)])
      ultimately show "\<exists>m'. user_trap e cause stval m = Some (U_mode, m') \<and> machine_step t B m t' B m' \<and> pc m' = pc m + 4 \<and>
        regs m' = (regs m)[10 := r] \<and> console (kern m') = console k' \<and>
        same_user (user_mem (vm_space t') (mm (kern m'))) (user_mem (vm_space t') (mm k')) \<and> PAGE_ALLOCATOR (mm (kern m')) = PAGE_ALLOCATOR (mm k')"
        using m'(2,4) by auto
    qed
  qed
qed


subsection \<open>System calls of the user library\<close>

text \<open>
  \<open>ecall\<close>: the exception code of a call from user mode.  \<open>user_syscall\<close> is the assembly of \<open>syscall\<close>
  in \<open>user/src/syscall.rs\<close>; it gives the machine when the trap has ended, and \<open>None\<close> when the trap
  stopped the system.  When the caller itself is back, the result is \<open>call_result\<close>.
\<close>

definition ECALL_CAUSE :: usize where "ECALL_CAUSE = 8"

lemma ecall_cause: "match_cause ECALL_CAUSE = UserEnvironmentCall"
  by (simp add: ECALL_CAUSE_def match_cause_def is_interrupt_def match_exception_cause_def INTERRUPT_BIT_def)

definition call_regs :: "usize \<Rightarrow> usize \<times> usize \<times> usize \<Rightarrow> machine \<Rightarrow> machine" where
  "call_regs i args m = (case args of (a0, a1, a2) \<Rightarrow> m\<lparr>regs := (regs m)[10 := a0, 11 := a1, 12 := a2, 17 := i]\<rparr>)"

definition user_syscall :: "platform \<Rightarrow> usize \<Rightarrow> usize \<times> usize \<times> usize \<Rightarrow> machine \<Rightarrow> (privilege \<times> machine) option" where
  "user_syscall e i args m = user_trap e ECALL_CAUSE 0 (call_regs i args m)"

definition call_result :: "machine \<Rightarrow> isize" where
  "call_result m = regs m ! 10"

definition USER_SYSCALL_WRITE :: usize where "USER_SYSCALL_WRITE = 64"
definition USER_SYSCALL_MMAP :: usize where "USER_SYSCALL_MMAP = 90"
definition USER_SYSCALL_MUNMAP :: usize where "USER_SYSCALL_MUNMAP = 215"
definition USER_SYSCALL_EXIT :: usize where "USER_SYSCALL_EXIT = 93"
definition USER_SYSCALL_YIELD :: usize where "USER_SYSCALL_YIELD = 124"
definition USER_SYSCALL_TASK_INFO :: usize where "USER_SYSCALL_TASK_INFO = push_bit 63 1 OR 1"

lemma user_call_numbers:
  "USER_SYSCALL_WRITE = SYSCALL_WRITE" "USER_SYSCALL_MMAP = SYSCALL_MMAP" "USER_SYSCALL_MUNMAP = SYSCALL_MUNMAP"
  "USER_SYSCALL_EXIT = SYSCALL_EXIT" "USER_SYSCALL_YIELD = SYSCALL_YIELD" "USER_SYSCALL_TASK_INFO = SYSCALL_TASK_INFO"
  by (simp_all add: USER_SYSCALL_WRITE_def USER_SYSCALL_MMAP_def USER_SYSCALL_MUNMAP_def USER_SYSCALL_EXIT_def
      USER_SYSCALL_YIELD_def USER_SYSCALL_TASK_INFO_def call_numbers)

text \<open>A slice is its address and its length; the exit code is widened with its sign.\<close>

definition user_sys_write :: "platform \<Rightarrow> usize \<Rightarrow> usize \<times> usize \<Rightarrow> machine \<Rightarrow> (privilege \<times> machine) option" where
  "user_sys_write e fd buffer m = user_syscall e USER_SYSCALL_WRITE (fd, fst buffer, snd buffer) m"

definition user_sys_exit :: "platform \<Rightarrow> 32 word \<Rightarrow> machine \<Rightarrow> (privilege \<times> machine) option" where
  "user_sys_exit e xstate m = user_syscall e USER_SYSCALL_EXIT (scast xstate, 0, 0) m"

definition user_sys_yield :: "platform \<Rightarrow> machine \<Rightarrow> (privilege \<times> machine) option" where
  "user_sys_yield e m = user_syscall e USER_SYSCALL_YIELD (0, 0, 0) m"

definition user_sys_task_info :: "platform \<Rightarrow> usize \<Rightarrow> usize \<Rightarrow> machine \<Rightarrow> (privilege \<times> machine) option" where
  "user_sys_task_info e tid dst m = user_syscall e USER_SYSCALL_TASK_INFO (tid, dst, 0) m"

definition user_sys_mmap :: "platform \<Rightarrow> usize \<Rightarrow> usize \<Rightarrow> usize \<Rightarrow> machine \<Rightarrow> (privilege \<times> machine) option" where
  "user_sys_mmap e addr len prot m = user_syscall e USER_SYSCALL_MMAP (addr, len, prot) m"

definition user_sys_munmap :: "platform \<Rightarrow> usize \<Rightarrow> usize \<Rightarrow> machine \<Rightarrow> (privilege \<times> machine) option" where
  "user_sys_munmap e addr len m = user_syscall e USER_SYSCALL_MUNMAP (addr, len, 0) m"

text \<open>The public functions of the library only pass their arguments on.\<close>

definition user_write :: "platform \<Rightarrow> usize \<Rightarrow> usize \<times> usize \<Rightarrow> machine \<Rightarrow> (privilege \<times> machine) option" where
  "user_write e fd buf m = user_sys_write e fd buf m"

definition user_exit :: "platform \<Rightarrow> 32 word \<Rightarrow> machine \<Rightarrow> (privilege \<times> machine) option" where
  "user_exit e exit_code m = user_sys_exit e exit_code m"

definition user_yield_now :: "platform \<Rightarrow> machine \<Rightarrow> (privilege \<times> machine) option" where
  "user_yield_now e m = user_sys_yield e m"

definition user_get_task_info :: "platform \<Rightarrow> usize \<Rightarrow> usize \<Rightarrow> machine \<Rightarrow> (privilege \<times> machine) option" where
  "user_get_task_info e tid dst m = user_sys_task_info e tid dst m"

definition user_mmap :: "platform \<Rightarrow> usize \<Rightarrow> usize \<Rightarrow> usize \<Rightarrow> machine \<Rightarrow> (privilege \<times> machine) option" where
  "user_mmap e addr len prot m = user_sys_mmap e addr len prot m"

definition user_munmap :: "platform \<Rightarrow> usize \<Rightarrow> usize \<Rightarrow> machine \<Rightarrow> (privilege \<times> machine) option" where
  "user_munmap e addr len m = user_sys_munmap e addr len m"

text \<open>\<open>Stdout::write_str\<close> of \<open>user/src/console.rs\<close>, which ignores the result of the call.\<close>

definition USER_FD_STDOUT :: usize where "USER_FD_STDOUT = 1"

definition user_write_str :: "platform \<Rightarrow> usize \<times> usize \<Rightarrow> machine \<Rightarrow> (privilege \<times> machine) option" where
  "user_write_str e s m = user_write e USER_FD_STDOUT s m"

lemmas user_lib_defs = user_write_def user_exit_def user_yield_now_def user_get_task_info_def user_mmap_def
  user_munmap_def user_sys_write_def user_sys_exit_def user_sys_yield_def user_sys_task_info_def user_sys_mmap_def
  user_sys_munmap_def user_syscall_def user_write_str_def

lemma call_regs_ok:
  assumes "machine_ok m t B"
  shows "machine_ok (call_regs i args m) t B" "kern (call_regs i args m) = kern m" "pc (call_regs i args m) = pc m"
  using assms by (simp_all add: machine_ok_def call_regs_def split: prod.split)

lemma call_regs_nth:
  assumes "machine_ok m t B"
  shows "regs (call_regs i (a0, a1, a2) m) ! 10 = a0" "regs (call_regs i (a0, a1, a2) m) ! 11 = a1"
    "regs (call_regs i (a0, a1, a2) m) ! 12 = a2" "regs (call_regs i (a0, a1, a2) m) ! 17 = i"
  using machine_okD(6) [OF assms] by (simp_all add: call_regs_def)

text \<open>What the caller finds when the call has returned to it.\<close>

definition returned ::
  "usize \<Rightarrow> usize \<times> usize \<times> usize \<Rightarrow> machine \<Rightarrow> TaskControlBlock \<Rightarrow> TaskControlBlock multiset \<Rightarrow> isize \<Rightarrow> TaskControlBlock \<Rightarrow> machine \<Rightarrow> bool" where
  "returned i args m t B v t' m' \<longleftrightarrow> machine_step t B m t' B m' \<and> pc m' = pc m + 4 \<and>
     regs m' = (regs (call_regs i args m))[10 := v]"

lemma returnedD:
  assumes "returned i args m t B v t' m'" "machine_ok m t B"
  shows "machine_ok m' t' B" "call_result m' = v"
  using assms machine_okD(6) [OF call_regs_ok(1) [OF assms(2), of i args]]
  by (simp_all add: returned_def machine_step_def call_result_def)

lemma user_call:
  assumes m: "machine_ok m t B"
  obtains t1 k1 where "runs k1 t1 B" "vm_space t1 = vm_space t" "console k1 = console (kern m)"
    "same_user (user_mem (vm_space t) (mm k1)) (user_mem (vm_space t) (mm (kern m)))"
    "\<And>va. user_load k1 va = user_load (kern m) va"
    "syscall_handler e i a0 a1 a2 k1 = None \<Longrightarrow> user_syscall e i (a0, a1, a2) m = None"
    "\<And>v t' k'. syscall_handler e i a0 a1 a2 k1 = Some (Returns v, k') \<Longrightarrow> runs k' t' B \<Longrightarrow> step_for t1 B k1 t' k' \<Longrightarrow>
      \<exists>m'. user_syscall e i (a0, a1, a2) m = Some (U_mode, m') \<and> returned i (a0, a1, a2) m t B v t' m' \<and>
        console (kern m') = console k' \<and> same_user (user_mem (vm_space t') (mm (kern m'))) (user_mem (vm_space t') (mm k')) \<and> PAGE_ALLOCATOR (mm (kern m')) = PAGE_ALLOCATOR (mm k')"
proof -
  let ?m = "call_regs i (a0, a1, a2) m"
  note C = call_regs_ok [OF m, of i "(a0, a1, a2)"]
  show ?thesis
  proof (rule call_trap [OF C(1) ecall_cause, of e 0, unfolded call_regs_nth [OF m] C(2,3)], goal_cases)
    case (1 t1 k1)
    show ?case
    proof (rule that [OF 1(1-5)])
      show "user_syscall e i (a0, a1, a2) m = None" if "syscall_handler e i a0 a1 a2 k1 = None"
        using 1(6) that by (simp add: user_syscall_def)
      fix v t' k'
      assume "syscall_handler e i a0 a1 a2 k1 = Some (Returns v, k')" "runs k' t' B" "step_for t1 B k1 t' k'"
      from 1(7) [OF this] show "\<exists>m'. user_syscall e i (a0, a1, a2) m = Some (U_mode, m') \<and> returned i (a0, a1, a2) m t B v t' m' \<and>
        console (kern m') = console k' \<and> same_user (user_mem (vm_space t') (mm (kern m'))) (user_mem (vm_space t') (mm k')) \<and> PAGE_ALLOCATOR (mm (kern m')) = PAGE_ALLOCATOR (mm k')"
        by (simp add: user_syscall_def returned_def machine_step_def C(2))
    qed
  qed
qed

end
