(* ===== verification/User_Memory.thy ===== *)
theory User_Memory
  imports User_Lib
begin

text \<open>
  \<open>mmap\<close> and \<open>munmap\<close> as a program sees them: what they promise on the abstract memory alone, and
  that the calls of the library, through trap, kernel and back, keep the promise.
\<close>

subsection \<open>The promise\<close>

definition spec_mmap :: "usize \<Rightarrow> usize \<Rightarrow> usize \<Rightarrow> user_memory \<Rightarrow> isize \<times> user_memory" where
  "spec_mmap addr len prot M =
     (if check_u_va_range addr len \<and> unat prot < 8 \<and> page_lo addr < page_hi addr len \<and>
         (\<forall>va. in_pages (page_lo addr) (page_hi addr len) va \<longrightarrow> M va = None)
      then (0, spec_reserve (page_lo addr) (page_hi addr len) (spec_prot prot) M)
      else (-1, M))"

definition spec_munmap :: "usize \<Rightarrow> usize \<Rightarrow> user_memory \<Rightarrow> isize \<times> user_memory" where
  "spec_munmap addr len M =
     (if \<not> check_u_va_range addr len then (-1, M)
      else if len = 0 then (0, M)
      else (0, spec_release (page_lo addr) (page_hi addr len) M))"

datatype memory_call = Mmap usize usize usize | Munmap usize usize

primrec spec_call :: "memory_call \<Rightarrow> user_memory \<Rightarrow> isize \<times> user_memory" where
  "spec_call (Mmap addr len prot) M = spec_mmap addr len prot M"
| "spec_call (Munmap addr len) M = spec_munmap addr len M"

fun spec_calls :: "memory_call list \<Rightarrow> user_memory \<Rightarrow> isize list \<times> user_memory" where
  "spec_calls [] M = ([], M)"
| "spec_calls (c # cs) M = (let (r, M1) = spec_call c M; (rs, M2) = spec_calls cs M1 in (r # rs, M2))"

text \<open>The same calls made by a program, one after the other, with their results.\<close>

primrec user_call_of :: "platform \<Rightarrow> memory_call \<Rightarrow> machine \<Rightarrow> (privilege \<times> machine) option" where
  "user_call_of e (Mmap addr len prot) m = user_mmap e addr len prot m"
| "user_call_of e (Munmap addr len) m = user_munmap e addr len m"

fun user_calls :: "platform \<Rightarrow> memory_call list \<Rightarrow> machine \<Rightarrow> (isize list \<times> machine) option" where
  "user_calls e [] m = Some ([], m)"
| "user_calls e (c # cs) m = do {
     (md, m1) \<leftarrow> user_call_of e c m;
     (rs, m2) \<leftarrow> user_calls e cs m1;
     Some (call_result m1 # rs, m2)
   }"

lemma in_pages_low:
  assumes "check_u_va_range addr len" "in_pages (page_lo addr) (page_hi addr len) va"
  shows "unat va < 2 ^ 38"
proof -
  have "unat (vpn_raw (va_vpn va)) * 4096 < unat addr + unat len"
    using call_range(5) [OF assms(1)] assms(2) by (simp add: in_pages_def)
  moreover have "unat addr + unat len \<le> 2 ^ 38 - 4096"
    using assms(1) by (auto simp: check_u_va_range_iff kconst split: if_splits)
  ultimately show ?thesis by (simp add: va_vpn_def bits_nat)
qed

lemma spec_call_cong:
  assumes "same_user M N"
  shows "fst (spec_call c M) = fst (spec_call c N) \<and> same_user (snd (spec_call c M)) (snd (spec_call c N))"
proof (cases c)
  case (Mmap addr len prot)
  have "M va = None \<longleftrightarrow> N va = None" if "check_u_va_range addr len" "in_pages (page_lo addr) (page_hi addr len) va" for va
    using assms in_pages_low [OF that] by (simp add: same_user_def)
  then show ?thesis using spec_cong [OF assms] assms by (auto simp: Mmap spec_mmap_def)
next
  case (Munmap addr len)
  then show ?thesis using spec_cong [OF assms] assms by (simp add: spec_munmap_def)
qed

lemma spec_calls_cong:
  "same_user M N \<Longrightarrow> fst (spec_calls cs M) = fst (spec_calls cs N) \<and> same_user (snd (spec_calls cs M)) (snd (spec_calls cs N))"
proof (induction cs arbitrary: M N)
  case (Cons c cs)
  from spec_call_cong [OF Cons.prems, of c] Cons.IH show ?case by (auto simp: split_beta)
qed simp

subsection \<open>Areas without gaps in their meaning\<close>

text \<open>
  An area of no page reserves nothing but stands in the way of \<open>mmap\<close>; only an ELF segment of size 0
  makes one.
\<close>

definition areas_nonempty :: "VMSpace \<Rightarrow> bool" where
  "areas_nonempty v \<longleftrightarrow> (\<forall>a \<in> set (areas v). start_vpn a < end_vpn a)"

lemma vec_swap_remove_set:
  assumes "vec_swap_remove i l = Some (x, l')"
  shows "set l' \<subseteq> set l"
proof
  fix y assume "y \<in> set l'"
  then have y: "y \<in> set (l[i := last l])" "l \<noteq> []"
    using assms by (auto simp: vec_swap_remove_def split: if_splits dest: in_set_butlastD)
  then show "y \<in> set l" using subsetD [OF set_update_subset_insert y(1)] last_in_set [OF y(2)] by auto
qed

lemma va_vpn_push:
  assumes "unat (vpn_raw w) < 2 ^ 26"
  shows "va_vpn (push_bit 12 (vpn_raw w)) = w"
proof -
  have "unat (push_bit 12 (vpn_raw w)) = unat (vpn_raw w) * 4096"
    using assms by (simp add: push_bit_eq_mult unat_word_ariths)
  then have "unat (drop_bit 12 (push_bit 12 (vpn_raw w))) = unat (vpn_raw w)" unfolding bits_nat by simp
  then have "drop_bit 12 (push_bit 12 (vpn_raw w)) = vpn_raw w" by (simp only: word_unat_eq_iff)
  then show ?thesis by (cases w) (simp add: va_vpn_def)
qed

lemma unmap_area_nonempty:
  assumes "areas_nonempty v" "lo < hi" "unmap_area lo hi i v s = Some (r, v', s')"
  shows "areas_nonempty v'"
  using assms
  by (auto simp: unmap_area_def areas_nonempty_def Let_def vec_push_def
      split: if_splits Option.bind_splits sum.splits prod.splits
      dest!: subsetD [OF set_update_subset_insert] dest: subsetD [OF vec_swap_remove_set])

lemma unmap_areas_nonempty:
  "areas_nonempty v \<Longrightarrow> lo < hi \<Longrightarrow> unmap_areas lo hi l v s = Some (r, v', s') \<Longrightarrow> areas_nonempty v'"
  by (induction l arbitrary: v s) (auto split: Option.bind_splits sum.splits dest: unmap_area_nonempty)

lemma mmap_accepts_free:
  assumes ok: "space_ok v s" and ne: "areas_nonempty v" and v: "v = vm_space t"
  shows "mmap_accepts t addr len prot \<longleftrightarrow> check_u_va_range addr len \<and> unat prot < 8 \<and>
    page_lo addr < page_hi addr len \<and> (\<forall>va. in_pages (page_lo addr) (page_hi addr len) va \<longrightarrow> user_mem v s va = None)"
proof (cases "check_u_va_range addr len \<and> page_lo addr < page_hi addr len")
  case True
  note D = space_okD [OF ok]
  let ?lo = "page_lo addr" and ?hi = "page_hi addr len"
  have "(\<forall>a \<in> set (areas v). end_vpn a \<le> ?lo \<or> ?hi \<le> start_vpn a) \<longleftrightarrow>
      (\<forall>va. in_pages ?lo ?hi va \<longrightarrow> user_mem v s va = None)"
  proof
    assume free: "\<forall>a \<in> set (areas v). end_vpn a \<le> ?lo \<or> ?hi \<le> start_vpn a"
    have "\<not> contain_vpn a w" if "a \<in> set (areas v)" "?lo \<le> w" "w < ?hi" for a w
      using free that by (auto simp: contain_vpn_def)
    then have "reserved v w = None" if "?lo \<le> w" "w < ?hi" for w
      using that by (intro reserved_None [OF D(3)]) (auto simp: region_def)
    then show "\<forall>va. in_pages ?lo ?hi va \<longrightarrow> user_mem v s va = None" by (simp add: in_pages_def user_mem_def)
  next
    assume none: "\<forall>va. in_pages ?lo ?hi va \<longrightarrow> user_mem v s va = None"
    show "\<forall>a \<in> set (areas v). end_vpn a \<le> ?lo \<or> ?hi \<le> start_vpn a"
    proof (rule ballI, rule ccontr)
      fix a assume a: "a \<in> set (areas v)" and over: "\<not> (end_vpn a \<le> ?lo \<or> ?hi \<le> start_vpn a)"
      define w where "w = (if ?lo \<le> start_vpn a then start_vpn a else ?lo)"
      have w: "?lo \<le> w" "w < ?hi" "contain_vpn a w"
        using over ne a True by (auto simp: w_def areas_nonempty_def contain_vpn_def)
      have "unat (vpn_raw w) < 2 ^ 26"
        using w(2) call_range(3) [of addr len] True by (simp add: page_order word_less_nat_alt)
      then have "va_vpn (push_bit 12 (vpn_raw w)) = w" by (simp add: va_vpn_push)
      then have "user_mem v s (push_bit 12 (vpn_raw w)) = None" using none w(1,2) by (simp add: in_pages_def)
      then have "reserved v w = None" using \<open>va_vpn _ = w\<close> by (simp add: user_mem_def)
      moreover have "region (marea v) w (map_type a, permissions a)" using a w(3) by (auto simp: region_def)
      ultimately show False using reserved_region [OF D(3), of w "(map_type a, permissions a)"] by simp
    qed
  qed
  then show ?thesis using True v by (auto simp: mmap_accepts_def)
qed (auto simp: mmap_accepts_def)


subsection \<open>One call\<close>

text \<open>
  A call that keeps the promise: the caller is back behind it, with the result and the memory that
  the promise gives, and nothing else has changed for anyone.
\<close>

definition kept_promise ::
  "usize \<Rightarrow> usize \<times> usize \<times> usize \<Rightarrow> machine \<Rightarrow> TaskControlBlock \<Rightarrow> TaskControlBlock multiset \<Rightarrow> isize \<times> user_memory \<Rightarrow> TaskControlBlock \<Rightarrow> machine \<Rightarrow> bool" where
  "kept_promise i args m t B p t' m' \<longleftrightarrow> returned i args m t B (fst p) t' m' \<and> console (kern m') = console (kern m) \<and>
     same_user (user_mem (vm_space t') (mm (kern m'))) (snd p) \<and> areas_nonempty (vm_space t')"

text \<open>A call whose handler changes the memory of the program from \<open>M\<close> to that of \<open>k'\<close>.\<close>

lemma call_kept:
  assumes "\<exists>m'. user_syscall e i args m = Some (U_mode, m') \<and> returned i args m t B v t' m' \<and>
        console (kern m') = console k' \<and> same_user (user_mem (vm_space t') (mm (kern m'))) (user_mem (vm_space t') (mm k')) \<and> PAGE_ALLOCATOR (mm (kern m')) = PAGE_ALLOCATOR (mm k')"
    and "console k' = console (kern m)" "same_user (user_mem (vm_space t') (mm k')) M" "areas_nonempty (vm_space t')"
    and p: "p = (v, N)" "same_user M N"
  shows "\<exists>m' t'. user_syscall e i args m = Some (U_mode, m') \<and> kept_promise i args m t B p t' m'"
  using assms(1-4) same_user_trans [OF _ p(2)] same_user_trans unfolding kept_promise_def p(1) by fastforce

lemma user_mmap_kept:
  assumes m: "machine_ok m t B" and ne: "areas_nonempty (vm_space t)"
  shows "\<exists>m' t'. user_mmap e addr len prot m = Some (U_mode, m') \<and>
    kept_promise USER_SYSCALL_MMAP (addr, len, prot) m t B
      (spec_call (Mmap addr len prot) (user_mem (vm_space t) (mm (kern m)))) t' m'"
proof (rule user_call [OF m, of e USER_SYSCALL_MMAP addr len prot], goal_cases)
  case (1 t1 k1)
  let ?M = "user_mem (vm_space t) (mm (kern m))" and ?lo = "page_lo addr" and ?hi = "page_hi addr len"
  have h: "syscall_handler e USER_SYSCALL_MMAP addr len prot k1 = mmap addr len prot k1"
    by (simp add: syscall_handler_def user_call_numbers call_numbers)
  note ok1 = hostedD(5) [OF runsD(1) [OF 1(1)], unfolded 1(2)] and ok = hostedD(5) [OF machine_okD(1) [OF m]]
  have acc: "mmap_accepts t1 addr len prot \<longleftrightarrow> mmap_accepts t addr len prot" by (simp add: mmap_accepts_def 1(2))
  note free = mmap_accepts_free [OF ok ne refl, of addr len prot]
  show ?case unfolding user_mmap_def user_sys_mmap_def
  proof (rule mmap_spec [OF 1(1), of addr len prot], goal_cases no yes)
    case no
    have p: "spec_call (Mmap addr len prot) ?M = (-1, ?M)" using no(2) free acc by (auto simp: spec_mmap_def)
    show ?case
      by (rule call_kept [where t' = t1 and k' = k1, OF 1(7) _ _ _ p same_user_refl])
        (use no(1) h 1(1-4) step_for_refl [OF runsD(1) [OF 1(1)]] ne in simp_all)
  next
    case (yes t' k')
    have p: "spec_call (Mmap addr len prot) ?M = (0, spec_reserve ?lo ?hi (spec_prot prot) ?M)"
      using yes(2) free acc by (auto simp: spec_mmap_def)
    have d: "\<forall>a \<in> set (areas (vm_space t)). end_vpn a \<le> ?lo \<or> ?hi \<le> start_vpn a" "?lo < ?hi"
      using yes(2) by (simp_all add: mmap_accepts_def 1(2))
    have a: "areas (vm_space t') = areas (vm_space t) @ [VMArea_new ?lo ?hi Anonymous (spec_prot prot)]"
      "root_pgt (vm_space t') = root_pgt (vm_space t)" using yes(8,9) by (simp_all add: 1(2))
    note M = mmap_mem(1) [OF ok1 hostedD(5) [OF runsD(1) [OF yes(3)], unfolded yes(5)] a d(1)]
    show ?case
      by (rule call_kept [where t' = t' and k' = k', OF 1(7) _ _ _ p spec_cong(1) [OF 1(4)]])
        (use yes(1,3,4,5,7) h 1(3) M a(1) d(2) ne in \<open>auto simp: areas_nonempty_def VMArea_new_def\<close>)
  qed
qed

lemma user_munmap_kept:
  assumes m: "machine_ok m t B" and ne: "areas_nonempty (vm_space t)"
  shows "\<exists>m' t'. user_munmap e addr len m = Some (U_mode, m') \<and>
    kept_promise USER_SYSCALL_MUNMAP (addr, len, 0) m t B
      (spec_call (Munmap addr len) (user_mem (vm_space t) (mm (kern m)))) t' m'"
proof (rule user_call [OF m, of e USER_SYSCALL_MUNMAP addr len 0], goal_cases)
  case (1 t1 k1)
  let ?M = "user_mem (vm_space t) (mm (kern m))" and ?lo = "page_lo addr" and ?hi = "page_hi addr len"
  have h: "syscall_handler e USER_SYSCALL_MUNMAP addr len 0 k1 = munmap addr len k1"
    by (simp add: syscall_handler_def user_call_numbers call_numbers)
  note ok1 = hostedD(5) [OF runsD(1) [OF 1(1)]]
  have same: ?case if c: "munmap addr len k1 = Some (Returns v, k1)" and p: "spec_call (Munmap addr len) ?M = (v, ?M)" for v
    unfolding user_munmap_def user_sys_munmap_def
    by (rule call_kept [where t' = t1 and k' = k1, OF 1(7) _ _ _ p same_user_refl])
      (use c h 1(1-4) step_for_refl [OF runsD(1) [OF 1(1)]] ne in simp_all)
  show ?case
  proof (rule munmap_spec [OF 1(1), of addr len], goal_cases no empty yes)
    case no
    then show ?case by (intro same) (simp_all add: spec_munmap_def)
  next
    case empty
    then show ?case by (intro same) (simp_all add: spec_munmap_def)
  next
    case (yes t' k')
    have p: "spec_call (Munmap addr len) ?M = (0, spec_release ?lo ?hi ?M)" using yes(2,3) by (simp add: spec_munmap_def)
    note M = munmap_mem [OF ok1 hostedD(5) [OF runsD(1) [OF yes(4)]] yes(8,9,11), unfolded 1(2)]
    have "areas_nonempty (vm_space t')"
      using unmap_areas_nonempty [OF _ call_range(4) [OF yes(2,3)], of "vm_space t1"] yes(12) ne 1(2)
      by (simp add: VMSpace_unmap_def)
    then show ?case unfolding user_munmap_def user_sys_munmap_def
      by (intro call_kept [where t' = t' and k' = k', OF 1(7) _ _ _ p spec_cong(2) [OF 1(4)]]) (use yes(1,4,5,7) h 1(3) M in simp_all)
  qed
qed


lemma user_call_kept:
  assumes m: "machine_ok m t B" and ne: "areas_nonempty (vm_space t)"
  obtains m' t' i args where "user_call_of e c m = Some (U_mode, m')"
    "kept_promise i args m t B (spec_call c (user_mem (vm_space t) (mm (kern m)))) t' m'"
proof (cases c)
  case (Mmap addr len prot)
  show ?thesis using user_mmap_kept [OF m ne, of e addr len prot] that by (auto simp: Mmap)
next
  case (Munmap addr len)
  show ?thesis using user_munmap_kept [OF m ne, of e addr len] that by (auto simp: Munmap)
qed

subsection \<open>Sequences of calls\<close>

lemma untouched_block_trans:
  assumes "untouched u k k'" "untouched u k' k''" "u \<in> set (ALL_TASKS k')"
  shows "untouched u k k''"
  using untouched_trans [OF assms(1,3) _ assms(2)] by (simp add: same_block_def)

lemma user_calls_kept:
  assumes "machine_ok m t B" "areas_nonempty (vm_space t)"
  shows "\<exists>m' t'. user_calls e cs m = Some (fst (spec_calls cs (user_mem (vm_space t) (mm (kern m)))), m') \<and>
    machine_step t B m t' B m' \<and> console (kern m') = console (kern m) \<and>
    same_user (user_mem (vm_space t') (mm (kern m'))) (snd (spec_calls cs (user_mem (vm_space t) (mm (kern m)))))"
  using assms
proof (induction cs arbitrary: m t)
  case Nil
  have "untouched u (kern m) (kern m)" if "u \<in># B" for u
  proof -
    have "u \<in># mset (ALL_TASKS (kern m))" using that machine_okD(8) [OF Nil(1)] by simp
    then show ?thesis by (auto simp: untouched_def same_view_refl same_block_def intro: bexI [of _ u])
  qed
  then have "machine_step t B m t B m" using Nil(1) by (auto simp: machine_step_def same_task_def)
  then show ?case using same_user_refl by auto
next
  case (Cons c cs)
  let ?M = "user_mem (vm_space t) (mm (kern m))"
  obtain m1 t1 i args where c: "user_call_of e c m = Some (U_mode, m1)" "kept_promise i args m t B (spec_call c ?M) t1 m1"
    by (rule user_call_kept [OF Cons.prems])
  have r: "returned i args m t B (fst (spec_call c ?M)) t1 m1" "console (kern m1) = console (kern m)"
    "same_user (user_mem (vm_space t1) (mm (kern m1))) (snd (spec_call c ?M))" "areas_nonempty (vm_space t1)"
    using c(2) by (simp_all add: kept_promise_def)
  note ok1 = returnedD [OF r(1) Cons.prems(1)]
  have s1: "machine_step t B m t1 B m1" using r(1) by (simp add: returned_def)
  obtain m2 t2 where m2: "user_calls e cs m1 = Some (fst (spec_calls cs (user_mem (vm_space t1) (mm (kern m1)))), m2)"
    "machine_step t1 B m1 t2 B m2" "console (kern m2) = console (kern m1)"
    "same_user (user_mem (vm_space t2) (mm (kern m2))) (snd (spec_calls cs (user_mem (vm_space t1) (mm (kern m1)))))"
    using Cons.IH [OF ok1(1) r(4)] by blast
  note cong = spec_calls_cong [OF r(3), of cs]
  have un: "untouched u (kern m) (kern m2)" if "u \<in># B" for u
  proof (rule untouched_block_trans)
    show "untouched u (kern m) (kern m1)" "untouched u (kern m1) (kern m2)"
      using s1 m2(2) that by (simp_all add: machine_step_def)
    have "u \<in># mset (ALL_TASKS (kern m1))" using that machine_okD(8) [OF ok1(1)] by simp
    then show "u \<in> set (ALL_TASKS (kern m1))" by simp
  qed
  have st: "\<exists>w0 \<in># add_mset t B. same_task w0 w" if w: "w \<in># add_mset t2 B" for w
  proof -
    obtain w1 where w1: "w1 \<in># add_mset t1 B" "same_task w1 w" using m2(2) w unfolding machine_step_def by blast
    obtain w0 where "w0 \<in># add_mset t B" "same_task w0 w1" using s1 w1(1) unfolding machine_step_def by blast
    with w1(2) show ?thesis by (auto simp: same_task_def)
  qed
  have "machine_step t B m t2 B m2" using m2(2) un st by (simp add: machine_step_def)
  moreover have "user_calls e (c # cs) m = Some (fst (spec_calls (c # cs) ?M), m2)"
    using c(1) m2(1) ok1(2) cong by (simp add: split_beta)
  moreover have "same_user (user_mem (vm_space t2) (mm (kern m2))) (snd (spec_calls (c # cs) ?M))"
    using same_user_trans [OF m2(4)] cong by (simp add: split_beta)
  ultimately show ?case using m2(3) r(2) by auto
qed

subsection \<open>Printing\<close>

text \<open>User mode reads what the kernel reads on its behalf.\<close>

lemma user_load_byte:
  assumes h: "hosted k t B" and l: "user_load k va = Some b"
  shows "user_byte k va = Some b" "unat va < 2 ^ 38"
proof -
  obtain pa where pa: "mmu U_mode Load va k = Some pa" "b = phys (mm k) pa" using l by (auto simp: user_load_def)
  show va: "unat va < 2 ^ 38" using user_mmu_upper [OF h, of va Load] pa(1) by fastforce
  note H = hostedD [OF h]
  obtain e where e: "lookup (root_pgt (vm_space t)) (mm k) (va_vpn va) = Some e" "hw_allows U_mode (sum_bit k) Load e"
    "pa = get_pa (pte_ppn e) + take_bit 12 va"
    using pa(1) by (auto simp: mmu_def csrr_def H(4) translate_user [OF H(5) va] split: option.splits if_splits)
  have "hw_allows S_mode True Load e" using e(2) by (simp add: hw_allows_def)
  then show "user_byte k va = Some b"
    using e(1,3) pa(2) by (simp add: user_byte_def H(4) translate_user [OF H(5) va])
qed


text \<open>
  The bytes \<open>bs\<close> are those of the memory of the program in its buffer, and agree with all that its
  loads could read there.
\<close>

definition reads_as :: "TaskControlBlock \<Rightarrow> kernel \<Rightarrow> usize \<Rightarrow> usize \<Rightarrow> u8 list \<Rightarrow> bool" where
  "reads_as t k buf len bs \<longleftrightarrow> length bs = unat len \<and>
     (\<forall>i < unat len. (\<exists>pm. user_mem (vm_space t) (mm k) (buf + of_nat i) = Some (pm, bs ! i)) \<and>
        (\<forall>b. user_load k (buf + of_nat i) = Some b \<longrightarrow> bs ! i = b))"

text \<open>Some byte of the buffer is not readable, or pages have run out.\<close>

definition unreadable :: "TaskControlBlock \<Rightarrow> kernel \<Rightarrow> usize \<Rightarrow> usize \<Rightarrow> kernel \<Rightarrow> bool" where
  "unreadable t k buf len k' \<longleftrightarrow> (\<exists>i < unat len. user_load k (buf + of_nat i) = None) \<and>
     (card (mfree (mm k')) \<le> 1 \<or> (\<exists>i < unat len. \<not> allows Load (user_mem (vm_space t) (mm k) (buf + of_nat i))))"

lemma user_write_cases:
  assumes m: "machine_ok m t B" and e: "platform_ok e"
  obtains (refused) m' t' where "user_write e fd (buf, len) m = Some (U_mode, m')"
      "returned USER_SYSCALL_WRITE (fd, buf, len) m t B (-1) t' m'" "console (kern m') = console (kern m)"
      "fd = USER_FD_STDOUT \<and> check_u_va_range buf len \<longrightarrow> unreadable t (kern m) buf len (kern m')"
  | (panic) "user_write e fd (buf, len) m = None" "fd = USER_FD_STDOUT" "check_u_va_range buf len"
      "heap_alloc e len = None \<or> (\<exists>bs. reads_as t (kern m) buf len bs \<and> from_utf8 bs = None)"
  | (printed) m' t' bs chars where "user_write e fd (buf, len) m = Some (U_mode, m')"
      "returned USER_SYSCALL_WRITE (fd, buf, len) m t B len t' m'" "fd = USER_FD_STDOUT" "check_u_va_range buf len"
      "reads_as t (kern m) buf len bs" "from_utf8 bs = Some chars" "console (kern m') = console (kern m) @ chars"
      "\<forall>i < unat len. \<exists>pm. user_mem (vm_space t') (mm (kern m')) (buf + of_nat i) = Some (pm, bs ! i)"
proof -
  show ?thesis
  proof (rule user_call [OF m, of e USER_SYSCALL_WRITE fd buf len], goal_cases)
    case (1 t1 k1)
    have h: "syscall_handler e USER_SYSCALL_WRITE fd buf len k1 = sys_write e fd buf len k1"
      by (simp add: syscall_handler_def user_call_numbers)
    have w: "user_write e fd (buf, len) m = user_syscall e USER_SYSCALL_WRITE (fd, buf, len) m"
      by (simp add: user_write_def user_sys_write_def)
    have out: "USER_FD_STDOUT = FD_STDOUT" by (simp add: USER_FD_STDOUT_def FD_STDOUT_def)
    note h1 = runsD(1) [OF 1(1)] and none = 1(6) [unfolded h, folded w] and ret = 1(7) [unfolded h, folded w]
    have byte: "user_byte k' va = Some b"
      if "\<And>a b. unat a < 2 ^ 38 \<Longrightarrow> user_byte k1 a = Some b \<Longrightarrow> user_byte k' a = Some b" "user_load (kern m) va = Some b" for k' va b
      using that user_load_byte [OF h1, of va b] 1(5) by simp
    show ?case
    proof (rule sys_write_spec [OF 1(1) e, of fd buf len], goal_cases no heap fault copied)
      case no
      then show ?case using ret [OF no(1) 1(1) step_for_refl [OF h1]] 1(3) out by (auto intro: refused)
    next
      case heap
      then show ?case by (intro panic [OF none]) (simp_all add: out)
    next
      case (fault t' k' n)
      have k': "runs k' t' B" "step_for t1 B k1 t' k'" "console k' = console k1" using fault(4) by (simp_all add: copy_done_def)
      have "user_load (kern m) (buf + of_nat n) = None"
        using byte [OF fault(7)] fault(6) by (cases "user_load (kern m) (buf + of_nat n)") auto
      then have a: "\<exists>i < unat len. user_load (kern m) (buf + of_nat i) = None" using fault(5) by blast
      have "user_mem (vm_space t) (mm k1) (buf + of_nat n) = user_mem (vm_space t) (mm (kern m)) (buf + of_nat n)"
        using 1(4) user_range [OF fault(3,5)] by (simp add: same_user_def)
      then have b: "card (mfree (mm k')) \<le> 1 \<or> (\<exists>i < unat len. \<not> allows Load (user_mem (vm_space t) (mm (kern m)) (buf + of_nat i)))"
        using fault(5,9) 1(2) by auto
      from ret [OF fault(1) k'(1,2)] show ?case
      proof (elim exE conjE)
        fix m' assume m': "PAGE_ALLOCATOR (mm (kern m')) = PAGE_ALLOCATOR (mm k')" "console (kern m') = console k'"
          "user_write e fd (buf, len) m = Some (U_mode, m')" "returned USER_SYSCALL_WRITE (fd, buf, len) m t B (-1) t' m'"
        show ?thesis by (rule refused [OF m'(3,4)]) (use a b m'(1,2) k'(3) 1(3) in \<open>simp_all add: unreadable_def\<close>)
      qed
    next
      case (copied t' k')
      let ?bs = "user_bytes k' buf (unat len)"
      have nth: "length ?bs = unat len" "\<And>i. i < unat len \<Longrightarrow> user_byte k' (buf + of_nat i) = Some (?bs ! i)"
        using copied(4) by (auto simp: user_bytes_def)
      have mem': "\<exists>pm. user_mem (vm_space t') (mm k') (buf + of_nat i) = Some (pm, ?bs ! i)" if "i < unat len" for i
        using user_byte_mem [OF _ user_range [OF copied(3) that] nth(2) [OF that]] copied(1)
        unfolding copy_done_def runs_def by blast
      have mem: "\<exists>pm. user_mem (vm_space t) (mm (kern m)) (buf + of_nat i) = Some (pm, ?bs ! i)" if "i < unat len" for i
        using mem' [OF that] copied(7) 1(2,4) user_range [OF copied(3) that] by (simp add: same_user_def)
      have same: "reads_as t (kern m) buf len ?bs"
        using byte [OF copied(6)] nth mem unfolding reads_as_def by fastforce
      show ?case
      proof (cases "from_utf8 ?bs")
        case None
        then show ?thesis using copied(2,3,5) same by (intro panic [OF none]) (auto simp: out)
      next
        case (Some chars)
        have k': "runs k' t' B" "console k' = console k1" using copied(1) by (simp_all add: copy_done_def)
        note P = print_chars_step [OF copied(1), of chars]
        have "sys_write e fd buf len k1 = Some (Returns len, print_chars chars k')" using copied(5) Some by simp
        from ret [OF this P] obtain m' where m': "user_write e fd (buf, len) m = Some (U_mode, m')"
          "returned USER_SYSCALL_WRITE (fd, buf, len) m t B len t' m'" "console (kern m') = console (kern m) @ chars"
          "same_user (user_mem (vm_space t') (mm (kern m'))) (user_mem (vm_space t') (mm k'))"
          using 1(3) k'(2) by (auto simp: print_chars_def)
        have "\<forall>i < unat len. \<exists>pm. user_mem (vm_space t') (mm (kern m')) (buf + of_nat i) = Some (pm, ?bs ! i)"
          using mem' m'(4) user_range [OF copied(3)] by (simp add: same_user_def)
        then show ?thesis using m' copied(2,3) same Some out by (intro printed) simp_all
      qed
    qed
  qed
qed

end
