(* ===== verification/User_Props.thy ===== *)
theory User_Props
  imports User_Memory Sample_Machine
begin

text \<open>
  The properties of the system calls as a program finds them through the user library: the whole
  way from the call in the library to its result.
\<close>

subsection \<open>Memory\<close>

text \<open>
  C17. For every sequence of \<open>mmap\<close> and \<open>munmap\<close> calls of the user library, whatever their arguments,
  the results and the memory that the program has at the end are those that the promise computes
  from the memory it had at the start, without a look at areas, page tables or pages: a range is
  reserved, with the protection asked for and zeros in it, exactly when it lies in user space, is
  not empty and holds nothing yet; \<open>munmap\<close> takes away the pages of its range.  The program never
  loses the hart by a call, no task notices, and nothing is printed.  (An area of no page, which an
  ELF segment of size 0 leaves, would make \<open>mmap\<close> refuse although the memory around it is free.)
\<close>

theorem user_calls_refine:
  assumes "machine_ok m t B" "areas_nonempty (vm_space t)"
  shows "\<exists>m' t'. user_calls e cs m = Some (fst (spec_calls cs (user_mem (vm_space t) (mm (kern m)))), m') \<and>
    machine_step t B m t' B m' \<and> console (kern m') = console (kern m) \<and>
    same_user (user_mem (vm_space t') (mm (kern m'))) (snd (spec_calls cs (user_mem (vm_space t) (mm (kern m)))))"
  by (rule user_calls_kept [OF assms])

definition sample_regs :: "usize list" where "sample_regs = replicate 32 0"

lemma sample_machine: "machine_ok (host_machine sample_regs) host_task1 {#host_task2#}"
  by (rule host_machine_ok) (simp_all add: sample_regs_def)

theorem user_calls_refine_witness:
  "\<exists>m'. user_calls sample_platform [Mmap 0x40000 0x1800 3, Munmap 0x40000 0x1800, Munmap 0x4000000000 1]
     (host_machine sample_regs) = Some ([0, 0, -1], m')"
proof -
  let ?v = "vm_space host_task1" and ?s = "mm (kern (host_machine sample_regs))"
  have a: "areas ?v = [sample_area, stack_area sample_stack]"
    by (simp add: host_task1_def host_tcb_def host_space_def)
  then have ne: "areas_nonempty ?v"
    by (simp add: areas_nonempty_def sample_area_def stack_area_def VMArea_new_def page_order)
  have acc: "mmap_accepts host_task1 0x40000 0x1800 3" using a
    by (simp add: mmap_accepts_def check_u_va_range_iff kconst
        page_lo_def page_hi_def va_vpn_def page_order sample_area_def stack_area_def VMArea_new_def)
  have "space_ok ?v ?s" using hostedD(5) machine_okD(1) [OF sample_machine] by blast
  from mmap_accepts_free [OF this ne refl] acc have "fst (spec_mmap 0x40000 0x1800 3 (user_mem ?v ?s)) = 0"
    by (simp add: spec_mmap_def)
  moreover have "check_u_va_range 0x40000 0x1800" "\<not> check_u_va_range 0x4000000000 1"
    by (simp_all add: check_u_va_range_iff kconst)
  ultimately show ?thesis
    using user_calls_refine [OF sample_machine ne, of sample_platform "[Mmap 0x40000 0x1800 3, Munmap 0x40000 0x1800, Munmap 0x4000000000 1]"]
    by (auto simp: spec_munmap_def split_beta)
qed

subsection \<open>Printing\<close>

text \<open>
  C18. \<open>write\<close> of the user library.  When it returns, the program is behind the call with the result in
  \<open>a0\<close> and its other registers unchanged, and the result is either -1, with nothing printed, because
  the descriptor or the range is not valid or because some byte of the buffer is not readable (the
  program could not have loaded it at that moment, and either its permissions forbid it or the page
  allocator is down to its last page); or it is the length, and the console has got the characters
  whose UTF-8 encoding is in the program's memory, byte for byte what its loads would read there.  It does
  not return only when the kernel heap cannot hold the buffer or the bytes are not UTF-8: then
  the kernel has panicked.
\<close>

theorem user_write_prints:
  assumes "machine_ok m t B" "platform_ok e"
  shows "case user_write e fd (buf, len) m of
      None \<Rightarrow> fd = USER_FD_STDOUT \<and> check_u_va_range buf len \<and>
        (heap_alloc e len = None \<or> (\<exists>bs. reads_as t (kern m) buf len bs \<and> from_utf8 bs = None))
    | Some (md, m') \<Rightarrow> md = U_mode \<and> (\<exists>t' v. returned USER_SYSCALL_WRITE (fd, buf, len) m t B v t' m' \<and>
        (if fd = USER_FD_STDOUT \<and> check_u_va_range buf len \<and> v \<noteq> -1
         then v = len \<and> (\<exists>bs chars. reads_as t (kern m) buf len bs \<and> from_utf8 bs = Some chars \<and>
           console (kern m') = console (kern m) @ chars \<and>
           (\<forall>i < unat len. \<exists>pm. user_mem (vm_space t') (mm (kern m')) (buf + of_nat i) = Some (pm, bs ! i)))
         else v = -1 \<and> console (kern m') = console (kern m) \<and>
           (fd = USER_FD_STDOUT \<and> check_u_va_range buf len \<longrightarrow> unreadable t (kern m) buf len (kern m'))))"
proof (rule user_write_cases [OF assms, of fd buf len], goal_cases refused panic printed)
  case (refused m' t')
  show ?case unfolding refused(1) option.case prod.case
    using refused(2-4) by (intro conjI exI [of _ t'] exI [of _ "-1"]) simp_all
next
  case panic
  then show ?case by simp
next
  case (printed m' t' bs chars)
  have "unat len \<le> 2 ^ 38" using printed(4) by (auto simp: check_u_va_range_iff kconst split: if_splits)
  then have "len \<noteq> -1" by (auto simp: unsigned_minus_1_eq_mask mask_eq_exp_minus_1)
  then show ?case unfolding printed(1) option.case prod.case
    using printed(2-8) by (intro conjI exI [of _ t'] exI [of _ len]) auto
qed

theorem user_write_prints_witness:
  "\<exists>m'. user_write sample_platform 2 (0x11000, 5) (host_machine sample_regs) = Some (U_mode, m') \<and>
     call_result m' = -1 \<and> console (kern m') = console (kern (host_machine sample_regs))"
proof (cases "user_write sample_platform 2 (0x11000, 5) (host_machine sample_regs)")
  case None
  then show ?thesis
    using user_write_prints [OF sample_machine sample_platform_ok, of 2 "0x11000" 5] by (simp add: USER_FD_STDOUT_def)
next
  case (Some x)
  then show ?thesis
    using user_write_prints [OF sample_machine sample_platform_ok, of 2 "0x11000" 5] returnedD(2) [OF _ sample_machine]
    by (cases x) (auto simp: USER_FD_STDOUT_def)
qed

end
