(* ===== verification/Spec2Isabelle.thy ===== *)
theory Spec2Isabelle
  imports Prelude Rust_Std MM Page_Alloc Riscv Sv39 Sv39_Tree Sv39_Map Sv39_Unmap User_Pgt VM
    VM_Space VM_Unmap Samples Memory_Props Task_State Task Task_Sched Task_Props
    Mmu UAccess Syscall Trap Copy_Loop Kernel_Inv User_Mem Kernel_Fault Kernel_Step Kernel_Copy Kernel_Calls
    Kernel_Sys Kernel_Sched Kernel_Trap System System_Run Sample_Machine System_Props Demand_Paging Call_Props
    Spin Apps Load_Root Load_Page Load_Segment Load_Space Boot
    Kernel_Map Kernel_Init Kernel_Layout Kernel_Start Boot_Props Log User_Lib User_Memory User_Props
begin

text \<open>
  A verification library for the kernel of a small operating system for 64-bit RISC-V, written in
  Rust with some assembly.  The kernel runs on one hart in supervisor mode, interrupts are off while
  it runs, and it never runs in the middle of itself except for the page faults that its copy loop
  takes on user addresses.  It gives each embedded application a task with an address space of its
  own, schedules the tasks with a timer, and serves six system calls.

  \<^bold>\<open>The parts and how they interact.\<close>  User programs trap (\<open>trap.S\<close>) into \<open>u_trap_handler\<close>, which
  serves system calls, repairs page faults, kills tasks or switches to another task.  The system
  calls work on the task list of \<open>task.rs\<close> and through it on the address space of the caller
  (\<open>vm.rs\<close>), which keeps areas and a page table (\<open>sv39.rs\<close>) whose pages come from the page allocator
  (\<open>page_alloc.rs\<close>).  Bytes travel between the kernel and a program through the loop of \<open>uaccess.S\<close>;
  a fault in it goes to \<open>k_trap_handler\<close>.  \<open>run_next_task\<close> picks the next ready task and switches the
  stack, the page table and the thread pointer; the return path restores the context that the task
  left on its own kernel stack.

  \<^bold>\<open>How code becomes definitions.\<close>  A function that may panic returns an option, \<open>None\<close> being the
  panic; a \<open>Result\<close> is a sum with the error on the left.  \<open>usize\<close> is a 64-bit word and arithmetic wraps,
  as in the release build that the Makefile makes.  Physical memory is a function from addresses
  to bytes, and page tables, trap contexts and user data are bytes in it.  State is passed
  explicitly: \<open>mm_state\<close> (memory, allocator, kernel table), \<open>kernel\<close> (the task list, the
  thread pointer, CSRs, the clock readings still to come, the console) and \<open>machine\<close> (the kernel
  state and the registers of the hart).  Dropping a value is an explicit call where Rust inserts it.
  What the program takes from elsewhere is a parameter: the ELF parser, the kernel heap, the
  addresses of linker symbols, the layout the compiler gives to \<open>TaskInfo\<close>, the readings of the clock.

  \<^bold>\<open>The theories.\<close>
  \<^item> \<open>Prelude\<close>: machine types, collections of rewrite rules, shared facts.  \<open>Rust_Std\<close>: the parts of
    \<open>core\<close> and \<open>alloc\<close> the kernel calls, with an interface of ordered maps that \<open>BTreeMap\<close> meets.
  \<^item> \<open>MM\<close> (\<open>mm.rs\<close>): constants, the linear mapping of physical memory, user address checks, words in
    memory.  \<open>Page_Alloc\<close> (\<open>page_alloc.rs\<close>): the allocator, the interface of a pool of pages that it
    meets, the invariant \<open>mm_inv\<close>.  \<open>Riscv\<close> (the \<open>riscv\<close> crate): CSR access.
  \<^item> \<open>Sv39\<close> (\<open>sv39.rs\<close>): entries and root tables over bytes.  \<open>Sv39_Tree\<close>: the tree behind a root and its
    mapping.  \<open>Sv39_Map\<close>, \<open>Sv39_Unmap\<close>: what \<open>map_create\<close> and \<open>unmap\<close> do to it.  \<open>User_Pgt\<close>: the half of a
    table that belongs to a user space.  \<open>Mmu\<close>: translation by the hardware, and that it agrees with
    the mapping of the kernel.
  \<^item> \<open>VM\<close> (\<open>vm.rs\<close>): kernel mapping, areas, spaces, ELF loading.  \<open>VM_Space\<close>, \<open>VM_Unmap\<close>: the
    invariant \<open>space_ok\<close> that ties areas, table and allocator together, the frame of each operation,
    and that each operation keeps them.  \<open>User_Mem\<close>: the abstract memory of a program, permissions
    and a byte for every address of a reserved page, which reads as zero before it has a frame; \<open>allows\<close>
    says what the permissions let the program do.  \<open>Demand_Paging\<close>: mappings, loads and stores on it.
  \<^item> \<open>Task_State\<close> (\<open>task/state.rs\<close>), \<open>Task\<close> (\<open>task.rs\<close>, \<open>timer.rs\<close>, \<open>switch.S\<close>), \<open>Task_Sched\<close>: control blocks,
    statistics, the scheduler.
  \<^item> \<open>UAccess\<close> (\<open>uaccess.rs\<close>, \<open>uaccess.S\<close>, \<open>ktrap.rs\<close>), \<open>Copy_Loop\<close>: the copy loop, as a partial
    function over its registers, and an interface of byte-wise accesses under which it is a counted
    loop, extended to accesses that leave an abstract memory alone but for what they store and fail
    only for a reason; \<open>Kernel_Copy\<close> shows that the accesses of both directions meet both.
  \<^item> \<open>Syscall\<close> (\<open>syscall.rs\<close> and its modules), \<open>Trap\<close> (\<open>trap.rs\<close>, \<open>utrap.rs\<close>, \<open>trap.S\<close>): system calls and
    traps.  \<open>Kernel_Inv\<close>, \<open>Kernel_Fault\<close>, \<open>Kernel_Step\<close>, \<open>Kernel_Calls\<close>, \<open>Kernel_Sys\<close>, \<open>Kernel_Sched\<close>,
    \<open>Kernel_Trap\<close>: the invariant of all tasks and that each piece of the trap path keeps it and
    touches only the task it works for.
  \<^item> \<open>System\<close>, \<open>System_Run\<close>: the machine with user programs on it, and its runs.
  \<^item> \<open>Spin\<close> (\<open>sync/spin.rs\<close>): the spin lock under all interleavings; it is what allows the other
    theories to treat a critical section as one step.
  \<^item> \<open>Apps\<close> (\<open>build.rs\<close>, \<open>task/apps.rs\<close>): the table of embedded applications, written and read.
  \<^item> \<open>Load_Root\<close>, \<open>Load_Page\<close>, \<open>Load_Segment\<close>, \<open>Load_Space\<close>: how \<open>new_user\<close> builds a space, from the copy of
    the kernel's root table over pages and segments to the stacks, against the specified image
    \<open>initial_memory\<close>.  \<open>Boot\<close>: \<open>start\<close> and \<open>add_task\<close>, up to the first task in user mode.
  \<^item> \<open>Kernel_Map\<close>, \<open>Kernel_Init\<close>, \<open>Kernel_Layout\<close>: the kernel's own table, small and large pages, as
    \<open>init_kernel_satp\<close> maps it, against the list of the regions of the image and the devices; an
    interface of page mappers under which both loops over a range are proved at once.
    \<open>Kernel_Start\<close> (\<open>mm::init\<close>, \<open>main.rs\<close>): the start of the kernel.
  \<^item> \<open>Log\<close> (\<open>console/log.rs\<close>): log levels and macros.
  \<^item> \<open>User_Lib\<close> (\<open>user/src/lib.rs\<close>, \<open>user/src/syscall.rs\<close>): the calls of the user library and a call's way through
    the trap path and back.  \<open>User_Memory\<close>: sequences of memory calls against a promise on the
    abstract memory.
  \<^item> \<open>Samples\<close>, \<open>Sample_Machine\<close>: concrete states that meet the invariants.  \<open>Memory_Props\<close>,
    \<open>Task_Props\<close>, \<open>Call_Props\<close>, \<open>System_Props\<close>, \<open>Boot_Props\<close>, \<open>User_Props\<close>: the properties.

  \<^bold>\<open>What the theorems show.\<close>  For whole runs of the machine: from the memory that the
  boot loader leaves, \<open>rust_main\<close> maps exactly the linear regions of the kernel, loads the programs and
  establishes the invariant; it holds in every state, no trap
  returns to a program in supervisor mode, tasks that take no step see nothing of the others, a task that was interrupted continues with the
  registers and the memory it had, and most traps are known to end with a task back in user mode, or
  in a shutdown when they end the last task that could run; the ones that stop the system are listed
  too.  For memory: page faults, \<open>mmap\<close> and \<open>munmap\<close> refine simple operations on the abstract memory of
  a program, whose permissions are specified by the protection bits of the call; a fault at an
  address that this memory grants is repaired while pages are left; no page has two owners, and what a task frees returns to the
  allocator; a new space holds the image of its program.  For copies and system calls: every outcome, errors
  included, in terms of the abstract memory before the call, a copy being refused only where its permissions say
  so or when the page allocator is down to its last page; and for \<open>mmap\<close>, \<open>munmap\<close> and \<open>write\<close> from the user library to its result.  For the scheduler, the
  page tables and the arithmetic: functional correctness and bounds.

  \<^bold>\<open>Termination and bounds.\<close>  No definition takes fuel.  Loops are structural recursions over the
  ranges the code iterates; the copy loop is a partial function into the option type, and that it
  returns is a theorem.  The hypotheses on \<open>platform_ok\<close> only say that the labels of \<open>uaccess.S\<close> are
  different kernel addresses and that a \<open>TaskInfo\<close> does not reach past the end of the address space.  Those on \<open>rust_main\<close> are
  the order and alignment that the linker script gives to the sections, 16 MiB of memory behind the
  image, and fewer than \<open>2 ^ 63\<close> programs whose segments lie below the stack.  Nothing is assumed of \<open>tp\<close>,
  which \<open>entry.S\<close> leaves as the firmware does: \<open>task_start\<close> panics where the load through it would trap,
  and the theorem says for which addresses.

  \<^bold>\<open>Not modelled.\<close>  The arguments of log messages and the text of panics, the stack trace, the entry
  code of user programs, \<open>entry.S\<close> with its boot table, the SBI firmware, the buddy allocator behind
  the kernel heap (a parameter that may fail), the kernel stack below the trap context, the TLB and
  \<open>sfence.vma\<close>, interrupts in the kernel and further harts (there are none), accessed and dirty bits.
  The registers that \<open>__switch\<close> saves are lost in the code as well, because the pointer it saves to
  refers to a block that has moved; every task resumes at the return path of the trap, and that is
  what the model does.
\<close>

end
